(* ===== verification/PalfPrelude.thy ===== *)
theory PalfPrelude
  imports Main "HOL-Library.Word"
begin

unbundle bit_operations_syntax

text \<open>
  Shared vocabulary of the development: the return codes of the C++ code, the machine
  integers it uses, and the generic facts on words, lists and intervals that the component
  theories share.

  An \<^verbatim>\<open>int\<close> return code is a value of \<open>ob_ret\<close>.  An operation that writes its object and
  its out-parameters returns the code together with the new object and the outputs, so that
  what an early return leaves behind is visible.  \<^verbatim>\<open>uint64_t\<close> values are \<open>64 word\<close> (addition
  and subtraction wrap, comparison is unsigned).  \<^verbatim>\<open>int64_t\<close> values whose overflow would be
  undefined behaviour are \<open>int\<close>; they are converted with \<open>word_of_int\<close> where C++ converts
  them to an unsigned operand.
\<close>

section \<open>Return codes\<close>

datatype ob_ret =
    OB_SUCCESS
  | OB_ERROR
  | OB_INIT_TWICE
  | OB_NOT_INIT
  | OB_INVALID_ARGUMENT
  | OB_INVALID_DATA
  | OB_ERR_UNEXPECTED
  | OB_ERR_OUT_OF_LOWER_BOUND
  | OB_ERR_OUT_OF_UPPER_BOUND
  | OB_STATE_NOT_MATCH
  | OB_EAGAIN
  | OB_SIZE_OVERFLOW
  | OB_DESERIALIZE_ERROR
  | OB_BUF_NOT_ENOUGH
  | OB_ENTRY_NOT_EXIST
  | OB_CHECKSUM_ERROR
  | OB_ALLOCATE_MEMORY_FAILED
  | OB_NOT_SUPPORTED
  | OB_NOT_MASTER
  | OB_ELECTION_BELOW_MAJORITY
  | OB_ELECTION_OVER_MAJORITY
  | OB_OP_NOT_ALLOW
  | OB_TIMEOUT
  | OB_ARRAY_OUT_OF_RANGE
  | OB_ENTRY_EXIST
  | OB_EMPTY_RESULT
  | OB_NOT_RUNNING
  | OB_ITEM_NOT_MATCH
  | OB_ERROR_OUT_OF_RANGE

type_synonym u8 = "8 word"
type_synonym u16 = "16 word"
type_synonym u32 = "32 word"
type_synonym u64 = "64 word"
type_synonym bytes = "u8 list"

section \<open>Shared lemma collections\<close>

named_theorems palf_const \<open>numeric values of the constants of the source\<close>
named_theorems uint_arith_simps \<open>unsigned arithmetic of words that does not wrap\<close>

section \<open>Words as integers\<close>

lemma sint_eq_iff: "sint a = sint b \<longleftrightarrow> a = (b :: 'a::len word)"
  by (metis scast_eq scast_id)

lemma uint_lt64 [simp]: "uint (a :: u64) < 18446744073709551616"
  using uint_bounded [of a] by simp

lemma uint_add_nowrap:
  fixes a b :: u64
  assumes "uint a + uint b < 18446744073709551616"
  shows "uint (a + b) = uint a + uint b"
  using assms by (simp add: uint_word_ariths)

lemma uint_sub_nowrap:
  fixes a b :: u64
  assumes "uint b \<le> uint a"
  shows "uint (a - b) = uint a - uint b"
proof -
  have "uint a - uint b < 18446744073709551616"
    using uint_lt64 [of a] uint_ge_0 [of b] by linarith
  with assms show ?thesis by (simp add: uint_word_ariths)
qed

lemma uint_of_int_u64:
  assumes "0 \<le> n" and "n < 18446744073709551616"
  shows "uint (word_of_int n :: u64) = n"
  using assms by (simp add: uint_word_of_int)

lemma uint_mult_nowrap:
  fixes a b :: u64
  assumes "uint a * uint b < 18446744073709551616"
  shows "uint (a * b) = uint a * uint b"
  using assms by (simp add: uint_word_ariths)

lemma uint_max_u64 [simp]: "uint (max a b :: u64) = max (uint a) (uint b)"
  by (simp add: max_def word_le_def)

lemma uint_min_u64 [simp]: "uint (min a b :: u64) = min (uint a) (uint b)"
  by (simp add: min_def word_le_def)

lemma uint_ucast_up:
  fixes w :: "'a::len word"
  assumes "LENGTH('a) \<le> LENGTH('b::len)"
  shows "uint (ucast w :: 'b word) = uint w"
proof -
  have "uint w < 2 ^ LENGTH('a)" by (rule uint_lt2p)
  also have "(2::int) ^ LENGTH('a) \<le> 2 ^ LENGTH('b)" using assms by simp
  finally show ?thesis
    by (simp add: uint_up_ucast is_up is_up_def source_size_def target_size_def word_size assms)
qed

lemma uint_and_mask: "uint (a AND mask n :: u64) = uint a mod 2 ^ n"
  by (simp add: take_bit_eq_mask [symmetric] unsigned_take_bit_eq take_bit_int_def)

lemma uint_minus_one [simp]:
  fixes w :: "'a::len word"
  shows "- 1 < uint w" "- 1 \<le> uint w" "\<not> uint w < - 1" "\<not> uint w \<le> - 1"
  using uint_ge_0 [of w] by linarith+

lemma sint_u64_small: "uint (w :: u64) < 9223372036854775808 \<Longrightarrow> sint w = uint w"
  using signed_take_bit_int_eq_self [of 63 "uint w"] uint_ge_0 [of w] by (simp add: sint_uint)

lemma uint_ucast_small:
  fixes w :: "'a::len word"
  assumes "uint w < 2 ^ LENGTH('b::len)"
  shows "uint (ucast w :: 'b word) = uint w"
  using assms by (simp add: unsigned_ucast_eq take_bit_int_eq_self)

text \<open>A small unsigned difference of two values below \<open>2^62\<close> did not wrap.\<close>

lemma uint_sub_small:
  fixes a b :: u64
  assumes "uint (a - b) < 4611686018427387904" "uint b < 4611686018427387904"
  shows "uint b \<le> uint a \<and> uint (a - b) = uint a - uint b"
proof (cases "uint b \<le> uint a")
  case True
  then show ?thesis by (simp add: uint_sub_nowrap)
next
  case False
  then have "uint (a - b) = (uint a - uint b + 18446744073709551616) mod 18446744073709551616"
    by (simp add: uint_word_ariths)
  also have "\<dots> = uint a - uint b + 18446744073709551616"
    using False assms(2) uint_ge_0 [of a] by (intro mod_pos_pos_trivial) linarith+
  finally show ?thesis using assms uint_ge_0 [of a] by linarith
qed

end
