(* ===== verification/Serialization.thy ===== *)
theory Serialization
  imports PalfPrelude
begin

text \<open>
  The primitive codecs of \<^verbatim>\<open>deps/oblib/src/lib/utility/serialization.h\<close> that the log headers,
  the SCN and the LSN are written with: fixed-width big-endian integers, booleans, and the
  base-128 variable-length integers.

  A buffer argument \<^verbatim>\<open>char *buf\<close> is a \<open>bytes option\<close> (\<open>None\<close> is the null pointer), the list
  being the memory behind the pointer; \<^verbatim>\<open>buf_len\<close> and \<^verbatim>\<open>pos\<close> are naturals.  An encoder returns
  the return code, the memory and the position it leaves behind.  The fixed-width decoders
  return \<open>Inl\<close> the code or \<open>Inr\<close> the value with the new position.  The variable-length decoders
  read memory before they check the remaining length, so their result is an option: \<open>None\<close>
  is undefined behaviour (a read outside the memory, a null dereference, or a shift by at
  least the width of the type).

  The locale \<open>byte_codec\<close> is the contract the header formats rely on; it is interpreted for
  every fixed-width codec.
\<close>

type_synonym buffer = "bytes option"
type_synonym enc_result = "ob_ret \<times> buffer \<times> nat"
type_synonym 'a dec_result = "ob_ret + ('a \<times> nat)"

section \<open>Fixed-width integers\<close>

definition has_room :: "nat \<Rightarrow> nat \<Rightarrow> nat \<Rightarrow> bool" where
  "has_room buf_len pos n \<longleftrightarrow> int buf_len - int pos \<ge> int n"

definition be_byte :: "nat \<Rightarrow> 'a::len word \<Rightarrow> u8" where
  \<comment> \<open>\<^verbatim>\<open>static_cast<char>((val >> n) & 0xff)\<close>; under the mask the arithmetic and the logical
      shift give the same byte\<close>
  "be_byte n v = ucast (drop_bit n v AND 255)"

definition encode_i8 :: "buffer \<Rightarrow> nat \<Rightarrow> nat \<Rightarrow> u8 \<Rightarrow> enc_result" where
  "encode_i8 buf buf_len pos val =
     (case buf of
        None \<Rightarrow> (OB_SIZE_OVERFLOW, buf, pos)
      | Some b \<Rightarrow>
          if has_room buf_len pos 1 then (OB_SUCCESS, Some (b[pos := val]), pos + 1)
          else (OB_SIZE_OVERFLOW, buf, pos))"

definition decode_i8 :: "buffer \<Rightarrow> nat \<Rightarrow> nat \<Rightarrow> u8 dec_result" where
  "decode_i8 buf data_len pos =
     (case buf of
        None \<Rightarrow> Inl OB_DESERIALIZE_ERROR
      | Some b \<Rightarrow>
          if has_room data_len pos 1 then Inr (b ! pos, pos + 1)
          else Inl OB_DESERIALIZE_ERROR)"

definition encode_i16 :: "buffer \<Rightarrow> nat \<Rightarrow> nat \<Rightarrow> u16 \<Rightarrow> enc_result" where
  "encode_i16 buf buf_len pos val =
     (case buf of
        None \<Rightarrow> (OB_SIZE_OVERFLOW, buf, pos)
      | Some b \<Rightarrow>
          if has_room buf_len pos 2
          then (OB_SUCCESS, Some (b[pos := be_byte 8 val, pos + 1 := be_byte 0 val]), pos + 2)
          else (OB_SIZE_OVERFLOW, buf, pos))"

definition decode_i16 :: "buffer \<Rightarrow> nat \<Rightarrow> nat \<Rightarrow> u16 dec_result" where
  "decode_i16 buf data_len pos =
     (case buf of
        None \<Rightarrow> Inl OB_DESERIALIZE_ERROR
      | Some b \<Rightarrow>
          if has_room data_len pos 2
          then Inr (push_bit 8 (ucast (b ! pos)) OR push_bit 0 (ucast (b ! (pos + 1))), pos + 2)
          else Inl OB_DESERIALIZE_ERROR)"

definition encode_i32 :: "buffer \<Rightarrow> nat \<Rightarrow> nat \<Rightarrow> u32 \<Rightarrow> enc_result" where
  "encode_i32 buf buf_len pos val =
     (case buf of
        None \<Rightarrow> (OB_SIZE_OVERFLOW, buf, pos)
      | Some b \<Rightarrow>
          if has_room buf_len pos 4
          then (OB_SUCCESS,
                Some (b[pos := be_byte 24 val, pos + 1 := be_byte 16 val,
                        pos + 2 := be_byte 8 val, pos + 3 := be_byte 0 val]), pos + 4)
          else (OB_SIZE_OVERFLOW, buf, pos))"

definition decode_i32 :: "buffer \<Rightarrow> nat \<Rightarrow> nat \<Rightarrow> u32 dec_result" where
  "decode_i32 buf data_len pos =
     (case buf of
        None \<Rightarrow> Inl OB_DESERIALIZE_ERROR
      | Some b \<Rightarrow>
          if has_room data_len pos 4
          then Inr (push_bit 24 (ucast (b ! pos)) OR push_bit 16 (ucast (b ! (pos + 1)))
                    OR push_bit 8 (ucast (b ! (pos + 2))) OR push_bit 0 (ucast (b ! (pos + 3))),
                    pos + 4)
          else Inl OB_DESERIALIZE_ERROR)"

definition encode_i64 :: "buffer \<Rightarrow> nat \<Rightarrow> nat \<Rightarrow> u64 \<Rightarrow> enc_result" where
  "encode_i64 buf buf_len pos val =
     (case buf of
        None \<Rightarrow> (OB_SIZE_OVERFLOW, buf, pos)
      | Some b \<Rightarrow>
          if has_room buf_len pos 8
          then (OB_SUCCESS,
                Some (b[pos := be_byte 56 val, pos + 1 := be_byte 48 val,
                        pos + 2 := be_byte 40 val, pos + 3 := be_byte 32 val,
                        pos + 4 := be_byte 24 val, pos + 5 := be_byte 16 val,
                        pos + 6 := be_byte 8 val, pos + 7 := be_byte 0 val]), pos + 8)
          else (OB_SIZE_OVERFLOW, buf, pos))"

definition decode_i64 :: "buffer \<Rightarrow> nat \<Rightarrow> nat \<Rightarrow> u64 dec_result" where
  "decode_i64 buf data_len pos =
     (case buf of
        None \<Rightarrow> Inl OB_DESERIALIZE_ERROR
      | Some b \<Rightarrow>
          if has_room data_len pos 8
          then Inr (push_bit 56 (ucast (b ! pos)) OR push_bit 48 (ucast (b ! (pos + 1)))
                    OR push_bit 40 (ucast (b ! (pos + 2))) OR push_bit 32 (ucast (b ! (pos + 3)))
                    OR push_bit 24 (ucast (b ! (pos + 4))) OR push_bit 16 (ucast (b ! (pos + 5)))
                    OR push_bit 8 (ucast (b ! (pos + 6))) OR push_bit 0 (ucast (b ! (pos + 7))),
                    pos + 8)
          else Inl OB_DESERIALIZE_ERROR)"

definition encode_bool :: "buffer \<Rightarrow> nat \<Rightarrow> nat \<Rightarrow> bool \<Rightarrow> enc_result" where
  "encode_bool buf buf_len pos val =
     (case buf of
        None \<Rightarrow> (OB_SIZE_OVERFLOW, buf, pos)
      | Some b \<Rightarrow>
          if has_room buf_len pos 1
          then (OB_SUCCESS, Some (b[pos := (if val then 1 else 0)]), pos + 1)
          else (OB_SIZE_OVERFLOW, buf, pos))"

definition decode_bool :: "buffer \<Rightarrow> nat \<Rightarrow> nat \<Rightarrow> bool dec_result" where
  "decode_bool buf buf_len pos =
     (case decode_i8 buf buf_len pos of
        Inl ret \<Rightarrow> Inl ret
      | Inr (v, pos') \<Rightarrow> Inr (v \<noteq> 0, pos'))"

section \<open>Variable-length integers\<close>

definition encoded_length_vi64 :: "u64 \<Rightarrow> nat" where
  "encoded_length_vi64 v =
     (if v \<le> 0x7f then 1 else if v \<le> 0x3fff then 2 else if v \<le> 0x1fffff then 3
      else if v \<le> 0xfffffff then 4 else if v \<le> 0x7ffffffff then 5
      else if v \<le> 0x3ffffffffff then 6 else if v \<le> 0x1ffffffffffff then 7
      else if v \<le> 0xffffffffffffff then 8 else if v \<le> 0x7fffffffffffffff then 9 else 10)"

definition encoded_length_vi32 :: "u32 \<Rightarrow> nat" where
  "encoded_length_vi32 v =
     (if v \<le> 0x7f then 1 else if v \<le> 0x3fff then 2 else if v \<le> 0x1fffff then 3
      else if v \<le> 0xfffffff then 4 else 5)"

lemma drop_bit_7_less:
  fixes v :: "'a::len word"
  assumes "127 < v"
  shows "unat (drop_bit 7 v) < unat v"
proof -
  have "0 < unat v"
    using assms by (metis bot_nat_0.not_eq_extremum gr_implies_not_zero unat_0_iff word_less_nat_alt)
  then show ?thesis by (simp add: unat_drop_bit_eq drop_bit_nat_def)
qed

text \<open>The write loop of \<^verbatim>\<open>encode_vi64\<close> and \<^verbatim>\<open>encode_vi32\<close> (the two differ in the width of
  \<^verbatim>\<open>__v\<close> only).\<close>

function encode_vi_loop :: "bytes \<Rightarrow> nat \<Rightarrow> 'a::len word \<Rightarrow> bytes \<times> nat" where
  "encode_vi_loop b pos v =
     (if 127 < v
      then encode_vi_loop (b[pos := ucast (v OR 128)]) (pos + 1) (drop_bit 7 v)
      else (b[pos := ucast (v AND 127)], pos + 1))"
  by pat_completeness auto
termination
  by (relation "measure (\<lambda>(b, pos, v). unat v)") (auto simp: drop_bit_7_less)

declare encode_vi_loop.simps [simp del]

definition encode_vi64 :: "buffer \<Rightarrow> nat \<Rightarrow> nat \<Rightarrow> u64 \<Rightarrow> enc_result" where
  "encode_vi64 buf buf_len pos val =
     (case buf of
        None \<Rightarrow> (OB_SIZE_OVERFLOW, buf, pos)
      | Some b \<Rightarrow>
          if has_room buf_len pos (encoded_length_vi64 val)
          then (let (b', pos') = encode_vi_loop b pos val in (OB_SUCCESS, Some b', pos'))
          else (OB_SIZE_OVERFLOW, buf, pos))"

definition encode_vi32 :: "buffer \<Rightarrow> nat \<Rightarrow> nat \<Rightarrow> u32 \<Rightarrow> enc_result" where
  "encode_vi32 buf buf_len pos val =
     (case buf of
        None \<Rightarrow> (OB_SIZE_OVERFLOW, buf, pos)
      | Some b \<Rightarrow>
          if has_room buf_len pos (encoded_length_vi32 val)
          then (let (b', pos') = encode_vi_loop b pos val in (OB_SUCCESS, Some b', pos'))
          else (OB_SIZE_OVERFLOW, buf, pos))"

fun encode_fixed_loop :: "nat \<Rightarrow> bytes \<Rightarrow> nat \<Rightarrow> u64 \<Rightarrow> bytes \<times> nat" where
  \<comment> \<open>the first argument is \<^verbatim>\<open>n\<close> after \<^verbatim>\<open>n--\<close>\<close>
  "encode_fixed_loop (Suc n) b pos v =
     encode_fixed_loop n (b[pos := ucast (v OR 128)]) (pos + 1) (drop_bit 7 v)"
| "encode_fixed_loop 0 b pos v = (b[pos := ucast (v AND 127)], pos + 1)"

definition encode_fixed_bytes_i64 :: "buffer \<Rightarrow> nat \<Rightarrow> nat \<Rightarrow> u64 \<Rightarrow> enc_result" where
  "encode_fixed_bytes_i64 buf buf_len pos val =
     (case buf of
        None \<Rightarrow> (OB_SIZE_OVERFLOW, buf, pos)
      | Some b \<Rightarrow>
          if has_room buf_len pos 5
          then (let (b', pos') = encode_fixed_loop 4 b pos val in (OB_SUCCESS, Some b', pos'))
          else (OB_SIZE_OVERFLOW, buf, pos))"

text \<open>The read loop of \<^verbatim>\<open>decode_vi64\<close> and \<^verbatim>\<open>decode_vi32\<close>: the byte at \<^verbatim>\<open>tmp_pos\<close> is read for
  its continuation bit before \<^verbatim>\<open>data_len - tmp_pos\<close> is checked.\<close>

function decode_vi_loop ::
  "bytes \<Rightarrow> nat \<Rightarrow> nat \<Rightarrow> 'a::len word \<Rightarrow> nat \<Rightarrow> 'a word dec_result option" where
  "decode_vi_loop b data_len tmp_pos v shift =
     (if length b \<le> tmp_pos then None
      else if b ! tmp_pos AND 128 \<noteq> 0 then
        (if \<not> has_room data_len tmp_pos 1 then Some (Inl OB_DESERIALIZE_ERROR)
         else if LENGTH('a) \<le> shift then None
         else decode_vi_loop b data_len (tmp_pos + 1)
                (v OR push_bit shift (ucast (b ! tmp_pos) AND 127)) (shift + 7))
      else if \<not> has_room data_len tmp_pos 1 then Some (Inl OB_DESERIALIZE_ERROR)
      else if LENGTH('a) \<le> shift then None
      else Some (Inr (v OR push_bit shift (ucast (b ! tmp_pos) AND 127), tmp_pos + 1)))"
  by pat_completeness auto
termination
  by (relation "measure (\<lambda>(b, data_len, tmp_pos, v, shift). length b - tmp_pos)") auto

declare decode_vi_loop.simps [simp del]

definition decode_vi64 :: "buffer \<Rightarrow> nat \<Rightarrow> nat \<Rightarrow> u64 dec_result option" where
  "decode_vi64 buf data_len pos =
     (case buf of None \<Rightarrow> None | Some b \<Rightarrow> decode_vi_loop b data_len pos 0 0)"

definition decode_vi32 :: "buffer \<Rightarrow> nat \<Rightarrow> nat \<Rightarrow> u32 dec_result option" where
  "decode_vi32 buf data_len pos =
     (case buf of None \<Rightarrow> None | Some b \<Rightarrow> decode_vi_loop b data_len pos 0 0)"


section \<open>Writing a run of bytes\<close>

definition splice_at :: "bytes \<Rightarrow> nat \<Rightarrow> bytes \<Rightarrow> bytes" where
  "splice_at b pos bs = take pos b @ bs @ drop (pos + length bs) b"

lemma length_splice_at [simp]:
  "pos + length bs \<le> length b \<Longrightarrow> length (splice_at b pos bs) = length b"
  by (simp add: splice_at_def)

lemma splice_at_single: "pos < length b \<Longrightarrow> b[pos := x] = splice_at b pos [x]"
  by (simp add: splice_at_def upd_conv_take_nth_drop)

lemma splice_at_append:
  "pos + length xs + length ys \<le> length b \<Longrightarrow>
   splice_at (splice_at b pos xs) (pos + length xs) ys = splice_at b pos (xs @ ys)"
  by (simp add: splice_at_def ac_simps)

lemma splice_at_snoc:
  "i = pos + length xs \<Longrightarrow> i < length b \<Longrightarrow>
   (splice_at b pos xs)[i := y] = splice_at b pos (xs @ [y])"
  by (simp add: splice_at_single [of "pos + length xs"] splice_at_append)

lemma take_drop_splice_at:
  "pos + length bs \<le> length b \<Longrightarrow> take (length bs) (drop pos (splice_at b pos bs)) = bs"
  by (simp add: splice_at_def)

lemma nth_splice_at:
  "pos + length bs \<le> length b \<Longrightarrow> i < length b \<Longrightarrow>
   splice_at b pos bs ! i = (if pos \<le> i \<and> i < pos + length bs then bs ! (i - pos) else b ! i)"
  by (auto simp: splice_at_def nth_append min_def)

lemma take_drop_splice_at_inner:
  "off + w \<le> length bs \<Longrightarrow> pos + length bs \<le> length b \<Longrightarrow>
   take w (drop (pos + off) (splice_at b pos bs)) = take w (drop off bs)"
  by (simp add: splice_at_def)

lemma splice_at_updates2:
  "pos + 2 \<le> length b \<Longrightarrow> b[pos := x0, pos + 1 := x1] = splice_at b pos [x0, x1]"
  by (simp add: splice_at_single [of pos] splice_at_snoc)

lemma splice_at_updates4:
  "pos + 4 \<le> length b \<Longrightarrow>
   b[pos := x0, pos + 1 := x1, pos + 2 := x2, pos + 3 := x3] = splice_at b pos [x0, x1, x2, x3]"
  by (simp add: splice_at_single [of pos] splice_at_snoc)

lemma splice_at_updates8:
  "pos + 8 \<le> length b \<Longrightarrow>
   b[pos := x0, pos + 1 := x1, pos + 2 := x2, pos + 3 := x3,
     pos + 4 := x4, pos + 5 := x5, pos + 6 := x6, pos + 7 := x7]
   = splice_at b pos [x0, x1, x2, x3, x4, x5, x6, x7]"
  by (simp add: splice_at_single [of pos] splice_at_snoc)

section \<open>Splitting a word into bytes and putting it together\<close>

lemma bit_be_byte: "bit (be_byte n v) k \<longleftrightarrow> k < 8 \<and> bit v (n + k)"
  for v :: "'a::len word"
proof -
  have "bit (255 :: 'a word) k \<longleftrightarrow> k < 8 \<and> k < LENGTH('a)"
  proof -
    have "(255 :: 'a word) = mask 8" by (simp add: mask_eq_exp_minus_1)
    then show ?thesis by (simp only: bit_mask_iff) auto
  qed
  then show ?thesis
    by (auto simp: be_byte_def bit_simps dest: bit_imp_le_length)
qed

lemma be_byte_step:
  fixes v :: "'a::len word"
  shows "push_bit (n + 8) (drop_bit (n + 8) v) OR push_bit n (ucast (be_byte n v))
    = push_bit n (drop_bit n v)"
proof (rule bit_word_eqI)
  fix k assume "k < LENGTH('a)"
  then show "bit (push_bit (n + 8) (drop_bit (n + 8) v) OR push_bit n (ucast (be_byte n v))) k
      = bit (push_bit n (drop_bit n v)) k"
    by (cases "n + 8 \<le> k") (auto simp: bit_simps bit_be_byte)
qed

lemma be_byte_top:
  fixes v :: "'a::len word"
  assumes "LENGTH('a) = n + 8"
  shows "push_bit n (ucast (be_byte n v)) = push_bit n (drop_bit n v)"
  by (rule bit_word_eqI) (use assms in \<open>auto simp: bit_simps bit_be_byte\<close>)

definition of_be16 :: "bytes \<Rightarrow> u16" where
  "of_be16 bs = push_bit 8 (ucast (bs ! 0)) OR push_bit 0 (ucast (bs ! 1))"

definition of_be32 :: "bytes \<Rightarrow> u32" where
  "of_be32 bs = push_bit 24 (ucast (bs ! 0)) OR push_bit 16 (ucast (bs ! 1))
     OR push_bit 8 (ucast (bs ! 2)) OR push_bit 0 (ucast (bs ! 3))"

definition of_be64 :: "bytes \<Rightarrow> u64" where
  "of_be64 bs = push_bit 56 (ucast (bs ! 0)) OR push_bit 48 (ucast (bs ! 1))
     OR push_bit 40 (ucast (bs ! 2)) OR push_bit 32 (ucast (bs ! 3))
     OR push_bit 24 (ucast (bs ! 4)) OR push_bit 16 (ucast (bs ! 5))
     OR push_bit 8 (ucast (bs ! 6)) OR push_bit 0 (ucast (bs ! 7))"

definition be16 :: "u16 \<Rightarrow> bytes" where
  "be16 v = [be_byte 8 v, be_byte 0 v]"

definition be32 :: "u32 \<Rightarrow> bytes" where
  "be32 v = [be_byte 24 v, be_byte 16 v, be_byte 8 v, be_byte 0 v]"

definition be64 :: "u64 \<Rightarrow> bytes" where
  "be64 v = [be_byte 56 v, be_byte 48 v, be_byte 40 v, be_byte 32 v,
             be_byte 24 v, be_byte 16 v, be_byte 8 v, be_byte 0 v]"

lemma of_be16_be16: "of_be16 (be16 v) = v"
  using be_byte_step [of 0 v] by (simp add: of_be16_def be16_def be_byte_top)

lemma of_be32_be32: "of_be32 (be32 v) = v"
  using be_byte_step [of 16 v] be_byte_step [of 8 v] be_byte_step [of 0 v]
  by (simp add: of_be32_def be32_def be_byte_top or.assoc [symmetric])

lemma of_be64_be64: "of_be64 (be64 v) = v"
  using be_byte_step [of 48 v] be_byte_step [of 40 v] be_byte_step [of 32 v]
    be_byte_step [of 24 v] be_byte_step [of 16 v] be_byte_step [of 8 v] be_byte_step [of 0 v]
  by (simp add: of_be64_def be64_def be_byte_top or.assoc [symmetric])

section \<open>The contract of a fixed-width codec\<close>

locale byte_codec =
  fixes enc :: "buffer \<Rightarrow> nat \<Rightarrow> nat \<Rightarrow> 'a \<Rightarrow> enc_result"
    and dec :: "buffer \<Rightarrow> nat \<Rightarrow> nat \<Rightarrow> 'a dec_result"
    and width :: nat
    and to_bytes :: "'a \<Rightarrow> bytes"
    and of_bytes :: "bytes \<Rightarrow> 'a"
  assumes length_to_bytes: "length (to_bytes v) = width"
    and of_to_bytes: "of_bytes (to_bytes v) = v"
    and enc_room: "p + width \<le> n \<Longrightarrow> n \<le> length b \<Longrightarrow>
          enc (Some b) n p v = (OB_SUCCESS, Some (splice_at b p (to_bytes v)), p + width)"
    and enc_full: "n < p + width \<Longrightarrow>
          \<exists>ret. ret \<noteq> OB_SUCCESS \<and> enc (Some b) n p v = (ret, Some b, p)"
    and enc_null: "\<exists>ret. ret \<noteq> OB_SUCCESS \<and> enc None n p v = (ret, None, p)"
    and dec_room: "p + width \<le> n \<Longrightarrow> n \<le> length b \<Longrightarrow>
          dec (Some b) n p = Inr (of_bytes (take width (drop p b)), p + width)"
    and dec_full: "n < p + width \<Longrightarrow> \<exists>ret. dec (Some b) n p = Inl ret"
begin

lemma enc_success_iff:
  assumes "n \<le> length b"
  shows "fst (enc (Some b) n p v) = OB_SUCCESS \<longleftrightarrow> p + width \<le> n"
  using enc_room [OF _ assms] enc_full by (metis fst_conv not_le)

lemma roundtrip:
  assumes "enc (Some b) n p v = (OB_SUCCESS, b', p')" and "n \<le> length b"
  shows "dec b' n p = Inr (v, p')"
proof -
  have fits: "p + width \<le> n"
    using assms enc_success_iff by (metis fst_conv)
  then have b': "b' = Some (splice_at b p (to_bytes v))" and p': "p' = p + width"
    using assms enc_room by auto
  have "take width (drop p (splice_at b p (to_bytes v))) = to_bytes v"
    using fits assms(2) take_drop_splice_at [of p "to_bytes v" b] by (simp add: length_to_bytes)
  then show ?thesis
    using fits assms(2) by (simp add: b' p' dec_room length_to_bytes of_to_bytes)
qed

lemma enc_frame:
  assumes "enc (Some b) n p v = (OB_SUCCESS, Some b', p')" and "n \<le> length b"
  shows "length b' = length b \<and> (\<forall>i < length b. i < p \<or> p' \<le> i \<longrightarrow> b' ! i = b ! i)"
proof -
  have fits: "p + width \<le> n"
    using assms enc_success_iff by (metis fst_conv)
  then have "b' = splice_at b p (to_bytes v)" and "p' = p + width"
    using assms enc_room by auto
  then show ?thesis
    using fits assms(2) by (auto simp: length_to_bytes nth_splice_at)
qed

end


subsection \<open>Every fixed-width codec meets the contract\<close>

lemma has_room_iff [simp]: "has_room n p w \<longleftrightarrow> p + w \<le> n"
  by (auto simp: has_room_def)

lemma nth_take_drop:
  "i < w \<Longrightarrow> p + w \<le> length b \<Longrightarrow> take w (drop p b) ! i = b ! (p + i)"
  by simp

interpretation i8: byte_codec encode_i8 decode_i8 1 "\<lambda>v. [v]" "\<lambda>bs. bs ! 0"
  by unfold_locales
    (auto simp: encode_i8_def decode_i8_def splice_at_single)

interpretation i16: byte_codec encode_i16 decode_i16 2 be16 of_be16
proof unfold_locales
  show "of_be16 (be16 v) = v" for v by (rule of_be16_be16)
  show "p + 2 \<le> n \<Longrightarrow> n \<le> length b \<Longrightarrow>
      encode_i16 (Some b) n p v = (OB_SUCCESS, Some (splice_at b p (be16 v)), p + 2)" for p n b v
    using splice_at_updates2 [of p b] by (simp add: encode_i16_def be16_def)
  show "p + 2 \<le> n \<Longrightarrow> n \<le> length b \<Longrightarrow>
      decode_i16 (Some b) n p = Inr (of_be16 (take 2 (drop p b)), p + 2)" for p n b
    by (simp add: decode_i16_def of_be16_def nth_take_drop)
qed (auto simp: be16_def encode_i16_def decode_i16_def)

interpretation i32: byte_codec encode_i32 decode_i32 4 be32 of_be32
proof unfold_locales
  show "of_be32 (be32 v) = v" for v by (rule of_be32_be32)
  show "p + 4 \<le> n \<Longrightarrow> n \<le> length b \<Longrightarrow>
      encode_i32 (Some b) n p v = (OB_SUCCESS, Some (splice_at b p (be32 v)), p + 4)" for p n b v
    using splice_at_updates4 [of p b] by (simp add: encode_i32_def be32_def)
  show "p + 4 \<le> n \<Longrightarrow> n \<le> length b \<Longrightarrow>
      decode_i32 (Some b) n p = Inr (of_be32 (take 4 (drop p b)), p + 4)" for p n b
    by (simp add: decode_i32_def of_be32_def nth_take_drop)
qed (auto simp: be32_def encode_i32_def decode_i32_def)

interpretation i64: byte_codec encode_i64 decode_i64 8 be64 of_be64
proof unfold_locales
  show "of_be64 (be64 v) = v" for v by (rule of_be64_be64)
  show "p + 8 \<le> n \<Longrightarrow> n \<le> length b \<Longrightarrow>
      encode_i64 (Some b) n p v = (OB_SUCCESS, Some (splice_at b p (be64 v)), p + 8)" for p n b v
    using splice_at_updates8 [of p b] by (simp add: encode_i64_def be64_def)
  show "p + 8 \<le> n \<Longrightarrow> n \<le> length b \<Longrightarrow>
      decode_i64 (Some b) n p = Inr (of_be64 (take 8 (drop p b)), p + 8)" for p n b
    by (simp add: decode_i64_def of_be64_def nth_take_drop)
qed (auto simp: be64_def encode_i64_def decode_i64_def)

interpretation ibool: byte_codec encode_bool decode_bool 1
  "\<lambda>v. [if v then 1 else 0]" "\<lambda>bs. bs ! 0 \<noteq> 0"
  by unfold_locales
    (auto simp: encode_bool_def decode_bool_def decode_i8_def splice_at_single)


section \<open>Variable-length integers: bytes written and read back\<close>

function vi_bytes :: "'a::len word \<Rightarrow> bytes" where
  "vi_bytes v =
     (if 127 < v then ucast (v OR 128) # vi_bytes (drop_bit 7 v) else [ucast (v AND 127)])"
  by pat_completeness auto
termination
  by (relation "measure unat") (auto simp: drop_bit_7_less)

declare vi_bytes.simps [simp del]

lemma vi_bytes_nonempty: "vi_bytes v \<noteq> []"
  by (simp add: vi_bytes.simps [of v])

lemma splice_at_update_first:
  "pos + length (x # ys) \<le> length b \<Longrightarrow>
   splice_at (b[pos := x]) (Suc pos) ys = splice_at b pos (x # ys)"
  using splice_at_append [of pos "[x]" ys b] by (simp add: splice_at_single)

lemma encode_vi_loop_eq:
  "pos + length (vi_bytes v) \<le> length b \<Longrightarrow>
   encode_vi_loop b pos v = (splice_at b pos (vi_bytes v), pos + length (vi_bytes v))"
proof (induction b pos v rule: encode_vi_loop.induct)
  case (1 b pos v)
  show ?case
  proof (cases "127 < v")
    case True
    then have bytes: "vi_bytes v = ucast (v OR 128) # vi_bytes (drop_bit 7 v)"
      by (simp add: vi_bytes.simps [of v])
    with 1 True show ?thesis
      by (simp add: encode_vi_loop.simps [of b pos v] splice_at_update_first)
  next
    case False
    with 1 show ?thesis
      by (simp add: encode_vi_loop.simps [of b pos v] vi_bytes.simps [of v] splice_at_single)
  qed
qed

lemma less_127_iff:
  fixes v :: "'a::len word"
  assumes "8 \<le> LENGTH('a)"
  shows "127 < v \<longleftrightarrow> 127 < unat v"
proof -
  have "(2::nat) ^ 8 \<le> 2 ^ LENGTH('a)" using assms by (intro power_increasing) auto
  then have "unat (127 :: 'a word) = 127" by (simp add: unat_numeral take_bit_nat_eq_self)
  then show ?thesis by (simp add: word_less_nat_alt)
qed

lemma vi_bytes_length_le:
  fixes v :: "'a::len word"
  assumes "8 \<le> LENGTH('a)"
  shows "length (vi_bytes v) \<le> Suc k \<longleftrightarrow> unat v < 128 ^ Suc k"
proof (induction k arbitrary: v)
  case 0
  show ?case
    by (cases "127 < v")
      (auto simp: vi_bytes.simps [of v] vi_bytes_nonempty less_127_iff [OF assms])
next
  case (Suc k)
  show ?case
  proof (cases "127 < v")
    case True
    then have "length (vi_bytes v) \<le> Suc (Suc k) \<longleftrightarrow> unat v div 128 < 128 ^ Suc k"
      using Suc.IH [of "drop_bit 7 v"]
      by (simp add: vi_bytes.simps [of v] unat_drop_bit_eq drop_bit_nat_def)
    then show ?thesis by (simp add: div_less_iff_less_mult mult.commute)
  next
    case False
    have "unat v < 128" using False by (simp add: less_127_iff [OF assms])
    also have "(128::nat) \<le> 128 ^ Suc (Suc k)" by simp
    finally show ?thesis using False by (simp add: vi_bytes.simps [of v])
  qed
qed

lemma length_vi_bytes_eqI:
  fixes v :: "'a::len word"
  assumes "8 \<le> LENGTH('a)" and "unat v < 128 ^ Suc (Suc k)" and "128 ^ Suc k \<le> unat v"
  shows "length (vi_bytes v) = Suc (Suc k)"
  using vi_bytes_length_le [OF assms(1), of v "Suc k"] vi_bytes_length_le [OF assms(1), of v k] assms(2,3)
  by linarith

lemma length_vi_bytes_small:
  fixes v :: "'a::len word"
  assumes "8 \<le> LENGTH('a)" and "unat v < 128"
  shows "length (vi_bytes v) = Suc 0"
  using assms by (simp add: vi_bytes.simps [of v] less_127_iff)

lemma unat_u64_bound: "unat (v :: u64) < 18446744073709551616"
proof -
  have "unat v < 2 ^ LENGTH(64)" by (rule unsigned_less)
  then show ?thesis by simp
qed

lemma unat_u32_bound: "unat (v :: u32) < 4294967296"
proof -
  have "unat v < 2 ^ LENGTH(32)" by (rule unsigned_less)
  then show ?thesis by simp
qed

lemma length_vi_bytes_u64: "length (vi_bytes v) = encoded_length_vi64 v"
proof -
  have w: "8 \<le> LENGTH(64)" by simp
  note eqI = length_vi_bytes_eqI [OF w, of v]
  note eqs = eqI [of 0, simplified]
    eqI [of 1, simplified]
    eqI [of 2, simplified]
    eqI [of 3, simplified]
    eqI [of 4, simplified]
    eqI [of 5, simplified]
    eqI [of 6, simplified]
    eqI [of 7, simplified]
    eqI [of 8, simplified]
  consider "unat v < 128"
    | "128 \<le> unat v" "unat v < 16384"
    | "16384 \<le> unat v" "unat v < 2097152"
    | "2097152 \<le> unat v" "unat v < 268435456"
    | "268435456 \<le> unat v" "unat v < 34359738368"
    | "34359738368 \<le> unat v" "unat v < 4398046511104"
    | "4398046511104 \<le> unat v" "unat v < 562949953421312"
    | "562949953421312 \<le> unat v" "unat v < 72057594037927936"
    | "72057594037927936 \<le> unat v" "unat v < 9223372036854775808"
    | "9223372036854775808 \<le> unat v" "unat v < 1180591620717411303424"
    using unat_u64_bound [of v] by linarith
  then show ?thesis
    by cases (simp_all add: length_vi_bytes_small eqs encoded_length_vi64_def word_le_nat_alt)
qed

lemma length_vi_bytes_u32: "length (vi_bytes v) = encoded_length_vi32 v"
proof -
  have w: "8 \<le> LENGTH(32)" by simp
  note eqI = length_vi_bytes_eqI [OF w, of v]
  note eqs = eqI [of 0, simplified]
    eqI [of 1, simplified]
    eqI [of 2, simplified]
    eqI [of 3, simplified]
  consider "unat v < 128"
    | "128 \<le> unat v" "unat v < 16384"
    | "16384 \<le> unat v" "unat v < 2097152"
    | "2097152 \<le> unat v" "unat v < 268435456"
    | "268435456 \<le> unat v" "unat v < 34359738368"
    using unat_u32_bound [of v] by linarith
  then show ?thesis
    by cases (simp_all add: length_vi_bytes_small eqs encoded_length_vi32_def word_le_nat_alt)
qed

lemma bit_127_int: "bit (127 :: int) k \<longleftrightarrow> k < 7"
proof -
  have "(127 :: int) = mask 7" by (simp add: mask_eq_exp_minus_1)
  then show ?thesis by (simp only: bit_mask_iff) auto
qed

lemma bit_128_int: "bit (128 :: int) k \<longleftrightarrow> k = 7"
proof -
  have "(128 :: int) = 2 ^ 7" by simp
  then show ?thesis by (simp only: bit_exp_iff) auto
qed

lemma cont_byte_high_bit:
  "(ucast (v OR 128) :: u8) AND 128 \<noteq> 0" if "8 \<le> LENGTH('a)" for v :: "'a::len word"
proof -
  have "bit ((ucast (v OR 128) :: u8) AND 128) 7"
    using that by (simp add: bit_simps bit_128_int)
  then show ?thesis by auto
qed

lemma last_byte_high_bit: "(ucast (v AND 127) :: u8) AND 128 = 0" for v :: "'a::len word"
  by (rule bit_word_eqI) (auto simp: bit_simps bit_127_int bit_128_int)

lemma cont_byte_value:
  "ucast (ucast (v OR 128) :: u8) AND 127 = v AND 127" for v :: "'a::len word"
  by (rule bit_word_eqI) (auto simp: bit_simps bit_127_int bit_128_int)

lemma last_byte_value:
  "ucast (ucast (v AND 127) :: u8) AND 127 = v AND 127" for v :: "'a::len word"
  by (rule bit_word_eqI) (auto simp: bit_simps bit_127_int)

lemma join_7_bits:
  fixes v :: "'a::len word"
  shows "push_bit n (v AND 127) OR push_bit (n + 7) (drop_bit 7 v) = push_bit n v"
proof (rule bit_word_eqI)
  fix k assume "k < LENGTH('a)"
  then show "bit (push_bit n (v AND 127) OR push_bit (n + 7) (drop_bit 7 v)) k = bit (push_bit n v) k"
    by (cases "n + 7 \<le> k") (auto simp: bit_simps bit_127_int)
qed

lemma and_127_small:
  fixes v :: "'a::len word"
  assumes "8 \<le> LENGTH('a)" and "\<not> 127 < v"
  shows "v AND 127 = v"
proof -
  have "unat v < 128" using assms by (simp add: less_127_iff)
  then have "take_bit 7 v = v"
    by (simp add: word_unat_eq_iff unsigned_take_bit_eq take_bit_nat_eq_self)
  then show ?thesis by (simp add: take_bit_eq_mask mask_eq_exp_minus_1)
qed


lemma decode_vi_loop_bytes:
  fixes v acc :: "'a::len word"
  assumes "8 \<le> LENGTH('a)"
    and "take (length (vi_bytes v)) (drop pos b) = vi_bytes v"
    and "pos + length (vi_bytes v) \<le> data_len" and "data_len \<le> length b"
    and "shift < LENGTH('a)" and "unat v < 2 ^ (LENGTH('a) - shift)"
  shows "decode_vi_loop b data_len pos acc shift
    = Some (Inr (acc OR push_bit shift v, pos + length (vi_bytes v)))"
  using assms(2-)
proof (induction v arbitrary: pos acc shift rule: vi_bytes.induct)
  case (1 v)
  have first: "b ! pos = hd (vi_bytes v)"
    using "1.prems"(1) vi_bytes_nonempty [of v]
    by (metis append_Nil drop_eq_Nil hd_drop_conv_nth hd_take length_greater_0_conv not_le take_eq_Nil)
  have inside: "pos < length b" "pos + 1 \<le> data_len"
    using "1.prems"(2,3) vi_bytes_nonempty [of v] by (cases "vi_bytes v"; simp)+
  show ?case
  proof (cases "127 < v")
    case True
    let ?w = "drop_bit 7 v"
    have bytes: "vi_bytes v = ucast (v OR 128) # vi_bytes ?w"
      using True by (simp add: vi_bytes.simps [of v])
    have room: "shift + 7 < LENGTH('a)" "unat ?w < 2 ^ (LENGTH('a) - (shift + 7))"
    proof -
      have "2 ^ 7 < (2 :: nat) ^ (LENGTH('a) - shift)"
        using True "1.prems"(5) by (simp add: less_127_iff [OF assms(1)])
      then have lt: "7 < LENGTH('a) - shift" by (rule power_less_imp_less_exp [rotated]) simp
      then show "shift + 7 < LENGTH('a)" by simp
      have "(2 :: nat) ^ (LENGTH('a) - shift) = 2 ^ (LENGTH('a) - (shift + 7)) * 128"
      proof -
        have "LENGTH('a) - shift = (LENGTH('a) - (shift + 7)) + 7" using lt by simp
        then have "(2 :: nat) ^ (LENGTH('a) - shift) = 2 ^ ((LENGTH('a) - (shift + 7)) + 7)"
          by (rule arg_cong)
        also have "\<dots> = 2 ^ (LENGTH('a) - (shift + 7)) * 128" by (subst power_add) simp
        finally show ?thesis .
      qed
      with "1.prems"(5) show "unat ?w < 2 ^ (LENGTH('a) - (shift + 7))"
        by (simp add: unat_drop_bit_eq drop_bit_nat_def div_less_iff_less_mult)
    qed
    have rest: "take (length (vi_bytes ?w)) (drop (pos + 1) b) = vi_bytes ?w"
      using "1.prems"(1) inside(1) by (simp add: bytes Cons_nth_drop_Suc [symmetric])
    have "decode_vi_loop b data_len (pos + 1) (acc OR push_bit shift (v AND 127)) (shift + 7)
        = Some (Inr ((acc OR push_bit shift (v AND 127)) OR push_bit (shift + 7) ?w,
            pos + 1 + length (vi_bytes ?w)))"
      using "1.IH" [OF True rest _ _ room] "1.prems"(2,3) by (simp add: bytes)
    then show ?thesis
      using inside "1.prems"(4)
      by (simp add: decode_vi_loop.simps [of b data_len pos] first bytes
          cont_byte_high_bit [OF assms(1)] cont_byte_value or.assoc join_7_bits del: push_bit_and)
  next
    case False
    have small: "v AND 127 = v" using assms(1) False by (rule and_127_small)
    show ?thesis
      using inside "1.prems"(4) False small last_byte_high_bit [of v] last_byte_value [of v]
      by (simp add: decode_vi_loop.simps [of b data_len pos] first vi_bytes.simps [of v]
          del: push_bit_and)
  qed
qed


fun fixed_bytes :: "nat \<Rightarrow> u64 \<Rightarrow> bytes" where
  "fixed_bytes (Suc n) v = ucast (v OR 128) # fixed_bytes n (drop_bit 7 v)"
| "fixed_bytes 0 v = [ucast (v AND 127)]"

lemma length_fixed_bytes [simp]: "length (fixed_bytes n v) = Suc n"
  by (induction n arbitrary: v) auto

lemma encode_fixed_loop_eq:
  "pos + Suc n \<le> length b \<Longrightarrow>
   encode_fixed_loop n b pos v = (splice_at b pos (fixed_bytes n v), pos + Suc n)"
proof (induction n arbitrary: b pos v)
  case 0
  then show ?case by (simp add: splice_at_single)
next
  case (Suc n)
  then show ?case by (simp add: splice_at_update_first)
qed

lemma decode_vi_loop_fixed_bytes:
  assumes "take (Suc n) (drop pos b) = fixed_bytes n v"
    and "pos + Suc n \<le> data_len" and "data_len \<le> length b"
    and "shift + 7 * n < 64" and "unat v < 2 ^ (7 * Suc n)"
  shows "decode_vi_loop b data_len pos acc shift
    = Some (Inr (acc OR push_bit shift v, pos + Suc n))"
  using assms
proof (induction n arbitrary: pos acc shift v)
  case 0
  then have "b ! pos = ucast (v AND 127)"
    by (metis add_0_right add_Suc_right fixed_bytes.simps(2) hd_drop_conv_nth hd_take list.sel(1)
        Suc_le_lessD le_trans zero_less_Suc)
  moreover have small: "v AND 127 = v"
    using and_127_small [of v] 0 by (simp add: less_127_iff)
  ultimately show ?case
    using 0 last_byte_high_bit [of v] last_byte_value [of v]
    by (simp add: decode_vi_loop.simps [of b data_len pos] del: push_bit_and)
next
  case (Suc n)
  let ?w = "drop_bit 7 v"
  have inside: "pos < length b" using Suc.prems(2,3) by simp
  have bytes: "b ! pos = ucast (v OR 128)" "take (Suc n) (drop (pos + 1) b) = fixed_bytes n ?w"
    using Suc.prems(1) inside by (simp_all add: Cons_nth_drop_Suc [symmetric])
  have "unat ?w < 2 ^ (7 * Suc n)"
    using Suc.prems(5)
    by (simp add: unat_drop_bit_eq drop_bit_nat_def div_less_iff_less_mult power_add mult.commute)
  then have "decode_vi_loop b data_len (pos + 1) (acc OR push_bit shift (v AND 127)) (shift + 7)
      = Some (Inr ((acc OR push_bit shift (v AND 127)) OR push_bit (shift + 7) ?w, pos + 1 + Suc n))"
    using Suc.IH [OF bytes(2)] Suc.prems(2-4) by simp
  then show ?case
    using inside bytes(1) Suc.prems(2,4) cont_byte_high_bit [of v]
    by (simp add: decode_vi_loop.simps [of b data_len pos] cont_byte_value or.assoc join_7_bits
        del: push_bit_and)
qed


section \<open>Properties\<close>

lemma encode_vi64_Some:
  assumes "n \<le> length b"
  shows "encode_vi64 (Some b) n p v =
    (if p + encoded_length_vi64 v \<le> n
     then (OB_SUCCESS, Some (splice_at b p (vi_bytes v)), p + encoded_length_vi64 v)
     else (OB_SIZE_OVERFLOW, Some b, p))"
  using assms by (simp add: encode_vi64_def encode_vi_loop_eq length_vi_bytes_u64)

text \<open>Round trip of the fixed-width codecs: what \<open>encode_i16\<close>, \<open>encode_i32\<close> or
  \<open>encode_i64\<close> wrote at a position is read back by the matching decoder from the same
  position, which then stands at the same end position.\<close>

theorem fixed_int_roundtrip:
  assumes "n \<le> length b"
  shows "(encode_i16 (Some b) n p v16 = (OB_SUCCESS, b', p') \<longrightarrow> decode_i16 b' n p = Inr (v16, p'))
    \<and> (encode_i32 (Some b) n p v32 = (OB_SUCCESS, b', p') \<longrightarrow> decode_i32 b' n p = Inr (v32, p'))
    \<and> (encode_i64 (Some b) n p v64 = (OB_SUCCESS, b', p') \<longrightarrow> decode_i64 b' n p = Inr (v64, p'))"
  using i16.roundtrip i32.roundtrip i64.roundtrip assms by blast

lemma vi64_encode_decode:
  assumes "n \<le> length b" and "p + encoded_length_vi64 v \<le> n"
  shows "\<exists>b'. encode_vi64 (Some b) n p v = (OB_SUCCESS, Some b', p + encoded_length_vi64 v)
    \<and> length b' = length b
    \<and> decode_vi64 (Some b') n p = Some (Inr (v, p + encoded_length_vi64 v))"
proof -
  let ?b' = "splice_at b p (vi_bytes v)"
  have fits: "p + length (vi_bytes v) \<le> length b"
    using assms by (simp add: length_vi_bytes_u64)
  have "decode_vi_loop ?b' n p 0 0 = Some (Inr (0 OR push_bit 0 v, p + length (vi_bytes v)))"
    using assms fits unat_u64_bound [of v] take_drop_splice_at [OF fits]
    by (intro decode_vi_loop_bytes) (simp_all add: length_vi_bytes_u64)
  then show ?thesis
    using assms fits by (simp add: encode_vi64_Some decode_vi64_def length_vi_bytes_u64)
qed

text \<open>C39. Round trip of the variable-length codec: \<open>encode_vi64\<close> succeeds exactly when
  \<open>encoded_length_vi64\<close> bytes fit before the end of the buffer, it then writes that many bytes
  and \<open>decode_vi64\<close> reads the same value back, without undefined behaviour.\<close>

theorem vi64_roundtrip:
  assumes "n \<le> length b"
  shows "(fst (encode_vi64 (Some b) n p v) = OB_SUCCESS \<longleftrightarrow> p + encoded_length_vi64 v \<le> n)
    \<and> (p + encoded_length_vi64 v \<le> n \<longrightarrow>
        (\<exists>b'. encode_vi64 (Some b) n p v = (OB_SUCCESS, Some b', p + encoded_length_vi64 v)
          \<and> length b' = length b
          \<and> decode_vi64 (Some b') n p = Some (Inr (v, p + encoded_length_vi64 v))))"
  using vi64_encode_decode [OF assms, of p v] encode_vi64_Some [OF assms, of p v] by auto

text \<open>Compatibility stated by the comment of \<^verbatim>\<open>encode_fixed_bytes_i64\<close>: the five bytes it
  writes for a value below \<open>2^35\<close> are read back by \<open>decode_vi64\<close>.\<close>

theorem fixed_bytes_decodes_as_vi64:
  assumes "n \<le> length b" and "p + 5 \<le> n" and "unat v < 2 ^ 35"
  shows "\<exists>b'. encode_fixed_bytes_i64 (Some b) n p v = (OB_SUCCESS, Some b', p + 5)
    \<and> decode_vi64 (Some b') n p = Some (Inr (v, p + 5))"
proof -
  let ?b' = "splice_at b p (fixed_bytes 4 v)"
  have len: "length (fixed_bytes 4 v) = 5" by simp
  have "take 5 (drop p ?b') = fixed_bytes 4 v"
    using take_drop_splice_at [of p "fixed_bytes 4 v" b] assms by (simp only: len)
  then have "decode_vi_loop ?b' n p 0 0 = Some (Inr (0 OR push_bit 0 v, p + Suc 4))"
    using assms by (intro decode_vi_loop_fixed_bytes) simp_all
  then show ?thesis
    using assms encode_fixed_loop_eq [of p 4 b v]
    by (simp add: encode_fixed_bytes_i64_def decode_vi64_def)
qed

lemma decode_vi_loop_runs_off:
  fixes v :: "'a::len word"
  assumes "pos \<le> length b" and "\<And>i. pos \<le> i \<Longrightarrow> i < length b \<Longrightarrow> b ! i AND 128 \<noteq> 0"
  shows "decode_vi_loop b (length b) pos v shift = None"
  using assms
proof (induction "length b - pos" arbitrary: pos v shift)
  case 0
  then show ?case by (subst decode_vi_loop.simps) simp
next
  case (Suc m)
  then have "decode_vi_loop b (length b) (pos + 1) w s = None" for w :: "'a word" and s
    by (intro Suc.hyps(1)) auto
  with Suc show ?case
    by (simp add: decode_vi_loop.simps [of b "length b" pos])
qed

text \<open>C40. A truncated variable-length integer is not rejected: when every byte up to the end of
  the data carries the continuation bit, \<open>decode_vi64\<close> reads the byte behind the end of the
  buffer (undefined behaviour) before it compares the position with \<^verbatim>\<open>data_len\<close>, so that
  \<^verbatim>\<open>OB_DESERIALIZE_ERROR\<close> is never reached for it.\<close>

theorem decode_vi64_truncated_overreads:
  assumes "p \<le> length b" and "\<forall>i. p \<le> i \<and> i < length b \<longrightarrow> b ! i AND 128 \<noteq> 0"
  shows "decode_vi64 (Some b) (length b) p = None"
  using assms decode_vi_loop_runs_off [of p b] by (simp add: decode_vi64_def)

subsection \<open>Witnesses\<close>

theorem fixed_int_roundtrip_witness:
  "decode_i64 (fst (snd (encode_i64 (Some (replicate 9 0)) 9 1 0x1122334455667788))) 9 1
    = Inr (0x1122334455667788, 9)"
proof -
  have "encode_i64 (Some (replicate 9 0)) 9 1 0x1122334455667788
      = (OB_SUCCESS, Some (splice_at (replicate 9 0) 1 (be64 0x1122334455667788)), 9)"
    using i64.enc_room [of 1 9 "replicate 9 0"] by simp
  then show ?thesis using fixed_int_roundtrip [of 9 "replicate 9 0" 1] by simp
qed

theorem vi64_roundtrip_witness:
  "\<exists>b'. encode_vi64 (Some [0, 0, 0, 0]) 4 2 300 = (OB_SUCCESS, Some b', 4)
    \<and> length b' = length [0, 0, 0, 0 :: u8] \<and> decode_vi64 (Some b') 4 2 = Some (Inr (300, 4))"
proof -
  have "encoded_length_vi64 300 = 2" by (simp add: encoded_length_vi64_def)
  then show ?thesis using vi64_roundtrip [of 4 "[0, 0, 0, 0]" 2 300] by simp
qed

theorem fixed_bytes_decodes_as_vi64_witness:
  "\<exists>b'. encode_fixed_bytes_i64 (Some [0, 0, 0, 0, 0]) 5 0 7 = (OB_SUCCESS, Some b', 5)
    \<and> decode_vi64 (Some b') 5 0 = Some (Inr (7, 5))"
  using fixed_bytes_decodes_as_vi64 [of 5 "[0, 0, 0, 0, 0]" 0 7] by simp

theorem decode_vi64_truncated_overreads_witness:
  "decode_vi64 (Some [0x80, 0xff]) 2 0 = None"
proof -
  have "\<forall>i. 0 \<le> i \<and> i < length [0x80, 0xff :: u8] \<longrightarrow> [0x80, 0xff :: u8] ! i AND 128 \<noteq> 0"
    by (simp add: less_Suc_eq all_conj_distrib)
  then show ?thesis
    using decode_vi64_truncated_overreads [of 0 "[0x80, 0xff]"] by (simp add: numeral_2_eq_2)
qed

end
