(* ===== verification/RecordCodec.thy ===== *)
theory RecordCodec
  imports Serialization
begin

text \<open>
  Serializers of records.  The code writes a record as a chain
  \<^verbatim>\<open>OB_FAIL(encode_x(buf, buf_len, new_pos, x_)) || OB_FAIL(encode_y(...)) || ...\<close>, which stops at the
  first encoder that fails; \<open>enc_all\<close> is that chain.  Reading is the chain of the decoders,
  \<open>dec_bind\<close>.  An encoder that meets the codec contract writes a fixed byte string and its decoder
  reads it back; the lemmas compose this over the fields, so that the header formats need no
  reasoning about positions.
\<close>

fun enc_all :: "(buffer \<Rightarrow> nat \<Rightarrow> nat \<Rightarrow> enc_result) list \<Rightarrow> buffer \<Rightarrow> nat \<Rightarrow> nat \<Rightarrow> enc_result" where
  "enc_all [] buf buf_len pos = (OB_SUCCESS, buf, pos)"
| "enc_all (e # es) buf buf_len pos =
     (case e buf buf_len pos of
        (ret, buf', pos') \<Rightarrow>
          if ret \<noteq> OB_SUCCESS then (ret, buf', pos') else enc_all es buf' buf_len pos')"

definition dec_bind :: "'a dec_result \<Rightarrow> ('a \<Rightarrow> nat \<Rightarrow> 'b dec_result) \<Rightarrow> 'b dec_result" where
  "dec_bind r k = (case r of Inl ret \<Rightarrow> Inl ret | Inr (v, pos) \<Rightarrow> k v pos)"

lemma dec_bind_simps [simp]: "dec_bind (Inl ret) k = Inl ret" "dec_bind (Inr (v, p)) k = k v p"
  by (simp_all add: dec_bind_def)

lemma dec_bind_Inr_iff: "dec_bind r k = Inr x \<longleftrightarrow> (\<exists>v p. r = Inr (v, p) \<and> k v p = Inr x)"
  by (auto simp: dec_bind_def split: sum.splits)

section \<open>Bytes at a position\<close>

definition bytes_at :: "bytes \<Rightarrow> nat \<Rightarrow> bytes \<Rightarrow> bool" where
  "bytes_at b p bs \<longleftrightarrow> p + length bs \<le> length b \<and> take (length bs) (drop p b) = bs"

lemma bytes_at_splice [intro]: "p + length bs \<le> length b \<Longrightarrow> bytes_at (splice_at b p bs) p bs"
  by (simp add: bytes_at_def take_drop_splice_at)

lemma bytes_at_append:
  "bytes_at b p (xs @ ys) \<longleftrightarrow> bytes_at b p xs \<and> bytes_at b (p + length xs) ys"
proof (cases "p + length xs + length ys \<le> length b")
  case True
  have "take (length (xs @ ys)) (drop p b) = take (length xs) (drop p b) @ take (length ys) (drop (p + length xs) b)"
    by (simp add: take_add add.commute)
  then show ?thesis
    using True by (simp add: bytes_at_def)
qed (auto simp: bytes_at_def)

lemma bytes_at_Nil [simp]: "bytes_at b p [] \<longleftrightarrow> p \<le> length b"
  by (simp add: bytes_at_def)

lemma bytes_at_take_drop: "p + n \<le> length b \<Longrightarrow> bytes_at b p (take n (drop p b))"
  by (simp add: bytes_at_def)

section \<open>Encoders that write, decoders that read\<close>

definition writes :: "(buffer \<Rightarrow> nat \<Rightarrow> nat \<Rightarrow> enc_result) \<Rightarrow> bytes \<Rightarrow> bool" where
  "writes e bs \<longleftrightarrow> (\<forall>b n p. n \<le> length b \<longrightarrow> p \<le> n \<longrightarrow>
     (if p + length bs \<le> n then e (Some b) n p = (OB_SUCCESS, Some (splice_at b p bs), p + length bs)
      else fst (e (Some b) n p) \<noteq> OB_SUCCESS))"

definition reads :: "(buffer \<Rightarrow> nat \<Rightarrow> nat \<Rightarrow> 'a dec_result) \<Rightarrow> 'a \<Rightarrow> bytes \<Rightarrow> bool" where
  "reads d v bs \<longleftrightarrow> (\<forall>b n p. n \<le> length b \<longrightarrow> p + length bs \<le> n \<longrightarrow> bytes_at b p bs \<longrightarrow>
     d (Some b) n p = Inr (v, p + length bs))"

context byte_codec
begin

lemma writes_enc [intro]: "writes (\<lambda>b n p. enc b n p v) (to_bytes v)"
  unfolding writes_def length_to_bytes
proof (intro allI impI)
  fix b :: bytes and n p assume "n \<le> length b"
  then show "if p + width \<le> n
      then enc (Some b) n p v = (OB_SUCCESS, Some (splice_at b p (to_bytes v)), p + width)
      else fst (enc (Some b) n p v) \<noteq> OB_SUCCESS"
    using enc_room [of p n b v] enc_full [of n p b v] by auto
qed

lemma reads_dec [intro]: "reads dec v (to_bytes v)"
  by (auto simp: reads_def bytes_at_def length_to_bytes dec_room of_to_bytes)

end

lemma writes_room:
  "writes e bs \<Longrightarrow> n \<le> length b \<Longrightarrow> p + length bs \<le> n \<Longrightarrow>
   e (Some b) n p = (OB_SUCCESS, Some (splice_at b p bs), p + length bs)"
  unfolding writes_def by (meson add_leD1)

lemma writes_full: "writes e bs \<Longrightarrow> n \<le> length b \<Longrightarrow> p \<le> n \<Longrightarrow> n < p + length bs \<Longrightarrow> fst (e (Some b) n p) \<noteq> OB_SUCCESS"
  unfolding writes_def by (meson not_le)

lemma writes_enc_all: "list_all2 writes es bss \<Longrightarrow> writes (enc_all es) (concat bss)"
proof (induction rule: list_all2_induct)
  case Nil
  then show ?case by (auto simp: writes_def splice_at_def)
next
  case (Cons e es bs bss)
  show ?case
    unfolding writes_def
  proof (intro allI impI)
    fix b :: bytes and n p assume n: "n \<le> length b" "p \<le> n"
    show "if p + length (concat (bs # bss)) \<le> n
        then enc_all (e # es) (Some b) n p
          = (OB_SUCCESS, Some (splice_at b p (concat (bs # bss))), p + length (concat (bs # bss)))
        else fst (enc_all (e # es) (Some b) n p) \<noteq> OB_SUCCESS"
    proof (cases "p + length bs \<le> n")
      case True
      then have e: "e (Some b) n p = (OB_SUCCESS, Some (splice_at b p bs), p + length bs)"
        using Cons.hyps n by (simp add: writes_room)
      have n': "n \<le> length (splice_at b p bs)" using True n by simp
      have step: "enc_all (e # es) (Some b) n p = enc_all es (Some (splice_at b p bs)) n (p + length bs)"
        by (simp add: e)
      show ?thesis
      proof (cases "p + length (concat (bs # bss)) \<le> n")
        case fits: True
        then have "splice_at (splice_at b p bs) (p + length bs) (concat bss) = splice_at b p (concat (bs # bss))"
          using n splice_at_append [of p bs "concat bss" b] by simp
        then show ?thesis
          using writes_room [OF Cons.IH n', of "p + length bs"] fits unfolding step by (simp add: add.assoc)
      next
        case no_room: False
        then show ?thesis
          using writes_full [OF Cons.IH n' True] unfolding step by simp
      qed
    next
      case False
      then show ?thesis
        using writes_full [OF Cons.hyps(1) n] by (auto split: prod.split)
    qed
  qed
qed

lemma reads_at:
  "reads d v bs \<Longrightarrow> n \<le> length b \<Longrightarrow> p + length bs \<le> n \<Longrightarrow> bytes_at b p bs \<Longrightarrow> d (Some b) n p = Inr (v, p + length bs)"
  unfolding reads_def by blast

text \<open>One step of a chain of decoders.\<close>

lemma reads_bind:
  assumes "reads d v xs" and "reads (\<lambda>b n p. k v b n p) w ys"
  shows "reads (\<lambda>b n p. dec_bind (d b n p) (\<lambda>v p. k v b n p)) w (xs @ ys)"
  using assms by (auto simp: reads_def bytes_at_append add.assoc)

lemma reads_return [intro]: "reads (\<lambda>b n p. Inr (v, p)) v []"
  by (simp add: reads_def)

lemma reads_all_room: "reads d v bs \<Longrightarrow> writes e bs \<Longrightarrow> n \<le> length b \<Longrightarrow> p \<le> n \<Longrightarrow>
   e (Some b) n p = (OB_SUCCESS, b', p') \<Longrightarrow> d b' n p = Inr (v, p')"
proof -
  assume d: "reads d v bs" and e: "writes e bs" and n: "n \<le> length b"
    and p: "p \<le> n" and r: "e (Some b) n p = (OB_SUCCESS, b', p')"
  have fits: "p + length bs \<le> n"
    using writes_full [OF e n p] r by (cases "p + length bs \<le> n") auto
  then have "b' = Some (splice_at b p bs)" "p' = p + length bs"
    using writes_room [OF e n fits] r by auto
  then show "d b' n p = Inr (v, p')"
    using d fits n by (auto intro!: reads_at)
qed

text \<open>The wrapper every record serializer puts around the chain: it refuses a null or empty buffer and
  maps any failure to one code.\<close>

lemma writes_wrap:
  assumes "writes e bs" "bs \<noteq> []"
    and "\<And>b n p. n \<noteq> 0 \<Longrightarrow> fst (e (Some b) n p) = OB_SUCCESS \<Longrightarrow> f (Some b) n p = e (Some b) n p"
    and "\<And>b n p. n = 0 \<or> fst (e (Some b) n p) \<noteq> OB_SUCCESS \<Longrightarrow> fst (f (Some b) n p) \<noteq> OB_SUCCESS"
  shows "writes f bs"
  unfolding writes_def
proof (intro allI impI)
  fix b :: bytes and n p assume n: "n \<le> length b" "p \<le> n"
  show "if p + length bs \<le> n then f (Some b) n p = (OB_SUCCESS, Some (splice_at b p bs), p + length bs)
      else fst (f (Some b) n p) \<noteq> OB_SUCCESS"
  proof (cases "p + length bs \<le> n")
    case True
    then have "n \<noteq> 0" using assms(2) by (cases bs) auto
    then show ?thesis
      using True writes_room [OF assms(1) n(1) True] assms(3) [of n b p] by simp
  next
    case False
    then show ?thesis
      using writes_full [OF assms(1) n] assms(4) [of n b p] by simp
  qed
qed

text \<open>The wrapper of the log headers.\<close>

lemma writes_header:
  assumes "writes e bs" "bs \<noteq> []" "c1 \<noteq> OB_SUCCESS" "c2 \<noteq> OB_SUCCESS"
  shows "writes (\<lambda>b n p. if b = None \<or> n = 0 then (c1, b, p)
      else case e b n p of (ret, b', p') \<Rightarrow> if ret \<noteq> OB_SUCCESS then (c2, b', p) else (OB_SUCCESS, b', p')) bs"
  using assms(3,4) by (intro writes_wrap [OF assms(1,2)]) (auto split: prod.splits)

end
