(* ===== verification/Scn.thy ===== *)
theory Scn
  imports RecordCodec
begin

text \<open>
  The system change number of \<^verbatim>\<open>src/share/scn.h\<close> and \<^verbatim>\<open>src/share/scn.cpp\<close>: a 64-bit value
  \<^verbatim>\<open>val_\<close> whose low 62 bits are the time stamp \<^verbatim>\<open>ts_ns_\<close> and whose high 2 bits are the version
  \<^verbatim>\<open>v_\<close>.  Every operation of the class is modelled; the atomic accessors are plain reads and
  writes.  The lemmas show that the four comparison operators are one total preorder with the
  invalid values at the bottom, that arithmetic stays inside the valid range, and that both
  serializations round-trip.
\<close>

datatype SCN = SCN (scn_val: u64)

definition OB_INVALID_SCN_VAL :: u64 where "OB_INVALID_SCN_VAL = 0xffffffffffffffff"
definition OB_MIN_SCN_TS_NS :: u64 where "OB_MIN_SCN_TS_NS = 0"
definition OB_BASE_SCN_TS_NS :: u64 where "OB_BASE_SCN_TS_NS = 1"
definition OB_MAX_SCN_TS_NS :: u64 where "OB_MAX_SCN_TS_NS = 0x3fffffffffffffff"
definition INT64_MAX :: int where "INT64_MAX = 0x7fffffffffffffff"

lemmas scn_const [palf_const] =
  OB_INVALID_SCN_VAL_def OB_MIN_SCN_TS_NS_def OB_BASE_SCN_TS_NS_def OB_MAX_SCN_TS_NS_def INT64_MAX_def

section \<open>The bit fields\<close>

definition scn_ts_ns :: "SCN \<Rightarrow> 62 word" where
  "scn_ts_ns s = ucast (scn_val s)"

definition scn_v :: "SCN \<Rightarrow> 2 word" where
  "scn_v s = ucast (drop_bit 62 (scn_val s))"

definition scn_of_fields :: "2 word \<Rightarrow> 62 word \<Rightarrow> SCN" where
  "scn_of_fields v ts = SCN (push_bit 62 (ucast v) OR ucast ts)"

definition SCN_VERSION :: "2 word" where "SCN_VERSION = 0"

section \<open>Validity, distinguished values\<close>

definition scn_reset :: SCN where
  "scn_reset = SCN OB_INVALID_SCN_VAL"

definition scn_is_valid :: "SCN \<Rightarrow> bool" where
  "scn_is_valid s \<longleftrightarrow> SCN_VERSION = scn_v s"

definition scn_is_valid_and_not_min :: "SCN \<Rightarrow> bool" where
  "scn_is_valid_and_not_min s \<longleftrightarrow> SCN_VERSION = scn_v s \<and> OB_MIN_SCN_TS_NS \<noteq> scn_val s"

definition scn_set_max :: SCN where
  "scn_set_max = scn_of_fields SCN_VERSION (ucast OB_MAX_SCN_TS_NS)"

definition scn_is_max :: "SCN \<Rightarrow> bool" where
  "scn_is_max s \<longleftrightarrow> scn_v s = SCN_VERSION \<and> ucast (scn_ts_ns s) = OB_MAX_SCN_TS_NS"

definition scn_set_min :: SCN where
  "scn_set_min = scn_of_fields SCN_VERSION (ucast OB_MIN_SCN_TS_NS)"

definition scn_is_min :: "SCN \<Rightarrow> bool" where
  "scn_is_min s \<longleftrightarrow> scn_v s = SCN_VERSION \<and> ucast (scn_ts_ns s) = OB_MIN_SCN_TS_NS"

definition scn_set_base :: SCN where
  "scn_set_base = scn_of_fields SCN_VERSION (ucast OB_BASE_SCN_TS_NS)"

definition scn_is_base_scn :: "SCN \<Rightarrow> bool" where
  "scn_is_base_scn s \<longleftrightarrow> SCN_VERSION = scn_v s \<and> OB_BASE_SCN_TS_NS = ucast (scn_ts_ns s)"

section \<open>Comparison\<close>

definition scn_lt :: "SCN \<Rightarrow> SCN \<Rightarrow> bool" where
  "scn_lt a b =
     (if \<not> scn_is_valid a \<and> \<not> scn_is_valid b then False
      else if \<not> scn_is_valid a then True
      else if \<not> scn_is_valid b then False
      else scn_ts_ns a < scn_ts_ns b)"

definition scn_le :: "SCN \<Rightarrow> SCN \<Rightarrow> bool" where
  "scn_le a b =
     (if \<not> scn_is_valid a \<and> \<not> scn_is_valid b then True
      else if \<not> scn_is_valid a then True
      else if \<not> scn_is_valid b then False
      else scn_ts_ns a \<le> scn_ts_ns b)"

definition scn_gt :: "SCN \<Rightarrow> SCN \<Rightarrow> bool" where
  "scn_gt a b =
     (if \<not> scn_is_valid a \<and> \<not> scn_is_valid b then False
      else if \<not> scn_is_valid a then False
      else if \<not> scn_is_valid b then True
      else scn_ts_ns a > scn_ts_ns b)"

definition scn_ge :: "SCN \<Rightarrow> SCN \<Rightarrow> bool" where
  "scn_ge a b =
     (if \<not> scn_is_valid a \<and> \<not> scn_is_valid b then True
      else if \<not> scn_is_valid a then False
      else if \<not> scn_is_valid b then True
      else scn_ts_ns a \<ge> scn_ts_ns b)"

section \<open>Arithmetic\<close>

definition scn_max :: "SCN \<Rightarrow> SCN \<Rightarrow> SCN" where
  "scn_max left right =
     (if \<not> scn_is_valid left then right
      else if \<not> scn_is_valid right then left
      else if scn_gt right left then right else left)"

definition scn_min :: "SCN \<Rightarrow> SCN \<Rightarrow> SCN" where
  "scn_min left right =
     (if \<not> scn_is_valid left then left
      else if \<not> scn_is_valid right then right
      else if scn_lt right left then right else left)"

definition scn_plus :: "SCN \<Rightarrow> u64 \<Rightarrow> SCN" where
  "scn_plus ref delta =
     (if delta \<ge> OB_MAX_SCN_TS_NS \<or> \<not> scn_is_valid ref then scn_reset
      else let new_val = scn_val ref + delta in
        if new_val > OB_MAX_SCN_TS_NS then scn_reset else SCN new_val)"

definition scn_minus :: "SCN \<Rightarrow> u64 \<Rightarrow> SCN" where
  "scn_minus ref delta =
     (if delta \<ge> OB_MAX_SCN_TS_NS \<or> \<not> scn_is_valid ref then scn_reset
      else if scn_val ref < delta then scn_reset
      else SCN (scn_val ref - delta))"

text \<open>
  The two update operations are compare-and-swap loops.  \<open>env\<close> lists the values other threads
  store into \<^verbatim>\<open>val_\<close> between this thread's read and its successive attempts; once the list is
  exhausted no other thread writes.  The result is the value returned and the value stored.
\<close>

function scn_inc_update_loop :: "SCN list \<Rightarrow> SCN \<Rightarrow> SCN \<Rightarrow> SCN \<Rightarrow> SCN \<times> SCN" where
  "scn_inc_update_loop env cell new_scn ref =
     (if scn_lt new_scn ref then
        (let cell = (case env of [] \<Rightarrow> cell | c # _ \<Rightarrow> c) in
         if cell = new_scn then scn_inc_update_loop (tl env) ref ref ref
         else scn_inc_update_loop (tl env) cell cell ref)
      else (new_scn, cell))"
  by pat_completeness auto

function scn_dec_update_loop :: "SCN list \<Rightarrow> SCN \<Rightarrow> SCN \<Rightarrow> SCN \<Rightarrow> SCN \<times> SCN" where
  "scn_dec_update_loop env cell new_scn ref =
     (if scn_gt new_scn ref then
        (let cell = (case env of [] \<Rightarrow> cell | c # _ \<Rightarrow> c) in
         if cell = new_scn then scn_dec_update_loop (tl env) ref ref ref
         else scn_dec_update_loop (tl env) cell cell ref)
      else (new_scn, cell))"
  by pat_completeness auto

lemma scn_lt_irrefl: "\<not> scn_lt s s"
  by (simp add: scn_lt_def)

lemma scn_gt_irrefl: "\<not> scn_gt s s"
  by (simp add: scn_gt_def)

termination scn_inc_update_loop
  by (relation "measure (\<lambda>(env, cell, new_scn, ref).
        2 * length env + (if scn_lt new_scn ref then if cell = new_scn then 1 else 2 else 0))")
     (auto simp: scn_lt_irrefl split: list.splits)

termination scn_dec_update_loop
  by (relation "measure (\<lambda>(env, cell, new_scn, ref).
        2 * length env + (if scn_gt new_scn ref then if cell = new_scn then 1 else 2 else 0))")
     (auto simp: scn_gt_irrefl split: list.splits)

definition scn_inc_update :: "SCN list \<Rightarrow> SCN \<Rightarrow> SCN \<Rightarrow> SCN \<times> SCN" where
  "scn_inc_update env this ref = scn_inc_update_loop env this this ref"

definition scn_dec_update :: "SCN list \<Rightarrow> SCN \<Rightarrow> SCN \<Rightarrow> SCN \<times> SCN" where
  "scn_dec_update env this ref = scn_dec_update_loop env this this ref"

definition scn_inc :: "SCN \<Rightarrow> SCN" where
  "scn_inc ref =
     (if scn_val ref \<ge> OB_MAX_SCN_TS_NS then SCN OB_INVALID_SCN_VAL else SCN (scn_val ref + 1))"

definition scn_dec :: "SCN \<Rightarrow> SCN" where
  "scn_dec ref =
     (if OB_MIN_SCN_TS_NS = scn_val ref \<or> \<not> scn_is_valid ref then SCN OB_INVALID_SCN_VAL
      else SCN (scn_val ref - 1))"

section \<open>Conversions\<close>

definition scn_convert_to_ts :: "SCN \<Rightarrow> u64" where
  "scn_convert_to_ts s = (if scn_is_valid s then ucast (scn_ts_ns s) div 1000 else 0)"

definition scn_convert_from_ts :: "SCN \<Rightarrow> u64 \<Rightarrow> ob_ret \<times> SCN" where
  "scn_convert_from_ts this ts_us =
     (let ts_ns = ts_us * 1000 in
      if ts_us \<ge> OB_MAX_SCN_TS_NS div 1000 + 1 then (OB_INVALID_ARGUMENT, this)
      else (OB_SUCCESS, scn_of_fields SCN_VERSION (ucast ts_ns)))"

definition scn_convert_for_gts :: "SCN \<Rightarrow> int \<Rightarrow> ob_ret \<times> SCN" where
  "scn_convert_for_gts this ts_ns =
     (if 0 > ts_ns \<or> OB_MAX_SCN_TS_NS < word_of_int ts_ns then (OB_INVALID_ARGUMENT, this)
      else (OB_SUCCESS, scn_of_fields SCN_VERSION (word_of_int ts_ns)))"

definition scn_convert_for_logservice :: "SCN \<Rightarrow> u64 \<Rightarrow> ob_ret \<times> SCN" where
  "scn_convert_for_logservice this sval =
     (if OB_MAX_SCN_TS_NS < sval then (OB_INVALID_ARGUMENT, this)
      else (OB_SUCCESS, SCN sval))"

definition scn_convert_for_inner_table_field :: "SCN \<Rightarrow> u64 \<Rightarrow> ob_ret \<times> SCN" where
  "scn_convert_for_inner_table_field this value =
     (if OB_MAX_SCN_TS_NS < value then (OB_INVALID_ARGUMENT, this) else (OB_SUCCESS, SCN value))"

definition scn_convert_for_sql :: "SCN \<Rightarrow> u64 \<Rightarrow> ob_ret \<times> SCN" where
  "scn_convert_for_sql this value =
     (if OB_MAX_SCN_TS_NS < value then (OB_INVALID_ARGUMENT, this) else (OB_SUCCESS, SCN value))"

definition scn_get_val_for_logservice :: "SCN \<Rightarrow> u64" where
  "scn_get_val_for_logservice s = scn_val s"

definition scn_convert_for_tx :: "SCN \<Rightarrow> int \<Rightarrow> ob_ret \<times> SCN" where
  "scn_convert_for_tx this val =
     (if INT64_MAX = val then (OB_SUCCESS, SCN OB_MAX_SCN_TS_NS)
      else if val < 0 \<or> OB_MAX_SCN_TS_NS < word_of_int val then (OB_INVALID_ARGUMENT, this)
      else (OB_SUCCESS, SCN (word_of_int val)))"

definition scn_get_val_for_tx :: "SCN \<Rightarrow> int" where
  "scn_get_val_for_tx s =
     (if \<not> scn_is_valid s then -1
      else if OB_MAX_SCN_TS_NS = ucast (scn_ts_ns s) then INT64_MAX
      else uint (scn_ts_ns s))"

section \<open>Serialization\<close>

definition scn_transform_max :: "SCN \<Rightarrow> SCN" where
  "scn_transform_max s = (if word_of_int INT64_MAX = scn_val s then scn_set_max else s)"

definition scn_fixed_serialize :: "buffer \<Rightarrow> nat \<Rightarrow> nat \<Rightarrow> SCN \<Rightarrow> enc_result" where
  "scn_fixed_serialize buf buf_len pos s =
     (if buf = None \<or> buf_len = 0 then (OB_INVALID_ARGUMENT, buf, pos)
      else encode_i64 buf buf_len pos (scn_val s))"

definition scn_fixed_deserialize_without_transform ::
  "buffer \<Rightarrow> nat \<Rightarrow> nat \<Rightarrow> SCN dec_result" where
  "scn_fixed_deserialize_without_transform buf data_len pos =
     (if buf = None \<or> data_len = 0 then Inl OB_INVALID_ARGUMENT
      else case decode_i64 buf data_len pos of
             Inl ret \<Rightarrow> Inl ret
           | Inr (v, new_pos) \<Rightarrow> Inr (SCN v, new_pos))"

definition scn_fixed_deserialize :: "buffer \<Rightarrow> nat \<Rightarrow> nat \<Rightarrow> SCN dec_result" where
  "scn_fixed_deserialize buf data_len pos =
     (case scn_fixed_deserialize_without_transform buf data_len pos of
        Inl ret \<Rightarrow> Inl ret
      | Inr (s, new_pos) \<Rightarrow> Inr (scn_transform_max s, new_pos))"

definition scn_serialize :: "buffer \<Rightarrow> nat \<Rightarrow> nat \<Rightarrow> SCN \<Rightarrow> enc_result" where
  "scn_serialize buf buf_len pos s =
     (if buf = None \<or> buf_len = 0 then (OB_INVALID_ARGUMENT, buf, pos)
      else encode_vi64 buf buf_len pos (scn_val s))"

definition scn_deserialize :: "buffer \<Rightarrow> nat \<Rightarrow> nat \<Rightarrow> SCN dec_result option" where
  "scn_deserialize buf data_len pos =
     (if buf = None \<or> data_len = 0 then Some (Inl OB_INVALID_ARGUMENT)
      else case decode_vi64 buf data_len pos of
             None \<Rightarrow> None
           | Some (Inl ret) \<Rightarrow> Some (Inl ret)
           | Some (Inr (v, new_pos)) \<Rightarrow> Some (Inr (scn_transform_max (SCN v), new_pos)))"

definition scn_get_serialize_size :: "SCN \<Rightarrow> nat" where
  "scn_get_serialize_size s = encoded_length_vi64 (scn_val s)"

section \<open>Fields and values\<close>

lemma uint_scn_ts_ns: "uint (scn_ts_ns s) = uint (scn_val s) mod 4611686018427387904"
  by (simp add: scn_ts_ns_def unsigned_ucast_eq take_bit_eq_mod)

lemma uint_OB_MAX_SCN_TS_NS [simp]: "uint OB_MAX_SCN_TS_NS = 4611686018427387903"
  by (simp add: scn_const)

lemma uint_OB_INVALID_SCN_VAL [simp]: "uint OB_INVALID_SCN_VAL = 18446744073709551615"
  by (simp add: scn_const)

lemma uint_scn_v: "uint (scn_v s) = uint (scn_val s) div 4611686018427387904"
proof -
  have lt: "uint (scn_val s) < 18446744073709551616"
    using uint_lt64 [of "scn_val s"] by simp
  have "uint (scn_v s) = uint (scn_val s) div 4611686018427387904 mod 4"
    by (simp add: scn_v_def unsigned_ucast_eq take_bit_eq_mod unsigned_drop_bit_eq drop_bit_eq_div
          uint_div)
  then show ?thesis
    using lt uint_ge_0 [of "scn_val s"] by (simp add: mod_pos_pos_trivial)
qed

lemma scn_is_valid_uint: "scn_is_valid s \<longleftrightarrow> uint (scn_val s) < 4611686018427387904"
proof -
  have "scn_is_valid s \<longleftrightarrow> uint (scn_v s) = 0"
    by (auto simp: scn_is_valid_def SCN_VERSION_def uint_0_iff)
  then show ?thesis
    using uint_ge_0 [of "scn_val s"] unfolding uint_scn_v by linarith
qed

lemma scn_is_valid_iff: "scn_is_valid s \<longleftrightarrow> scn_val s \<le> OB_MAX_SCN_TS_NS"
  by (auto simp: scn_is_valid_uint word_le_def)

lemma scn_ts_ns_valid: "scn_is_valid s \<Longrightarrow> uint (scn_ts_ns s) = uint (scn_val s)"
  by (simp add: scn_is_valid_uint uint_scn_ts_ns)

lemma scn_of_fields_version: "scn_of_fields SCN_VERSION ts = SCN (ucast ts)"
  by (simp add: scn_of_fields_def SCN_VERSION_def)

lemma uint_ucast_62_64 [simp]: "uint (ucast (ts :: 62 word) :: u64) = uint ts"
  by (rule uint_ucast_up) simp

lemma uint_ucast_64_62: "uint (ucast (x :: u64) :: 62 word) = uint x mod 4611686018427387904"
  by (simp add: unsigned_ucast_eq take_bit_eq_mod)

lemma scn_ext: "uint (scn_val a) = uint (scn_val b) \<Longrightarrow> a = b"
  by (cases a; cases b) (simp add: word_uint_eq_iff)

lemma scn_distinguished:
  shows scn_set_max_val [simp]: "scn_val scn_set_max = OB_MAX_SCN_TS_NS"
    and scn_set_min_val [simp]: "scn_val scn_set_min = 0"
    and scn_set_base_val [simp]: "scn_val scn_set_base = 1"
    and scn_reset_val [simp]: "scn_val scn_reset = OB_INVALID_SCN_VAL"
  by (simp_all add: scn_set_max_def scn_set_min_def scn_set_base_def scn_reset_def
        scn_of_fields_version word_uint_eq_iff uint_ucast_64_62 scn_const)

lemma scn_reset_invalid [simp]: "\<not> scn_is_valid scn_reset"
  by (simp add: scn_is_valid_uint scn_const)

lemma scn_set_valid [simp]: "scn_is_valid scn_set_max" "scn_is_valid scn_set_min" "scn_is_valid scn_set_base"
  by (simp_all add: scn_is_valid_uint)

section \<open>One order\<close>

text \<open>The rank that the four comparison operators compare: invalid values are all at the bottom.\<close>

definition scn_rank :: "SCN \<Rightarrow> int" where
  "scn_rank s = (if scn_is_valid s then uint (scn_val s) else -1)"

lemma scn_rank_invalid_less: "\<not> scn_is_valid a \<Longrightarrow> scn_is_valid b \<Longrightarrow> scn_rank a < scn_rank b"
  by (simp add: scn_rank_def)

lemma scn_cmp_rank:
  shows scn_lt_rank: "scn_lt a b \<longleftrightarrow> scn_rank a < scn_rank b"
    and scn_le_rank: "scn_le a b \<longleftrightarrow> scn_rank a \<le> scn_rank b"
    and scn_gt_rank: "scn_gt a b \<longleftrightarrow> scn_rank a > scn_rank b"
    and scn_ge_rank: "scn_ge a b \<longleftrightarrow> scn_rank a \<ge> scn_rank b"
  by (auto simp: scn_lt_def scn_le_def scn_gt_def scn_ge_def scn_rank_def word_less_def word_le_def
        scn_ts_ns_valid)

declare scn_inc_update_loop.simps [simp del] scn_dec_update_loop.simps [simp del]

lemma scn_inc_update_loop_spec:
  "scn_inc_update_loop env cell new_scn ref = (r, c) \<Longrightarrow> cell = new_scn \<Longrightarrow>
     r = c \<and> scn_ge r ref \<and> r \<in> {new_scn, ref} \<union> set env"
proof (induction env cell new_scn ref rule: scn_inc_update_loop.induct)
  case (1 env cell new_scn ref)
  show ?case
  proof (cases "scn_lt new_scn ref")
    case True
    with 1 show ?thesis
      by (cases env) (fastforce simp: scn_inc_update_loop.simps [of _ _ new_scn] Let_def split: if_splits)+
  next
    case False
    with 1(3,4) show ?thesis
      by (auto simp: scn_inc_update_loop.simps [of _ _ new_scn] scn_cmp_rank)
  qed
qed

lemma scn_dec_update_loop_spec:
  "scn_dec_update_loop env cell new_scn ref = (r, c) \<Longrightarrow> cell = new_scn \<Longrightarrow>
     r = c \<and> scn_le r ref \<and> r \<in> {new_scn, ref} \<union> set env"
proof (induction env cell new_scn ref rule: scn_dec_update_loop.induct)
  case (1 env cell new_scn ref)
  show ?case
  proof (cases "scn_gt new_scn ref")
    case True
    with 1 show ?thesis
      by (cases env) (fastforce simp: scn_dec_update_loop.simps [of _ _ new_scn] Let_def split: if_splits)+
  next
    case False
    with 1(3,4) show ?thesis
      by (auto simp: scn_dec_update_loop.simps [of _ _ new_scn] scn_cmp_rank)
  qed
qed

section \<open>Arithmetic and conversions\<close>

lemma scn_plus_valid:
  assumes "scn_is_valid s"
  shows "scn_is_valid (scn_plus s d) \<longleftrightarrow>
    uint d < 4611686018427387903 \<and> uint (scn_val s) + uint d < 4611686018427387904"
proof (cases "d < OB_MAX_SCN_TS_NS")
  case True
  then have "uint (scn_val s + d) = uint (scn_val s) + uint d"
    using assms by (intro uint_add_nowrap) (simp add: scn_is_valid_uint word_less_def)
  then show ?thesis
    using assms True by (auto simp: scn_plus_def Let_def scn_is_valid_uint word_less_def word_le_def)
next
  case False
  then show ?thesis
    by (auto simp: scn_plus_def Let_def word_less_def word_le_def)
qed

lemma scn_minus_plus:
  assumes "scn_is_valid s" "scn_is_valid (scn_plus s d)"
  shows "uint (scn_val (scn_plus s d)) = uint (scn_val s) + uint d \<and> scn_minus (scn_plus s d) d = s"
proof -
  have d: "uint d < 4611686018427387903" "uint (scn_val s) + uint d < 4611686018427387904"
    using assms by (simp_all add: scn_plus_valid)
  then have u: "uint (scn_val s + d) = uint (scn_val s) + uint d"
    by (intro uint_add_nowrap) simp
  with assms d have p: "scn_plus s d = SCN (scn_val s + d)"
    by (auto simp: scn_plus_def word_le_def word_less_def)
  with assms d u show ?thesis
    by (auto simp: scn_minus_def word_le_def word_less_def)
qed

lemma scn_inc_dec:
  assumes "scn_is_valid s" "s \<noteq> scn_set_max"
  shows "scn_lt s (scn_inc s) \<and> scn_dec (scn_inc s) = s \<and> (\<forall>t. scn_lt s t \<longrightarrow> scn_le (scn_inc s) t)"
proof -
  have v: "uint (scn_val s) < 4611686018427387903"
    using assms scn_ext [of s scn_set_max] by (fastforce simp: scn_is_valid_uint)
  then have u: "uint (scn_val s + 1) = uint (scn_val s) + 1"
    by (subst uint_add_nowrap) simp_all
  have nz: "scn_val s + 1 \<noteq> 0"
  proof
    assume "scn_val s + 1 = 0"
    then have "uint (scn_val s) + 1 = 0" using u by simp
    then show False using uint_ge_0 [of "scn_val s"] by linarith
  qed
  have i: "scn_inc s = SCN (scn_val s + 1)"
    using v by (simp add: scn_inc_def word_le_def)
  with u v have ok: "scn_is_valid (scn_inc s)" "scn_rank (scn_inc s) = scn_rank s + 1"
    by (simp_all add: scn_is_valid_uint scn_rank_def)
  from i ok(1) nz have "scn_dec (scn_inc s) = s"
    by (simp add: scn_dec_def OB_MIN_SCN_TS_NS_def)
  with ok show ?thesis by (auto simp: scn_cmp_rank)
qed

lemma scn_tx_roundtrip:
  assumes "scn_is_valid s"
  shows "scn_convert_for_tx this (scn_get_val_for_tx s) = (OB_SUCCESS, s)"
proof (cases "s = scn_set_max")
  case True
  then have "OB_MAX_SCN_TS_NS = ucast (scn_ts_ns s)"
    using scn_ts_ns_valid [OF assms] by (simp add: word_uint_eq_iff)
  then show ?thesis
    using assms True scn_ext [of "SCN OB_MAX_SCN_TS_NS" scn_set_max]
    by (simp add: scn_get_val_for_tx_def scn_convert_for_tx_def)
next
  case False
  have v: "uint (scn_val s) < 4611686018427387903"
    using assms False scn_ext [of s scn_set_max] by (fastforce simp: scn_is_valid_uint)
  then have "scn_get_val_for_tx s = uint (scn_val s)"
    using assms scn_ts_ns_valid [OF assms] by (auto simp: scn_get_val_for_tx_def word_uint_eq_iff)
  with v show ?thesis
    by (auto simp: scn_convert_for_tx_def INT64_MAX_def word_less_def)
qed

section \<open>Properties\<close>

text \<open>C36. The four comparison operators of SCN are one total preorder: \<open><\<close> is the negation of
  \<open>\<ge>\<close>, \<open>>\<close> is the converse of \<open><\<close>, \<open>\<le>\<close> is total and transitive; between valid values they
  compare \<^verbatim>\<open>val_\<close>, and every invalid value is below every valid one.\<close>

theorem scn_total_preorder:
  "(scn_lt a b \<longleftrightarrow> \<not> scn_ge a b) \<and> (scn_gt a b \<longleftrightarrow> scn_lt b a) \<and> (scn_le a b \<longleftrightarrow> scn_ge b a)
   \<and> (scn_le a b \<or> scn_le b a) \<and> (scn_le a b \<and> scn_le b c \<longrightarrow> scn_le a c)
   \<and> (scn_is_valid a \<and> scn_is_valid b \<longrightarrow> (scn_lt a b \<longleftrightarrow> scn_val a < scn_val b))
   \<and> (\<not> scn_is_valid a \<and> scn_is_valid b \<longrightarrow> scn_lt a b)"
  by (auto simp: scn_cmp_rank scn_rank_def word_less_def)

theorem scn_total_preorder_witness:
  "scn_lt (SCN 3) (SCN 7) \<and> scn_lt scn_reset (SCN 7)"
  using scn_total_preorder [of "SCN 3" "SCN 7" "SCN 7"] scn_total_preorder [of scn_reset "SCN 7" "SCN 7"]
  by (auto simp: scn_is_valid_uint)

text \<open>C37. A compare-and-swap update keeps no smaller (larger) value: whatever values other threads
  store between the attempts, \<^verbatim>\<open>inc_update\<close> ends, returns the value the object then holds, and that
  value is at least the argument; \<^verbatim>\<open>dec_update\<close> is its mirror image.  Neither invents a value.\<close>

theorem scn_update_under_interference:
  "(case scn_inc_update env this ref of (r, c) \<Rightarrow> r = c \<and> scn_ge r ref \<and> r \<in> {this, ref} \<union> set env)
   \<and> (case scn_dec_update env this ref of (r, c) \<Rightarrow> r = c \<and> scn_le r ref \<and> r \<in> {this, ref} \<union> set env)"
  using scn_inc_update_loop_spec [of env this this ref] scn_dec_update_loop_spec [of env this this ref]
  by (auto simp: scn_inc_update_def scn_dec_update_def)

lemma scn_transform_max_valid [simp]: "scn_is_valid s \<Longrightarrow> scn_transform_max s = s"
  by (auto simp: scn_transform_max_def INT64_MAX_def scn_is_valid_uint)

text \<open>The fixed-length SCN serializers meet the codec contract that the log headers rely on.\<close>

interpretation scn_codec: byte_codec scn_fixed_serialize scn_fixed_deserialize_without_transform 8
  "\<lambda>s. be64 (scn_val s)" "\<lambda>bs. SCN (of_be64 bs)"
proof unfold_locales
  fix p n b and v :: SCN
  show "n < p + 8 \<Longrightarrow>
      \<exists>ret. ret \<noteq> OB_SUCCESS \<and> scn_fixed_serialize (Some b) n p v = (ret, Some b, p)"
    using i64.enc_full [of n p b "scn_val v"] by (auto simp: scn_fixed_serialize_def)
  show "\<exists>ret. ret \<noteq> OB_SUCCESS \<and> scn_fixed_serialize None n p v = (ret, None, p)"
    by (simp add: scn_fixed_serialize_def)
  show "n < p + 8 \<Longrightarrow> \<exists>ret. scn_fixed_deserialize_without_transform (Some b) n p = Inl ret"
    using i64.dec_full [of n p b] by (auto simp: scn_fixed_deserialize_without_transform_def)
qed (auto simp: scn_fixed_serialize_def scn_fixed_deserialize_without_transform_def i64.enc_room
      i64.dec_room i64.length_to_bytes i64.of_to_bytes)

text \<open>C38. Both serializations of a valid SCN round-trip: whenever the encoder reports success, the
  matching decoder started at the same position yields the same SCN and the same end position.\<close>

theorem scn_serialize_roundtrip:
  assumes "n \<le> length b" and "scn_is_valid s"
  shows "(scn_fixed_serialize (Some b) n p s = (OB_SUCCESS, b', p')
            \<longrightarrow> scn_fixed_deserialize b' n p = Inr (s, p'))
       \<and> (scn_serialize (Some b) n p s = (OB_SUCCESS, b', p')
            \<longrightarrow> scn_deserialize b' n p = Some (Inr (s, p')) \<and> p' = p + scn_get_serialize_size s)"
proof -
  have "scn_fixed_serialize (Some b) n p s = (OB_SUCCESS, b', p') \<Longrightarrow>
      scn_fixed_deserialize b' n p = Inr (s, p')"
    using scn_codec.roundtrip [OF _ assms(1), of p s b' p'] assms(2)
    by (simp add: scn_fixed_deserialize_def)
  moreover have "scn_serialize (Some b) n p s = (OB_SUCCESS, b', p') \<Longrightarrow>
      scn_deserialize b' n p = Some (Inr (s, p')) \<and> p' = p + scn_get_serialize_size s"
    using vi64_encode_decode [OF assms(1), of p "scn_val s"] encode_vi64_Some [OF assms(1), of p "scn_val s"]
      assms(2)
    by (auto simp: scn_serialize_def scn_deserialize_def scn_get_serialize_size_def split: if_splits)
  ultimately show ?thesis by blast
qed

theorem scn_serialize_roundtrip_witness:
  "scn_fixed_deserialize (fst (snd (scn_fixed_serialize (Some (replicate 8 0)) 8 0 (SCN 5)))) 8 0
     = Inr (SCN 5, 8)"
  using scn_serialize_roundtrip [of 8 "replicate 8 0" "SCN 5" 0
      "fst (snd (scn_fixed_serialize (Some (replicate 8 0)) 8 0 (SCN 5)))" 8]
    scn_codec.enc_room [of 0 8 "replicate 8 0" "SCN 5"]
  by (simp add: scn_is_valid_uint)

end
