(* ===== verification/Lsn.thy ===== *)
theory Lsn
  imports RecordCodec
begin

text \<open>
  The log sequence number of \<^verbatim>\<open>src/logservice/palf/lsn.h\<close> and \<^verbatim>\<open>lsn.cpp\<close>, the constants of
  \<^verbatim>\<open>log_define.h\<close> that size the log files, and the split of an LSN into block and offset.  An LSN
  is a byte position of the log; all of its arithmetic wraps at 64 bits, as \<^verbatim>\<open>uint64_t\<close> does.
\<close>

datatype LSN = LSN (lsn_val: u64)

definition LOG_INVALID_LSN_VAL :: u64 where "LOG_INVALID_LSN_VAL = 0xffffffffffffffff"
definition LOG_MAX_LSN_VAL :: u64 where "LOG_MAX_LSN_VAL = LOG_INVALID_LSN_VAL - 1"
definition PALF_BLOCK_SIZE :: u64 where "PALF_BLOCK_SIZE = 0x3fff000"  \<comment> \<open>\<open>2^26 - 4096\<close>\<close>
definition CLOG_FILE_TAIL_PADDING_TRIGGER :: u64 where "CLOG_FILE_TAIL_PADDING_TRIGGER = 4096"
definition MAX_LOG_BODY_SIZE :: int where "MAX_LOG_BODY_SIZE = 3670016"  \<comment> \<open>3.5 MB\<close>
definition OB_INVALID_LOG_ID :: int where "OB_INVALID_LOG_ID = -1"
definition INVALID_PROPOSAL_ID :: u64 where "INVALID_PROPOSAL_ID = 0x7fffffffffffffff"

lemmas lsn_const [palf_const] =
  LOG_INVALID_LSN_VAL_def LOG_MAX_LSN_VAL_def PALF_BLOCK_SIZE_def
  CLOG_FILE_TAIL_PADDING_TRIGGER_def MAX_LOG_BODY_SIZE_def OB_INVALID_LOG_ID_def

lemma uint_lsn_const [simp]:
  "uint LOG_INVALID_LSN_VAL = 18446744073709551615" "uint PALF_BLOCK_SIZE = 67104768"
  "uint CLOG_FILE_TAIL_PADDING_TRIGGER = 4096"
  by (simp_all add: lsn_const)

definition lsn_reset :: LSN where
  "lsn_reset = LSN LOG_INVALID_LSN_VAL"

definition lsn_is_valid :: "LSN \<Rightarrow> bool" where
  "lsn_is_valid l \<longleftrightarrow> LOG_INVALID_LSN_VAL \<noteq> lsn_val l"

definition lsn_lt :: "LSN \<Rightarrow> LSN \<Rightarrow> bool" where
  "lsn_lt a b \<longleftrightarrow> lsn_val a < lsn_val b"

definition lsn_gt :: "LSN \<Rightarrow> LSN \<Rightarrow> bool" where
  "lsn_gt a b \<longleftrightarrow> lsn_lt b a"

definition lsn_ge :: "LSN \<Rightarrow> LSN \<Rightarrow> bool" where
  "lsn_ge a b \<longleftrightarrow> lsn_lt b a \<or> b = a"

definition lsn_le :: "LSN \<Rightarrow> LSN \<Rightarrow> bool" where
  "lsn_le a b \<longleftrightarrow> lsn_gt b a \<or> b = a"

definition lsn_plus :: "LSN \<Rightarrow> u64 \<Rightarrow> LSN" where
  "lsn_plus l len = LSN (lsn_val l + len)"

definition lsn_minus :: "LSN \<Rightarrow> u64 \<Rightarrow> LSN" where
  "lsn_minus l len = LSN (lsn_val l - len)"

definition lsn_diff :: "LSN \<Rightarrow> LSN \<Rightarrow> u64" where
  "lsn_diff lhs rhs = lsn_val lhs - lsn_val rhs"

definition lsn_2_block :: "LSN \<Rightarrow> u64 \<Rightarrow> u64" where
  "lsn_2_block l block_size = lsn_val l div block_size"

definition lsn_2_offset :: "LSN \<Rightarrow> u64 \<Rightarrow> u64" where
  "lsn_2_offset l block_size = lsn_val l mod block_size"

text \<open>The guard of both serializers is a conjunction: only a null buffer of no length is refused here,
  and the codec behind it refuses the other bad arguments.\<close>

definition lsn_serialize :: "buffer \<Rightarrow> nat \<Rightarrow> nat \<Rightarrow> LSN \<Rightarrow> enc_result" where
  "lsn_serialize buf buf_len pos l =
     (if buf = None \<and> buf_len = 0 then (OB_INVALID_ARGUMENT, buf, pos)
      else case encode_i64 buf buf_len pos (lsn_val l) of
             (ret, buf', new_pos) \<Rightarrow>
               if ret \<noteq> OB_SUCCESS then (OB_BUF_NOT_ENOUGH, buf', pos) else (OB_SUCCESS, buf', new_pos))"

definition lsn_deserialize :: "buffer \<Rightarrow> nat \<Rightarrow> nat \<Rightarrow> LSN dec_result" where
  "lsn_deserialize buf data_len pos =
     (if buf = None \<and> data_len = 0 then Inl OB_INVALID_ARGUMENT
      else case decode_i64 buf data_len pos of
             Inl _ \<Rightarrow> Inl OB_BUF_NOT_ENOUGH
           | Inr (v, new_pos) \<Rightarrow> Inr (LSN v, new_pos))"

lemma lsn_cmp [simp]:
  shows "lsn_lt a b \<longleftrightarrow> uint (lsn_val a) < uint (lsn_val b)"
    and "lsn_gt a b \<longleftrightarrow> uint (lsn_val b) < uint (lsn_val a)"
    and "lsn_le a b \<longleftrightarrow> uint (lsn_val a) \<le> uint (lsn_val b)"
    and "lsn_ge a b \<longleftrightarrow> uint (lsn_val b) \<le> uint (lsn_val a)"
  by (cases a; cases b;
      auto simp: lsn_lt_def lsn_gt_def lsn_le_def lsn_ge_def word_less_def word_uint_eq_iff)+

lemma uint_lsn_2_block: "uint (lsn_2_block l PALF_BLOCK_SIZE) = uint (lsn_val l) div 67104768"
  by (simp add: lsn_2_block_def uint_div)

lemma uint_lsn_2_offset: "uint (lsn_2_offset l PALF_BLOCK_SIZE) = uint (lsn_val l) mod 67104768"
  by (simp add: lsn_2_offset_def uint_mod)

text \<open>The LSN serializers meet the codec contract that the log headers rely on.\<close>

interpretation lsn_codec: byte_codec lsn_serialize lsn_deserialize 8
  "\<lambda>l. be64 (lsn_val l)" "\<lambda>bs. LSN (of_be64 bs)"
proof unfold_locales
  fix p n b and v :: LSN
  show "n < p + 8 \<Longrightarrow> \<exists>ret. ret \<noteq> OB_SUCCESS \<and> lsn_serialize (Some b) n p v = (ret, Some b, p)"
    using i64.enc_full [of n p b "lsn_val v"] by (auto simp: lsn_serialize_def)
  show "\<exists>ret. ret \<noteq> OB_SUCCESS \<and> lsn_serialize None n p v = (ret, None, p)"
    using i64.enc_null [of n p "lsn_val v"] by (auto simp: lsn_serialize_def)
  show "n < p + 8 \<Longrightarrow> \<exists>ret. lsn_deserialize (Some b) n p = Inl ret"
    using i64.dec_full [of n p b] by (auto simp: lsn_deserialize_def)
qed (simp_all add: lsn_serialize_def lsn_deserialize_def i64.enc_room i64.dec_room
      i64.length_to_bytes i64.of_to_bytes)

end
