(* ===== verification/LsnAllocator.thy ===== *)
theory LsnAllocator
  imports Scn Lsn
begin

text \<open>
  The position allocator of the leader, \<^verbatim>\<open>src/logservice/palf/lsn_allocator.cpp\<close>.  Its state is one
  128-bit word \<^verbatim>\<open>lsn_ts_meta_\<close> (end LSN, deltas of log id and SCN, the cut flag) that the operations
  read with \<^verbatim>\<open>LOAD128\<close> and change with \<^verbatim>\<open>CAS128\<close>, and two bases that only change under the write
  lock.  Each operation is modelled whole; \<open>alloc_plan\<close> is the pure computation that
  \<^verbatim>\<open>alloc_lsn_scn\<close> performs between a load and the compare-and-swap, so that the sequential
  operation and the interleaving of theory \<open>LsnAllocConc\<close> share it.  The bit fields are kept at
  their widths; \<^verbatim>\<open>int64_t\<close> log ids are integers.
\<close>

record LSNTsMeta =
  is_need_cut :: bool
  log_id_delta :: "28 word"
  scn_delta :: "35 word"
  meta_lsn :: u64

record LSNAllocator =
  lsn_ts_meta :: LSNTsMeta
  log_id_base :: int
  scn_base :: u64
  la_inited :: bool

definition LOG_ID_DELTA_UPPER_BOUND :: int where "LOG_ID_DELTA_UPPER_BOUND = 2 ^ 28 - 1000"
definition LOG_TS_DELTA_UPPER_BOUND :: u64 where "LOG_TS_DELTA_UPPER_BOUND = 34359737368"  \<comment> \<open>\<open>2^35 - 1000\<close>\<close>
definition LOG_CUT_TRIGGER :: u64 where "LOG_CUT_TRIGGER = 0x200000"
definition LOG_CUT_TRIGGER_MASK :: u64 where "LOG_CUT_TRIGGER_MASK = 0x1fffff"
definition GROUP_HEADER_SER_SIZE :: int where "GROUP_HEADER_SER_SIZE = 56"

lemmas la_const [palf_const] =
  LOG_ID_DELTA_UPPER_BOUND_def LOG_TS_DELTA_UPPER_BOUND_def LOG_CUT_TRIGGER_def
  LOG_CUT_TRIGGER_MASK_def GROUP_HEADER_SER_SIZE_def

section \<open>Operations\<close>

definition la_reset :: LSNAllocator where
  "la_reset =
     \<lparr>lsn_ts_meta = \<lparr>is_need_cut = True, log_id_delta = 0, scn_delta = 0, meta_lsn = 0\<rparr>,
      log_id_base = OB_INVALID_LOG_ID, scn_base = 0, la_inited = False\<rparr>"

definition la_init :: "LSNAllocator \<Rightarrow> int \<Rightarrow> SCN \<Rightarrow> LSN \<Rightarrow> ob_ret \<times> LSNAllocator" where
  "la_init a log_id scn start_lsn =
     (if la_inited a then (OB_INIT_TWICE, a)
      else if OB_INVALID_LOG_ID = log_id \<or> \<not> scn_is_valid scn \<or> \<not> lsn_is_valid start_lsn
      then (OB_INVALID_ARGUMENT, a)
      else (OB_SUCCESS,
            a\<lparr>log_id_base := log_id, scn_base := scn_get_val_for_logservice scn,
              lsn_ts_meta := \<lparr>is_need_cut = True, log_id_delta = 0, scn_delta = 0,
                              meta_lsn = lsn_val start_lsn\<rparr>,
              la_inited := True\<rparr>))"

text \<open>\<^verbatim>\<open>CAS128\<close>: the word is replaced when it still equals the loaded value.  An operation that runs
  alone loads the word and swaps it in one go; the loops that retry a failed swap then end with the
  first attempt, whose effect is \<open>la_swap\<close>.\<close>

definition cas128 :: "LSNAllocator \<Rightarrow> LSNTsMeta \<Rightarrow> LSNTsMeta \<Rightarrow> LSNAllocator option" where
  "cas128 a lst next = (if lsn_ts_meta a = lst then Some (a\<lparr>lsn_ts_meta := next\<rparr>) else None)"

definition la_swap :: "LSNAllocator \<Rightarrow> LSNTsMeta \<Rightarrow> LSNTsMeta \<Rightarrow> LSNAllocator" where
  "la_swap a lst next = (case cas128 a lst next of Some a' \<Rightarrow> a' | None \<Rightarrow> a)"

definition la_cur_log_id :: "LSNAllocator \<Rightarrow> LSNTsMeta \<Rightarrow> int" where
  "la_cur_log_id a lst = log_id_base a + uint (log_id_delta lst)"

definition la_cur_scn :: "LSNAllocator \<Rightarrow> LSNTsMeta \<Rightarrow> u64" where
  "la_cur_scn a lst = scn_base a + ucast (scn_delta lst)"

definition la_truncate :: "LSNAllocator \<Rightarrow> LSN \<Rightarrow> int \<Rightarrow> SCN \<Rightarrow> ob_ret \<times> LSNAllocator" where
  "la_truncate a lsn log_id scn =
     (if \<not> la_inited a then (OB_NOT_INIT, a)
      else if \<not> lsn_is_valid lsn \<or> OB_INVALID_LOG_ID = log_id \<or> \<not> scn_is_valid scn
      then (OB_INVALID_ARGUMENT, a)
      else let lst = lsn_ts_meta a;
               next = \<lparr>is_need_cut = True, log_id_delta = 0, scn_delta = 0, meta_lsn = lsn_val lsn\<rparr>
           in (OB_SUCCESS, (la_swap a lst next)\<lparr>log_id_base := log_id,
                                          scn_base := scn_get_val_for_logservice scn\<rparr>))"

text \<open>The branch of \<^verbatim>\<open>inc_update_last_log_info\<close> that runs under the write lock.\<close>

definition la_inc_update_base :: "LSNAllocator \<Rightarrow> LSN \<Rightarrow> int \<Rightarrow> SCN \<Rightarrow> ob_ret \<times> LSNAllocator" where
  "la_inc_update_base a lsn log_id scn =
     (let lst = lsn_ts_meta a;
          next = \<lparr>is_need_cut = True, log_id_delta = 0, scn_delta = 0, meta_lsn = lsn_val lsn\<rparr>
      in if log_id < la_cur_log_id a lst \<or> lsn_val lsn < meta_lsn lst then (OB_SUCCESS, a)
         else case cas128 a lst next of
                Some a' \<Rightarrow> (OB_SUCCESS, a'\<lparr>log_id_base := log_id,
                                          scn_base := scn_get_val_for_logservice scn\<rparr>)
              | None \<Rightarrow> (OB_ERR_UNEXPECTED, a))"

definition la_inc_update_last_log_info ::
  "LSNAllocator \<Rightarrow> LSN \<Rightarrow> int \<Rightarrow> SCN \<Rightarrow> ob_ret \<times> LSNAllocator" where
  "la_inc_update_last_log_info a lsn log_id scn =
     (if \<not> la_inited a then (OB_NOT_INIT, a)
      else if \<not> lsn_is_valid lsn \<or> \<not> scn_is_valid scn \<or> OB_INVALID_LOG_ID = log_id
      then (OB_INVALID_ARGUMENT, a)
      else let lst = lsn_ts_meta a;
               sval = scn_get_val_for_logservice scn
           in if log_id < la_cur_log_id a lst \<or> lsn_val lsn < meta_lsn lst then (OB_SUCCESS, a)
              else if log_id - log_id_base a \<ge> LOG_ID_DELTA_UPPER_BOUND
              then la_inc_update_base a lsn log_id scn
              else if sval - scn_base a \<ge> LOG_TS_DELTA_UPPER_BOUND
              then la_inc_update_base a lsn log_id scn
              else let next = \<lparr>is_need_cut = True, log_id_delta = word_of_int (log_id - log_id_base a),
                               scn_delta = ucast (sval - scn_base a), meta_lsn = lsn_val lsn\<rparr>
                   in (OB_SUCCESS, la_swap a lst next))"

definition la_inc_update_scn_base :: "LSNAllocator \<Rightarrow> SCN \<Rightarrow> ob_ret \<times> LSNAllocator" where
  "la_inc_update_scn_base a ref_scn =
     (if \<not> la_inited a then (OB_NOT_INIT, a)
      else if \<not> scn_is_valid ref_scn then (OB_INVALID_ARGUMENT, a)
      else let lst = lsn_ts_meta a;
               next = lst\<lparr>scn_delta := 0, is_need_cut := True\<rparr>;
               scn = scn_get_val_for_logservice ref_scn
           in if la_cur_scn a lst > scn then (OB_SUCCESS, a)
              else (OB_SUCCESS, (la_swap a lst next)\<lparr>scn_base := scn\<rparr>))"

definition la_get_max_log_id :: "LSNAllocator \<Rightarrow> int" where
  "la_get_max_log_id a =
     (if \<not> la_inited a then OB_INVALID_LOG_ID else la_cur_log_id a (lsn_ts_meta a))"

definition la_get_max_scn :: "LSNAllocator \<Rightarrow> SCN" where
  "la_get_max_scn a =
     (if \<not> la_inited a then scn_reset
      else snd (scn_convert_for_logservice scn_reset (la_cur_scn a (lsn_ts_meta a))))"

definition la_get_curr_end_lsn :: "LSNAllocator \<Rightarrow> LSN \<Rightarrow> ob_ret \<times> LSN" where
  "la_get_curr_end_lsn a curr_end_lsn =
     (if \<not> la_inited a then (OB_NOT_INIT, curr_end_lsn)
      else (OB_SUCCESS, LSN (meta_lsn (lsn_ts_meta a))))"

text \<open>The two freezes differ in the code they return for a log that is already cut.  The result
  carries the output arguments \<^verbatim>\<open>last_lsn\<close> and \<^verbatim>\<open>last_log_id\<close>.\<close>

definition la_try_freeze_by_time ::
  "LSNAllocator \<Rightarrow> LSN \<Rightarrow> int \<Rightarrow> ob_ret \<times> LSNAllocator \<times> LSN \<times> int" where
  "la_try_freeze_by_time a last_lsn last_log_id =
     (if \<not> la_inited a then (OB_NOT_INIT, a, last_lsn, last_log_id)
      else let lst = lsn_ts_meta a in
        if is_need_cut lst
        then (OB_STATE_NOT_MATCH, a, LSN (meta_lsn lst), la_cur_log_id a lst)
        else (OB_SUCCESS, la_swap a lst (lst\<lparr>is_need_cut := True\<rparr>),
              LSN (meta_lsn lst), la_cur_log_id a lst))"

definition la_try_freeze ::
  "LSNAllocator \<Rightarrow> LSN \<Rightarrow> int \<Rightarrow> ob_ret \<times> LSNAllocator \<times> LSN \<times> int" where
  "la_try_freeze a last_lsn last_log_id =
     (if \<not> la_inited a then (OB_NOT_INIT, a, last_lsn, last_log_id)
      else let lst = lsn_ts_meta a in
        if is_need_cut lst
        then (OB_SUCCESS, a, LSN (meta_lsn lst), la_cur_log_id a lst)
        else (OB_SUCCESS, la_swap a lst (lst\<lparr>is_need_cut := True\<rparr>),
              LSN (meta_lsn lst), la_cur_log_id a lst))"

section \<open>Allocation\<close>

text \<open>The output arguments of \<^verbatim>\<open>alloc_lsn_scn\<close>, and its input arguments.\<close>

record AllocOut =
  out_lsn :: u64
  out_log_id :: int
  out_scn :: SCN
  out_is_new :: bool
  out_need_padding :: bool
  out_padding_len :: int

record AllocReq =
  req_base_scn :: SCN
  req_size :: int
  req_log_id_upper_bound :: int
  req_lsn_upper_bound :: LSN

text \<open>Whether the log starts a new group, its end offset in the block and whether the next log must be
  cut; the code first decides this from the 2 MB boundaries (\<open>alloc_cut\<close>), then from the block
  tail (\<open>alloc_tail\<close>).\<close>

definition alloc_cut :: "bool \<Rightarrow> u64 \<Rightarrow> u64 \<Rightarrow> u64 \<Rightarrow> ob_ret \<times> bool \<times> u64 \<times> bool" where
  "alloc_cut need_cut last_block_offset sz new_group_log_size =
     (let in_unit = last_block_offset AND LOG_CUT_TRIGGER_MASK in
      if need_cut then
        (OB_SUCCESS, True, last_block_offset + new_group_log_size,
         in_unit + new_group_log_size \<ge> LOG_CUT_TRIGGER)
      else if last_block_offset > 0 \<and> in_unit = 0 then
        (OB_ERR_UNEXPECTED, False, 0, False)
      else if last_block_offset > 0 \<and> in_unit + sz > LOG_CUT_TRIGGER then
        (OB_SUCCESS, True, last_block_offset + new_group_log_size,
         in_unit + new_group_log_size \<ge> LOG_CUT_TRIGGER)
      else
        (OB_SUCCESS, False, last_block_offset + sz, in_unit + sz \<ge> LOG_CUT_TRIGGER))"

text \<open>The result: the block id, the offset, whether a new group starts, whether a padding entry comes
  first, its length, and whether the next log must be cut.\<close>

definition alloc_tail ::
  "u64 \<Rightarrow> u64 \<Rightarrow> u64 \<Rightarrow> bool \<Rightarrow> u64 \<Rightarrow> bool \<Rightarrow> u64 \<times> u64 \<times> bool \<times> bool \<times> int \<times> bool" where
  "alloc_tail block_id last_block_offset new_group_log_size is_new offset next_cut =
     (if offset < PALF_BLOCK_SIZE then
        if PALF_BLOCK_SIZE - offset < CLOG_FILE_TAIL_PADDING_TRIGGER then
          (block_id + 1, new_group_log_size, True, True,
           sint (PALF_BLOCK_SIZE - last_block_offset), new_group_log_size \<ge> LOG_CUT_TRIGGER)
        else (block_id, offset, is_new, False, 0, next_cut)
      else if offset = PALF_BLOCK_SIZE then
        (block_id + 1, 0, is_new, False, 0, True)
      else
        (block_id + 1, new_group_log_size, True, True,
         sint (PALF_BLOCK_SIZE - last_block_offset), new_group_log_size \<ge> LOG_CUT_TRIGGER))"

record AllocPlan =
  plan_ret :: ob_ret
  plan_next :: LSNTsMeta
  plan_is_new :: bool
  plan_need_padding :: bool
  plan_padding_len :: int
  plan_scn_delta :: u64     \<comment> \<open>\<^verbatim>\<open>output_next_scn_delta\<close>\<close>
  plan_new_log_id :: int

definition alloc_next_scn :: "LSNAllocator \<Rightarrow> LSNTsMeta \<Rightarrow> SCN \<Rightarrow> u64" where
  "alloc_next_scn a lst base_scn =
     max (scn_get_val_for_logservice base_scn) (la_cur_scn a lst + 1)"

definition alloc_need_update_base :: "LSNAllocator \<Rightarrow> LSNTsMeta \<Rightarrow> SCN \<Rightarrow> bool" where
  "alloc_need_update_base a lst base_scn \<longleftrightarrow>
     (alloc_next_scn a lst base_scn + 1) - scn_base a \<ge> LOG_TS_DELTA_UPPER_BOUND
     \<or> uint (log_id_delta lst) + 2 \<ge> LOG_ID_DELTA_UPPER_BOUND"

definition alloc_plan :: "LSNAllocator \<Rightarrow> LSNTsMeta \<Rightarrow> SCN \<Rightarrow> int \<Rightarrow> AllocPlan" where
  "alloc_plan a lst base_scn sz =
     (let new_group_log_size = sz + GROUP_HEADER_SER_SIZE;
          block_id = lsn_2_block (LSN (meta_lsn lst)) PALF_BLOCK_SIZE;
          next_scn_delta = alloc_next_scn a lst base_scn - scn_base a;
          last_block_offset = lsn_2_offset (LSN (meta_lsn lst)) PALF_BLOCK_SIZE;
          (ret, is_new, offset, next_cut) =
            alloc_cut (is_need_cut lst) last_block_offset (word_of_int sz)
              (word_of_int new_group_log_size);
          (block_id, offset, is_new, pad, padding_len, next_cut) =
            alloc_tail block_id last_block_offset (word_of_int new_group_log_size) is_new offset next_cut;
          next_log_id_delta = ucast (log_id_delta lst) + (if is_new then 1 else 0)
            + (if pad then 1 else 0) :: u64;
          last_log_id = la_cur_log_id a lst
      in \<lparr>plan_ret = ret,
          plan_next =
            \<lparr>is_need_cut = next_cut, log_id_delta = ucast next_log_id_delta,
             scn_delta = ucast (next_scn_delta + (if pad then 1 else 0)),
             meta_lsn = block_id * PALF_BLOCK_SIZE + offset\<rparr>,
          plan_is_new = is_new, plan_need_padding = pad, plan_padding_len = padding_len,
          plan_scn_delta = next_scn_delta,
          plan_new_log_id = (if is_new then last_log_id + 1 else last_log_id) + (if pad then 1 else 0)\<rparr>)"

text \<open>The part under the write lock, entered when a delta would leave its bit field.\<close>

definition alloc_update_base :: "LSNAllocator \<Rightarrow> SCN \<Rightarrow> ob_ret \<times> LSNAllocator" where
  "alloc_update_base a base_scn =
     (let lst = lsn_ts_meta a;
          a' = a\<lparr>log_id_base := la_cur_log_id a lst,
                 scn_base := max (scn_get_val_for_logservice base_scn) (la_cur_scn a lst)\<rparr>
      in case cas128 a' lst (lst\<lparr>scn_delta := 0, log_id_delta := 0\<rparr>) of
           Some a'' \<Rightarrow> (OB_SUCCESS, a'')
         | None \<Rightarrow> (OB_ERR_UNEXPECTED, a'))"

definition alloc_exceeds :: "AllocPlan \<Rightarrow> AllocReq \<Rightarrow> bool" where
  "alloc_exceeds p r \<longleftrightarrow>
     plan_new_log_id p > req_log_id_upper_bound r
     \<or> lsn_gt (LSN (meta_lsn (plan_next p))) (req_lsn_upper_bound r)"

text \<open>What the operation returns and stores into its output arguments once its swap has succeeded;
  \<^verbatim>\<open>OB_FAIL\<close> assigns the result of \<^verbatim>\<open>convert_for_logservice\<close> to \<^verbatim>\<open>ret\<close>.\<close>

definition alloc_finish :: "LSNAllocator \<Rightarrow> LSNTsMeta \<Rightarrow> AllocPlan \<Rightarrow> AllocOut \<Rightarrow> ob_ret \<times> AllocOut" where
  "alloc_finish a lst p out =
     (let last_log_id = la_cur_log_id a lst;
          (ret, scn) = scn_convert_for_logservice (out_scn out) (scn_base a + plan_scn_delta p)
      in (ret, out\<lparr>out_lsn := meta_lsn lst,
                   out_log_id := (if plan_is_new p then last_log_id + 1 else last_log_id),
                   out_scn := scn, out_is_new := plan_is_new p,
                   out_need_padding := plan_need_padding p, out_padding_len := plan_padding_len p\<rparr>))"

definition alloc_out_flags :: "AllocPlan \<Rightarrow> AllocOut \<Rightarrow> AllocOut" where
  "alloc_out_flags p out =
     out\<lparr>out_is_new := plan_is_new p, out_need_padding := plan_need_padding p,
         out_padding_len := plan_padding_len p\<rparr>"

definition alloc_out_clear :: "AllocOut \<Rightarrow> AllocOut" where
  "alloc_out_clear out = out\<lparr>out_is_new := False, out_need_padding := False, out_padding_len := 0\<rparr>"

text \<open>The outer \<^verbatim>\<open>do ... while (need_update_base)\<close>; the first argument bounds its iterations.\<close>

fun alloc_loop ::
  "nat \<Rightarrow> bool \<Rightarrow> LSNAllocator \<Rightarrow> AllocReq \<Rightarrow> AllocOut \<Rightarrow> (ob_ret \<times> LSNAllocator \<times> AllocOut) option" where
  "alloc_loop 0 need_update a r out = None"
| "alloc_loop (Suc fuel) need_update a r out =
     (let (ret, a) = (if need_update then alloc_update_base a (req_base_scn r) else (OB_SUCCESS, a)) in
      if ret \<noteq> OB_SUCCESS then Some (ret, a, out)
      else let lst = lsn_ts_meta a in
        if alloc_need_update_base a lst (req_base_scn r)
        then alloc_loop fuel True a r (alloc_out_clear out)
        else let p = alloc_plan a lst (req_base_scn r) (req_size r) in
          if alloc_exceeds p r then Some (OB_EAGAIN, a, alloc_out_flags p out)
          else let (ret, out') = alloc_finish a lst p out
               in Some (ret, la_swap a lst (plan_next p), out'))"

definition alloc_args_ok :: "AllocReq \<Rightarrow> bool" where
  "alloc_args_ok r \<longleftrightarrow> \<not> (req_size r \<le> 0 \<or> \<not> scn_is_valid (req_base_scn r)
      \<or> req_log_id_upper_bound r \<le> 0 \<or> \<not> lsn_is_valid (req_lsn_upper_bound r))"

definition alloc_lsn_scn ::
  "nat \<Rightarrow> LSNAllocator \<Rightarrow> AllocReq \<Rightarrow> AllocOut \<Rightarrow> (ob_ret \<times> LSNAllocator \<times> AllocOut) option" where
  "alloc_lsn_scn fuel a r out =
     (if \<not> la_inited a then Some (OB_NOT_INIT, a, out)
      else if \<not> alloc_args_ok r then Some (OB_INVALID_ARGUMENT, a, out)
      else alloc_loop fuel False a r out)"

section \<open>Invariant\<close>

text \<open>The offset of the end LSN leaves room for at least the tail trigger, and a log that may still
  grow never ends on a 2 MB boundary; the largest SCN handed out is valid and the LSN space is not
  exhausted.\<close>

definition meta_inv :: "LSNTsMeta \<Rightarrow> bool" where
  "meta_inv m \<longleftrightarrow>
     meta_lsn m \<le> 0x8000000000000000
     \<and> lsn_2_offset (LSN (meta_lsn m)) PALF_BLOCK_SIZE \<le> PALF_BLOCK_SIZE - CLOG_FILE_TAIL_PADDING_TRIGGER
     \<and> (\<not> is_need_cut m \<longrightarrow>
          lsn_2_offset (LSN (meta_lsn m)) PALF_BLOCK_SIZE AND LOG_CUT_TRIGGER_MASK \<noteq> 0)"

definition la_inv :: "LSNAllocator \<Rightarrow> bool" where
  "la_inv a \<longleftrightarrow> la_inited a \<and> meta_inv (lsn_ts_meta a)
     \<and> uint (scn_base a) + uint (scn_delta (lsn_ts_meta a)) < 2 ^ 62"

text \<open>The sizes \<^verbatim>\<open>submit_log\<close> allocates: a body of at most \<^verbatim>\<open>MAX_LOG_BODY_SIZE\<close> and the entry header
  of 32 bytes.\<close>

definition log_size_ok :: "int \<Rightarrow> bool" where
  "log_size_ok sz \<longleftrightarrow> 0 < sz \<and> sz \<le> MAX_LOG_BODY_SIZE + 32"

lemma uint_la_const [simp]:
  "uint LOG_CUT_TRIGGER = 2097152" "uint LOG_TS_DELTA_UPPER_BOUND = 34359737368"
  "uint (PALF_BLOCK_SIZE - CLOG_FILE_TAIL_PADDING_TRIGGER) = 67100672"
  by (simp_all add: la_const lsn_const)

lemma cut_mask: "uint (x AND LOG_CUT_TRIGGER_MASK) = uint x mod 2097152"
proof -
  have "LOG_CUT_TRIGGER_MASK = mask 21" by (simp add: la_const mask_eq_exp_minus_1)
  then show ?thesis using uint_and_mask [of x 21] by simp
qed

lemma pos_mod_iff: "x mod n \<noteq> 0 \<longleftrightarrow> 0 < x mod n" if "0 < n" for x n :: int
  using pos_mod_sign [OF that, of x] by linarith

lemma pad_to_multiple: "(x + (c - x mod c)) mod c = 0" for x c :: int
proof -
  have "x + (c - x mod c) = (x div c + 1) * c"
    using minus_mod_eq_div_mult [of x c] by (simp add: distrib_right)
  then show ?thesis by simp
qed

lemma meta_inv_uint:
  "meta_inv m \<longleftrightarrow> uint (meta_lsn m) \<le> 9223372036854775808
     \<and> uint (meta_lsn m) mod 67104768 \<le> 67100672
     \<and> (\<not> is_need_cut m \<longrightarrow> 0 < uint (meta_lsn m) mod 67104768 mod 2097152)"
  by (simp add: meta_inv_def word_le_def word_uint_eq_iff uint_lsn_2_offset cut_mask
        pos_mod_iff [symmetric])

lemma alloc_cut_spec:
  assumes res: "alloc_cut nc off s g = (ret, is_new, offset, nxt_cut)"
    and s: "uint s = sz" and g: "uint g = sz + 56"
    and sz: "0 < sz" "sz \<le> 3670048" and off: "uint off \<le> 67100672"
    and unit: "\<not> nc \<longrightarrow> 0 < uint off mod 2097152"
  shows "ret = OB_SUCCESS \<and> uint offset = uint off + (if is_new then sz + 56 else sz)
    \<and> (\<not> nxt_cut \<longrightarrow> 0 < uint offset mod 2097152)"
proof -
  have o: "uint (off + s) = uint off + sz" "uint (off + g) = uint off + (sz + 56)"
    using uint_add_nowrap [of off s] uint_add_nowrap [of off g] sz off s g by simp_all
  let ?u = "off AND LOG_CUT_TRIGGER_MASK"
  have u: "uint ?u = uint off mod 2097152" "uint off mod 2097152 < 2097152" "0 \<le> uint off mod 2097152"
    by (simp_all add: cut_mask)
  have o': "uint (?u + s) = uint off mod 2097152 + sz" "uint (?u + g) = uint off mod 2097152 + (sz + 56)"
    using uint_add_nowrap [of ?u s] uint_add_nowrap [of ?u g] sz u(2) s g by (simp_all add: u(1))
  have grow: "0 < (uint off + d) mod 2097152" if "0 < d" "uint off mod 2097152 + d < 2097152" for d
  proof -
    have "(uint off + d) mod 2097152 = (uint off mod 2097152 + d) mod 2097152"
      by (simp add: mod_add_left_eq)
    then show ?thesis using that u by simp
  qed
  show ?thesis
    using res sz unit u grow [of sz] grow [of "sz + 56"] o o'
    by (auto simp: alloc_cut_def Let_def word_less_def word_le_def word_uint_eq_iff simp del: uint_mod
          split: if_splits)
qed

text \<open>Where the log goes: block \<open>q\<close> holds the end LSN before the allocation.\<close>

lemma block_lsn_no_wrap:
  assumes "uint blk = q" "q \<le> 137447342592" "uint x \<le> 67104768"
  shows "uint (blk * PALF_BLOCK_SIZE + x) = q * 67104768 + uint x"
    and "uint ((blk + 1) * PALF_BLOCK_SIZE + x) = (q + 1) * 67104768 + uint x"
proof -
  have q: "0 \<le> q" using assms(1) uint_ge_0 [of blk] by simp
  have b: "uint (blk * PALF_BLOCK_SIZE) = q * 67104768"
    using assms uint_mult_nowrap [of blk PALF_BLOCK_SIZE] by simp
  have "uint (blk + 1) = q + 1"
    using assms uint_add_nowrap [of blk 1] by simp
  then have b': "uint ((blk + 1) * PALF_BLOCK_SIZE) = (q + 1) * 67104768"
    using assms uint_mult_nowrap [of "blk + 1" PALF_BLOCK_SIZE] by simp
  show "uint (blk * PALF_BLOCK_SIZE + x) = q * 67104768 + uint x"
    using assms q uint_add_nowrap [of "blk * PALF_BLOCK_SIZE" x] unfolding b by linarith
  show "uint ((blk + 1) * PALF_BLOCK_SIZE + x) = (q + 1) * 67104768 + uint x"
    using assms q by (subst uint_add_nowrap) (simp_all add: b')
qed

lemma alloc_tail_spec:
  assumes res: "alloc_tail blk off g new0 off0 cut0 = (blk', off', is_new, pad, padding_len, nxt_cut)"
    and q: "uint blk = q" "q \<le> 137447342592"
    and g: "uint g = sz + 56" and sz: "0 < sz" "sz \<le> 3670048" and off: "uint off \<le> 67100672"
    and off0: "uint off0 = uint off + (if new0 then sz + 56 else sz)"
    and cut0: "\<not> cut0 \<longrightarrow> 0 < uint off0 mod 2097152"
  defines "start \<equiv> q * 67104768 + uint off + padding_len" and "len \<equiv> if is_new then sz + 56 else sz"
  shows "uint (blk' * PALF_BLOCK_SIZE + off') = start + len
     \<and> (if pad then is_new \<and> padding_len = 67104768 - uint off else padding_len = 0)
     \<and> start mod 67104768 + len \<le> 67104768
     \<and> uint off' \<le> 67100672 \<and> (start + len) mod 67104768 = uint off'
     \<and> (\<not> nxt_cut \<longrightarrow> 0 < uint off' mod 2097152)"
proof -
  have ge: "0 \<le> uint off" by simp
  consider (fit) "uint off0 \<le> 67100672" | (exact) "uint off0 = 67104768"
    | (pad) "uint off0 > 67100672" "uint off0 \<noteq> 67104768" by linarith
  then show ?thesis
  proof cases
    case fit
    then have r: "(blk', off', is_new, pad, padding_len, nxt_cut) = (blk, off0, new0, False, 0, cut0)"
      using res by (auto simp: alloc_tail_def word_less_def word_uint_eq_iff uint_sub_nowrap split: if_splits)
    then have e: "start = q * 67104768 + uint off" "uint off + len = uint off0"
      using off0 by (simp_all add: start_def len_def)
    then have "start + len = q * 67104768 + uint off0" by simp
    then have "(start + len) mod 67104768 = uint off0"
      using fit by simp
    then show ?thesis
      using block_lsn_no_wrap(1) [OF q, of off0] fit r cut0 e off ge by simp
  next
    case exact
    then have r: "(blk', off', is_new, pad, padding_len, nxt_cut) = (blk + 1, 0, new0, False, 0, True)"
      using res by (auto simp: alloc_tail_def word_less_def word_uint_eq_iff split: if_splits)
    then have e: "start = q * 67104768 + uint off" "uint off + len = 67104768"
      using exact off0 by (simp_all add: start_def len_def)
    then have l: "start + len = (q + 1) * 67104768" by simp
    then have "(start + len) mod 67104768 = 0" by (simp only: mod_mult_self2_is_0)
    then show ?thesis
      using block_lsn_no_wrap(2) [OF q, of 0] r l e off ge by simp
  next
    case pad
    have "uint (PALF_BLOCK_SIZE - off) = 67104768 - uint off"
      using uint_sub_nowrap [of off PALF_BLOCK_SIZE] off by simp
    then have p: "sint (PALF_BLOCK_SIZE - off) = 67104768 - uint off"
      using ge by (subst sint_u64_small) linarith+
    then have r: "(blk', off', is_new, pad, padding_len, nxt_cut)
        = (blk + 1, g, True, True, 67104768 - uint off, g \<ge> LOG_CUT_TRIGGER)"
      using res pad by (auto simp: alloc_tail_def word_less_def word_uint_eq_iff uint_sub_nowrap split: if_splits)
    have e: "start = (q + 1) * 67104768" "len = sz + 56"
      using r by (simp_all add: len_def start_def)
    then have "start mod 67104768 = 0" "(start + len) mod 67104768 = sz + 56"
      using sz by (simp_all only: mod_mult_self2_is_0 mod_mult_self3) simp
    then show ?thesis
      using block_lsn_no_wrap(2) [OF q, of g] r e g sz by (auto simp: word_le_def)
  qed
qed

lemma alloc_plan_position:
  assumes inv: "meta_inv lst" and sz: "log_size_ok sz" and p: "p = alloc_plan a lst base sz"
  defines "L \<equiv> uint (meta_lsn lst)" and "len \<equiv> if plan_is_new p then sz + 56 else sz"
  shows "plan_ret p = OB_SUCCESS
     \<and> uint (meta_lsn (plan_next p)) = L + plan_padding_len p + len
     \<and> (if plan_need_padding p then plan_is_new p \<and> plan_padding_len p = 67104768 - L mod 67104768
        else plan_padding_len p = 0)
     \<and> (L + plan_padding_len p) mod 67104768 + len \<le> 67104768
     \<and> (uint (meta_lsn (plan_next p)) \<le> 9223372036854775808 \<longrightarrow> meta_inv (plan_next p))"
proof -
  let ?off = "lsn_2_offset (LSN (meta_lsn lst)) PALF_BLOCK_SIZE"
  let ?blk = "lsn_2_block (LSN (meta_lsn lst)) PALF_BLOCK_SIZE"
  let ?s = "word_of_int sz :: u64" and ?g = "word_of_int (sz + GROUP_HEADER_SER_SIZE) :: u64"
  obtain ret new0 off0 cut0 where c: "alloc_cut (is_need_cut lst) ?off ?s ?g = (ret, new0, off0, cut0)"
    by (cases "alloc_cut (is_need_cut lst) ?off ?s ?g")
  obtain blk' off' is_new pad padding_len nxt_cut where
    t: "alloc_tail ?blk ?off ?g new0 off0 cut0 = (blk', off', is_new, pad, padding_len, nxt_cut)"
    by (cases "alloc_tail ?blk ?off ?g new0 off0 cut0")
  have sz': "0 < sz" "sz \<le> 3670048"
    using sz by (simp_all add: log_size_ok_def MAX_LOG_BODY_SIZE_def)
  have w: "uint ?s = sz" "uint ?g = sz + 56"
    using sz' uint_of_int_u64 [of sz] uint_of_int_u64 [of "sz + 56"]
    by (simp_all only: GROUP_HEADER_SER_SIZE_def)
  have off: "uint ?off = L mod 67104768" "uint ?off \<le> 67100672"
    using inv by (simp_all add: uint_lsn_2_offset L_def meta_inv_uint)
  have q: "uint ?blk = L div 67104768" "L div 67104768 \<le> 137447342592"
    using inv zdiv_mono1 [of L 9223372036854775808 67104768]
    by (simp_all add: uint_lsn_2_block L_def meta_inv_uint)
  have cut: "ret = OB_SUCCESS \<and> uint off0 = uint ?off + (if new0 then sz + 56 else sz)
      \<and> (\<not> cut0 \<longrightarrow> 0 < uint off0 mod 2097152)"
    using inv off by (intro alloc_cut_spec [OF c w sz']) (simp_all add: meta_inv_uint L_def)
  have eq: "plan_ret p = ret" "is_need_cut (plan_next p) = nxt_cut" "plan_is_new p = is_new"
    "meta_lsn (plan_next p) = blk' * PALF_BLOCK_SIZE + off'" "plan_need_padding p = pad"
    "plan_padding_len p = padding_len"
    unfolding p alloc_plan_def Let_def c t prod.case by simp_all
  have L: "L div 67104768 * 67104768 + uint ?off = L"
    unfolding off(1) by simp
  have T: "uint (blk' * PALF_BLOCK_SIZE + off') = L + padding_len + len
     \<and> (if pad then is_new \<and> padding_len = 67104768 - uint ?off else padding_len = 0)
     \<and> (L + padding_len) mod 67104768 + len \<le> 67104768
     \<and> uint off' \<le> 67100672 \<and> (L + padding_len + len) mod 67104768 = uint off'
     \<and> (\<not> nxt_cut \<longrightarrow> 0 < uint off' mod 2097152)"
    using alloc_tail_spec [OF t q w(2) sz' off(2)] cut unfolding L len_def eq(3) by blast
  then show ?thesis
    using cut unfolding eq meta_inv_uint off(1) by (elim conjE) simp
qed

lemma alloc_plan_fields:
  assumes "p = alloc_plan a lst base sz"
  shows "plan_scn_delta p = alloc_next_scn a lst base - scn_base a"
    and "scn_delta (plan_next p)
      = ucast (alloc_next_scn a lst base - scn_base a + (if plan_need_padding p then 1 else 0))"
    and "log_id_delta (plan_next p) = ucast (ucast (log_id_delta lst) + (if plan_is_new p then 1 else 0)
      + (if plan_need_padding p then 1 else 0) :: u64)"
    and "plan_new_log_id p = la_cur_log_id a lst + (if plan_is_new p then 1 else 0)
      + (if plan_need_padding p then 1 else 0)"
  unfolding assms alloc_plan_def Let_def by (simp_all split: prod.split)

text \<open>The largest SCN and log id a state stands for, and the SCN an allocation from it gets.\<close>

abbreviation max_scn_of :: "LSNAllocator \<Rightarrow> LSNTsMeta \<Rightarrow> int" where
  "max_scn_of a m \<equiv> uint (scn_base a) + uint (scn_delta m)"

abbreviation next_scn_of :: "LSNAllocator \<Rightarrow> LSNTsMeta \<Rightarrow> SCN \<Rightarrow> int" where
  "next_scn_of a m base \<equiv> max (uint (scn_val base)) (max_scn_of a m + 1)"

lemma uint_la_cur_scn:
  assumes "max_scn_of a lst < 4611686018427387904"
  shows "uint (la_cur_scn a lst) = max_scn_of a lst"
proof -
  have "uint (ucast (scn_delta lst) :: u64) = uint (scn_delta lst)"
    by (rule uint_ucast_up) simp
  then show ?thesis
    using assms by (simp add: la_cur_scn_def uint_add_nowrap)
qed

lemma uint_alloc_next_scn:
  assumes "max_scn_of a lst < 4611686018427387904"
  shows "uint (alloc_next_scn a lst base) = next_scn_of a lst base"
    and "uint (alloc_next_scn a lst base - scn_base a) = next_scn_of a lst base - uint (scn_base a)"
proof -
  have "uint (la_cur_scn a lst + 1) = max_scn_of a lst + 1"
    using assms uint_add_nowrap [of "la_cur_scn a lst" 1] by (simp add: uint_la_cur_scn)
  then show *: "uint (alloc_next_scn a lst base) = next_scn_of a lst base"
    by (simp add: alloc_next_scn_def scn_get_val_for_logservice_def)
  have "uint (scn_base a) \<le> next_scn_of a lst base"
    using uint_ge_0 [of "scn_delta lst"] by linarith
  then show "uint (alloc_next_scn a lst base - scn_base a) = next_scn_of a lst base - uint (scn_base a)"
    using * by (simp add: uint_sub_nowrap)
qed

lemma alloc_need_update_base_iff:
  assumes "max_scn_of a lst < 4611686018427387904" "scn_is_valid base"
  shows "alloc_need_update_base a lst base \<longleftrightarrow>
    next_scn_of a lst base + 1 - uint (scn_base a) \<ge> 34359737368 \<or> uint (log_id_delta lst) + 2 \<ge> 268434456"
proof -
  have b: "uint (scn_base a) \<le> next_scn_of a lst base" "next_scn_of a lst base \<le> 4611686018427387904"
    using uint_ge_0 [of "scn_delta lst"] assms(1) assms(2) [unfolded scn_is_valid_uint]
    by linarith+
  then have "uint (alloc_next_scn a lst base + 1) = next_scn_of a lst base + 1"
    using uint_add_nowrap [of "alloc_next_scn a lst base" 1] assms(1) by (simp add: uint_alloc_next_scn)
  then have "uint (alloc_next_scn a lst base + 1 - scn_base a) = next_scn_of a lst base + 1 - uint (scn_base a)"
    using b by (subst uint_sub_nowrap) simp_all
  then show ?thesis
    by (simp add: alloc_need_update_base_def word_le_def LOG_ID_DELTA_UPPER_BOUND_def)
qed

lemma alloc_plan_ids:
  assumes p: "p = alloc_plan a lst base sz" and s: "max_scn_of a lst < 4611686018427387904"
    and v: "scn_is_valid base" and n: "\<not> alloc_need_update_base a lst base"
  shows "uint (scn_base a + plan_scn_delta p) = next_scn_of a lst base
     \<and> max_scn_of a (plan_next p) = next_scn_of a lst base + (if plan_need_padding p then 1 else 0)
     \<and> la_cur_log_id a (plan_next p) = plan_new_log_id p
     \<and> plan_new_log_id p = la_cur_log_id a lst + (if plan_is_new p then 1 else 0)
          + (if plan_need_padding p then 1 else 0)"
proof -
  let ?d = "alloc_next_scn a lst base - scn_base a"
  have d: "uint ?d = next_scn_of a lst base - uint (scn_base a)" "uint ?d + 1 < 34359737368"
    "uint (log_id_delta lst) + 2 < 268434456"
    using n s v by (simp_all add: alloc_need_update_base_iff uint_alloc_next_scn)
  have b: "0 \<le> next_scn_of a lst base" "next_scn_of a lst base \<le> 4611686018427387904"
    using uint_ge_0 [of "scn_val base"] s v [unfolded scn_is_valid_uint] by linarith+
  then have "uint (scn_base a + ?d) = next_scn_of a lst base"
    using uint_add_nowrap [of "scn_base a" ?d] d(1) by simp
  moreover have "uint (ucast (?d + (if c then 1 else 0)) :: 35 word) = uint ?d + (if c then 1 else 0)" for c
  proof -
    have "uint (?d + (if c then 1 else 0)) = uint ?d + (if c then 1 else 0)"
      using d(2) uint_add_nowrap [of ?d 1] by simp
    then show ?thesis using d(2) by (subst uint_ucast_small) simp_all
  qed
  moreover have "uint (ucast (ucast (log_id_delta lst) + (if c then 1 else 0) + (if c' then 1 else 0) :: u64)
        :: 28 word) = uint (log_id_delta lst) + (if c then 1 else 0) + (if c' then 1 else 0)" for c c'
  proof -
    have u: "uint (ucast (log_id_delta lst) :: u64) = uint (log_id_delta lst)"
      by (rule uint_ucast_up) simp
    have "uint (ucast (log_id_delta lst) + (if c then 1 else 0) + (if c' then 1 else 0) :: u64)
        = uint (log_id_delta lst) + (if c then 1 else 0) + (if c' then 1 else 0)"
      using d(3) by (simp add: uint_add_nowrap u)
    then show ?thesis using d(3) by (subst uint_ucast_small) simp_all
  qed
  ultimately show ?thesis
    by (simp add: alloc_plan_fields [OF p] d(1) la_cur_log_id_def)
qed

section \<open>One allocation\<close>

abbreviation la_end :: "LSNAllocator \<Rightarrow> int" where
  "la_end a \<equiv> uint (meta_lsn (lsn_ts_meta a))"

abbreviation la_max_scn :: "LSNAllocator \<Rightarrow> int" where
  "la_max_scn a \<equiv> max_scn_of a (lsn_ts_meta a)"

abbreviation la_max_log_id :: "LSNAllocator \<Rightarrow> int" where
  "la_max_log_id a \<equiv> la_cur_log_id a (lsn_ts_meta a)"

lemma la_inv_uint:
  "la_inv a \<longleftrightarrow> la_inited a \<and> meta_inv (lsn_ts_meta a) \<and> la_max_scn a < 4611686018427387904"
  by (simp add: la_inv_def)

lemma la_swap_same [simp]: "la_swap a (lsn_ts_meta a) m = a\<lparr>lsn_ts_meta := m\<rparr>"
  by (simp add: la_swap_def cas128_def)

lemma alloc_update_base_spec:
  assumes "la_inv a" "scn_is_valid base"
  obtains a' where "alloc_update_base a base = (OB_SUCCESS, a')" "la_inv a'"
    "la_end a' = la_end a" "la_max_log_id a' = la_max_log_id a"
    "la_max_scn a' = max (uint (scn_val base)) (la_max_scn a)"
    "\<not> alloc_need_update_base a' (lsn_ts_meta a') base"
proof -
  let ?m = "lsn_ts_meta a"
  let ?a = "a\<lparr>lsn_ts_meta := ?m\<lparr>scn_delta := 0, log_id_delta := 0\<rparr>, log_id_base := la_max_log_id a,
      scn_base := max (scn_val base) (la_cur_scn a ?m)\<rparr>"
  have upd: "alloc_update_base a base = (OB_SUCCESS, ?a)"
    by (simp add: alloc_update_base_def cas128_def scn_get_val_for_logservice_def Let_def)
  have s: "la_max_scn ?a = max (uint (scn_val base)) (la_max_scn a)"
    using assms by (simp add: la_inv_uint uint_la_cur_scn)
  moreover from this have inv: "la_inv ?a"
    using assms by (simp add: la_inv_uint meta_inv_uint scn_is_valid_uint)
  moreover have "\<not> alloc_need_update_base ?a (lsn_ts_meta ?a) base"
  proof -
    have m: "la_max_scn ?a < 4611686018427387904"
      using inv by (simp add: la_inv_uint)
    have "uint (scn_base ?a) = la_max_scn ?a" by simp
    then show ?thesis
      using s assms(2) unfolding alloc_need_update_base_iff [OF m assms(2)] by simp
  qed
  ultimately show thesis
    using upd by (intro that [of ?a]) (simp_all add: la_cur_log_id_def)
qed

text \<open>What a successful allocation from state \<open>a\<close> guarantees.\<close>

definition alloc_positions :: "LSNAllocator \<Rightarrow> AllocReq \<Rightarrow> LSNAllocator \<Rightarrow> AllocOut \<Rightarrow> bool" where
  "alloc_positions a r a' out \<longleftrightarrow>
     (let start = la_end a + out_padding_len out;
          len = (if out_is_new out then req_size r + GROUP_HEADER_SER_SIZE else req_size r)
      in uint (out_lsn out) = la_end a
         \<and> la_end a' = start + len
         \<and> start mod uint PALF_BLOCK_SIZE + len \<le> uint PALF_BLOCK_SIZE
         \<and> la_end a' \<le> uint (lsn_val (req_lsn_upper_bound r))
         \<and> (if out_need_padding out
            then out_is_new out \<and> start mod uint PALF_BLOCK_SIZE = 0
              \<and> uint CLOG_FILE_TAIL_PADDING_TRIGGER \<le> out_padding_len out
              \<and> out_padding_len out \<le> uint PALF_BLOCK_SIZE
            else out_padding_len out = 0))"

definition alloc_identifiers :: "LSNAllocator \<Rightarrow> AllocReq \<Rightarrow> LSNAllocator \<Rightarrow> AllocOut \<Rightarrow> bool" where
  "alloc_identifiers a r a' out \<longleftrightarrow>
     (let pad = (if out_need_padding out then 1 else 0)
      in out_log_id out = la_max_log_id a + (if out_is_new out then 1 else 0)
         \<and> la_max_log_id a' = out_log_id out + pad
         \<and> la_max_log_id a' \<le> req_log_id_upper_bound r
         \<and> scn_is_valid (out_scn out)
         \<and> la_max_scn a < uint (scn_val (out_scn out))
         \<and> uint (scn_val (req_base_scn r)) \<le> uint (scn_val (out_scn out))
         \<and> uint (scn_val (out_scn out)) \<le> max (uint (scn_val (req_base_scn r))) (la_max_scn a) + 1
         \<and> la_max_scn a' = uint (scn_val (out_scn out)) + pad)"

definition alloc_headroom :: "LSNAllocator \<Rightarrow> AllocReq \<Rightarrow> bool" where
  "alloc_headroom a r \<longleftrightarrow>
     max (uint (scn_val (req_base_scn r))) (la_max_scn a) + 2 < 2 ^ 62
     \<and> uint (lsn_val (req_lsn_upper_bound r)) \<le> 2 ^ 63"

lemma alloc_attempt:
  assumes inv: "la_inv a" and r: "alloc_args_ok r" "log_size_ok (req_size r)" "alloc_headroom a r"
    and n: "\<not> alloc_need_update_base a (lsn_ts_meta a) (req_base_scn r)"
    and p: "p = alloc_plan a (lsn_ts_meta a) (req_base_scn r) (req_size r)"
    and e: "\<not> alloc_exceeds p r"
    and f: "alloc_finish a (lsn_ts_meta a) p out0 = (ret, out)"
    and a': "a' = a\<lparr>lsn_ts_meta := plan_next p\<rparr>"
  shows "ret = OB_SUCCESS \<and> la_inv a' \<and> alloc_positions a r a' out \<and> alloc_identifiers a r a' out"
proof -
  let ?m = "lsn_ts_meta a"
  let ?pad = "if plan_need_padding p then 1 else 0 :: int"
  have v: "scn_is_valid (req_base_scn r)" and m: "meta_inv ?m" and s: "la_max_scn a < 4611686018427387904"
    and i: "la_inited a"
    using inv r(1) by (simp_all add: la_inv_uint alloc_args_ok_def)
  note P = alloc_plan_position [OF m r(2) p] and I = alloc_plan_ids [OF p s v n]
  have end': "la_end a' = uint (meta_lsn (plan_next p))" and off: "la_end a mod 67104768 \<le> 67100672"
    and ub: "uint (meta_lsn (plan_next p)) \<le> uint (lsn_val (req_lsn_upper_bound r))"
      "plan_new_log_id p \<le> req_log_id_upper_bound r"
    using m e by (simp_all add: a' meta_inv_uint alloc_exceeds_def)
  have scn: "uint (scn_base a + plan_scn_delta p) = next_scn_of a ?m (req_base_scn r)"
    "next_scn_of a ?m (req_base_scn r) + 1 < 4611686018427387904"
    using I r(3) by (auto simp: alloc_headroom_def)
  then have conv: "scn_convert_for_logservice (out_scn out0) (scn_base a + plan_scn_delta p)
      = (OB_SUCCESS, SCN (scn_base a + plan_scn_delta p))"
    by (auto simp: scn_convert_for_logservice_def word_less_def)
  have o: "ret = OB_SUCCESS" "out_lsn out = meta_lsn ?m" "out_is_new out = plan_is_new p"
    "out_log_id out = la_max_log_id a + (if plan_is_new p then 1 else 0)"
    "out_need_padding out = plan_need_padding p" "out_padding_len out = plan_padding_len p"
    "out_scn out = SCN (scn_base a + plan_scn_delta p)"
    using f by (auto simp: alloc_finish_def conv Let_def)
  have m': "la_max_scn a' = next_scn_of a ?m (req_base_scn r) + ?pad" "la_max_log_id a' = plan_new_log_id p"
    using I by (simp_all add: a' la_cur_log_id_def)
  have "meta_inv (plan_next p)"
    using P ub(1) r(3) by (simp add: alloc_headroom_def)
  then have "la_inv a'"
    using m'(1) scn(2) i by (auto simp: la_inv_uint a')
  moreover have "alloc_positions a r a' out"
    using P ub(1) off end' pad_to_multiple [of "la_end a" 67104768]
    by (auto simp: alloc_positions_def o GROUP_HEADER_SER_SIZE_def Let_def)
  moreover have "alloc_identifiers a r a' out"
    using I ub(2) scn m' by (auto simp: alloc_identifiers_def o scn_is_valid_uint Let_def)
  ultimately show ?thesis using o(1) by simp
qed

text \<open>Two iterations of the outer loop are enough: after the bases have been moved, the deltas fit.\<close>

lemma alloc_loop_spec:
  assumes inv: "la_inv a" and r: "alloc_args_ok r" "log_size_ok (req_size r)" "alloc_headroom a r"
  obtains ret a' out' where "alloc_loop (Suc (Suc n)) False a r out = Some (ret, a', out')"
    and "la_inv a'"
    and "ret = OB_SUCCESS \<and> alloc_positions a r a' out' \<and> alloc_identifiers a r a' out'
       \<or> ret = OB_EAGAIN \<and> la_end a' = la_end a \<and> la_max_log_id a' = la_max_log_id a
         \<and> la_max_scn a \<le> la_max_scn a'"
proof (cases "alloc_need_update_base a (lsn_ts_meta a) (req_base_scn r)")
  case False
  let ?p = "alloc_plan a (lsn_ts_meta a) (req_base_scn r) (req_size r)"
  obtain ret out' where f: "alloc_finish a (lsn_ts_meta a) ?p out = (ret, out')"
    by fastforce
  show thesis
  proof (cases "alloc_exceeds ?p r")
    case True
    with False inv show thesis by (intro that) (auto simp: Let_def)
  next
    case ok: False
    then show thesis
      using alloc_attempt [OF inv r False refl ok f refl] False f by (intro that) (auto simp: Let_def)
  qed
next
  case True
  have v: "scn_is_valid (req_base_scn r)" using r(1) by (simp add: alloc_args_ok_def)
  obtain b where b: "alloc_update_base a (req_base_scn r) = (OB_SUCCESS, b)" "la_inv b"
    "la_end b = la_end a" "la_max_log_id b = la_max_log_id a"
    "la_max_scn b = max (uint (scn_val (req_base_scn r))) (la_max_scn a)"
    "\<not> alloc_need_update_base b (lsn_ts_meta b) (req_base_scn r)"
    using alloc_update_base_spec [OF inv v] by blast
  let ?p = "alloc_plan b (lsn_ts_meta b) (req_base_scn r) (req_size r)"
  let ?out = "alloc_out_clear out"
  obtain ret out' where f: "alloc_finish b (lsn_ts_meta b) ?p ?out = (ret, out')"
    by fastforce
  show thesis
  proof (cases "alloc_exceeds ?p r")
    case ex: True
    with True b show thesis by (intro that) (auto simp: Let_def)
  next
    case ok: False
    have h: "alloc_headroom b r"
      using r(3) b(5) by (simp add: alloc_headroom_def)
    let ?b = "b\<lparr>lsn_ts_meta := plan_next ?p\<rparr>"
    have A: "ret = OB_SUCCESS \<and> la_inv ?b \<and> alloc_positions b r ?b out' \<and> alloc_identifiers b r ?b out'"
      using alloc_attempt [OF b(2) r(1,2) h b(6) refl ok f refl] by simp
    then have "alloc_positions a r ?b out'" "alloc_identifiers a r ?b out'"
      using b(3-5) by (auto simp: alloc_positions_def alloc_identifiers_def Let_def)
    with A True b f ok show thesis by (intro that [of OB_SUCCESS ?b out']) (auto simp: Let_def)
  qed
qed

section \<open>The other operations\<close>

text \<open>A start position that an initialisation or a truncation may set.\<close>

definition lsn_start_ok :: "LSN \<Rightarrow> bool" where
  "lsn_start_ok l \<longleftrightarrow> lsn_val l \<le> 0x8000000000000000
     \<and> lsn_2_offset l PALF_BLOCK_SIZE \<le> PALF_BLOCK_SIZE - CLOG_FILE_TAIL_PADDING_TRIGGER"

lemma meta_inv_cut: "lsn_start_ok l \<Longrightarrow> is_need_cut m \<Longrightarrow> meta_lsn m = lsn_val l \<Longrightarrow> meta_inv m"
  by (cases l) (simp add: lsn_start_ok_def meta_inv_def)

lemma la_set_position:
  assumes "lsn_start_ok lsn" "scn_is_valid scn" "la_inited a'"
    and "lsn_ts_meta a' = \<lparr>is_need_cut = True, log_id_delta = 0, scn_delta = 0, meta_lsn = lsn_val lsn\<rparr>"
    and "log_id_base a' = log_id" "scn_base a' = scn_val scn"
  shows "la_inv a' \<and> la_end a' = uint (lsn_val lsn) \<and> la_max_log_id a' = log_id
    \<and> la_max_scn a' = uint (scn_val scn)"
  using assms meta_inv_cut [of lsn "lsn_ts_meta a'"]
  by (simp add: la_inv_uint scn_is_valid_uint la_cur_log_id_def)

lemma la_init_spec:
  assumes "la_init a log_id scn lsn = (OB_SUCCESS, a')" "lsn_start_ok lsn"
  shows "la_inv a' \<and> la_end a' = uint (lsn_val lsn) \<and> la_max_log_id a' = log_id
    \<and> la_max_scn a' = uint (scn_val scn)"
  using assms
  by (intro la_set_position) (auto simp: la_init_def scn_get_val_for_logservice_def split: if_splits)

lemma la_truncate_spec:
  assumes "la_truncate a lsn log_id scn = (OB_SUCCESS, a')" "lsn_start_ok lsn"
  shows "la_inv a' \<and> la_end a' = uint (lsn_val lsn) \<and> la_max_log_id a' = log_id
    \<and> la_max_scn a' = uint (scn_val scn)"
  using assms
  by (intro la_set_position)
    (auto simp: la_truncate_def scn_get_val_for_logservice_def Let_def split: if_splits)

lemma la_inc_update_last_log_info_spec:
  assumes inv: "la_inv a" and ok: "lsn_start_ok lsn"
    and res: "la_inc_update_last_log_info a lsn log_id scn = (OB_SUCCESS, a')"
  shows "la_inv a' \<and>
    (if log_id < la_max_log_id a \<or> uint (lsn_val lsn) < la_end a then a' = a
     else la_end a' = uint (lsn_val lsn) \<and> la_max_log_id a' = log_id \<and> la_max_scn a' = uint (scn_val scn))"
proof (cases "log_id < la_max_log_id a \<or> lsn_val lsn < meta_lsn (lsn_ts_meta a)")
  case True
  then show ?thesis
    using inv res by (auto simp: la_inc_update_last_log_info_def Let_def word_less_def split: if_splits)
next
  case False
  have v: "scn_is_valid scn" and i: "la_inited a"
    using res inv by (auto simp: la_inc_update_last_log_info_def la_inv_uint split: if_splits)
  consider (base) "la_inc_update_base a lsn log_id scn = (OB_SUCCESS, a')"
    | (delta) "log_id - log_id_base a < LOG_ID_DELTA_UPPER_BOUND"
      "scn_val scn - scn_base a < LOG_TS_DELTA_UPPER_BOUND"
      "a' = a\<lparr>lsn_ts_meta := \<lparr>is_need_cut = True, log_id_delta = word_of_int (log_id - log_id_base a),
        scn_delta = ucast (scn_val scn - scn_base a), meta_lsn = lsn_val lsn\<rparr>\<rparr>"
    using False res
    by (auto simp: la_inc_update_last_log_info_def Let_def scn_get_val_for_logservice_def split: if_splits)
  then show ?thesis
  proof cases
    case base
    then have "la_inv a' \<and> la_end a' = uint (lsn_val lsn) \<and> la_max_log_id a' = log_id
        \<and> la_max_scn a' = uint (scn_val scn)"
      using False i by (intro la_set_position [OF ok v])
        (auto simp: la_inc_update_base_def cas128_def Let_def scn_get_val_for_logservice_def split: if_splits)
    then show ?thesis using False by (simp add: word_less_def)
  next
    case delta
    let ?m = "lsn_ts_meta a'"
    have b: "uint (scn_base a) < 4611686018427387904"
      using inv [unfolded la_inv_uint] uint_ge_0 [of "scn_delta (lsn_ts_meta a)"] by linarith
    have d: "uint (scn_val scn - scn_base a) < 34359737368"
      using delta(2) by (simp add: word_less_def)
    then have "uint (scn_delta ?m) = uint (scn_val scn) - uint (scn_base a)"
      using uint_sub_small [of "scn_val scn" "scn_base a"] b delta(3) by (simp add: uint_ucast_small)
    then have scn: "la_max_scn a' = uint (scn_val scn)"
      using delta(3) by simp
    have "0 \<le> log_id - log_id_base a" "log_id - log_id_base a < 268435456"
      using False delta(1) uint_ge_0 [of "log_id_delta (lsn_ts_meta a)"]
      unfolding la_cur_log_id_def LOG_ID_DELTA_UPPER_BOUND_def by (linarith, simp)
    then have "uint (word_of_int (log_id - log_id_base a) :: 28 word) = log_id - log_id_base a"
      by (simp only: uint_word_of_int) simp
    then have "uint (log_id_delta ?m) = log_id - log_id_base a"
      using delta(3) by simp
    then have "la_max_log_id a' = log_id"
      using delta(3) by (simp add: la_cur_log_id_def)
    moreover have "la_inv a'"
      using scn v i delta(3) meta_inv_cut [OF ok, of ?m] by (simp add: la_inv_uint scn_is_valid_uint)
    ultimately show ?thesis
      using False scn delta(3) by (simp add: word_less_def)
  qed
qed

lemma la_inc_update_scn_base_spec:
  assumes inv: "la_inv a" and res: "la_inc_update_scn_base a scn = (OB_SUCCESS, a')"
  shows "la_inv a' \<and> la_end a' = la_end a \<and> la_max_log_id a' = la_max_log_id a
    \<and> la_max_scn a' = max (la_max_scn a) (uint (scn_val scn))"
proof -
  have "uint (la_cur_scn a (lsn_ts_meta a)) = la_max_scn a"
    using inv by (simp add: la_inv_uint uint_la_cur_scn)
  then show ?thesis
    using inv res
    by (auto simp: la_inc_update_scn_base_def scn_get_val_for_logservice_def Let_def word_less_def la_inv_uint
          meta_inv_uint scn_is_valid_uint la_cur_log_id_def split: if_splits)
qed

lemma la_freeze_spec:
  assumes "la_inv a" and
    "la_try_freeze a l i = (ret, a', l', i') \<or> la_try_freeze_by_time a l i = (ret, a', l', i')"
  shows "la_inv a' \<and> is_need_cut (lsn_ts_meta a') \<and> la_end a' = la_end a \<and> la_max_log_id a' = la_max_log_id a
    \<and> la_max_scn a' = la_max_scn a \<and> uint (lsn_val l') = la_end a \<and> i' = la_max_log_id a"
  using assms
  by (auto simp: la_try_freeze_def la_try_freeze_by_time_def Let_def la_inv_uint meta_inv_uint
        la_cur_log_id_def split: if_splits)

section \<open>Properties\<close>

text \<open>C7. An allocation returns (two rounds of its loop suffice), and either reports \<open>OB_EAGAIN\<close> and
  leaves the end LSN and the largest log id alone, or hands out exactly the bytes between the old
  and the new end: an optional padding entry that fills the block to its last byte and is never
  shorter than the tail trigger, then the log (with a group header when it starts a group), which
  does not cross a block boundary and does not exceed the LSN bound.  The invariant is kept.\<close>

theorem alloc_lsn_scn_positions:
  assumes "la_inv a" and "alloc_args_ok r" and "log_size_ok (req_size r)" and "alloc_headroom a r"
    and "2 \<le> fuel"
  shows "\<exists>ret a' out'. alloc_lsn_scn fuel a r out = Some (ret, a', out') \<and> la_inv a'
    \<and> (ret = OB_SUCCESS \<and> alloc_positions a r a' out'
       \<or> ret = OB_EAGAIN \<and> la_end a' = la_end a \<and> la_max_log_id a' = la_max_log_id a)"
proof -
  obtain n where n: "fuel = Suc (Suc n)"
    using assms(5) by (metis Suc_le_D add_2_eq_Suc le_Suc_ex)
  show ?thesis
    using assms(1,2) alloc_loop_spec [OF assms(1-4), of n out]
    by (fastforce simp: alloc_lsn_scn_def n la_inv_uint simp del: alloc_loop.simps)
qed

text \<open>C8. The log ids and SCNs of successful allocations increase: the SCN is valid, above every SCN
  handed out before, not below the requested base and at most one above both; a new group gets the next log id, a log that
  is appended to the open group shares its id, a padding entry takes one id and one SCN of its own
  before the log, and the log id bound is respected.\<close>

theorem alloc_lsn_scn_identifiers:
  assumes "la_inv a" and "alloc_args_ok r" and "log_size_ok (req_size r)" and "alloc_headroom a r"
    and "alloc_lsn_scn (Suc (Suc n)) a r out = Some (OB_SUCCESS, a', out')"
  shows "alloc_identifiers a r a' out'"
  using assms(1,2,5) alloc_loop_spec [OF assms(1-4), of n out]
  by (fastforce simp: alloc_lsn_scn_def la_inv_uint simp del: alloc_loop.simps)

text \<open>C9. A follower's update with the last received log takes effect exactly when neither the log id
  nor the LSN goes backwards; whichever way the code stores the SCN (a delta in its 35 bits or a new
  base, also when the unsigned difference wraps), the allocator then stands at that log.\<close>

theorem inc_update_last_log_info_exact:
  assumes "la_inv a" and "lsn_start_ok lsn"
    and "la_inc_update_last_log_info a lsn log_id scn = (OB_SUCCESS, a')"
  shows "la_inv a' \<and>
    (if log_id < la_max_log_id a \<or> uint (lsn_val lsn) < la_end a then a' = a
     else la_end a' = uint (lsn_val lsn) \<and> la_max_log_id a' = log_id \<and> la_max_scn a' = uint (scn_val scn))"
  by (rule la_inc_update_last_log_info_spec [OF assms])

text \<open>C16. The check for an open group that ends on a 2 MB boundary does not stop the operation: the
  code sets \<open>OB_ERR_UNEXPECTED\<close>, goes on, swaps in an end LSN at the start of the block (before the
  logs already handed out) and overwrites the error with the result of the SCN conversion, so the
  caller sees success.  The invariant excludes this state.\<close>

theorem alloc_boundary_error_lost:
  assumes a: "la_inited a" "la_max_scn a + 2 < 2 ^ 62" and r: "alloc_args_ok r"
    and m: "\<not> is_need_cut (lsn_ts_meta a)"
    and off: "0 < la_end a mod uint PALF_BLOCK_SIZE"
      "la_end a mod uint PALF_BLOCK_SIZE mod uint LOG_CUT_TRIGGER = 0"
    and n: "\<not> alloc_need_update_base a (lsn_ts_meta a) (req_base_scn r)"
    and ub: "la_max_log_id a \<le> req_log_id_upper_bound r" "la_end a \<le> uint (lsn_val (req_lsn_upper_bound r))"
  shows "\<exists>a' out'. alloc_lsn_scn (Suc fuel) a r out = Some (OB_SUCCESS, a', out')
    \<and> la_end a' = la_end a - la_end a mod uint PALF_BLOCK_SIZE \<and> la_end a' < la_end a"
proof -
  let ?m = "lsn_ts_meta a" and ?p = "alloc_plan a (lsn_ts_meta a) (req_base_scn r) (req_size r)"
  let ?off = "lsn_2_offset (LSN (meta_lsn ?m)) PALF_BLOCK_SIZE"
  let ?blk = "lsn_2_block (LSN (meta_lsn ?m)) PALF_BLOCK_SIZE"
  have "0 < ?off \<and> ?off AND LOG_CUT_TRIGGER_MASK = 0"
    using off by (simp add: word_less_def word_uint_eq_iff uint_lsn_2_offset cut_mask)
  then have c: "alloc_cut (is_need_cut ?m) ?off s g = (OB_ERR_UNEXPECTED, False, 0, False)" for s g
    using m by (simp add: alloc_cut_def Let_def)
  have t: "alloc_tail blk o' g False 0 False = (blk, 0, False, False, 0, False)" for blk o' g
    by (simp add: alloc_tail_def lsn_const)
  have q: "uint ?blk * uint PALF_BLOCK_SIZE = la_end a - la_end a mod 67104768"
    by (simp add: uint_lsn_2_block minus_mod_eq_div_mult)
  then have "uint ?blk * uint PALF_BLOCK_SIZE < 18446744073709551616"
    using uint_lt64 [of "meta_lsn ?m"] off(1) unfolding uint_lsn_const by linarith
  then have b: "uint (?blk * PALF_BLOCK_SIZE) = la_end a - la_end a mod 67104768"
    using uint_mult_nowrap q by metis
  have p: "plan_next ?p = plan_next ?p\<lparr>meta_lsn := ?blk * PALF_BLOCK_SIZE\<rparr>" "plan_new_log_id ?p = la_max_log_id a"
    unfolding alloc_plan_def Let_def c t prod.case by simp_all
  have end': "uint (meta_lsn (plan_next ?p)) = la_end a - la_end a mod 67104768"
    by (subst p(1)) (simp add: b)
  have e: "\<not> alloc_exceeds ?p r"
    using ub off(1) by (simp add: alloc_exceeds_def end' p(2))
  have v: "scn_is_valid (req_base_scn r)" "la_max_scn a < 4611686018427387904"
    using r a by (simp_all add: alloc_args_ok_def)
  have "uint (scn_base a + plan_scn_delta ?p) < 4611686018427387904"
    using alloc_plan_ids [OF refl v(2,1) n] a(2) v by (auto simp: scn_is_valid_uint)
  then obtain out' where f: "alloc_finish a ?m ?p out = (OB_SUCCESS, out')"
    by (simp add: alloc_finish_def scn_convert_for_logservice_def Let_def word_less_def)
  show ?thesis
    using a r n e f off(1) by (auto simp: alloc_lsn_scn_def Let_def end')
qed

subsection \<open>Witnesses\<close>

definition wit_alloc :: LSNAllocator where
  "wit_alloc = \<lparr>lsn_ts_meta = \<lparr>is_need_cut = False, log_id_delta = 3, scn_delta = 9, meta_lsn = 67100000\<rparr>,
     log_id_base = 7, scn_base = 100, la_inited = True\<rparr>"

definition wit_req :: AllocReq where
  "wit_req = \<lparr>req_base_scn = SCN 150, req_size = 4000, req_log_id_upper_bound = 1000,
     req_lsn_upper_bound = LSN 100000000\<rparr>"

definition wit_out :: AllocOut where
  "wit_out = \<lparr>out_lsn = 0, out_log_id = 0, out_scn = scn_reset, out_is_new = False,
     out_need_padding = False, out_padding_len = 0\<rparr>"

lemma wit_hyps: "la_inv wit_alloc" "alloc_args_ok wit_req" "log_size_ok (req_size wit_req)"
  "alloc_headroom wit_alloc wit_req"
  by (simp_all add: wit_alloc_def wit_req_def la_inv_uint meta_inv_uint alloc_args_ok_def
        scn_is_valid_uint lsn_is_valid_def log_size_ok_def alloc_headroom_def lsn_const)

lemma wit_run:
  "alloc_lsn_scn (Suc (Suc 0)) wit_alloc wit_req wit_out =
     Some (OB_SUCCESS,
       wit_alloc\<lparr>lsn_ts_meta := \<lparr>is_need_cut = False, log_id_delta = 5, scn_delta = 51,
         meta_lsn = 67108824\<rparr>\<rparr>,
       \<lparr>out_lsn = 67100000, out_log_id = 11, out_scn = SCN 150, out_is_new = True,
        out_need_padding = True, out_padding_len = 4768\<rparr>)"
  by code_simp

theorem alloc_lsn_scn_positions_witness:
  "\<exists>a' out'. alloc_lsn_scn (Suc (Suc 0)) wit_alloc wit_req wit_out = Some (OB_SUCCESS, a', out')
     \<and> la_inv a' \<and> alloc_positions wit_alloc wit_req a' out'"
  using alloc_lsn_scn_positions [OF wit_hyps, of "Suc (Suc 0)" wit_out] by (auto simp: wit_run)

theorem alloc_lsn_scn_identifiers_witness:
  "\<exists>a' out'. alloc_lsn_scn (Suc (Suc 0)) wit_alloc wit_req wit_out = Some (OB_SUCCESS, a', out')
     \<and> alloc_identifiers wit_alloc wit_req a' out'"
  using alloc_lsn_scn_identifiers [OF wit_hyps wit_run] wit_run by blast

theorem inc_update_last_log_info_exact_witness:
  "la_end (snd (la_inc_update_last_log_info wit_alloc (LSN 67104768) 12 (SCN 400))) = 67104768"
proof -
  have "la_inc_update_last_log_info wit_alloc (LSN 67104768) 12 (SCN 400)
      = (OB_SUCCESS, wit_alloc\<lparr>lsn_ts_meta := \<lparr>is_need_cut = True, log_id_delta = 5, scn_delta = 300,
           meta_lsn = 67104768\<rparr>\<rparr>)"
    by code_simp
  moreover have "lsn_start_ok (LSN 67104768)"
    by (simp add: lsn_start_ok_def word_le_def uint_lsn_2_offset)
  ultimately show ?thesis
    using inc_update_last_log_info_exact [OF wit_hyps(1), of "LSN 67104768" 12 "SCN 400"]
    by (auto simp: wit_alloc_def la_cur_log_id_def)
qed

theorem alloc_boundary_error_lost_witness:
  "\<exists>a' out'. alloc_lsn_scn (Suc 0) (wit_alloc\<lparr>lsn_ts_meta := (lsn_ts_meta wit_alloc)\<lparr>meta_lsn := 2097152\<rparr>\<rparr>)
     wit_req wit_out = Some (OB_SUCCESS, a', out') \<and> la_end a' = 0"
proof -
  let ?a = "wit_alloc\<lparr>lsn_ts_meta := (lsn_ts_meta wit_alloc)\<lparr>meta_lsn := 2097152\<rparr>\<rparr>"
  have "\<not> alloc_need_update_base ?a (lsn_ts_meta ?a) (req_base_scn wit_req)"
    by code_simp
  then show ?thesis
    using alloc_boundary_error_lost [of ?a wit_req 0 wit_out] wit_hyps(2)
    by (auto simp: wit_alloc_def wit_req_def la_cur_log_id_def)
qed

end
