(* ===== verification/LsnAllocConc.thy ===== *)
theory LsnAllocConc
  imports LsnAllocator
begin

text \<open>
  Many threads call \<^verbatim>\<open>LSNAllocator::alloc_lsn_scn\<close> at once.  The step relation interleaves their
  atomic actions: taking the read lock, \<^verbatim>\<open>LOAD128\<close>, the \<^verbatim>\<open>CAS128\<close> that succeeds or fails because
  another thread has swapped the word, and the section under the write lock, which needs every
  reader to have left.  Freezes and the update of the SCN base by other threads are steps too.
  The invariant gives that the byte ranges handed out never overlap and leave no gap, and that
  SCNs and log ids follow the order of the ranges.
\<close>

text \<open>Where a thread stands in \<^verbatim>\<open>alloc_lsn_scn\<close>: outside; at the head of an iteration of the outer
  loop, with the value of \<^verbatim>\<open>need_update_base\<close>; holding the read lock before the load; holding it with
  the loaded word.\<close>

datatype alloc_pc =
    Idle
  | Head AllocReq bool
  | Reading AllocReq
  | Loaded AllocReq LSNTsMeta

fun holds_rlock :: "alloc_pc \<Rightarrow> bool" where
  "holds_rlock Idle = False"
| "holds_rlock (Head r need_update) = False"
| "holds_rlock (Reading r) = True"
| "holds_rlock (Loaded r lst) = True"

fun pc_req :: "alloc_pc \<Rightarrow> AllocReq option" where
  "pc_req Idle = None"
| "pc_req (Head r need_update) = Some r"
| "pc_req (Reading r) = Some r"
| "pc_req (Loaded r lst) = Some r"

text \<open>\<open>handed\<close> records the successful allocations, newest first, with the end LSN each one left.\<close>

record alloc_sys =
  shared :: LSNAllocator
  pcs :: "nat \<Rightarrow> alloc_pc"
  handed :: "(AllocOut \<times> int) list"

definition no_reader :: "alloc_sys \<Rightarrow> bool" where
  "no_reader s \<longleftrightarrow> (\<forall>t. \<not> holds_rlock (pcs s t))"

abbreviation goto :: "alloc_sys \<Rightarrow> nat \<Rightarrow> alloc_pc \<Rightarrow> alloc_sys" where
  "goto s t pc \<equiv> s\<lparr>pcs := (pcs s)(t := pc)\<rparr>"

text \<open>Requests the leader makes: valid arguments, a base SCN of at most \<open>S\<close>, an LSN bound inside the
  first half of the LSN space.\<close>

definition req_ok :: "int \<Rightarrow> AllocReq \<Rightarrow> bool" where
  "req_ok S r \<longleftrightarrow> alloc_args_ok r \<and> log_size_ok (req_size r)
     \<and> uint (scn_val (req_base_scn r)) \<le> S \<and> uint (lsn_val (req_lsn_upper_bound r)) \<le> 2 ^ 63"

inductive alloc_step :: "int \<Rightarrow> alloc_sys \<Rightarrow> alloc_sys \<Rightarrow> bool" for S where
  call: "pcs s t = Idle \<Longrightarrow> req_ok S r \<Longrightarrow> alloc_step S s (goto s t (Head r False))"
| rlock: "pcs s t = Head r False \<Longrightarrow> alloc_step S s (goto s t (Reading r))"
| update_base:
    "pcs s t = Head r True \<Longrightarrow> no_reader s \<Longrightarrow>
     alloc_update_base (shared s) (req_base_scn r) = (OB_SUCCESS, a') \<Longrightarrow>
     alloc_step S s ((goto s t (Head r False))\<lparr>shared := a'\<rparr>)"
| load_retry:
    "pcs s t = Reading r \<Longrightarrow> alloc_need_update_base (shared s) (lsn_ts_meta (shared s)) (req_base_scn r) \<Longrightarrow>
     alloc_step S s (goto s t (Head r True))"
| load:
    "pcs s t = Reading r \<Longrightarrow> \<not> alloc_need_update_base (shared s) (lsn_ts_meta (shared s)) (req_base_scn r) \<Longrightarrow>
     alloc_step S s (goto s t (Loaded r (lsn_ts_meta (shared s))))"
| eagain:
    "pcs s t = Loaded r lst \<Longrightarrow>
     alloc_exceeds (alloc_plan (shared s) lst (req_base_scn r) (req_size r)) r \<Longrightarrow>
     alloc_step S s (goto s t Idle)"
| cas_ok:
    "pcs s t = Loaded r lst \<Longrightarrow> p = alloc_plan (shared s) lst (req_base_scn r) (req_size r) \<Longrightarrow>
     \<not> alloc_exceeds p r \<Longrightarrow> cas128 (shared s) lst (plan_next p) = Some a' \<Longrightarrow>
     alloc_finish (shared s) lst p outs = (ret, out) \<Longrightarrow>
     alloc_step S s ((goto s t Idle)\<lparr>shared := a', handed := (out, la_end a') # handed s\<rparr>)"
| cas_fail:
    "pcs s t = Loaded r lst \<Longrightarrow> p = alloc_plan (shared s) lst (req_base_scn r) (req_size r) \<Longrightarrow>
     \<not> alloc_exceeds p r \<Longrightarrow> cas128 (shared s) lst (plan_next p) = None \<Longrightarrow>
     alloc_step S s (goto s t (Reading r))"
| freeze:
    "la_try_freeze (shared s) l i = (ret, a', l', i') \<Longrightarrow> alloc_step S s (s\<lparr>shared := a'\<rparr>)"
| scn_base_update:
    "no_reader s \<Longrightarrow> uint (scn_val scn) \<le> S \<Longrightarrow> la_inc_update_scn_base (shared s) scn = (OB_SUCCESS, a') \<Longrightarrow>
     alloc_step S s (s\<lparr>shared := a'\<rparr>)"

text \<open>States reached after a number of steps from an allocator that no thread uses yet.\<close>

inductive alloc_reach :: "int \<Rightarrow> LSNAllocator \<Rightarrow> nat \<Rightarrow> alloc_sys \<Rightarrow> bool" for S a0 where
  start: "alloc_reach S a0 0 \<lparr>shared = a0, pcs = (\<lambda>_. Idle), handed = []\<rparr>"
| step: "alloc_reach S a0 n s \<Longrightarrow> alloc_step S s s' \<Longrightarrow> alloc_reach S a0 (Suc n) s'"

section \<open>Invariant\<close>

text \<open>\<open>handed\<close> tiles the log between the first and the current end LSN.\<close>

fun tiles :: "int \<Rightarrow> (AllocOut \<times> int) list \<Rightarrow> int \<Rightarrow> bool" where
  "tiles e0 [] e \<longleftrightarrow> e = e0"
| "tiles e0 ((out, e') # hs) e \<longleftrightarrow> e' = e \<and> uint (out_lsn out) < e \<and> tiles e0 hs (uint (out_lsn out))"

text \<open>A later allocation lies behind an earlier one, with a larger SCN and no smaller log id.\<close>

definition handed_after :: "AllocOut \<times> int \<Rightarrow> AllocOut \<times> int \<Rightarrow> bool" where
  "handed_after new old \<longleftrightarrow>
     snd old \<le> uint (out_lsn (fst new))
     \<and> scn_lt (out_scn (fst old)) (out_scn (fst new))
     \<and> out_log_id (fst old) \<le> out_log_id (fst new)"

definition conc_inv :: "int \<Rightarrow> LSNAllocator \<Rightarrow> nat \<Rightarrow> alloc_sys \<Rightarrow> bool" where
  "conc_inv S a0 n s \<longleftrightarrow>
     la_inv (shared s) \<and> la_max_scn (shared s) \<le> S + 2 * int n
     \<and> (\<forall>t r. pc_req (pcs s t) = Some r \<longrightarrow> req_ok S r)
     \<and> (\<forall>t r lst. pcs s t = Loaded r lst \<longrightarrow> \<not> alloc_need_update_base (shared s) lst (req_base_scn r))
     \<and> tiles (la_end a0) (handed s) (la_end (shared s))
     \<and> sorted_wrt handed_after (handed s)
     \<and> (\<forall>(out, e) \<in> set (handed s). e \<le> la_end (shared s) \<and> scn_is_valid (out_scn out)
          \<and> uint (scn_val (out_scn out)) \<le> la_max_scn (shared s)
          \<and> out_log_id out \<le> la_max_log_id (shared s))"

lemma need_update_base_cong:
  "scn_base a = scn_base b \<Longrightarrow> alloc_need_update_base a m base = alloc_need_update_base b m base"
  by (simp add: alloc_need_update_base_def alloc_next_scn_def la_cur_scn_def)

text \<open>Steps that hand out nothing: the end LSN stays, the largest SCN and log id do not sink.\<close>

lemma conc_inv_quiet:
  assumes inv: "conc_inv S a0 n s"
    and a: "la_inv (shared s')" "la_end (shared s') = la_end (shared s)"
      "la_max_scn (shared s) \<le> la_max_scn (shared s')" "la_max_scn (shared s') \<le> S + 2 * int n"
      "la_max_log_id (shared s') = la_max_log_id (shared s)"
    and h: "handed s' = handed s"
    and pc: "\<And>t r. pc_req (pcs s' t) = Some r \<Longrightarrow> req_ok S r"
    and ld: "\<And>t r lst. pcs s' t = Loaded r lst \<Longrightarrow>
      \<not> alloc_need_update_base (shared s') lst (req_base_scn r)"
  shows "conc_inv S a0 (Suc n) s'"
  using assms unfolding conc_inv_def by fastforce

lemma conc_inv_goto:
  assumes inv: "conc_inv S a0 n s"
    and pc: "\<And>r. pc_req pc = Some r \<Longrightarrow> req_ok S r"
    and ld: "\<And>r lst. pc = Loaded r lst \<Longrightarrow> \<not> alloc_need_update_base (shared s) lst (req_base_scn r)"
  shows "conc_inv S a0 (Suc n) (goto s t pc)"
  using inv pc ld by (intro conc_inv_quiet [OF inv]) (auto simp: conc_inv_def split: if_splits)

lemma conc_inv_cas:
  assumes inv: "conc_inv S a0 n s" and bound: "S + 2 * int n + 2 < 2 ^ 62"
    and pc: "pcs s t = Loaded r lst"
    and p: "p = alloc_plan (shared s) lst (req_base_scn r) (req_size r)" "\<not> alloc_exceeds p r"
    and c: "cas128 (shared s) lst (plan_next p) = Some a'"
    and f: "alloc_finish (shared s) lst p out0 = (ret, out)"
  shows "conc_inv S a0 (Suc n) ((goto s t Idle)\<lparr>shared := a', handed := (out, la_end a') # handed s\<rparr>)"
proof -
  let ?a = "shared s"
  have lst: "lsn_ts_meta ?a = lst" and a': "a' = ?a\<lparr>lsn_ts_meta := plan_next p\<rparr>"
    using c by (auto simp: cas128_def split: if_splits)
  have r: "req_ok S r"
    using inv pc unfolding conc_inv_def by (metis pc_req.simps(4))
  have la: "la_inv ?a" "la_max_scn ?a \<le> S + 2 * int n"
    and n: "\<not> alloc_need_update_base ?a (lsn_ts_meta ?a) (req_base_scn r)"
    using inv pc lst by (simp_all add: conc_inv_def)
  have h: "alloc_args_ok r" "log_size_ok (req_size r)" "alloc_headroom ?a r"
    using la r bound by (auto simp: req_ok_def alloc_headroom_def)
  have "p = alloc_plan ?a (lsn_ts_meta ?a) (req_base_scn r) (req_size r)"
    "alloc_finish ?a (lsn_ts_meta ?a) p out0 = (ret, out)"
    using p(1) f lst by simp_all
  from alloc_attempt [OF la(1) h n this(1) p(2) this(2) a']
  have A: "la_inv a'" "alloc_positions ?a r a' out" "alloc_identifiers ?a r a' out" by simp_all
  have pos: "uint (out_lsn out) = la_end ?a" "la_end ?a < la_end a'"
    using A(2) r uint_ge_0 [of "meta_lsn (lsn_ts_meta ?a)"]
    by (auto simp: alloc_positions_def req_ok_def log_size_ok_def GROUP_HEADER_SER_SIZE_def Let_def split: if_splits)
  have ids: "la_max_scn ?a < uint (scn_val (out_scn out))" "scn_is_valid (out_scn out)"
    "uint (scn_val (out_scn out)) \<le> la_max_scn a'" "la_max_scn a' \<le> S + 2 * int (Suc n)"
    "la_max_log_id ?a \<le> out_log_id out" "out_log_id out \<le> la_max_log_id a'"
    using A(3) r la by (auto simp: alloc_identifiers_def req_ok_def Let_def split: if_splits)
  have "sorted_wrt handed_after ((out, la_end a') # handed s)"
    using inv pos ids by (fastforce simp: conc_inv_def handed_after_def scn_cmp_rank scn_rank_def)
  moreover have "scn_base a' = scn_base ?a" by (simp add: a')
  then have "\<not> alloc_need_update_base a' l (req_base_scn r')" if "pcs s u = Loaded r' l" for u r' l
    using inv that need_update_base_cong [of a' ?a] by (simp add: conc_inv_def)
  moreover have "\<forall>(o', e) \<in> set ((out, la_end a') # handed s). e \<le> la_end a' \<and> scn_is_valid (out_scn o')
      \<and> uint (scn_val (out_scn o')) \<le> la_max_scn a' \<and> out_log_id o' \<le> la_max_log_id a'"
    using inv pos ids by (fastforce simp: conc_inv_def)
  moreover have "tiles (la_end a0) ((out, la_end a') # handed s) (la_end a')"
    using inv pos by (simp add: conc_inv_def)
  ultimately show ?thesis
    using inv A(1) ids(4) by (simp add: conc_inv_def)
qed

lemma no_reader_not_loaded: "no_reader s \<Longrightarrow> pcs s t \<noteq> Loaded r lst"
  unfolding no_reader_def by (metis holds_rlock.simps(4))

lemma conc_inv_req:
  assumes "conc_inv S a0 n s"
  shows "pcs s t = Head r b \<Longrightarrow> req_ok S r" "pcs s t = Reading r \<Longrightarrow> req_ok S r"
    "pcs s t = Loaded r lst \<Longrightarrow> req_ok S r"
  using assms unfolding conc_inv_def by (metis pc_req.simps)+

lemma alloc_step_inv:
  assumes "alloc_step S s s'" and inv: "conc_inv S a0 n s" and bound: "S + 2 * int n + 2 < 2 ^ 62"
  shows "conc_inv S a0 (Suc n) s'"
  using assms(1)
proof cases
  case (update_base t r a')
  have la: "la_inv (shared s)" and r: "req_ok S r"
    using inv conc_inv_req(1) [OF inv update_base(2)] by (simp_all add: conc_inv_def)
  then have v: "scn_is_valid (req_base_scn r)" "uint (scn_val (req_base_scn r)) \<le> S"
    by (simp_all add: req_ok_def alloc_args_ok_def)
  have a': "la_inv a'" "la_end a' = la_end (shared s)" "la_max_log_id a' = la_max_log_id (shared s)"
    "la_max_scn a' = max (uint (scn_val (req_base_scn r))) (la_max_scn (shared s))"
    using alloc_update_base_spec [OF la v(1)] update_base(4) by (metis prod.inject)+
  show ?thesis
    using inv update_base(1) a' v(2) r no_reader_not_loaded [OF update_base(3)]
    by (intro conc_inv_quiet [OF inv]) (auto simp: conc_inv_def split: if_splits)
next
  case (freeze l i ret a' l' i')
  have la: "la_inv (shared s)" using inv by (simp add: conc_inv_def)
  have "scn_base a' = scn_base (shared s)"
    using freeze(2) by (auto simp: la_try_freeze_def Let_def split: if_splits)
  then show ?thesis
    using inv freeze(1) la_freeze_spec [OF la disjI1, OF freeze(2)] need_update_base_cong [of a' "shared s"]
    by (intro conc_inv_quiet [OF inv]) (auto simp: conc_inv_def)
next
  case (scn_base_update scn a')
  have la: "la_inv (shared s)" using inv by (simp add: conc_inv_def)
  show ?thesis
    using inv scn_base_update(1,3) la_inc_update_scn_base_spec [OF la scn_base_update(4)]
      no_reader_not_loaded [OF scn_base_update(2)]
    by (intro conc_inv_quiet [OF inv]) (auto simp: conc_inv_def)
next
  case (cas_ok t r lst p a' outs ret out)
  then show ?thesis
    using conc_inv_cas [OF inv bound] by blast
qed (use inv conc_inv_req [OF inv] in \<open>auto intro!: conc_inv_goto\<close>)

lemma alloc_reach_inv:
  "alloc_reach S a0 n s \<Longrightarrow> la_inv a0 \<Longrightarrow> la_max_scn a0 \<le> S \<Longrightarrow> S + 2 * int n < 2 ^ 62 \<Longrightarrow> conc_inv S a0 n s"
proof (induction rule: alloc_reach.induct)
  case start
  then show ?case by (simp add: conc_inv_def)
next
  case (step n s s')
  then show ?case using alloc_step_inv [of S s s' a0 n] by simp
qed

section \<open>Properties\<close>

text \<open>C6. Concurrent allocation is safe: in every interleaving of loads, swaps, base updates, freezes
  and SCN base updates of any number of threads, the byte ranges handed out so far tile the log
  from the initial to the current end LSN without overlap or gap, and of any two of them the later
  one has the larger SCN and no smaller log id.  The bound says that the SCN space is not
  exhausted: at most two SCNs are consumed per step.\<close>

theorem concurrent_alloc_safe:
  assumes "alloc_reach S a0 n s" and "la_inv a0" and "la_max_scn a0 \<le> S" and "S + 2 * int n < 2 ^ 62"
  shows "la_inv (shared s) \<and> tiles (la_end a0) (handed s) (la_end (shared s))
    \<and> sorted_wrt handed_after (handed s)"
  using alloc_reach_inv [OF assms] by (simp add: conc_inv_def)

text \<open>Two threads that both load the word before either swaps it: one succeeds, the other one retries.\<close>

theorem concurrent_alloc_safe_witness:
  "\<exists>s. alloc_reach 200 wit_alloc 8 s \<and> length (handed s) = 1 \<and> pcs s 1 = Reading wit_req
     \<and> tiles (la_end wit_alloc) (handed s) (la_end (shared s))"
proof -
  let ?m = "lsn_ts_meta wit_alloc" and ?R = "alloc_reach 200 wit_alloc"
  let ?s = "\<lambda>a pc0 pc1 hs. \<lparr>shared = a, pcs = ((\<lambda>_. Idle)(0 := pc0))(1 := pc1), handed = hs\<rparr>"
  define p where "p = alloc_plan wit_alloc ?m (req_base_scn wit_req) (req_size wit_req)"
  define a1 where "a1 = wit_alloc\<lparr>lsn_ts_meta := plan_next p\<rparr>"
  obtain ret out where f: "alloc_finish wit_alloc ?m p wit_out = (ret, out)" by fastforce
  have n: "\<not> alloc_need_update_base wit_alloc ?m (req_base_scn wit_req)"
    and e: "\<not> alloc_exceeds p wit_req"
    and e1: "\<not> alloc_exceeds (alloc_plan a1 ?m (req_base_scn wit_req) (req_size wit_req)) wit_req"
    and d: "plan_next p \<noteq> ?m"
    unfolding a1_def p_def by code_simp+
  have r: "req_ok 200 wit_req"
    using wit_hyps(2,3) by (simp add: req_ok_def) (simp add: wit_req_def)
  have 0: "?R 0 (?s wit_alloc Idle Idle [])"
    using alloc_reach.start by (simp add: fun_upd_idem)
  have 1: "?R 1 (?s wit_alloc (Head wit_req False) Idle [])"
    using alloc_reach.step [OF 0 call [OF _ r, of _ 0]] by (simp add: fun_upd_twist)
  have 2: "?R 2 (?s wit_alloc (Head wit_req False) (Head wit_req False) [])"
    using alloc_reach.step [OF 1 call [OF _ r, of _ 1]] by (simp add: numeral_2_eq_2)
  have 3: "?R (Suc 2) (?s wit_alloc (Reading wit_req) (Head wit_req False) [])"
    using alloc_reach.step [OF 2 rlock [of _ 0 wit_req]] by (simp add: fun_upd_twist)
  have 4: "?R (Suc (Suc 2)) (?s wit_alloc (Reading wit_req) (Reading wit_req) [])"
    using alloc_reach.step [OF 3 rlock [of _ 1 wit_req]] by simp
  have 5: "?R (Suc (Suc (Suc 2))) (?s wit_alloc (Loaded wit_req ?m) (Reading wit_req) [])"
    using alloc_reach.step [OF 4 load [of _ 0 wit_req]] n by (simp add: fun_upd_twist)
  have 6: "?R (Suc (Suc (Suc (Suc 2)))) (?s wit_alloc (Loaded wit_req ?m) (Loaded wit_req ?m) [])"
    using alloc_reach.step [OF 5 load [of _ 1 wit_req]] n by simp
  have 7: "?R (Suc (Suc (Suc (Suc (Suc 2))))) (?s a1 Idle (Loaded wit_req ?m) [(out, la_end a1)])"
    using alloc_reach.step [OF 6, OF cas_ok [where t = 0 and r = wit_req and lst = ?m and p = p and a' = a1
        and outs = wit_out and ret = ret and out = out]] e f
    by (simp add: p_def cas128_def a1_def fun_upd_twist)
  have 8: "?R (Suc (Suc (Suc (Suc (Suc (Suc 2)))))) (?s a1 Idle (Reading wit_req) [(out, la_end a1)])"
    using alloc_reach.step [OF 7 cas_fail [of _ 1 wit_req ?m, OF _ refl]] d e1
    by (simp add: cas128_def) (simp add: a1_def)
  have "la_max_scn wit_alloc \<le> 200" by (simp add: wit_alloc_def)
  from concurrent_alloc_safe [OF 8 wit_hyps(1) this] 8 show ?thesis
    by (intro exI [of _ "?s a1 Idle (Reading wit_req) [(out, la_end a1)]"]) simp
qed

end
