(* ===== verification/Checksum.thy ===== *)
theory Checksum
  imports Serialization
begin

text \<open>
  The checksums of the log: the parity bit of \<^verbatim>\<open>deps/oblib/src/lib/checksum/ob_parity_check.cpp\<close>
  and the accumulated checksum of \<^verbatim>\<open>src/logservice/palf/log_checksum.cpp\<close>.

  The CRC (\<^verbatim>\<open>ob_crc64\<close>, dispatched to CPU instructions and to the ISA-L library) and the hash
  \<^verbatim>\<open>XXH64\<close> are arguments of the model, collected in \<open>hash_env\<close> together with the minimal data
  version the cluster reports (\<open>None\<close> when it cannot be read); nothing is assumed about them.
\<close>

record hash_env =
  crc64 :: "u64 \<Rightarrow> bytes \<Rightarrow> u64"          \<comment> \<open>\<^verbatim>\<open>ob_crc64(init, buf, len)\<close>\<close>
  xxh64 :: "bytes \<Rightarrow> u64 \<Rightarrow> u64"          \<comment> \<open>\<^verbatim>\<open>XXH64(data, len, seed)\<close>\<close>
  min_data_version :: "u64 option"

text \<open>The bytes of an integer in memory on the little-endian machines the code runs on.\<close>

definition le16 :: "u16 \<Rightarrow> bytes" where "le16 v = rev (be16 v)"
definition le32 :: "u32 \<Rightarrow> bytes" where "le32 v = rev (be32 v)"
definition le64 :: "u64 \<Rightarrow> bytes" where "le64 v = rev (be64 v)"

section \<open>Parity\<close>

definition P2 :: "bool \<Rightarrow> bool list" where "P2 n = [n, n \<noteq> True, n \<noteq> True, n]"
definition P4 :: "bool \<Rightarrow> bool list" where
  "P4 n = P2 n @ P2 (n \<noteq> True) @ P2 (n \<noteq> True) @ P2 n"
definition P6 :: "bool \<Rightarrow> bool list" where
  "P6 n = P4 n @ P4 (n \<noteq> True) @ P4 (n \<noteq> True) @ P4 n"

definition ParityTable :: "bool list" where
  "ParityTable = P6 False @ P6 True @ P6 True @ P6 False"

definition parity_check16 :: "u16 \<Rightarrow> bool" where
  "parity_check16 v = (let v = v XOR drop_bit 8 v in ParityTable ! unat (v AND 0xff))"

definition parity_check32 :: "u32 \<Rightarrow> bool" where
  "parity_check32 v =
     (let v = v XOR drop_bit 16 v; v = v XOR drop_bit 8 v in ParityTable ! unat (v AND 0xff))"

definition parity_check64 :: "u64 \<Rightarrow> bool" where
  "parity_check64 v =
     (let v = v XOR drop_bit 32 v; v = v XOR drop_bit 16 v; v = v XOR drop_bit 8 v
      in ParityTable ! unat (v AND 0xff))"

text \<open>The table holds the parity of each index.\<close>

definition parity8 :: "'a::len word \<Rightarrow> bool" where
  "parity8 w = (bit w 0 \<noteq> (bit w 1 \<noteq> (bit w 2 \<noteq> (bit w 3 \<noteq>
     (bit w 4 \<noteq> (bit w 5 \<noteq> (bit w 6 \<noteq> bit w 7)))))))"

lemma neq_ac:
  fixes a b c :: bool
  shows "(a \<noteq> b) = (b \<noteq> a)" "((a \<noteq> b) \<noteq> c) = (a \<noteq> (b \<noteq> c))" "(a \<noteq> (b \<noteq> c)) = (b \<noteq> (a \<noteq> c))"
  by auto

lemma less_4_cases: "d < 4 \<Longrightarrow> d = 0 \<or> d = 1 \<or> d = 2 \<or> d = 3" for d :: nat
  by presburger

lemma four_blocks_nth:
  assumes "d < 4" "j < m" "length (f True) = m" "length (f False) = m"
  shows "(f n @ f (n \<noteq> True) @ f (n \<noteq> True) @ f n) ! (d * m + j) = f (n \<noteq> (d = 1 \<or> d = 2)) ! j"
proof -
  have "length (f x) = m" for x using assms(3,4) by (cases x) auto
  then show ?thesis
    using less_4_cases [OF assms(1)] assms(2) by (cases n) (auto simp: nth_append)
qed

lemma length_P [simp]: "length (P2 n) = 4" "length (P4 n) = 16" "length (P6 n) = 64"
  by (simp_all add: P2_def P4_def P6_def)

lemma P2_nth: "d < 4 \<Longrightarrow> P2 n ! d \<longleftrightarrow> n \<noteq> (d = 1 \<or> d = 2)"
  using less_4_cases [of d] by (auto simp: P2_def)

lemma ParityTable_nth:
  assumes "a < 4" "b < 4" "c < 4" "d < 4"
  shows "ParityTable ! (a * 64 + (b * 16 + (c * 4 + d))) \<longleftrightarrow>
    ((a = 1 \<or> a = 2) \<noteq> ((b = 1 \<or> b = 2) \<noteq> ((c = 1 \<or> c = 2) \<noteq> (d = 1 \<or> d = 2))))"
proof -
  have "ParityTable ! (a * 64 + (b * 16 + (c * 4 + d))) = P6 (a = 1 \<or> a = 2) ! (b * 16 + (c * 4 + d))"
    using four_blocks_nth [of a "b * 16 + (c * 4 + d)" 64 P6 False] assms by (simp add: ParityTable_def)
  moreover have "P6 n ! (b * 16 + (c * 4 + d)) = P4 (n \<noteq> (b = 1 \<or> b = 2)) ! (c * 4 + d)" for n
    using four_blocks_nth [of b "c * 4 + d" 16 P4 n] assms unfolding P6_def by simp
  moreover have "P4 n ! (c * 4 + d) = P2 (n \<noteq> (c = 1 \<or> c = 2)) ! d" for n
    using four_blocks_nth [of c d 4 P2 n] assms unfolding P4_def by simp
  ultimately show ?thesis
    using assms(4) by (simp only: P2_nth neq_ac)
qed

lemma two_bits: "(odd k \<noteq> odd (k div 2)) \<longleftrightarrow> k mod 4 = 1 \<or> k mod 4 = 2" for k :: nat
  by presburger

lemma parity_table_word8: "ParityTable ! unat w \<longleftrightarrow> parity8 w" for w :: "8 word"
proof -
  define k where "k = unat w"
  have k: "k < 256" using unsigned_less [of w] by (simp add: k_def)
  have b: "bit w i \<longleftrightarrow> odd (k div 2 ^ i)" for i
    using bit_iff_odd [of k i] by (simp add: k_def bit_unsigned_iff)
  have e: "k = k div 64 * 64 + (k div 16 mod 4 * 16 + (k div 4 mod 4 * 4 + k mod 4))"
  proof -
    have "k div 4 div 4 = k div 16" "k div 16 div 4 = k div 64" by (simp_all add: div_mult2_eq [symmetric])
    then show ?thesis
      using div_mult_mod_eq [of k 4] div_mult_mod_eq [of "k div 4" 4] div_mult_mod_eq [of "k div 16" 4]
      by linarith
  qed
  have "k div 64 < 4" using k by simp
  then have "ParityTable ! k \<longleftrightarrow> ((k div 64 = 1 \<or> k div 64 = 2) \<noteq> ((k div 16 mod 4 = 1 \<or> k div 16 mod 4 = 2)
      \<noteq> ((k div 4 mod 4 = 1 \<or> k div 4 mod 4 = 2) \<noteq> (k mod 4 = 1 \<or> k mod 4 = 2))))"
    using ParityTable_nth [of "k div 64" "k div 16 mod 4" "k div 4 mod 4" "k mod 4"] e by simp
  moreover have "k div 64 mod 4 = k div 64" using k by simp
  moreover have "parity8 w = ((odd k \<noteq> odd (k div 2)) \<noteq> ((odd (k div 4) \<noteq> odd (k div 4 div 2)) \<noteq>
      ((odd (k div 16) \<noteq> odd (k div 16 div 2)) \<noteq> (odd (k div 64) \<noteq> odd (k div 64 div 2)))))"
  proof -
    have "k div 2 ^ 0 = k" "k div 2 ^ 1 = k div 2" "k div 2 ^ 2 = k div 4" "k div 2 ^ 3 = k div 4 div 2"
      "k div 2 ^ 4 = k div 16" "k div 2 ^ 5 = k div 16 div 2" "k div 2 ^ 6 = k div 64"
      "k div 2 ^ 7 = k div 64 div 2"
      by (simp_all add: div_mult2_eq [symmetric])
    then show ?thesis unfolding parity8_def b by (simp only: neq_ac)
  qed
  ultimately show ?thesis
    unfolding two_bits k_def [symmetric] by (simp only: neq_ac)
qed

lemma table_low_byte:
  fixes v :: "'a::len word"
  assumes "8 \<le> LENGTH('a)"
  shows "ParityTable ! unat (v AND 0xff) \<longleftrightarrow> parity8 v"
proof -
  have m: "(0xff :: 'a word) = mask 8" by (simp add: mask_eq_exp_minus_1)
  have "unat (v AND 0xff) = unat (ucast v :: 8 word)"
    unfolding m take_bit_eq_mask [symmetric]
    by (simp add: unsigned_ucast_eq unsigned_take_bit_eq take_bit_nat_def)
  moreover have "parity8 (ucast v :: 8 word) = parity8 v"
    using assms by (simp add: parity8_def bit_ucast_iff)
  ultimately show ?thesis by (simp add: parity_table_word8)
qed

lemma neq_pair:
  "x = (a \<noteq> b) \<Longrightarrow> y = (c \<noteq> d) \<Longrightarrow> (x \<noteq> y) = ((a \<noteq> c) \<noteq> (b \<noteq> d))" for a b c d x y :: bool
  by auto

lemma parity8_xor: "parity8 (a XOR b) \<longleftrightarrow> parity8 a \<noteq> parity8 b"
  unfolding parity8_def bit_xor_iff by (rule neq_pair, rule refl)+ (rule refl)

definition fold_bits :: "nat \<Rightarrow> 'a::len word \<Rightarrow> 'a word" where
  "fold_bits m x = x XOR drop_bit m x"

lemma fold_xor: "fold_bits m (a XOR b) = fold_bits m a XOR fold_bits m b"
  by (simp add: fold_bits_def drop_bit_xor ac_simps)

lemma parity_check_fold:
  shows "parity_check16 v16 \<longleftrightarrow> parity8 (fold_bits 8 v16)"
    and "parity_check32 v32 \<longleftrightarrow> parity8 (fold_bits 8 (fold_bits 16 v32))"
    and "parity_check64 v64 \<longleftrightarrow> parity8 (fold_bits 8 (fold_bits 16 (fold_bits 32 v64)))"
  unfolding parity_check16_def parity_check32_def parity_check64_def Let_def fold_bits_def
  by (rule table_low_byte, simp)+

lemma parity_check_linear:
  shows "parity_check16 (a16 XOR b16) \<longleftrightarrow> parity_check16 a16 \<noteq> parity_check16 b16"
    and "parity_check32 (a32 XOR b32) \<longleftrightarrow> parity_check32 a32 \<noteq> parity_check32 b32"
    and "parity_check64 (a64 XOR b64) \<longleftrightarrow> parity_check64 a64 \<noteq> parity_check64 b64"
  unfolding parity_check_fold fold_xor parity8_xor by (rule refl)+

text \<open>Folding the upper half onto the lower one keeps a single set bit single.\<close>

definition single_bit :: "nat \<Rightarrow> nat \<Rightarrow> 'a::len word \<Rightarrow> bool" where
  "single_bit m i x \<longleftrightarrow> (\<forall>j < m. bit x j \<longleftrightarrow> j = i mod m)"

lemma single_bit_fold:
  assumes "single_bit (2 * m) i x" "0 < m"
  shows "single_bit m i (fold_bits m x)"
proof -
  have "i mod (2 * m) = i mod m \<or> i mod (2 * m) = m + i mod m"
    using mod_mult2_eq [of i m 2] by (auto simp: mult.commute)
  moreover have "i mod m < m" using assms(2) by simp
  moreover have "bit (fold_bits m x) j \<longleftrightarrow> (j = i mod (2 * m)) \<noteq> (m + j = i mod (2 * m))" if "j < m" for j
    using assms(1) that by (simp add: single_bit_def fold_bits_def bit_xor_iff bit_drop_bit_eq)
  ultimately show ?thesis
    unfolding single_bit_def by (elim disjE) simp_all
qed

lemma single_bit_parity8: "single_bit 8 i x \<Longrightarrow> parity8 x"
proof -
  assume a: "single_bit 8 i x"
  define r where "r = i mod 8"
  have "bit x 0 = (r = 0)" "bit x 1 = (r = 1)" "bit x 2 = (r = 2)" "bit x 3 = (r = 3)" "bit x 4 = (r = 4)"
    "bit x 5 = (r = 5)" "bit x 6 = (r = 6)" "bit x 7 = (r = 7)"
    using a by (auto simp: single_bit_def r_def)
  moreover have "r = 0 \<or> r = 1 \<or> r = 2 \<or> r = 3 \<or> r = 4 \<or> r = 5 \<or> r = 6 \<or> r = 7"
    using mod_less_divisor [of 8 i] unfolding r_def by linarith
  ultimately show ?thesis by (elim disjE) (simp_all add: parity8_def)
qed

lemma single_bit_push:
  "i < LENGTH('a) \<Longrightarrow> single_bit LENGTH('a) i (2 ^ i :: 'a::len word)"
  by (auto simp: single_bit_def bit_exp_iff)

lemma parity_check_single_bit:
  shows "i < 16 \<Longrightarrow> parity_check16 (2 ^ i)"
    and "j < 32 \<Longrightarrow> parity_check32 (2 ^ j)"
    and "k < 64 \<Longrightarrow> parity_check64 (2 ^ k)"
proof -
  show "parity_check16 (2 ^ i)" if "i < 16"
    using that single_bit_push [of i, where 'a = 16] single_bit_fold [of 8 i "2 ^ i :: u16"]
    unfolding parity_check_fold by (intro single_bit_parity8) simp
  show "parity_check32 (2 ^ j)" if "j < 32"
    using that single_bit_push [of j, where 'a = 32] single_bit_fold [of 16 j "2 ^ j :: u32"]
      single_bit_fold [of 8 j "fold_bits 16 (2 ^ j) :: u32"]
    unfolding parity_check_fold by (intro single_bit_parity8) simp
  show "parity_check64 (2 ^ k)" if "k < 64"
    using that single_bit_push [of k, where 'a = 64] single_bit_fold [of 32 k "2 ^ k :: u64"]
      single_bit_fold [of 16 k "fold_bits 32 (2 ^ k) :: u64"]
      single_bit_fold [of 8 k "fold_bits 16 (fold_bits 32 (2 ^ k)) :: u64"]
    unfolding parity_check_fold by (intro single_bit_parity8) simp
qed

lemma neq_true: "b \<Longrightarrow> (a \<noteq> b) = (\<not> a)" for a b :: bool
  by simp

text \<open>Flipping one bit flips the parity.\<close>

lemma parity_check_flip:
  shows "i < 16 \<Longrightarrow> parity_check16 (v16 XOR 2 ^ i) \<longleftrightarrow> \<not> parity_check16 v16"
    and "i < 32 \<Longrightarrow> parity_check32 (v32 XOR 2 ^ i) \<longleftrightarrow> \<not> parity_check32 v32"
    and "i < 64 \<Longrightarrow> parity_check64 (v64 XOR 2 ^ i) \<longleftrightarrow> \<not> parity_check64 v64"
  unfolding parity_check_linear by (rule neq_true, erule parity_check_single_bit)+

section \<open>Accumulated checksum\<close>

record LogChecksum =
  lc_inited :: bool
  palf_id :: int
  prev_accum_checksum :: u64
  accum_checksum :: u64
  verify_checksum :: u64

definition INVALID_PALF_ID :: int where "INVALID_PALF_ID = -1"

text \<open>The constructor leaves \<^verbatim>\<open>palf_id_\<close> uninitialised; zero stands for it until \<^verbatim>\<open>init\<close> sets it.\<close>

definition lc_new :: LogChecksum where
  "lc_new = \<lparr>lc_inited = False, palf_id = 0, prev_accum_checksum = 0, accum_checksum = 0,
     verify_checksum = 0\<rparr>"

definition lc_init :: "LogChecksum \<Rightarrow> int \<Rightarrow> u64 \<Rightarrow> ob_ret \<times> LogChecksum" where
  "lc_init c pid accum =
     (if lc_inited c then (OB_INIT_TWICE, c)
      else (OB_SUCCESS, c\<lparr>palf_id := pid, accum_checksum := accum, verify_checksum := accum,
                           lc_inited := True\<rparr>))"

definition lc_destroy :: "LogChecksum \<Rightarrow> LogChecksum" where
  "lc_destroy c = c\<lparr>lc_inited := False, palf_id := INVALID_PALF_ID, accum_checksum := 0,
     verify_checksum := 0\<rparr>"

text \<open>The result carries the output argument \<^verbatim>\<open>accum_checksum\<close>.\<close>

definition lc_acquire_accum_checksum ::
  "hash_env \<Rightarrow> LogChecksum \<Rightarrow> u64 \<Rightarrow> u64 \<Rightarrow> ob_ret \<times> LogChecksum \<times> u64" where
  "lc_acquire_accum_checksum E c data_checksum out =
     (if \<not> lc_inited c then (OB_NOT_INIT, c, out)
      else let accum = crc64 E (accum_checksum c) (le64 data_checksum)
           in (OB_SUCCESS, c\<lparr>prev_accum_checksum := accum_checksum c, accum_checksum := accum\<rparr>, accum))"

text \<open>The static overload: the code and the output argument \<^verbatim>\<open>new_accum_checksum\<close>.\<close>

definition verify_accum_checksum_static :: "hash_env \<Rightarrow> u64 \<Rightarrow> u64 \<Rightarrow> u64 \<Rightarrow> ob_ret \<times> u64" where
  "verify_accum_checksum_static E old data_checksum expected =
     (let new = crc64 E old (le64 data_checksum)
      in (if new \<noteq> expected then OB_CHECKSUM_ERROR else OB_SUCCESS, new))"

definition lc_verify_accum_checksum ::
  "hash_env \<Rightarrow> LogChecksum \<Rightarrow> u64 \<Rightarrow> u64 \<Rightarrow> ob_ret \<times> LogChecksum" where
  "lc_verify_accum_checksum E c data_checksum accum =
     (if \<not> lc_inited c then (OB_NOT_INIT, c)
      else case verify_accum_checksum_static E (verify_checksum c) data_checksum accum of
             (ret, new) \<Rightarrow>
               if ret \<noteq> OB_SUCCESS then (ret, c) else (OB_SUCCESS, c\<lparr>verify_checksum := new\<rparr>))"

definition lc_rollback_accum_checksum :: "LogChecksum \<Rightarrow> u64 \<Rightarrow> ob_ret \<times> LogChecksum" where
  "lc_rollback_accum_checksum c cur =
     (if cur \<noteq> accum_checksum c then (OB_STATE_NOT_MATCH, c)
      else (OB_SUCCESS, c\<lparr>accum_checksum := prev_accum_checksum c, prev_accum_checksum := 0\<rparr>))"

definition lc_set_accum_checksum :: "LogChecksum \<Rightarrow> u64 \<Rightarrow> LogChecksum" where
  "lc_set_accum_checksum c accum = c\<lparr>accum_checksum := accum\<rparr>"

definition lc_set_verify_checksum :: "LogChecksum \<Rightarrow> u64 \<Rightarrow> LogChecksum" where
  "lc_set_verify_checksum c v = c\<lparr>verify_checksum := v\<rparr>"

text \<open>A leader that accumulates a run of logs, and a replica that verifies a run of pairs of data and
  accumulated checksum and stops at the first one it refuses.\<close>

fun acquire_run :: "hash_env \<Rightarrow> LogChecksum \<Rightarrow> u64 list \<Rightarrow> LogChecksum \<times> u64 list" where
  "acquire_run E c [] = (c, [])"
| "acquire_run E c (d # ds) =
     (case lc_acquire_accum_checksum E c d 0 of
        (_, c', accum) \<Rightarrow> (case acquire_run E c' ds of (c'', accums) \<Rightarrow> (c'', accum # accums)))"

fun verify_run :: "hash_env \<Rightarrow> LogChecksum \<Rightarrow> (u64 \<times> u64) list \<Rightarrow> ob_ret \<times> LogChecksum" where
  "verify_run E c [] = (OB_SUCCESS, c)"
| "verify_run E c ((d, accum) # ps) =
     (case lc_verify_accum_checksum E c d accum of
        (ret, c') \<Rightarrow> if ret \<noteq> OB_SUCCESS then (ret, c') else verify_run E c' ps)"

lemma acquire_run_verify_run:
  assumes "lc_inited leader" "lc_inited replica" "verify_checksum replica = accum_checksum leader"
    and "acquire_run E leader ds = (leader', accums)"
  shows "\<exists>replica'. verify_run E replica (zip ds accums) = (OB_SUCCESS, replica')
    \<and> verify_checksum replica' = accum_checksum leader' \<and> length accums = length ds"
  using assms
proof (induction ds arbitrary: leader replica accums)
  case (Cons d ds)
  let ?a = "crc64 E (accum_checksum leader) (le64 d)"
  let ?l = "leader\<lparr>prev_accum_checksum := accum_checksum leader, accum_checksum := ?a\<rparr>"
  let ?r = "replica\<lparr>verify_checksum := ?a\<rparr>"
  obtain rest where rest: "acquire_run E ?l ds = (leader', rest)" "accums = ?a # rest"
    using Cons.prems by (auto simp: lc_acquire_accum_checksum_def Let_def split: prod.splits)
  have "lc_verify_accum_checksum E replica d ?a = (OB_SUCCESS, ?r)"
    using Cons.prems by (simp add: lc_verify_accum_checksum_def verify_accum_checksum_static_def Let_def)
  then show ?case
    using Cons.IH [of ?l ?r rest] Cons.prems rest by simp
qed simp

lemma verify_run_Cons:
  assumes "lc_inited c"
  shows "fst (verify_run E c ((d, a) # ps)) = OB_SUCCESS \<longleftrightarrow>
    a = crc64 E (verify_checksum c) (le64 d) \<and> fst (verify_run E (c\<lparr>verify_checksum := a\<rparr>) ps) = OB_SUCCESS"
  using assms by (auto simp: lc_verify_accum_checksum_def verify_accum_checksum_static_def Let_def)

lemma verify_run_unique:
  assumes "lc_inited c" "length xs = length ds" "length ys = length ds"
    and "fst (verify_run E c (zip ds xs)) = OB_SUCCESS" "fst (verify_run E c (zip ds ys)) = OB_SUCCESS"
  shows "xs = ys"
  using assms
proof (induction ds arbitrary: c xs ys)
  case (Cons d ds)
  obtain x xs' y ys' where xy: "xs = x # xs'" "ys = y # ys'"
    using Cons.prems(2,3) by (metis length_Suc_conv)
  have x: "fst (verify_run E c ((d, x) # zip ds xs')) = OB_SUCCESS"
    and y: "fst (verify_run E c ((d, y) # zip ds ys')) = OB_SUCCESS"
    using Cons.prems(4,5) by (simp_all add: xy)
  note v = x [unfolded verify_run_Cons [OF Cons.prems(1)]] y [unfolded verify_run_Cons [OF Cons.prems(1)]]
  have "x = y" using v by simp
  moreover have "fst (verify_run E (c\<lparr>verify_checksum := x\<rparr>) (zip ds xs')) = OB_SUCCESS"
    "fst (verify_run E (c\<lparr>verify_checksum := y\<rparr>) (zip ds ys')) = OB_SUCCESS"
    using v by blast+
  moreover have "xs' = ys'"
    using calculation Cons.prems(1-3) by (intro Cons.IH [of "c\<lparr>verify_checksum := x\<rparr>"]) (simp_all add: xy)
  ultimately show ?case using xy by simp
qed simp

section \<open>Properties\<close>

text \<open>C28. The two sides of the accumulated checksum agree: a replica whose verified checksum equals the
  leader's accumulated one accepts every run of logs with the checksums the leader acquired for
  them and ends at the leader's value, and it accepts no other checksums for the same data.\<close>

theorem accum_checksum_agreement:
  assumes "lc_inited leader" and "lc_inited replica" and "verify_checksum replica = accum_checksum leader"
    and "acquire_run E leader ds = (leader', accums)"
  shows "(\<exists>replica'. verify_run E replica (zip ds accums) = (OB_SUCCESS, replica')
      \<and> verify_checksum replica' = accum_checksum leader')
    \<and> (\<forall>accums'. length accums' = length ds \<and> fst (verify_run E replica (zip ds accums')) = OB_SUCCESS
        \<longrightarrow> accums' = accums)"
proof -
  obtain replica' where r: "verify_run E replica (zip ds accums) = (OB_SUCCESS, replica')"
    "verify_checksum replica' = accum_checksum leader'" "length accums = length ds"
    using acquire_run_verify_run [OF assms] by blast
  have ok: "fst (verify_run E replica (zip ds accums)) = OB_SUCCESS" using r(1) by simp
  have "accums' = accums"
    if "length accums' = length ds" "fst (verify_run E replica (zip ds accums')) = OB_SUCCESS" for accums'
    using verify_run_unique [OF assms(2) that(1) r(3) that(2) ok] .
  then show ?thesis using r(1,2) by blast
qed

text \<open>Rolling back undoes the last acquisition, and only that one: it is refused for any other
  accumulated value than the current one.\<close>

theorem rollback_undoes_acquire:
  assumes "lc_acquire_accum_checksum E c d out = (OB_SUCCESS, c', accum)"
  shows "lc_rollback_accum_checksum c' accum = (OB_SUCCESS, c\<lparr>prev_accum_checksum := 0\<rparr>)
    \<and> (\<forall>x. x \<noteq> accum \<longrightarrow> lc_rollback_accum_checksum c' x = (OB_STATE_NOT_MATCH, c'))"
  using assms
  by (auto simp: lc_acquire_accum_checksum_def lc_rollback_accum_checksum_def Let_def split: if_splits)

text \<open>The parity bit changes with every single bit of its argument, at all three widths.\<close>

theorem parity_detects_single_flip:
  "(i < 16 \<longrightarrow> parity_check16 (v16 XOR 2 ^ i) = (\<not> parity_check16 v16))
   \<and> (i < 32 \<longrightarrow> parity_check32 (v32 XOR 2 ^ i) = (\<not> parity_check32 v32))
   \<and> (i < 64 \<longrightarrow> parity_check64 (v64 XOR 2 ^ i) = (\<not> parity_check64 v64))"
  by (intro conjI impI parity_check_flip)

subsection \<open>Witnesses\<close>

definition wit_env :: hash_env where
  "wit_env = \<lparr>crc64 = (\<lambda>c bs. c * 31 + of_nat (sum_list (map unat bs))),
     xxh64 = (\<lambda>bs seed. seed + of_nat (sum_list (map unat bs))), min_data_version = Some 0\<rparr>"

definition wit_checksum :: LogChecksum where
  "wit_checksum = snd (lc_init lc_new 1 77)"

lemma wit_checksum_simps: "lc_inited wit_checksum" "verify_checksum wit_checksum = accum_checksum wit_checksum"
  by (simp_all add: wit_checksum_def lc_init_def lc_new_def)

theorem accum_checksum_agreement_witness:
  "\<exists>replica'. verify_run wit_env wit_checksum (zip [5, 6] (snd (acquire_run wit_env wit_checksum [5, 6])))
     = (OB_SUCCESS, replica')"
  using accum_checksum_agreement [OF wit_checksum_simps(1) wit_checksum_simps, of wit_env "[5, 6]"
      "fst (acquire_run wit_env wit_checksum [5, 6])" "snd (acquire_run wit_env wit_checksum [5, 6])"]
  by (auto simp del: acquire_run.simps)

theorem rollback_undoes_acquire_witness:
  "\<exists>c' accum. lc_acquire_accum_checksum wit_env wit_checksum 5 0 = (OB_SUCCESS, c', accum)
     \<and> lc_rollback_accum_checksum c' accum = (OB_SUCCESS, wit_checksum\<lparr>prev_accum_checksum := 0\<rparr>)"
proof -
  have "fst (lc_acquire_accum_checksum wit_env wit_checksum 5 0) = OB_SUCCESS"
    using wit_checksum_simps(1) by (simp add: lc_acquire_accum_checksum_def Let_def)
  then obtain c' accum where "lc_acquire_accum_checksum wit_env wit_checksum 5 0 = (OB_SUCCESS, c', accum)"
    by (metis prod.collapse)
  from rollback_undoes_acquire [OF this] this show ?thesis by blast
qed

theorem parity_detects_single_flip_witness:
  "parity_check64 (7 XOR 2 ^ 40) = (\<not> parity_check64 7)"
  using parity_detects_single_flip [of 40 0 0 7] by linarith

end
