(* ===== verification/EntryHeader.thy ===== *)
theory EntryHeader
  imports Checksum Scn
begin

text \<open>
  The header of one log entry, \<^verbatim>\<open>src/logservice/palf/log_entry_header.cpp\<close>, and the entry itself,
  \<^verbatim>\<open>log_entry.cpp\<close>.  A version 1 header is protected by one parity bit, a version 2 header by 16
  bits of \<^verbatim>\<open>XXH64\<close> over its memory image.  Signed fields are kept as words of their width and read
  with \<open>sint\<close>.  A decoder returns the header it built; what a failing decoder leaves behind in the
  object is not observed by its callers.
\<close>

record LogEntryHeader =
  leh_magic :: u16
  leh_version :: u16
  leh_log_size :: u32
  leh_scn :: SCN
  leh_data_checksum :: u64
  leh_flag :: u64

definition LEH_MAGIC :: u16 where "LEH_MAGIC = 0x4C48"
definition LEH_VERSION :: u16 where "LEH_VERSION = 1"
definition LEH_VERSION2 :: u16 where "LEH_VERSION2 = 2"
definition PADDING_TYPE_MASK :: u64 where "PADDING_TYPE_MASK = 2"
definition PADDING_TYPE_MASK_VERSION2 :: u64 where "PADDING_TYPE_MASK_VERSION2 = 2 ^ 62"
definition CRC16_MASK :: u64 where "CRC16_MASK = 0xffff"
definition PARITY_MASK :: u64 where "PARITY_MASK = 1"
definition DATA_VERSION_4_3_3_0 :: u64 where "DATA_VERSION_4_3_3_0 = 0x400030300"
definition LEH_HEADER_SER_SIZE :: nat where "LEH_HEADER_SER_SIZE = 32"

lemma leh_version_neq [simp]: "LEH_VERSION \<noteq> LEH_VERSION2" "LEH_VERSION2 \<noteq> LEH_VERSION"
  by (simp_all add: LEH_VERSION_def LEH_VERSION2_def)

definition leh_new :: LogEntryHeader where
  "leh_new = \<lparr>leh_magic = 0, leh_version = 0, leh_log_size = 0, leh_scn = scn_reset,
     leh_data_checksum = 0, leh_flag = 0\<rparr>"

definition leh_reset :: LogEntryHeader where
  "leh_reset = \<lparr>leh_magic = 0, leh_version = 0, leh_log_size = -1, leh_scn = scn_reset,
     leh_data_checksum = 0, leh_flag = 0\<rparr>"

definition leh_is_valid :: "LogEntryHeader \<Rightarrow> bool" where
  "leh_is_valid h \<longleftrightarrow> leh_magic h = LEH_MAGIC \<and> 0 <s leh_log_size h \<and> scn_is_valid (leh_scn h)"

definition leh_get_padding_mask :: "LogEntryHeader \<Rightarrow> u64" where
  "leh_get_padding_mask h =
     (if LEH_VERSION2 = leh_version h then PADDING_TYPE_MASK_VERSION2
      else if LEH_VERSION = leh_version h then PADDING_TYPE_MASK else 0)"

definition leh_get_header_checksum_mask :: "LogEntryHeader \<Rightarrow> u64" where
  "leh_get_header_checksum_mask h =
     (if LEH_VERSION2 = leh_version h then CRC16_MASK
      else if LEH_VERSION = leh_version h then PARITY_MASK else 0)"

definition leh_reset_header_checksum :: "LogEntryHeader \<Rightarrow> LogEntryHeader" where
  "leh_reset_header_checksum h =
     (if LEH_VERSION2 = leh_version h then h\<lparr>leh_flag := leh_flag h AND NOT CRC16_MASK\<rparr>
      else if LEH_VERSION = leh_version h then h\<lparr>leh_flag := leh_flag h AND NOT PARITY_MASK\<rparr>
      else h)"

text \<open>The 32 bytes of the object in memory, which the hash of version 2 reads.\<close>

definition leh_memory :: "LogEntryHeader \<Rightarrow> bytes" where
  "leh_memory h = le16 (leh_magic h) @ le16 (leh_version h) @ le32 (leh_log_size h)
     @ le64 (scn_val (leh_scn h)) @ le64 (leh_data_checksum h) @ le64 (leh_flag h)"

definition xxhash_16 :: "hash_env \<Rightarrow> u16 \<Rightarrow> bytes \<Rightarrow> u16" where
  "xxhash_16 E checksum data = ucast (xxh64 E data (scast checksum) AND 0xffff)"

definition leh_calculate_header_checksum :: "hash_env \<Rightarrow> LogEntryHeader \<Rightarrow> u16" where
  "leh_calculate_header_checksum E h =
     (if LEH_VERSION = leh_version h then
        let b = parity_check16 (leh_magic h);
            b = (b \<noteq> parity_check16 (leh_version h));
            b = (b \<noteq> parity_check32 (leh_log_size h));
            b = (b \<noteq> parity_check64 (scn_get_val_for_logservice (leh_scn h)));
            b = (b \<noteq> parity_check64 (leh_data_checksum h));
            b = (b \<noteq> parity_check64 (leh_flag h AND NOT PARITY_MASK))
        in if b then 1 else 0
      else if LEH_VERSION2 = leh_version h then
        xxhash_16 E 0 (leh_memory (h\<lparr>leh_flag := leh_flag h AND NOT CRC16_MASK\<rparr>))
      else 0)"

definition leh_update_header_checksum :: "hash_env \<Rightarrow> LogEntryHeader \<Rightarrow> LogEntryHeader" where
  "leh_update_header_checksum E h =
     (let h = leh_reset_header_checksum h
      in h\<lparr>leh_flag := leh_flag h OR ucast (leh_calculate_header_checksum E h)\<rparr>)"

definition leh_get_version :: "hash_env \<Rightarrow> u16" where
  "leh_get_version E =
     (case min_data_version E of
        None \<Rightarrow> LEH_VERSION
      | Some v \<Rightarrow> if v \<ge> DATA_VERSION_4_3_3_0 then LEH_VERSION2 else LEH_VERSION)"

text \<open>\<^verbatim>\<open>log_data\<close> and \<^verbatim>\<open>data_len\<close>: the first \<open>data_len\<close> bytes behind the pointer.\<close>

definition leh_generate_header ::
  "hash_env \<Rightarrow> LogEntryHeader \<Rightarrow> buffer \<Rightarrow> int \<Rightarrow> SCN \<Rightarrow> ob_ret \<times> LogEntryHeader" where
  "leh_generate_header E h log_data data_len scn =
     (case log_data of
        None \<Rightarrow> (OB_INVALID_ARGUMENT, h)
      | Some b \<Rightarrow>
          if data_len \<le> 0 \<or> \<not> scn_is_valid scn then (OB_INVALID_ARGUMENT, h)
          else (OB_SUCCESS, leh_update_header_checksum E
                 (h\<lparr>leh_magic := LEH_MAGIC, leh_version := leh_get_version E,
                    leh_log_size := word_of_int data_len, leh_scn := scn,
                    leh_data_checksum := crc64 E 0 (take (nat data_len) b)\<rparr>)))"

definition leh_generate_padding_header ::
  "hash_env \<Rightarrow> LogEntryHeader \<Rightarrow> buffer \<Rightarrow> int \<Rightarrow> int \<Rightarrow> SCN \<Rightarrow> ob_ret \<times> LogEntryHeader" where
  "leh_generate_padding_header E h log_data base_header_len padding_data_len scn =
     (case log_data of
        None \<Rightarrow> (OB_INVALID_ARGUMENT, h)
      | Some b \<Rightarrow>
          if base_header_len \<le> 0 \<or> padding_data_len \<le> 0 \<or> \<not> scn_is_valid scn
          then (OB_INVALID_ARGUMENT, h)
          else let h = h\<lparr>leh_magic := LEH_MAGIC, leh_version := leh_get_version E,
                         leh_log_size := word_of_int padding_data_len, leh_scn := scn,
                         leh_data_checksum := crc64 E 0 (take (nat base_header_len) b)\<rparr>;
                   h = h\<lparr>leh_flag := leh_flag h OR leh_get_padding_mask h\<rparr>
               in (OB_SUCCESS, leh_update_header_checksum E h))"

definition leh_check_header_checksum :: "hash_env \<Rightarrow> LogEntryHeader \<Rightarrow> bool" where
  "leh_check_header_checksum E h =
     (if LEH_VERSION2 \<noteq> leh_version h \<and> LEH_VERSION \<noteq> leh_version h then False
      else leh_calculate_header_checksum E h
             = ucast (leh_flag h AND leh_get_header_checksum_mask h))"

definition leh_is_padding_log :: "LogEntryHeader \<Rightarrow> bool" where
  "leh_is_padding_log h \<longleftrightarrow> 0 <s (leh_flag h AND leh_get_padding_mask h)"

definition leh_check_header_integrity :: "hash_env \<Rightarrow> LogEntryHeader \<Rightarrow> bool" where
  "leh_check_header_integrity E h \<longleftrightarrow> leh_is_valid h \<and> leh_check_header_checksum E h"

text \<open>\<^verbatim>\<open>sizeof(ObLogBaseHeader)\<close>\<close>

definition LOG_BASE_HEADER_SIZE :: int where "LOG_BASE_HEADER_SIZE = 16"

text \<open>The body is read as far as the buffer goes; callers pass a buffer of at least \<open>data_len\<close> bytes.\<close>

definition leh_check_integrity :: "hash_env \<Rightarrow> LogEntryHeader \<Rightarrow> buffer \<Rightarrow> int \<Rightarrow> bool" where
  "leh_check_integrity E h buf data_len =
     (let valid_data_len = (if leh_is_padding_log h then LOG_BASE_HEADER_SIZE else data_len)
      in case buf of
           None \<Rightarrow> False
         | Some b \<Rightarrow>
             if data_len \<le> 0 then False
             else if LEH_MAGIC \<noteq> leh_magic h then False
             else if \<not> leh_check_header_checksum E h then False
             else leh_data_checksum h = crc64 E 0 (take (nat valid_data_len) b))"

definition leh_serialize :: "buffer \<Rightarrow> nat \<Rightarrow> nat \<Rightarrow> LogEntryHeader \<Rightarrow> enc_result" where
  "leh_serialize buf buf_len pos h =
     (if buf = None \<or> buf_len = 0 then (OB_INVALID_ARGUMENT, buf, pos)
      else case enc_all
             [\<lambda>b n p. encode_i16 b n p (leh_magic h), \<lambda>b n p. encode_i16 b n p (leh_version h),
              \<lambda>b n p. encode_i32 b n p (leh_log_size h), \<lambda>b n p. scn_fixed_serialize b n p (leh_scn h),
              \<lambda>b n p. encode_i64 b n p (leh_data_checksum h), \<lambda>b n p. encode_i64 b n p (leh_flag h)]
             buf buf_len pos of
             (ret, buf', new_pos) \<Rightarrow>
               if ret \<noteq> OB_SUCCESS then (OB_BUF_NOT_ENOUGH, buf', pos) else (OB_SUCCESS, buf', new_pos))"

definition leh_decode :: "buffer \<Rightarrow> nat \<Rightarrow> nat \<Rightarrow> LogEntryHeader dec_result" where
  "leh_decode buf data_len pos =
     dec_bind (decode_i16 buf data_len pos) (\<lambda>magic pos.
     dec_bind (decode_i16 buf data_len pos) (\<lambda>version pos.
     dec_bind (decode_i32 buf data_len pos) (\<lambda>log_size pos.
     dec_bind (scn_fixed_deserialize buf data_len pos) (\<lambda>scn pos.
     dec_bind (decode_i64 buf data_len pos) (\<lambda>data_checksum pos.
     dec_bind (decode_i64 buf data_len pos) (\<lambda>flag pos.
       Inr (\<lparr>leh_magic = magic, leh_version = version, leh_log_size = log_size, leh_scn = scn,
             leh_data_checksum = data_checksum, leh_flag = flag\<rparr>, pos)))))))"

definition leh_deserialize :: "hash_env \<Rightarrow> buffer \<Rightarrow> nat \<Rightarrow> nat \<Rightarrow> LogEntryHeader dec_result" where
  "leh_deserialize E buf data_len pos =
     (if buf = None \<or> data_len = 0 then Inl OB_INVALID_ARGUMENT
      else case leh_decode buf data_len pos of
             Inl _ \<Rightarrow> Inl OB_BUF_NOT_ENOUGH
           | Inr (h, new_pos) \<Rightarrow>
               if \<not> leh_check_header_integrity E h then Inl OB_INVALID_DATA else Inr (h, new_pos))"

definition leh_get_serialize_size :: nat where
  "leh_get_serialize_size = 2 + 2 + 4 + 8 + 8 + 8"

section \<open>The base header of a log body\<close>

text \<open>\<^verbatim>\<open>src/logservice/ob_log_base_header.cpp\<close>: what a padding entry contains.  Its serializers advance
  the position argument themselves, field by field.\<close>

record ObLogBaseHeader =
  lbh_version :: u16
  lbh_log_type :: u16
  lbh_flag :: u32
  lbh_replay_hint :: u64

datatype ObReplayBarrierType = INVALID_BARRIER | STRICT_BARRIER | PRE_BARRIER | NO_NEED_BARRIER

definition PADDING_LOG_BASE_TYPE :: u16 where "PADDING_LOG_BASE_TYPE = 25"
definition NEED_POST_REPLAY_BARRIER_FLAG :: u32 where "NEED_POST_REPLAY_BARRIER_FLAG = 2 ^ 31"
definition NEED_PRE_REPLAY_BARRIER_FLAG :: u32 where "NEED_PRE_REPLAY_BARRIER_FLAG = 2 ^ 30"
definition PAYLOAD_IS_COMPRESSED :: u32 where "PAYLOAD_IS_COMPRESSED = 2 ^ 29"

definition lbh_new :: "u16 \<Rightarrow> ObReplayBarrierType \<Rightarrow> u64 \<Rightarrow> ObLogBaseHeader" where
  "lbh_new log_type barrier replay_hint =
     \<lparr>lbh_version = 1, lbh_log_type = log_type,
      lbh_flag = (case barrier of
                    NO_NEED_BARRIER \<Rightarrow> 0
                  | PRE_BARRIER \<Rightarrow> NEED_PRE_REPLAY_BARRIER_FLAG
                  | _ \<Rightarrow> NEED_POST_REPLAY_BARRIER_FLAG OR NEED_PRE_REPLAY_BARRIER_FLAG),
      lbh_replay_hint = replay_hint\<rparr>"

definition lbh_reset :: ObLogBaseHeader where
  "lbh_reset = \<lparr>lbh_version = 0, lbh_log_type = 0, lbh_flag = 0, lbh_replay_hint = 0\<rparr>"

definition lbh_is_valid :: "ObLogBaseHeader \<Rightarrow> bool" where
  "lbh_is_valid h \<longleftrightarrow> 0 <s lbh_version h \<and> 0 <s lbh_log_type h"

definition lbh_set_compressed :: "ObLogBaseHeader \<Rightarrow> ObLogBaseHeader" where
  "lbh_set_compressed h = h\<lparr>lbh_flag := lbh_flag h OR PAYLOAD_IS_COMPRESSED\<rparr>"

definition lbh_is_compressed :: "ObLogBaseHeader \<Rightarrow> bool" where
  "lbh_is_compressed h \<longleftrightarrow> lbh_flag h AND PAYLOAD_IS_COMPRESSED \<noteq> 0"

definition lbh_need_pre_replay_barrier :: "ObLogBaseHeader \<Rightarrow> bool" where
  "lbh_need_pre_replay_barrier h \<longleftrightarrow> lbh_flag h AND NEED_PRE_REPLAY_BARRIER_FLAG \<noteq> 0"

definition lbh_need_post_replay_barrier :: "ObLogBaseHeader \<Rightarrow> bool" where
  "lbh_need_post_replay_barrier h \<longleftrightarrow> lbh_flag h AND NEED_POST_REPLAY_BARRIER_FLAG \<noteq> 0"

definition lbh_serialize :: "buffer \<Rightarrow> nat \<Rightarrow> nat \<Rightarrow> ObLogBaseHeader \<Rightarrow> enc_result" where
  "lbh_serialize buf buf_len pos h =
     (if buf = None \<or> buf_len = 0 then (OB_INVALID_ARGUMENT, buf, pos)
      else enc_all
        [\<lambda>b n p. encode_i16 b n p (lbh_version h), \<lambda>b n p. encode_i16 b n p (lbh_log_type h),
         \<lambda>b n p. encode_i32 b n p (lbh_flag h), \<lambda>b n p. encode_i64 b n p (lbh_replay_hint h)]
        buf buf_len pos)"

definition lbh_deserialize :: "buffer \<Rightarrow> nat \<Rightarrow> nat \<Rightarrow> ObLogBaseHeader dec_result" where
  "lbh_deserialize buf data_len pos =
     (if buf = None \<or> data_len = 0 then Inl OB_INVALID_ARGUMENT
      else dec_bind (decode_i16 buf data_len pos) (\<lambda>version pos.
           dec_bind (decode_i16 buf data_len pos) (\<lambda>log_type pos.
           dec_bind (decode_i32 buf data_len pos) (\<lambda>flag pos.
           dec_bind (decode_i64 buf data_len pos) (\<lambda>replay_hint pos.
             Inr (\<lparr>lbh_version = version, lbh_log_type = log_type, lbh_flag = flag,
                   lbh_replay_hint = replay_hint\<rparr>, pos))))))"

definition lbh_get_serialize_size :: nat where
  "lbh_get_serialize_size = 2 + 2 + 4 + 8"

text \<open>The static function that fills a buffer with a padding entry: header, then base header.\<close>

definition leh_generate_padding_log_buf ::
  "hash_env \<Rightarrow> int \<Rightarrow> SCN \<Rightarrow> buffer \<Rightarrow> nat \<Rightarrow> ob_ret \<times> buffer" where
  "leh_generate_padding_log_buf E padding_data_len scn out_buf padding_valid_data_len =
     (let base_header = lbh_new PADDING_LOG_BASE_TYPE NO_NEED_BARRIER 0;
          base_header_len = lbh_get_serialize_size;
          header_len = leh_get_serialize_size;
          serialize_len = base_header_len + header_len
      in if padding_data_len \<le> 0 \<or> \<not> scn_is_valid scn \<or> out_buf = None
            \<or> padding_valid_data_len < serialize_len \<or> padding_data_len < int padding_valid_data_len
         then (OB_INVALID_ARGUMENT, out_buf)
         else case lbh_serialize out_buf padding_valid_data_len header_len base_header of
           (ret, buf1, _) \<Rightarrow>
             if ret \<noteq> OB_SUCCESS then (ret, buf1)
             else case leh_generate_padding_header E leh_new (map_option (drop header_len) buf1)
                     (int base_header_len) padding_data_len scn of
               (ret, header) \<Rightarrow>
                 if ret \<noteq> OB_SUCCESS then (ret, buf1)
                 else case leh_serialize buf1 header_len 0 header of
                   (ret, buf2, _) \<Rightarrow> (ret, buf2))"

section \<open>Log entries\<close>

text \<open>\<^verbatim>\<open>log_entry.cpp\<close>.  \<open>le_buf\<close> is the memory behind the pointer \<^verbatim>\<open>buf_\<close>.  Serialization copies
  \<^verbatim>\<open>data_len\<close> bytes from it; \<open>None\<close> is the undefined behaviour of a copy with a negative length or
  from memory that is too short.\<close>

record LogEntry =
  le_header :: LogEntryHeader
  le_buf :: buffer

definition le_get_data_len :: "LogEntry \<Rightarrow> int" where
  "le_get_data_len e = sint (leh_log_size (le_header e))"

definition le_is_valid :: "LogEntry \<Rightarrow> bool" where
  "le_is_valid e \<longleftrightarrow> leh_is_valid (le_header e) \<and> le_buf e \<noteq> None"

definition le_reset :: LogEntry where
  "le_reset = \<lparr>le_header = leh_reset, le_buf = None\<rparr>"

text \<open>An invalid input is ignored, and the call still reports success.\<close>

definition le_shallow_copy :: "LogEntry \<Rightarrow> LogEntry \<Rightarrow> ob_ret \<times> LogEntry" where
  "le_shallow_copy e input =
     (if \<not> le_is_valid input then (OB_SUCCESS, e)
      else (OB_SUCCESS, e\<lparr>le_header := le_header input, le_buf := le_buf input\<rparr>))"

definition le_get_serialize_size :: "LogEntry \<Rightarrow> int" where
  "le_get_serialize_size e = int leh_get_serialize_size + le_get_data_len e"

definition le_check_integrity :: "hash_env \<Rightarrow> LogEntry \<Rightarrow> bool" where
  "le_check_integrity E e = leh_check_integrity E (le_header e) (le_buf e) (le_get_data_len e)"

definition le_serialize :: "buffer \<Rightarrow> nat \<Rightarrow> nat \<Rightarrow> LogEntry \<Rightarrow> enc_result option" where
  "le_serialize buf buf_len pos e =
     (if buf = None \<or> buf_len = 0 then Some (OB_INVALID_ARGUMENT, buf, pos)
      else case leh_serialize buf buf_len pos (le_header e) of
        (ret, buf', new_pos) \<Rightarrow>
          if ret \<noteq> OB_SUCCESS then Some (ret, buf', pos)
          else if int buf_len - int new_pos < le_get_data_len e then Some (OB_BUF_NOT_ENOUGH, buf', pos)
          else case (buf', le_buf e) of
            (Some b, Some d) \<Rightarrow>
              if le_get_data_len e < 0 \<or> length d < nat (le_get_data_len e) then None
              else Some (OB_SUCCESS, Some (splice_at b new_pos (take (nat (le_get_data_len e)) d)),
                         new_pos + nat (le_get_data_len e))
          | _ \<Rightarrow> None)"

definition le_deserialize :: "hash_env \<Rightarrow> buffer \<Rightarrow> nat \<Rightarrow> nat \<Rightarrow> LogEntry dec_result" where
  "le_deserialize E buf data_len pos =
     (case buf of
        None \<Rightarrow> Inl OB_INVALID_ARGUMENT
      | Some b \<Rightarrow>
          if data_len = 0 then Inl OB_INVALID_ARGUMENT
          else case leh_deserialize E buf data_len pos of
            Inl ret \<Rightarrow> Inl ret
          | Inr (h, new_pos) \<Rightarrow>
              let len = sint (leh_log_size h) in
              if int data_len - int new_pos < len then Inl OB_BUF_NOT_ENOUGH
              else Inr (\<lparr>le_header = h, le_buf = (if len > 0 then Some (drop new_pos b) else None)\<rparr>,
                        nat (int new_pos + len)))"

section \<open>The contract of a header that carries its own checksum\<close>

lemma masked_store:
  fixes x c m :: u64
  assumes "c AND NOT m = 0"
  shows "((x AND NOT m) OR c) AND m = c" and "((x AND NOT m) OR c) AND NOT m = x AND NOT m"
proof -
  have c: "bit c k \<Longrightarrow> k < 64 \<Longrightarrow> bit m k" for k
    using assms by (auto simp: bit_eq_iff bit_simps)
  show "((x AND NOT m) OR c) AND m = c" "((x AND NOT m) OR c) AND NOT m = x AND NOT m"
    using c by (auto intro!: bit_word_eqI simp: bit_simps)
qed

lemma ucast_u16_u64 [simp]: "(ucast (ucast (c :: u16) :: u64) :: u16) = c"
  by (rule bit_word_eqI) (simp add: bit_simps)

text \<open>Storing into masked bits leaves the other bits alone.\<close>

lemma flag_store_other_bits:
  fixes x c m q :: u64
  assumes "c AND NOT m = 0" "q AND m = 0"
  shows "((x AND NOT m) OR c) AND q = x AND q"
proof (rule bit_word_eqI)
  fix n assume n: "n < LENGTH(64)"
  have "bit (c AND NOT m) n \<longleftrightarrow> bit (0 :: u64) n" "bit (q AND m) n \<longleftrightarrow> bit (0 :: u64) n"
    by (simp_all only: assms)
  then show "bit (((x AND NOT m) OR c) AND q) n \<longleftrightarrow> bit (x AND q) n"
    using n by (auto simp: bit_simps)
qed

text \<open>Both header formats store a checksum in some bits of their flag word: the checksum is computed
  over everything but those bits and fits into them.\<close>

locale checked_header =
  fixes flag_of :: "'h \<Rightarrow> u64" and set_flag :: "u64 \<Rightarrow> 'h \<Rightarrow> 'h"
    and mask_of :: "'h \<Rightarrow> u64" and calc :: "'h \<Rightarrow> u16"
  assumes flag_set: "flag_of (set_flag f h) = f"
    and set_set: "set_flag f (set_flag g h) = set_flag f h"
    and mask_set: "mask_of (set_flag f h) = mask_of h"
    and calc_masked: "calc (set_flag (f AND NOT (mask_of h)) h) = calc (set_flag f h)"
    and calc_fits: "(ucast (calc h) :: u64) AND NOT (mask_of h) = 0"
begin

definition stored :: "'h \<Rightarrow> 'h" where
  "stored h = (let h0 = set_flag (flag_of h AND NOT (mask_of h)) h
               in set_flag (flag_of h0 OR ucast (calc h0)) h0)"

lemma stored_checks: "calc (stored h) = ucast (flag_of (stored h) AND mask_of (stored h))"
proof -
  let ?m = "mask_of h" and ?hz = "set_flag (flag_of h AND NOT (mask_of h)) h"
  let ?c = "ucast (calc ?hz) :: u64"
  let ?f = "(flag_of h AND NOT ?m) OR ?c"
  have s: "stored h = set_flag ?f h"
    by (simp add: stored_def Let_def flag_set set_set)
  have fits: "?c AND NOT ?m = 0"
    using calc_fits [of ?hz] by (simp add: mask_set)
  have "calc (set_flag ?f h) = calc (set_flag (?f AND NOT ?m) h)"
    by (rule calc_masked [symmetric])
  also have "\<dots> = calc ?hz"
    by (simp only: masked_store(2) [OF fits])
  finally have "calc (stored h) = calc ?hz" by (simp add: s)
  moreover have "flag_of (stored h) AND mask_of (stored h) = ?c"
    using masked_store(1) [OF fits] by (simp add: s flag_set mask_set)
  ultimately show ?thesis by simp
qed

lemma stored_other_bits:
  assumes "q AND mask_of h = 0"
  shows "flag_of (stored h) AND q = flag_of h AND q"
proof -
  let ?hz = "set_flag (flag_of h AND NOT (mask_of h)) h"
  have "(ucast (calc ?hz) :: u64) AND NOT (mask_of h) = 0"
    using calc_fits [of ?hz] by (simp add: mask_set)
  then show ?thesis
    using flag_store_other_bits [OF _ assms] by (simp add: stored_def Let_def flag_set)
qed

end

lemma crc16_mask: "CRC16_MASK = mask 16" "PARITY_MASK = mask 1"
  by (simp_all add: CRC16_MASK_def PARITY_MASK_def mask_eq_exp_minus_1)

lemma ucast_u16_fits: "(ucast (c :: u16) :: u64) AND NOT CRC16_MASK = 0"
  using bit_imp_le_length [of c] unfolding crc16_mask
  by (auto intro!: bit_word_eqI simp: bit_simps bit_mask_iff)

lemma ucast_bit_fits: "(ucast (if b then 1 else 0 :: u16) :: u64) AND NOT PARITY_MASK = 0"
  by (simp add: PARITY_MASK_def)

interpretation leh: checked_header leh_flag "\<lambda>f h. h\<lparr>leh_flag := f\<rparr>" leh_get_header_checksum_mask
  "leh_calculate_header_checksum E" for E
  by unfold_locales
    (simp_all add: leh_get_header_checksum_mask_def leh_calculate_header_checksum_def Let_def
      ucast_u16_fits ucast_bit_fits and.assoc)

lemma leh_update_header_checksum_stored:
  "leh_update_header_checksum E h = leh.stored E h"
  by (simp add: leh_update_header_checksum_def leh.stored_def leh_reset_header_checksum_def
        leh_get_header_checksum_mask_def Let_def)

lemma leh_update_checksum_ok:
  assumes "leh_version h = LEH_VERSION \<or> leh_version h = LEH_VERSION2"
  shows "leh_check_header_checksum E (leh_update_header_checksum E h)"
proof -
  have "leh_version (leh.stored E h) = leh_version h"
    by (simp add: leh.stored_def Let_def)
  then show ?thesis
    using assms leh.stored_checks [of E h]
    by (auto simp: leh_check_header_checksum_def leh_update_header_checksum_stored)
qed

section \<open>Round trip\<close>

definition leh_bytes :: "LogEntryHeader \<Rightarrow> bytes" where
  "leh_bytes h = be16 (leh_magic h) @ be16 (leh_version h) @ be32 (leh_log_size h)
     @ be64 (scn_val (leh_scn h)) @ be64 (leh_data_checksum h) @ be64 (leh_flag h)"

lemma length_leh_bytes [simp]: "length (leh_bytes h) = 32"
  by (simp add: leh_bytes_def i16.length_to_bytes i32.length_to_bytes i64.length_to_bytes)

lemma leh_bytes_nonempty: "leh_bytes h \<noteq> []"
  using length_leh_bytes [of h] by (metis list.size(3) zero_neq_numeral)

lemma reads_scn_fixed: "scn_is_valid s \<Longrightarrow> reads scn_fixed_deserialize s (be64 (scn_val s))"
  using scn_codec.reads_dec [of s] by (simp add: reads_def scn_fixed_deserialize_def)

lemma leh_serialize_writes: "writes (\<lambda>b n p. leh_serialize b n p h) (leh_bytes h)"
proof -
  let ?es = "[\<lambda>b n p. encode_i16 b n p (leh_magic h), \<lambda>b n p. encode_i16 b n p (leh_version h),
    \<lambda>b n p. encode_i32 b n p (leh_log_size h), \<lambda>b n p. scn_fixed_serialize b n p (leh_scn h),
    \<lambda>b n p. encode_i64 b n p (leh_data_checksum h), \<lambda>b n p. encode_i64 b n p (leh_flag h)]"
  have "writes (enc_all ?es) (concat [be16 (leh_magic h), be16 (leh_version h), be32 (leh_log_size h),
      be64 (scn_val (leh_scn h)), be64 (leh_data_checksum h), be64 (leh_flag h)])"
    by (intro writes_enc_all) (simp add: i16.writes_enc i32.writes_enc i64.writes_enc scn_codec.writes_enc)
  then have w: "writes (enc_all ?es) (leh_bytes h)"
    by (simp add: leh_bytes_def)
  show ?thesis
    unfolding leh_serialize_def by (rule writes_header [OF w leh_bytes_nonempty]) simp_all
qed

lemma leh_decode_reads: "scn_is_valid (leh_scn h) \<Longrightarrow> reads leh_decode h (leh_bytes h)"
proof -
  assume v: "scn_is_valid (leh_scn h)"
  have "reads leh_decode h (be16 (leh_magic h) @ be16 (leh_version h) @ be32 (leh_log_size h)
      @ be64 (scn_val (leh_scn h)) @ be64 (leh_data_checksum h) @ be64 (leh_flag h) @ [])"
    unfolding leh_decode_def [abs_def]
    by (rule reads_bind, rule i16.reads_dec, rule reads_bind, rule i16.reads_dec,
        rule reads_bind, rule i32.reads_dec, rule reads_bind, rule reads_scn_fixed [OF v],
        rule reads_bind, rule i64.reads_dec, rule reads_bind, rule i64.reads_dec) (simp add: reads_def)
  then show ?thesis by (simp add: leh_bytes_def)
qed

lemma leh_deserialize_reads:
  assumes "leh_check_header_integrity E h"
  shows "reads (leh_deserialize E) h (leh_bytes h)"
proof -
  have "scn_is_valid (leh_scn h)"
    using assms by (simp add: leh_check_header_integrity_def leh_is_valid_def)
  then show ?thesis
    using leh_decode_reads [of h] assms by (auto simp: reads_def leh_deserialize_def)
qed

lemma leh_deserialize_success:
  "leh_deserialize E buf n p = Inr (h, p') \<Longrightarrow> leh_check_header_integrity E h"
  by (auto simp: leh_deserialize_def split: if_splits sum.splits)

lemma leh_get_version_cases: "leh_get_version E = LEH_VERSION \<or> leh_get_version E = LEH_VERSION2"
  by (simp add: leh_get_version_def split: option.split)

lemma leh_update_header_checksum_fields [simp]:
  "leh_magic (leh_update_header_checksum E h) = leh_magic h"
  "leh_version (leh_update_header_checksum E h) = leh_version h"
  "leh_log_size (leh_update_header_checksum E h) = leh_log_size h"
  "leh_scn (leh_update_header_checksum E h) = leh_scn h"
  "leh_data_checksum (leh_update_header_checksum E h) = leh_data_checksum h"
  by (simp_all add: leh_update_header_checksum_def leh_reset_header_checksum_def Let_def)

lemma sint_u32_small: "0 \<le> n \<Longrightarrow> n < 2147483648 \<Longrightarrow> sint (word_of_int n :: u32) = n"
  by (simp add: sint_sbintrunc' signed_take_bit_int_eq_self)

lemma leh_generate_header_ok:
  assumes "leh_generate_header E hz (Some d) len scn = (OB_SUCCESS, h)" "len < 2147483648"
  shows "leh_check_header_integrity E h" and "sint (leh_log_size h) = len" and "leh_scn h = scn"
    and "leh_data_checksum h = crc64 E 0 (take (nat len) d)" and "0 < len"
    and "leh_version h = leh_get_version E" and "leh_magic h = LEH_MAGIC"
proof -
  let ?h = "hz\<lparr>leh_magic := LEH_MAGIC, leh_version := leh_get_version E, leh_log_size := word_of_int len,
      leh_scn := scn, leh_data_checksum := crc64 E 0 (take (nat len) d)\<rparr>"
  have g: "0 < len" "scn_is_valid scn" "h = leh_update_header_checksum E ?h"
    using assms(1) by (auto simp: leh_generate_header_def split: if_splits)
  then have s: "sint (leh_log_size h) = len" using assms(2) by (simp add: sint_u32_small)
  have "leh_check_header_checksum E h"
    unfolding g(3) using leh_get_version_cases [of E] by (intro leh_update_checksum_ok) simp
  moreover have "leh_is_valid h"
    using g s by (simp add: leh_is_valid_def word_sless_alt)
  ultimately show "leh_check_header_integrity E h" by (simp add: leh_check_header_integrity_def)
  show "sint (leh_log_size h) = len" "0 < len" by (fact s, fact g(1))
qed (use assms(1) in \<open>auto simp: leh_generate_header_def split: if_splits\<close>)

lemma leh_padding_mask_disjoint: "leh_get_padding_mask h AND leh_get_header_checksum_mask h = 0"
  by (simp add: leh_get_padding_mask_def leh_get_header_checksum_mask_def PADDING_TYPE_MASK_def
        PADDING_TYPE_MASK_VERSION2_def CRC16_MASK_def PARITY_MASK_def)

lemma leh_is_padding_update [simp]:
  "leh_is_padding_log (leh_update_header_checksum E h) \<longleftrightarrow> leh_is_padding_log h"
proof -
  have "leh_get_padding_mask (leh_update_header_checksum E h) = leh_get_padding_mask h"
    by (simp add: leh_get_padding_mask_def)
  then show ?thesis
    using leh.stored_other_bits [OF leh_padding_mask_disjoint [of h], of E]
    by (simp add: leh_is_padding_log_def leh_update_header_checksum_stored)
qed

lemma leh_generated_not_padding:
  "leh_generate_header E leh_new (Some d) len scn = (OB_SUCCESS, h) \<Longrightarrow> \<not> leh_is_padding_log h"
  by (auto simp: leh_generate_header_def split: if_splits)
    (simp_all add: leh_is_padding_log_def leh_new_def)

section \<open>Padding entries\<close>

definition lbh_bytes :: "ObLogBaseHeader \<Rightarrow> bytes" where
  "lbh_bytes h = be16 (lbh_version h) @ be16 (lbh_log_type h) @ be32 (lbh_flag h) @ be64 (lbh_replay_hint h)"

lemma length_lbh_bytes [simp]: "length (lbh_bytes h) = 16"
  by (simp add: lbh_bytes_def i16.length_to_bytes i32.length_to_bytes i64.length_to_bytes)

lemma lbh_bytes_nonempty: "lbh_bytes h \<noteq> []"
  using length_lbh_bytes [of h] by (metis list.size(3) zero_neq_numeral)

lemma lbh_serialize_writes: "writes (\<lambda>b n p. lbh_serialize b n p h) (lbh_bytes h)"
proof -
  let ?es = "[\<lambda>b n p. encode_i16 b n p (lbh_version h), \<lambda>b n p. encode_i16 b n p (lbh_log_type h),
    \<lambda>b n p. encode_i32 b n p (lbh_flag h), \<lambda>b n p. encode_i64 b n p (lbh_replay_hint h)]"
  have "writes (enc_all ?es)
      (concat [be16 (lbh_version h), be16 (lbh_log_type h), be32 (lbh_flag h), be64 (lbh_replay_hint h)])"
    by (intro writes_enc_all) (simp add: i16.writes_enc i32.writes_enc i64.writes_enc)
  then have w: "writes (enc_all ?es) (lbh_bytes h)" by (simp add: lbh_bytes_def)
  show ?thesis
    by (intro writes_wrap [OF w lbh_bytes_nonempty]) (auto simp: lbh_serialize_def)
qed

lemma lbh_deserialize_reads: "reads lbh_deserialize h (lbh_bytes h)"
proof -
  have "reads (\<lambda>buf data_len pos. dec_bind (decode_i16 buf data_len pos) (\<lambda>version pos.
      dec_bind (decode_i16 buf data_len pos) (\<lambda>log_type pos.
      dec_bind (decode_i32 buf data_len pos) (\<lambda>flag pos.
      dec_bind (decode_i64 buf data_len pos) (\<lambda>replay_hint pos.
        Inr (\<lparr>lbh_version = version, lbh_log_type = log_type, lbh_flag = flag,
              lbh_replay_hint = replay_hint\<rparr>, pos))))))
    h (be16 (lbh_version h) @ be16 (lbh_log_type h) @ be32 (lbh_flag h) @ be64 (lbh_replay_hint h) @ [])"
    by (rule reads_bind, rule i16.reads_dec, rule reads_bind, rule i16.reads_dec,
        rule reads_bind, rule i32.reads_dec, rule reads_bind, rule i64.reads_dec) (simp add: reads_def)
  then show ?thesis
    using length_lbh_bytes [of h] by (simp add: lbh_bytes_def reads_def lbh_deserialize_def)
qed

lemma leh_generate_padding_header_ok:
  assumes "leh_generate_padding_header E hz (Some d) blen len scn = (OB_SUCCESS, h)" "len < 2147483648"
  shows "leh_check_header_integrity E h" and "sint (leh_log_size h) = len" and "leh_scn h = scn"
    and "leh_data_checksum h = crc64 E 0 (take (nat blen) d)" and "0 < len" and "leh_is_padding_log h"
proof -
  let ?g = "hz\<lparr>leh_magic := LEH_MAGIC, leh_version := leh_get_version E, leh_log_size := word_of_int len,
      leh_scn := scn, leh_data_checksum := crc64 E 0 (take (nat blen) d)\<rparr>"
  let ?h = "?g\<lparr>leh_flag := leh_flag ?g OR leh_get_padding_mask ?g\<rparr>"
  have g: "0 < len" "scn_is_valid scn" "h = leh_update_header_checksum E ?h"
    using assms(1) by (auto simp: leh_generate_padding_header_def Let_def split: if_splits)
  then have s: "sint (leh_log_size h) = len" using assms(2) by (simp add: sint_u32_small)
  have "leh_check_header_checksum E h"
    unfolding g(3) using leh_get_version_cases [of E] by (intro leh_update_checksum_ok) simp
  moreover have "leh_is_valid h"
    using g s by (simp add: leh_is_valid_def word_sless_alt)
  ultimately show "leh_check_header_integrity E h" by (simp add: leh_check_header_integrity_def)
  show "sint (leh_log_size h) = len" "0 < len" by (fact s, fact g(1))
  show "leh_scn h = scn" "leh_data_checksum h = crc64 E 0 (take (nat blen) d)"
    using g(3) by simp_all
  have "(x OR q) AND q = q" for x q :: u64 by (simp add: and.commute)
  moreover have "leh_get_padding_mask ?h = leh_get_padding_mask ?g" by (simp add: leh_get_padding_mask_def)
  moreover have "0 <s leh_get_padding_mask ?g"
    using leh_get_version_cases [of E]
    by (auto simp: leh_get_padding_mask_def PADDING_TYPE_MASK_def PADDING_TYPE_MASK_VERSION2_def word_sless_alt)
  ultimately have "leh_is_padding_log ?h" by (simp add: leh_is_padding_log_def)
  then show "leh_is_padding_log h" unfolding g(3) leh_is_padding_update .
qed

section \<open>Single-bit errors\<close>

text \<open>The parity a version 1 header stores.\<close>

definition leh_parity :: "LogEntryHeader \<Rightarrow> bool" where
  "leh_parity h = (((((parity_check16 (leh_magic h) \<noteq> parity_check16 (leh_version h))
     \<noteq> parity_check32 (leh_log_size h)) \<noteq> parity_check64 (scn_get_val_for_logservice (leh_scn h)))
     \<noteq> parity_check64 (leh_data_checksum h)) \<noteq> parity_check64 (leh_flag h AND NOT PARITY_MASK))"

definition leh_one_bit_off :: "LogEntryHeader \<Rightarrow> LogEntryHeader \<Rightarrow> bool" where
  "leh_one_bit_off h h' \<longleftrightarrow>
     (\<exists>i < 16. h' = h\<lparr>leh_magic := leh_magic h XOR 2 ^ i\<rparr> \<or> h' = h\<lparr>leh_version := leh_version h XOR 2 ^ i\<rparr>)
     \<or> (\<exists>i < 32. h' = h\<lparr>leh_log_size := leh_log_size h XOR 2 ^ i\<rparr>)
     \<or> (\<exists>i < 64. h' = h\<lparr>leh_scn := SCN (scn_val (leh_scn h) XOR 2 ^ i)\<rparr>
           \<or> h' = h\<lparr>leh_data_checksum := leh_data_checksum h XOR 2 ^ i\<rparr>
           \<or> h' = h\<lparr>leh_flag := leh_flag h XOR 2 ^ i\<rparr>)"

lemma leh_check_v1:
  assumes "leh_version h = LEH_VERSION"
  shows "leh_check_header_checksum E h \<longleftrightarrow> leh_parity h = bit (leh_flag h) 0"
proof -
  have "leh_flag h AND 1 = of_bool (bit (leh_flag h) 0)"
    unfolding and_one_eq mod_2_eq_odd bit_0 ..
  then have "(ucast (leh_flag h AND PARITY_MASK) :: u16) = (if bit (leh_flag h) 0 then 1 else 0)"
    by (simp add: PARITY_MASK_def)
  moreover have "leh_calculate_header_checksum E h = (if leh_parity h then 1 else 0)"
    unfolding leh_calculate_header_checksum_def leh_parity_def Let_def assms by (simp only: if_True refl)
  ultimately show ?thesis
    using assms by (simp add: leh_check_header_checksum_def leh_get_header_checksum_mask_def)
qed

lemma flip_low_flag: "(x XOR 1) AND NOT PARITY_MASK = x AND NOT PARITY_MASK" for x :: u64
  unfolding crc16_mask by (auto intro!: bit_word_eqI simp: bit_simps bit_mask_iff bit_1_iff)

lemma flip_high_flag: "0 < i \<Longrightarrow> (x XOR 2 ^ i) AND NOT PARITY_MASK = (x AND NOT PARITY_MASK) XOR 2 ^ i" for x :: u64
  unfolding crc16_mask by (auto intro!: bit_word_eqI simp: bit_simps bit_mask_iff)

lemma leh_parity_flip:
  shows "i < 16 \<Longrightarrow> leh_parity (h\<lparr>leh_magic := leh_magic h XOR 2 ^ i\<rparr>) \<longleftrightarrow> \<not> leh_parity h"
    and "i < 32 \<Longrightarrow> leh_parity (h\<lparr>leh_log_size := leh_log_size h XOR 2 ^ i\<rparr>) \<longleftrightarrow> \<not> leh_parity h"
    and "i < 64 \<Longrightarrow> leh_parity (h\<lparr>leh_scn := SCN (scn_val (leh_scn h) XOR 2 ^ i)\<rparr>) \<longleftrightarrow> \<not> leh_parity h"
    and "i < 64 \<Longrightarrow> leh_parity (h\<lparr>leh_data_checksum := leh_data_checksum h XOR 2 ^ i\<rparr>) \<longleftrightarrow> \<not> leh_parity h"
    and "0 < i \<Longrightarrow> i < 64 \<Longrightarrow> leh_parity (h\<lparr>leh_flag := leh_flag h XOR 2 ^ i\<rparr>) \<longleftrightarrow> \<not> leh_parity h"
    and "leh_parity (h\<lparr>leh_flag := leh_flag h XOR 1\<rparr>) \<longleftrightarrow> leh_parity h"
  unfolding leh_parity_def scn_get_val_for_logservice_def
  by (simp_all add: parity_check_flip flip_high_flag flip_low_flag) blast+

lemma version_flip_unknown:
  assumes "i < 16"
  shows "LEH_VERSION XOR 2 ^ i \<noteq> LEH_VERSION" "LEH_VERSION XOR 2 ^ i \<noteq> LEH_VERSION2"
proof -
  have "list_all (\<lambda>i. LEH_VERSION XOR 2 ^ i \<noteq> LEH_VERSION \<and> LEH_VERSION XOR 2 ^ i \<noteq> LEH_VERSION2) [0..<16]"
    by code_simp
  then show "LEH_VERSION XOR 2 ^ i \<noteq> LEH_VERSION" "LEH_VERSION XOR 2 ^ i \<noteq> LEH_VERSION2"
    using assms by (simp_all add: list_all_iff)
qed

lemma leh_flip_fails:
  assumes v: "leh_version h = LEH_VERSION" and ok: "leh_check_header_checksum E h"
    and off: "leh_one_bit_off h h'"
  shows "\<not> leh_check_header_checksum E h'"
proof -
  have p: "leh_parity h = bit (leh_flag h) 0"
    using ok by (simp add: leh_check_v1 [OF v])
  have same: "\<not> leh_check_header_checksum E g"
    if "leh_version g = LEH_VERSION" "leh_parity g \<longleftrightarrow> \<not> leh_parity h" "bit (leh_flag g) 0 = bit (leh_flag h) 0" for g
    using that p by (simp add: leh_check_v1 [OF that(1)])
  consider (magic) i where "i < 16" "h' = h\<lparr>leh_magic := leh_magic h XOR 2 ^ i\<rparr>"
    | (version) i where "i < 16" "h' = h\<lparr>leh_version := leh_version h XOR 2 ^ i\<rparr>"
    | (size) i where "i < 32" "h' = h\<lparr>leh_log_size := leh_log_size h XOR 2 ^ i\<rparr>"
    | (scn) i where "i < 64" "h' = h\<lparr>leh_scn := SCN (scn_val (leh_scn h) XOR 2 ^ i)\<rparr>"
    | (data) i where "i < 64" "h' = h\<lparr>leh_data_checksum := leh_data_checksum h XOR 2 ^ i\<rparr>"
    | (flag) i where "0 < i" "i < 64" "h' = h\<lparr>leh_flag := leh_flag h XOR 2 ^ i\<rparr>"
    | (low) "h' = h\<lparr>leh_flag := leh_flag h XOR 1\<rparr>"
    using off unfolding leh_one_bit_off_def by (metis not_gr_zero power_0)
  then show ?thesis
  proof cases
    case version
    then show ?thesis
      using version_flip_unknown [OF version(1)] v by (simp add: leh_check_header_checksum_def)
  next
    case low
    then have "leh_version h' = LEH_VERSION" "leh_parity h' = leh_parity h" "bit (leh_flag h') 0 \<noteq> bit (leh_flag h) 0"
      using v by (simp_all add: leh_parity_flip bit_xor_iff bit_1_iff)
    then show ?thesis using p by (simp add: leh_check_v1)
  qed ((rule same; use v in \<open>simp add: leh_parity_flip bit_xor_iff bit_exp_iff\<close>)+)
qed

lemma splice_at_behind: "p + length bs \<le> length b \<Longrightarrow> drop (p + length bs) (splice_at b p bs) = drop (p + length bs) b"
  by (simp add: splice_at_def)

section \<open>Properties\<close>

text \<open>C25. A log entry survives serialization: the header that \<^verbatim>\<open>generate_header\<close> built for a body, written
  with the body and read back from the same position, is the same header with the same body, it
  passes the header and the data checks, and reading ends where writing ended.\<close>

theorem log_entry_roundtrip:
  assumes "leh_generate_header E leh_new (Some d) (int (length d)) scn = (OB_SUCCESS, h)"
    and "length d < 2 ^ 31" and "n \<le> length b" and "p + 32 + length d \<le> n"
  shows "\<exists>b' e. le_serialize (Some b) n p \<lparr>le_header = h, le_buf = Some d\<rparr>
        = Some (OB_SUCCESS, Some b', p + 32 + length d)
      \<and> le_deserialize E (Some b') n p = Inr (e, p + 32 + length d)
      \<and> le_header e = h \<and> map_option (take (length d)) (le_buf e) = Some d \<and> le_check_integrity E e"
proof -
  let ?b1 = "splice_at b p (leh_bytes h)"
  let ?b = "splice_at ?b1 (p + 32) d"
  have len: "int (length d) < 2147483648" using assms(2) by simp
  note g = leh_generate_header_ok [OF assms(1) len]
  have ser: "leh_serialize (Some b) n p h = (OB_SUCCESS, Some ?b1, p + 32)"
    using writes_room [OF leh_serialize_writes assms(3), of p h] assms(4) by simp
  have room: "p + 32 + length d \<le> length ?b1" using assms(3,4) by simp
  have all: "?b = splice_at b p (leh_bytes h @ d)"
    using splice_at_append [of p "leh_bytes h" d b] assms(3,4) by simp
  have "bytes_at ?b p (leh_bytes h @ d)"
    unfolding all using assms(3,4) by (intro bytes_at_splice) simp
  then have at: "bytes_at ?b p (leh_bytes h)" "bytes_at ?b (p + 32) d"
    by (simp_all add: bytes_at_append)
  have n: "n \<noteq> 0" "n \<le> length ?b" using assms(3,4) room by simp_all
  have de: "leh_deserialize E (Some ?b) n p = Inr (h, p + 32)"
    using reads_at [OF leh_deserialize_reads [OF g(1)] n(2) _ at(1)] assms(4) by simp
  have d: "take (length d) (drop (p + 32) ?b) = d" using at(2) by (simp add: bytes_at_def)
  have "leh_check_integrity E h (Some (drop (p + 32) ?b)) (int (length d))"
    using g leh_generated_not_padding [OF assms(1)] d
    by (simp add: leh_check_integrity_def leh_check_header_integrity_def)
  then show ?thesis
    using ser de d g(2,5) n assms(4)
    by (intro exI [of _ ?b] exI [of _ "\<lparr>le_header = h, le_buf = Some (drop (p + 32) ?b)\<rparr>"])
      (auto simp: le_serialize_def le_deserialize_def le_get_data_len_def le_check_integrity_def Let_def)
qed

text \<open>C26. The parity bit of a version 1 header detects every single-bit error: a header that passes the
  header check fails it after any one bit of its 32 bytes has been flipped.\<close>

theorem entry_header_single_bit_error:
  assumes "leh_version h = LEH_VERSION" and "leh_check_header_checksum E h" and "leh_one_bit_off h h'"
  shows "\<not> leh_check_header_checksum E h'"
  by (rule leh_flip_fails [OF assms])

text \<open>C27. A generated padding entry is a readable entry: whenever \<^verbatim>\<open>generate_padding_log_buf\<close> succeeds, the
  buffer starts with a header that passes all checks, is marked as padding, carries the padding
  length and the SCN and protects the base header behind it, which itself reads back.\<close>

theorem padding_log_buf_readable:
  assumes "leh_generate_padding_log_buf E len scn (Some b) n = (OB_SUCCESS, b')"
    and "n \<le> length b" and "len < 2 ^ 31"
  shows "\<exists>m h. b' = Some m \<and> leh_deserialize E b' n 0 = Inr (h, 32)
    \<and> leh_is_padding_log h \<and> sint (leh_log_size h) = len \<and> leh_scn h = scn
    \<and> leh_check_integrity E h (Some (drop 32 m)) len
    \<and> lbh_deserialize b' n 32 = Inr (lbh_new PADDING_LOG_BASE_TYPE NO_NEED_BARRIER 0, 48)"
proof -
  let ?base = "lbh_new PADDING_LOG_BASE_TYPE NO_NEED_BARRIER 0"
  let ?b1 = "splice_at b 32 (lbh_bytes ?base)"
  have n: "48 \<le> n"
    using assms(1) by (auto simp: leh_generate_padding_log_buf_def leh_get_serialize_size_def lbh_get_serialize_size_def Let_def split: if_splits)
  have s1: "lbh_serialize (Some b) n 32 ?base = (OB_SUCCESS, Some ?b1, 48)"
    using writes_room [OF lbh_serialize_writes assms(2), of 32 ?base] n by simp
  have len1: "length ?b1 = length b" using n assms(2) by simp
  obtain h where h: "leh_generate_padding_header E leh_new (Some (drop 32 ?b1)) 16 len scn = (OB_SUCCESS, h)"
    and b': "(OB_SUCCESS, b') = (case leh_serialize (Some ?b1) 32 0 h of (ret, buf2, _) \<Rightarrow> (ret, buf2))"
    using assms(1) s1
    by (auto simp: leh_generate_padding_log_buf_def leh_get_serialize_size_def lbh_get_serialize_size_def Let_def split: if_splits prod.splits)
  have len: "len < 2147483648" using assms(3) by simp
  note g = leh_generate_padding_header_ok [OF h len]
  let ?m = "splice_at ?b1 0 (leh_bytes h)"
  have m: "b' = Some ?m" "length ?m = length b"
    using b' writes_room [OF leh_serialize_writes, of 32 ?b1 0 h] len1 n assms(2) by auto
  have tail: "drop 32 ?m = drop 32 ?b1"
    using splice_at_behind [of 0 "leh_bytes h" ?b1] len1 n assms(2) by simp
  have "bytes_at ?b1 32 (lbh_bytes ?base)" using n assms(2) by (intro bytes_at_splice) simp
  then have "bytes_at ?m 32 (lbh_bytes ?base)"
    unfolding bytes_at_def using tail m(2) len1 by simp
  then have "lbh_deserialize b' n 32 = Inr (?base, 48)"
    using reads_at [OF lbh_deserialize_reads, of n ?m 32] m n assms(2) by simp
  moreover have "bytes_at ?m 0 (leh_bytes h)" using len1 n assms(2) by (intro bytes_at_splice) simp
  then have "leh_deserialize E b' n 0 = Inr (h, 32)"
    using reads_at [OF leh_deserialize_reads [OF g(1)], of n ?m 0] m n assms(2) by simp
  moreover have "leh_check_integrity E h (Some (drop 32 ?m)) len"
    using g tail by (simp add: leh_check_integrity_def leh_check_header_integrity_def leh_is_valid_def
        LOG_BASE_HEADER_SIZE_def)
  ultimately show ?thesis using g m by blast
qed

subsection \<open>Witnesses\<close>

lemma wit_entry:
  obtains h where "leh_generate_header wit_env leh_new (Some [1, 2, 3]) (int (length [1, 2, 3 :: u8])) (SCN 9) = (OB_SUCCESS, h)"
  by (auto simp: leh_generate_header_def scn_is_valid_uint)

theorem log_entry_roundtrip_witness:
  "\<exists>h b' e. le_serialize (Some (replicate 40 0)) 40 0 \<lparr>le_header = h, le_buf = Some [1, 2, 3]\<rparr> = Some (OB_SUCCESS, Some b', 35)
     \<and> le_deserialize wit_env (Some b') 40 0 = Inr (e, 35) \<and> le_header e = h \<and> le_check_integrity wit_env e"
proof -
  obtain h where "leh_generate_header wit_env leh_new (Some [1, 2, 3]) (int (length [1, 2, 3 :: u8])) (SCN 9) = (OB_SUCCESS, h)"
    by (rule wit_entry)
  from log_entry_roundtrip [OF this, of 40 "replicate 40 0" 0] show ?thesis by auto
qed

theorem entry_header_single_bit_error_witness:
  "\<exists>h. leh_check_header_checksum wit_env h \<and> \<not> leh_check_header_checksum wit_env (h\<lparr>leh_log_size := leh_log_size h XOR 2 ^ 7\<rparr>)"
proof -
  obtain h where h: "leh_generate_header wit_env leh_new (Some [1, 2, 3]) (int (length [1, 2, 3 :: u8])) (SCN 9) = (OB_SUCCESS, h)"
    by (rule wit_entry)
  have "leh_get_version wit_env = LEH_VERSION"
    by (simp add: leh_get_version_def wit_env_def DATA_VERSION_4_3_3_0_def)
  then have v: "leh_version h = LEH_VERSION" "leh_check_header_checksum wit_env h"
    using leh_generate_header_ok(1,6) [OF h] by (simp_all add: leh_check_header_integrity_def)
  have "leh_one_bit_off h (h\<lparr>leh_log_size := leh_log_size h XOR 2 ^ 7\<rparr>)"
    unfolding leh_one_bit_off_def by (intro disjI2 disjI1 exI [of _ 7]) simp
  from entry_header_single_bit_error [OF v this] v(2) show ?thesis by blast
qed

theorem padding_log_buf_readable_witness:
  "\<exists>b' h. leh_generate_padding_log_buf wit_env 4000 (SCN 9) (Some (replicate 48 0)) 48 = (OB_SUCCESS, b')
     \<and> leh_deserialize wit_env b' 48 0 = Inr (h, 32) \<and> leh_is_padding_log h"
proof -
  have "fst (leh_generate_padding_log_buf wit_env 4000 (SCN 9) (Some (replicate 48 0)) 48) = OB_SUCCESS"
    by code_simp
  then obtain b' where b: "leh_generate_padding_log_buf wit_env 4000 (SCN 9) (Some (replicate 48 0)) 48 = (OB_SUCCESS, b')"
    by (metis prod.collapse)
  from padding_log_buf_readable [OF b] b show ?thesis by auto
qed

end
