(* ===== verification/WriteBuf.thy ===== *)
theory WriteBuf
  imports RecordCodec
begin

text \<open>
  \<^verbatim>\<open>src/logservice/palf/log_writer_utils.cpp\<close>: a group log as one or two pieces of memory, because the
  ring buffer may wrap in the middle of it.  A piece \<^verbatim>\<open>InnerStruct\<close> is an address and a length; the
  memory is a function from addresses to bytes, an argument of the operations that read it, so that
  merging two adjacent pieces is a statement about the bytes behind them.  The null pointer is
  address 0.  Out of memory in \<^verbatim>\<open>ObSEArray::push_back\<close> is not modelled.
\<close>

type_synonym memory = "nat \<Rightarrow> u8"
type_synonym write_buf = "(nat \<times> int) list"

definition MAX_LOG_BUFFER_SIZE :: int where
  "MAX_LOG_BUFFER_SIZE = (3 * 1024 * 1024 + 512 * 1024) + 4 * 1024 + 4 * 1024"

definition mem_range :: "memory \<Rightarrow> nat \<Rightarrow> nat \<Rightarrow> bytes" where
  "mem_range m a n = map m [a..<a + n]"

definition lwb_is_valid :: "write_buf \<Rightarrow> bool" where
  "lwb_is_valid wb \<longleftrightarrow> 0 < length wb"

definition lwb_get_total_size :: "write_buf \<Rightarrow> int" where
  "lwb_get_total_size wb = sum_list (map snd wb)"

definition lwb_get_buf_count :: "write_buf \<Rightarrow> nat" where
  "lwb_get_buf_count wb = length wb"

definition lwb_get_write_buf :: "write_buf \<Rightarrow> nat \<Rightarrow> ob_ret + (nat \<times> int)" where
  "lwb_get_write_buf wb idx = (if length wb \<le> idx then Inl OB_ARRAY_OUT_OF_RANGE else Inr (wb ! idx))"

text \<open>The result carries the code, the buffer and \<^verbatim>\<open>has_merged\<close>.  The code indexes the first piece of
  both sides without a check; \<open>None\<close> is the undefined behaviour of an empty side.\<close>

definition lwb_merge :: "write_buf \<Rightarrow> write_buf \<Rightarrow> (ob_ret \<times> write_buf \<times> bool) option" where
  "lwb_merge lhs rhs =
     (let lhs_size = lwb_get_total_size lhs; rhs_size = lwb_get_total_size rhs in
      if 2 \<le> lwb_get_buf_count lhs \<or> 2 \<le> lwb_get_buf_count rhs then Some (OB_SUCCESS, lhs, False)
      else if MAX_LOG_BUFFER_SIZE < lhs_size \<or> MAX_LOG_BUFFER_SIZE < rhs_size
      then Some (OB_ERR_UNEXPECTED, lhs, False)
      else if MAX_LOG_BUFFER_SIZE < lhs_size + rhs_size then Some (OB_SUCCESS, lhs, False)
      else case (lhs, rhs) of
        ((a, n) # l, (a', n') # r) \<Rightarrow>
          if a = a' then Some (OB_ERR_UNEXPECTED, lhs, False)
          else if int a + lhs_size \<noteq> int a' then Some (OB_SUCCESS, lhs, False)
          else Some (OB_SUCCESS, (a, n + rhs_size) # l, True)
      | _ \<Rightarrow> None)"

text \<open>\<^verbatim>\<open>push_back\<close> cuts the memory into pieces of at most \<^verbatim>\<open>MAX_LOG_BUFFER_SIZE\<close> bytes; the loop carries
  the remaining length.\<close>

function push_pieces :: "nat \<Rightarrow> int \<Rightarrow> int \<Rightarrow> write_buf \<Rightarrow> write_buf" where
  "push_pieces buf buf_len remain wb =
     (if remain > 0 then
        let limit = min remain MAX_LOG_BUFFER_SIZE
        in push_pieces buf buf_len (remain - limit) (wb @ [(nat (int buf + buf_len - remain), limit)])
      else wb)"
  by pat_completeness auto
termination
  by (relation "measure (\<lambda>(_, _, remain, _). nat remain)") (auto simp: MAX_LOG_BUFFER_SIZE_def)

declare push_pieces.simps [simp del]

definition lwb_push_back :: "write_buf \<Rightarrow> nat \<Rightarrow> int \<Rightarrow> ob_ret \<times> write_buf" where
  "lwb_push_back wb buf buf_len =
     (if buf = 0 \<or> 0 \<ge> buf_len then (OB_INVALID_ARGUMENT, wb)
      else (OB_SUCCESS, push_pieces buf buf_len buf_len wb))"

fun lwb_check_memory_is_continous :: "write_buf \<Rightarrow> bool" where
  "lwb_check_memory_is_continous ((a, n) # (a', n') # wb) =
     (if int a + n \<noteq> int a' then False else lwb_check_memory_is_continous ((a', n') # wb))"
| "lwb_check_memory_is_continous wb = True"

text \<open>The copy loop of \<^verbatim>\<open>memcpy_to_continous_memory\<close> and of the serializer: \<open>None\<close> is a copy of negative
  length or beyond the end of the destination.\<close>

fun copy_pieces :: "memory \<Rightarrow> write_buf \<Rightarrow> bytes \<Rightarrow> nat \<Rightarrow> (bytes \<times> nat) option" where
  "copy_pieces m [] dest pos = Some (dest, pos)"
| "copy_pieces m ((a, n) # wb) dest pos =
     (if n < 0 \<or> length dest < pos + nat n then None
      else copy_pieces m wb (splice_at dest pos (mem_range m a (nat n))) (pos + nat n))"

definition lwb_memcpy_to_continous_memory :: "memory \<Rightarrow> write_buf \<Rightarrow> bytes \<Rightarrow> bytes option" where
  "lwb_memcpy_to_continous_memory m wb dest = map_option fst (copy_pieces m wb dest 0)"

definition lwb_serialize :: "memory \<Rightarrow> buffer \<Rightarrow> nat \<Rightarrow> nat \<Rightarrow> write_buf \<Rightarrow> enc_result option" where
  "lwb_serialize m buf buf_len pos wb =
     (if buf = None \<or> buf_len = 0 then Some (OB_INVALID_ARGUMENT, buf, pos)
      else case encode_i64 buf buf_len pos (word_of_int (lwb_get_total_size wb)) of
        (ret, buf', new_pos) \<Rightarrow>
          if ret \<noteq> OB_SUCCESS then Some (ret, buf', pos)
          else map_option (\<lambda>(b, p). (OB_SUCCESS, Some b, p)) (copy_pieces m wb (the buf') new_pos))"

text \<open>The input buffer of \<^verbatim>\<open>deserialize\<close> is itself memory: the new piece points into it.\<close>

definition lwb_deserialize :: "memory \<Rightarrow> nat \<Rightarrow> nat \<Rightarrow> nat \<Rightarrow> write_buf \<Rightarrow> ob_ret + (write_buf \<times> int)" where
  "lwb_deserialize m buf data_len pos wb =
     (if buf = 0 \<or> data_len = 0 then Inl OB_INVALID_ARGUMENT
      else case decode_i64 (Some (mem_range m buf data_len)) data_len pos of
        Inl ret \<Rightarrow> Inl ret
      | Inr (total_size, new_pos) \<Rightarrow>
          Inr (wb @ [(buf + new_pos, sint total_size)], int new_pos + sint total_size))"

section \<open>The bytes behind a buffer\<close>

definition lwb_pieces :: "memory \<Rightarrow> write_buf \<Rightarrow> bytes list" where
  "lwb_pieces m wb = map (\<lambda>(a, n). mem_range m a (nat n)) wb"

definition lwb_bytes :: "memory \<Rightarrow> write_buf \<Rightarrow> bytes" where
  "lwb_bytes m wb = concat (lwb_pieces m wb)"

definition lwb_ok :: "write_buf \<Rightarrow> bool" where
  "lwb_ok wb \<longleftrightarrow> (\<forall>(a, n) \<in> set wb. 0 < n)"

lemma length_mem_range [simp]: "length (mem_range m a n) = n"
  by (simp add: mem_range_def)

lemma mem_range_append: "mem_range m a n @ mem_range m (a + n) k = mem_range m a (n + k)"
proof -
  have "[a..<a + (n + k)] = [a..<a + n] @ [a + n..<a + n + k]"
    using upt_add_eq_append [of a "a + n" k] by (simp add: add.assoc)
  then show ?thesis by (simp add: mem_range_def add.assoc)
qed

lemma lwb_bytes_simps [simp]:
  "lwb_bytes m [] = []" "lwb_bytes m ((a, n) # wb) = mem_range m a (nat n) @ lwb_bytes m wb"
  "lwb_bytes m (xs @ ys) = lwb_bytes m xs @ lwb_bytes m ys"
  by (simp_all add: lwb_bytes_def lwb_pieces_def)

lemma lwb_ok_simps [simp]:
  "lwb_ok []" "lwb_ok ((a, n) # wb) \<longleftrightarrow> 0 < n \<and> lwb_ok wb" "lwb_ok (xs @ ys) \<longleftrightarrow> lwb_ok xs \<and> lwb_ok ys"
  by (auto simp: lwb_ok_def)

lemma length_lwb_bytes: "lwb_ok wb \<Longrightarrow> int (length (lwb_bytes m wb)) = lwb_get_total_size wb"
  by (induction wb) (auto simp: lwb_get_total_size_def)

lemma push_pieces_bytes:
  assumes "0 \<le> remain" "remain \<le> buf_len"
  shows "lwb_bytes m (push_pieces buf buf_len remain wb)
    = lwb_bytes m wb @ mem_range m (nat (int buf + buf_len - remain)) (nat remain)"
  using assms
proof (induction buf buf_len remain wb rule: push_pieces.induct)
  case (1 buf buf_len remain wb)
  show ?case
  proof (cases "remain > 0")
    case True
    let ?k = "min remain MAX_LOG_BUFFER_SIZE" and ?a = "nat (int buf + buf_len - remain)"
    have k: "0 \<le> ?k" "?k \<le> remain" using True by (simp_all add: MAX_LOG_BUFFER_SIZE_def)
    have a: "nat (int buf + buf_len - (remain - ?k)) = ?a + nat ?k" using 1(2,3) k by linarith
    have r: "nat ?k + nat (remain - ?k) = nat remain" using k by linarith
    have "lwb_bytes m (push_pieces buf buf_len remain wb)
      = lwb_bytes m (push_pieces buf buf_len (remain - ?k) (wb @ [(?a, ?k)]))"
      using True by (subst push_pieces.simps) (simp add: Let_def)
    also have "\<dots> = lwb_bytes m (wb @ [(?a, ?k)]) @ mem_range m (?a + nat ?k) (nat (remain - ?k))"
      using 1(1) [OF True refl] 1(2,3) k unfolding a [symmetric] by linarith
    also have "\<dots> = lwb_bytes m wb @ (mem_range m ?a (nat ?k) @ mem_range m (?a + nat ?k) (nat (remain - ?k)))"
      by simp
    also have "\<dots> = lwb_bytes m wb @ mem_range m ?a (nat remain)"
      by (simp only: mem_range_append r)
    finally show ?thesis .
  next
    case False
    then show ?thesis using 1(2) by (subst push_pieces.simps) (simp add: mem_range_def)
  qed
qed

lemma push_pieces_ok:
  assumes "lwb_ok wb" "\<forall>(a, n) \<in> set wb. n \<le> MAX_LOG_BUFFER_SIZE"
  shows "lwb_ok (push_pieces buf buf_len remain wb)
    \<and> (\<forall>(a, n) \<in> set (push_pieces buf buf_len remain wb). n \<le> MAX_LOG_BUFFER_SIZE)"
  using assms
proof (induction buf buf_len remain wb rule: push_pieces.induct)
  case (1 buf buf_len remain wb)
  show ?case
  proof (cases "remain > 0")
    case True
    show ?thesis
      using 1(1) [OF True refl] 1(2,3) True
      by (subst (1 2) push_pieces.simps) (simp add: Let_def MAX_LOG_BUFFER_SIZE_def)
  qed (use 1(2,3) in \<open>simp add: push_pieces.simps\<close>)
qed

lemma copy_pieces_room:
  assumes "lwb_ok wb" "pos + length (lwb_bytes m wb) \<le> length dest"
  shows "copy_pieces m wb dest pos = Some (splice_at dest pos (lwb_bytes m wb), pos + length (lwb_bytes m wb))"
  using assms
proof (induction wb arbitrary: dest pos)
  case Nil
  then show ?case by (simp add: splice_at_def)
next
  case (Cons p wb)
  obtain a n where p: "p = (a, n)" by force
  let ?x = "mem_range m a (nat n)"
  have "copy_pieces m wb (splice_at dest pos ?x) (pos + nat n)
    = Some (splice_at (splice_at dest pos ?x) (pos + nat n) (lwb_bytes m wb), pos + nat n + length (lwb_bytes m wb))"
    using Cons.prems by (intro Cons.IH) (auto simp: p)
  then show ?case
    using Cons.prems splice_at_append [of pos ?x "lwb_bytes m wb" dest] by (simp add: p)
qed

lemma copy_pieces_full:
  "length dest < pos + length (lwb_bytes m wb) \<Longrightarrow> pos \<le> length dest \<Longrightarrow> lwb_ok wb \<Longrightarrow> copy_pieces m wb dest pos = None"
  by (induction wb arbitrary: dest pos) auto

lemma mem_range_inner: "k + n \<le> l \<Longrightarrow> mem_range m (a + k) n = take n (drop k (mem_range m a l))"
  by (simp add: mem_range_def take_map drop_map add.assoc)

lemma lwb_serialize_room:
  assumes "lwb_ok wb" "pos + 8 + length (lwb_bytes m wb) \<le> length b"
  shows "lwb_serialize m (Some b) (length b) pos wb
    = Some (OB_SUCCESS, Some (splice_at b pos (be64 (word_of_int (lwb_get_total_size wb)) @ lwb_bytes m wb)),
            pos + 8 + length (lwb_bytes m wb))"
  using assms splice_at_append [of pos "be64 (word_of_int (lwb_get_total_size wb))" "lwb_bytes m wb" b]
  by (auto simp: lwb_serialize_def i64.enc_room copy_pieces_room i64.length_to_bytes)

text \<open>The serializer checks the room for the length prefix only: a buffer that ends behind it is
  overrun.\<close>

lemma lwb_serialize_overruns:
  assumes "lwb_ok wb" "pos + 8 \<le> length b" "length b < pos + 8 + length (lwb_bytes m wb)"
  shows "lwb_serialize m (Some b) (length b) pos wb = None"
  using assms by (auto simp: lwb_serialize_def i64.enc_room copy_pieces_full i64.length_to_bytes)

section \<open>Properties\<close>

text \<open>Merging write buffers keeps their bytes: when \<^verbatim>\<open>merge\<close> reports a merge, the bytes of the result
  are those of the left side followed by those of the right side and the result does not exceed the
  maximal buffer size; otherwise the buffer is unchanged.\<close>

theorem write_buf_merge_bytes:
  assumes "lwb_merge lhs rhs = Some (ret, wb, merged)" "lwb_ok lhs" "lwb_ok rhs"
  shows "if merged then ret = OB_SUCCESS \<and> lwb_ok wb \<and> lwb_get_total_size wb \<le> MAX_LOG_BUFFER_SIZE
      \<and> lwb_bytes m wb = lwb_bytes m lhs @ lwb_bytes m rhs
    else wb = lhs"
proof (cases merged)
  case False
  then show ?thesis
    using assms(1) by (auto simp: lwb_merge_def Let_def split: if_splits list.splits)
next
  case True
  then obtain a n a' n' where w: "lhs = [(a, n)]" "rhs = [(a', n')]" "int a + n = int a'"
      "wb = [(a, n + n')]" "n + n' \<le> MAX_LOG_BUFFER_SIZE" "ret = OB_SUCCESS"
    using assms(1)
    by (auto simp: lwb_merge_def lwb_get_total_size_def lwb_get_buf_count_def Let_def Suc_le_eq
             split: if_splits list.splits)
  have "a' = a + nat n" "nat (n + n') = nat n + nat n'"
    using w(3) assms(2,3) by (auto simp: w(1,2))
  then show ?thesis
    using True assms(2,3) by (simp add: w mem_range_append lwb_get_total_size_def)
qed

theorem write_buf_merge_bytes_witness:
  "lwb_bytes (\<lambda>a. of_nat a) [(100, 12)]
     = lwb_bytes (\<lambda>a. of_nat a) [(100, 5)] @ lwb_bytes (\<lambda>a. of_nat a) [(105, 7)]"
proof -
  have "lwb_merge [(100, 5)] [(105, 7)] = Some (OB_SUCCESS, [(100, 12)], True)"
    by (simp add: lwb_merge_def lwb_get_total_size_def lwb_get_buf_count_def MAX_LOG_BUFFER_SIZE_def)
  from write_buf_merge_bytes [OF this, of "\<lambda>a. of_nat a"] show ?thesis by simp
qed

text \<open>C29. Serializing a write buffer and reading it back: however many pieces it has, and wherever the
  pieces lie in memory, the copy that \<^verbatim>\<open>deserialize\<close> builds over the written buffer is one piece with
  the same bytes, and it ends where the serializer stopped.\<close>

theorem write_buf_roundtrip:
  assumes "lwb_ok wb" "wb \<noteq> []" "lwb_get_total_size wb < 2 ^ 63"
    and "pos + 8 + nat (lwb_get_total_size wb) \<le> length b" "0 < buf"
  shows "\<exists>b' end_pos piece. lwb_serialize m (Some b) (length b) pos wb = Some (OB_SUCCESS, Some b', end_pos)
    \<and> (\<forall>m'. mem_range m' buf (length b') = b' \<longrightarrow>
          lwb_deserialize m' buf (length b') pos [] = Inr ([piece], int end_pos)
          \<and> lwb_bytes m' [piece] = lwb_bytes m wb)"
proof -
  let ?n = "lwb_get_total_size wb" and ?B = "lwb_bytes m wb"
  have n: "nat ?n = length ?B" "0 \<le> ?n" using length_lwb_bytes [OF assms(1), of m] by linarith+
  let ?w = "word_of_int ?n :: u64" and ?fin = "pos + 8 + length ?B"
  let ?bs = "be64 ?w @ ?B" and ?piece = "(buf + (pos + 8), ?n)"
  let ?b = "splice_at b pos ?bs"
  have fits: "pos + length ?bs \<le> length b" using assms(4) n by (simp add: i64.length_to_bytes)
  have ser: "lwb_serialize m (Some b) (length b) pos wb = Some (OB_SUCCESS, Some ?b, ?fin)"
    using assms(4) n by (intro lwb_serialize_room assms(1)) simp
  have at: "bytes_at ?b pos (be64 ?w)" "bytes_at ?b (pos + 8) ?B"
    using bytes_at_splice [OF fits] by (simp_all add: bytes_at_append i64.length_to_bytes)
  have w: "sint ?w = ?n"
    using n(2) assms(3) by (simp add: sint_u64_small uint_of_int_u64)
  have len: "length ?b = length b" by (rule length_splice_at [OF fits])
  have "lwb_deserialize m' buf (length ?b) pos [] = Inr ([?piece], int ?fin) \<and> lwb_bytes m' [?piece] = ?B"
    if m': "mem_range m' buf (length ?b) = ?b" for m'
  proof
    have "decode_i64 (Some ?b) (length ?b) pos = Inr (?w, pos + 8)"
      using reads_at [OF i64.reads_dec le_refl _ at(1)] fits len by (simp add: i64.length_to_bytes)
    then show "lwb_deserialize m' buf (length ?b) pos [] = Inr ([?piece], int ?fin)"
      using assms(5) fits len n(2) length_lwb_bytes [OF assms(1), of m]
      by (auto simp: lwb_deserialize_def m' [unfolded len] w i64.length_to_bytes)
    have "mem_range m' (buf + (pos + 8)) (length ?B) = take (length ?B) (drop (pos + 8) ?b)"
      using fits len by (subst m' [symmetric], intro mem_range_inner) (simp add: i64.length_to_bytes)
    then show "lwb_bytes m' [?piece] = ?B"
      using at(2) by (simp add: n(1) bytes_at_def)
  qed
  with ser show ?thesis by blast
qed

theorem write_buf_roundtrip_witness:
  "\<exists>b' end_pos piece. lwb_serialize (\<lambda>a. of_nat a) (Some (replicate 20 0)) (length (replicate 20 (0 :: u8))) 0 [(200, 5), (100, 7)]
      = Some (OB_SUCCESS, Some b', end_pos)
    \<and> (\<forall>m'. mem_range m' 16 (length b') = b' \<longrightarrow>
          lwb_deserialize m' 16 (length b') 0 [] = Inr ([piece], int end_pos)
          \<and> lwb_bytes m' [piece] = lwb_bytes (\<lambda>a. of_nat a) [(200, 5), (100, 7)])"
  by (rule write_buf_roundtrip) (simp_all add: lwb_get_total_size_def)

end
