(* ===== verification/GroupHeader.thy ===== *)
theory GroupHeader
  imports EntryHeader WriteBuf Lsn
begin

text \<open>
  The header of a group of log entries, \<^verbatim>\<open>src/logservice/palf/log_group_entry_header.cpp\<close>, and the
  group entry, \<^verbatim>\<open>log_group_entry.cpp\<close>.  A group is the unit of replication: a 56-byte header and a
  body of consecutive log entries.  The leader computes the checksum of a group over a write buffer
  of one or two pieces, in which an entry header may lie across the seam; followers and readers
  compute it over contiguous bytes.

  The memory of the write buffer is passed as its list of pieces.  \<open>None\<close> is a failed
  \<^verbatim>\<open>ob_assert\<close> or a copy out of bounds.
\<close>

record LogGroupEntryHeader =
  lgh_magic :: u16
  lgh_version :: u16
  lgh_group_size :: u32
  lgh_proposal_id :: u64
  lgh_committed_end_lsn :: LSN
  lgh_max_scn :: SCN
  lgh_accumulated_checksum :: u64
  lgh_log_id :: u64
  lgh_flag :: u64

definition LGH_MAGIC :: u16 where "LGH_MAGIC = 0x4752"
definition LGH_VERSION :: u16 where "LGH_VERSION = 1"
definition LGH_VERSION2 :: u16 where "LGH_VERSION2 = 2"
definition RAW_WRITE_MASK :: u64 where "RAW_WRITE_MASK = 4"
definition RAW_WRITE_MASK_VERSION2 :: u64 where "RAW_WRITE_MASK_VERSION2 = 2 ^ 61"
definition PADDING_LOG_DATA_CHECKSUM :: u64 where "PADDING_LOG_DATA_CHECKSUM = 0"
definition LGH_HEADER_SER_SIZE :: nat where "LGH_HEADER_SER_SIZE = 56"

definition is_valid_log_id :: "u64 \<Rightarrow> bool" where "is_valid_log_id log_id \<longleftrightarrow> 0 <s log_id"

definition lgh_is_valid :: "LogGroupEntryHeader \<Rightarrow> bool" where
  "lgh_is_valid h \<longleftrightarrow> LGH_MAGIC = lgh_magic h
     \<and> (LGH_VERSION = lgh_version h \<or> LGH_VERSION2 = lgh_version h)
     \<and> INVALID_PROPOSAL_ID \<noteq> lgh_proposal_id h \<and> lsn_is_valid (lgh_committed_end_lsn h)
     \<and> scn_is_valid (lgh_max_scn h) \<and> is_valid_log_id (lgh_log_id h)"

definition lgh_reset :: LogGroupEntryHeader where
  "lgh_reset = \<lparr>lgh_magic = 0, lgh_version = 0, lgh_group_size = 0, lgh_proposal_id = INVALID_PROPOSAL_ID,
     lgh_committed_end_lsn = lsn_reset, lgh_max_scn = scn_reset, lgh_accumulated_checksum = 0,
     lgh_log_id = 0, lgh_flag = 0\<rparr>"

definition lgh_get_version :: "hash_env \<Rightarrow> u16" where
  "lgh_get_version E =
     (case min_data_version E of
        None \<Rightarrow> LGH_VERSION
      | Some v \<Rightarrow> if v \<ge> DATA_VERSION_4_3_3_0 then LGH_VERSION2 else LGH_VERSION)"

definition lgh_get_padding_mask :: "LogGroupEntryHeader \<Rightarrow> u64" where
  "lgh_get_padding_mask h =
     (if LGH_VERSION2 = lgh_version h then PADDING_TYPE_MASK_VERSION2
      else if LGH_VERSION = lgh_version h then PADDING_TYPE_MASK else PADDING_TYPE_MASK)"

definition lgh_get_header_checksum_mask :: "LogGroupEntryHeader \<Rightarrow> u64" where
  "lgh_get_header_checksum_mask h =
     (if LGH_VERSION2 = lgh_version h then CRC16_MASK
      else if LGH_VERSION = lgh_version h then PARITY_MASK else 0)"

definition lgh_get_raw_write_mask :: "LogGroupEntryHeader \<Rightarrow> u64" where
  "lgh_get_raw_write_mask h =
     (if LGH_VERSION2 = lgh_version h then RAW_WRITE_MASK_VERSION2
      else if LGH_VERSION = lgh_version h then RAW_WRITE_MASK else RAW_WRITE_MASK)"

definition lgh_reset_header_checksum :: "LogGroupEntryHeader \<Rightarrow> LogGroupEntryHeader" where
  "lgh_reset_header_checksum h =
     (if LGH_VERSION2 = lgh_version h then h\<lparr>lgh_flag := lgh_flag h AND NOT CRC16_MASK\<rparr>
      else if LGH_VERSION = lgh_version h then h\<lparr>lgh_flag := lgh_flag h AND NOT PARITY_MASK\<rparr>
      else h)"

text \<open>The 56 bytes of the object in memory, which the hash of version 2 reads.\<close>

definition lgh_memory :: "LogGroupEntryHeader \<Rightarrow> bytes" where
  "lgh_memory h = le16 (lgh_magic h) @ le16 (lgh_version h) @ le32 (lgh_group_size h)
     @ le64 (lgh_proposal_id h) @ le64 (lsn_val (lgh_committed_end_lsn h)) @ le64 (scn_val (lgh_max_scn h))
     @ le64 (lgh_accumulated_checksum h) @ le64 (lgh_log_id h) @ le64 (lgh_flag h)"

definition lgh_calculate_header_checksum :: "hash_env \<Rightarrow> LogGroupEntryHeader \<Rightarrow> u16" where
  "lgh_calculate_header_checksum E h =
     (if LGH_VERSION = lgh_version h then
        let b = parity_check16 (lgh_magic h);
            b = (b \<noteq> parity_check16 (lgh_version h));
            b = (b \<noteq> parity_check32 (lgh_group_size h));
            b = (b \<noteq> parity_check64 (lgh_proposal_id h));
            b = (b \<noteq> parity_check64 (lsn_val (lgh_committed_end_lsn h)));
            b = (b \<noteq> parity_check64 (scn_get_val_for_logservice (lgh_max_scn h)));
            b = (b \<noteq> parity_check64 (lgh_accumulated_checksum h));
            b = (b \<noteq> parity_check64 (lgh_log_id h));
            b = (b \<noteq> parity_check64 (lgh_flag h AND NOT PARITY_MASK))
        in if b then 1 else 0
      else if LGH_VERSION2 = lgh_version h then
        xxhash_16 E 0 (lgh_memory (h\<lparr>lgh_flag := lgh_flag h AND NOT CRC16_MASK\<rparr>))
      else 0)"

definition lgh_update_header_checksum :: "hash_env \<Rightarrow> LogGroupEntryHeader \<Rightarrow> LogGroupEntryHeader" where
  "lgh_update_header_checksum E h =
     (let h = lgh_reset_header_checksum h
      in h\<lparr>lgh_flag := lgh_flag h OR ucast (lgh_calculate_header_checksum E h)\<rparr>)"

definition lgh_update_accumulated_checksum :: "LogGroupEntryHeader \<Rightarrow> u64 \<Rightarrow> LogGroupEntryHeader" where
  "lgh_update_accumulated_checksum h c = h\<lparr>lgh_accumulated_checksum := c\<rparr>"

definition lgh_check_header_checksum :: "hash_env \<Rightarrow> LogGroupEntryHeader \<Rightarrow> bool" where
  "lgh_check_header_checksum E h =
     (if LGH_VERSION2 \<noteq> lgh_version h \<and> LGH_VERSION \<noteq> lgh_version h then False
      else lgh_calculate_header_checksum E h
             = ucast (lgh_flag h AND lgh_get_header_checksum_mask h))"

definition lgh_check_header_integrity :: "hash_env \<Rightarrow> LogGroupEntryHeader \<Rightarrow> bool" where
  "lgh_check_header_integrity E h \<longleftrightarrow> lgh_is_valid h \<and> lgh_check_header_checksum E h"

definition lgh_is_padding_log :: "LogGroupEntryHeader \<Rightarrow> bool" where
  "lgh_is_padding_log h \<longleftrightarrow> 0 <s (lgh_flag h AND lgh_get_padding_mask h)"

definition lgh_is_raw_write :: "LogGroupEntryHeader \<Rightarrow> bool" where
  "lgh_is_raw_write h \<longleftrightarrow> 0 <s (lgh_flag h AND lgh_get_raw_write_mask h)"

definition lgh_update_log_proposal_id ::
  "hash_env \<Rightarrow> LogGroupEntryHeader \<Rightarrow> u64 \<Rightarrow> ob_ret \<times> LogGroupEntryHeader" where
  "lgh_update_log_proposal_id E h log_proposal_id =
     (if INVALID_PROPOSAL_ID = log_proposal_id then (OB_INVALID_ARGUMENT, h)
      else (OB_SUCCESS, lgh_update_header_checksum E (h\<lparr>lgh_proposal_id := log_proposal_id\<rparr>)))"

definition lgh_update_committed_end_lsn ::
  "hash_env \<Rightarrow> LogGroupEntryHeader \<Rightarrow> LSN \<Rightarrow> ob_ret \<times> LogGroupEntryHeader" where
  "lgh_update_committed_end_lsn E h lsn =
     (if \<not> lsn_is_valid lsn then (OB_INVALID_ARGUMENT, h)
      else (OB_SUCCESS, lgh_update_header_checksum E (h\<lparr>lgh_committed_end_lsn := lsn\<rparr>)))"

definition lgh_update_write_mode :: "LogGroupEntryHeader \<Rightarrow> bool \<Rightarrow> LogGroupEntryHeader" where
  "lgh_update_write_mode h is_raw_write =
     (if is_raw_write then h\<lparr>lgh_flag := lgh_flag h OR lgh_get_raw_write_mask h\<rparr> else h)"

definition lgh_check_compatibility :: "hash_env \<Rightarrow> LogGroupEntryHeader \<Rightarrow> bool" where
  "lgh_check_compatibility E h =
     (if \<not> lgh_is_valid h then False
      else if LGH_VERSION2 = lgh_version h \<and> LGH_VERSION2 \<noteq> lgh_get_version E then False
      else True)"

section \<open>Serialization\<close>

definition lgh_serialize :: "buffer \<Rightarrow> nat \<Rightarrow> nat \<Rightarrow> LogGroupEntryHeader \<Rightarrow> enc_result" where
  "lgh_serialize buf buf_len pos h =
     (if buf = None \<or> buf_len = 0 then (OB_INVALID_ARGUMENT, buf, pos)
      else case enc_all
             [\<lambda>b n p. encode_i16 b n p (lgh_magic h), \<lambda>b n p. encode_i16 b n p (lgh_version h),
              \<lambda>b n p. encode_i32 b n p (lgh_group_size h), \<lambda>b n p. encode_i64 b n p (lgh_proposal_id h),
              \<lambda>b n p. lsn_serialize b n p (lgh_committed_end_lsn h),
              \<lambda>b n p. scn_fixed_serialize b n p (lgh_max_scn h),
              \<lambda>b n p. encode_i64 b n p (lgh_accumulated_checksum h),
              \<lambda>b n p. encode_i64 b n p (lgh_log_id h), \<lambda>b n p. encode_i64 b n p (lgh_flag h)]
             buf buf_len pos of
             (ret, buf', new_pos) \<Rightarrow>
               if ret \<noteq> OB_SUCCESS then (OB_BUF_NOT_ENOUGH, buf', pos) else (OB_SUCCESS, buf', new_pos))"

definition lgh_decode :: "buffer \<Rightarrow> nat \<Rightarrow> nat \<Rightarrow> LogGroupEntryHeader dec_result" where
  "lgh_decode buf data_len pos =
     dec_bind (decode_i16 buf data_len pos) (\<lambda>magic pos.
     dec_bind (decode_i16 buf data_len pos) (\<lambda>version pos.
     dec_bind (decode_i32 buf data_len pos) (\<lambda>group_size pos.
     dec_bind (decode_i64 buf data_len pos) (\<lambda>proposal_id pos.
     dec_bind (lsn_deserialize buf data_len pos) (\<lambda>committed_end_lsn pos.
     dec_bind (scn_fixed_deserialize buf data_len pos) (\<lambda>max_scn pos.
     dec_bind (decode_i64 buf data_len pos) (\<lambda>accumulated_checksum pos.
     dec_bind (decode_i64 buf data_len pos) (\<lambda>log_id pos.
     dec_bind (decode_i64 buf data_len pos) (\<lambda>flag pos.
       Inr (\<lparr>lgh_magic = magic, lgh_version = version, lgh_group_size = group_size,
             lgh_proposal_id = proposal_id, lgh_committed_end_lsn = committed_end_lsn,
             lgh_max_scn = max_scn, lgh_accumulated_checksum = accumulated_checksum,
             lgh_log_id = log_id, lgh_flag = flag\<rparr>, pos))))))))))"

definition lgh_deserialize :: "hash_env \<Rightarrow> buffer \<Rightarrow> nat \<Rightarrow> nat \<Rightarrow> LogGroupEntryHeader dec_result" where
  "lgh_deserialize E buf data_len pos =
     (if buf = None \<or> data_len = 0 then Inl OB_INVALID_ARGUMENT
      else case lgh_decode buf data_len pos of
             Inl _ \<Rightarrow> Inl OB_BUF_NOT_ENOUGH
           | Inr (h, new_pos) \<Rightarrow>
               if \<not> lgh_check_header_integrity E h then Inl OB_INVALID_DATA else Inr (h, new_pos))"

definition lgh_get_serialize_size :: nat where
  "lgh_get_serialize_size = 2 + 2 + 4 + 8 + 8 + 8 + 8 + 8 + 8"

section \<open>The checksum of a group\<close>

text \<open>The effect of one entry header on the checksum.\<close>

definition entry_checksum :: "hash_env \<Rightarrow> u64 \<Rightarrow> LogEntryHeader \<Rightarrow> u64" where
  "entry_checksum E acc h = crc64 E acc (le64 (leh_data_checksum h))"

text \<open>The loop of \<^verbatim>\<open>calculate_log_checksum_\<close>: \<open>cur\<close> is the current piece, \<open>rest\<close> are the pieces behind
  it, \<open>pos\<close> is relative to the current piece and may lie behind its end.\<close>

lemma leh_deserialize_pos:
  assumes "leh_deserialize E (Some b) n p = Inr (h, p')"
  shows "p' = p + 32 \<and> p' \<le> n \<and> 0 < sint (leh_log_size h)"
proof -
  have "leh_is_valid h"
    using leh_deserialize_success [OF assms] by (simp add: leh_check_header_integrity_def)
  moreover have "leh_decode (Some b) n p = Inr (h, p')"
    using assms by (auto simp: leh_deserialize_def split: if_splits sum.splits)
  then have "p' = p + 32 \<and> p' \<le> n"
    by (auto simp: leh_decode_def dec_bind_Inr_iff decode_i16_def decode_i32_def decode_i64_def
          scn_fixed_deserialize_def scn_fixed_deserialize_without_transform_def has_room_def
        split: if_splits sum.splits)
  ultimately show ?thesis by (simp add: leh_is_valid_def word_sless_alt)
qed

function calc_log_loop :: "hash_env \<Rightarrow> bytes \<Rightarrow> bytes list \<Rightarrow> nat \<Rightarrow> u64 \<Rightarrow> (ob_ret + u64) option" where
  "calc_log_loop E cur rest pos acc =
     (if length cur \<le> pos then
        (case rest of
           [] \<Rightarrow> Some (Inr acc)
         | nxt # rest' \<Rightarrow>
             let pos = pos - length cur in
             if pos = length nxt then Some (Inr acc)
             else if \<not> pos < length nxt then None
             else case leh_deserialize E (Some nxt) (length nxt) pos of
               Inl ret \<Rightarrow> Some (Inl ret)
             | Inr (h, pos) \<Rightarrow>
                 if \<not> leh_check_header_integrity E h then Some (Inl OB_ERR_UNEXPECTED)
                 else calc_log_loop E nxt rest' (pos + nat (sint (leh_log_size h))) (entry_checksum E acc h))
      else if length cur - pos < LEH_HEADER_SER_SIZE then
        (case rest of
           [] \<Rightarrow> None
         | nxt # rest' \<Rightarrow>
             let copy_size = length cur - pos; pos' = LEH_HEADER_SER_SIZE - copy_size in
             if length nxt < pos' then None
             else case leh_deserialize E (Some (drop pos cur @ take pos' nxt)) LEH_HEADER_SER_SIZE 0 of
               Inl ret \<Rightarrow> Some (Inl ret)
             | Inr (h, _) \<Rightarrow>
                 if \<not> leh_check_header_integrity E h then Some (Inl OB_ERR_UNEXPECTED)
                 else calc_log_loop E nxt rest' (pos' + nat (sint (leh_log_size h))) (entry_checksum E acc h))
      else
        (case leh_deserialize E (Some cur) (length cur) pos of
           Inl ret \<Rightarrow> Some (Inl ret)
         | Inr (h, pos) \<Rightarrow>
             if \<not> leh_check_header_integrity E h then Some (Inl OB_ERR_UNEXPECTED)
             else calc_log_loop E cur rest (pos + nat (sint (leh_log_size h))) (entry_checksum E acc h)))"
  by pat_completeness auto
termination
proof (relation "measures [\<lambda>(_, _, rest, _). length rest, \<lambda>(_, cur, _, pos, _). length cur - pos]", goal_cases)
  case (4 E cur rest pos acc x h p')
  then show ?case
    using leh_deserialize_pos [of E cur "length cur" pos h p'] by auto
qed auto

declare calc_log_loop.simps [simp del]

definition lgh_calculate_log_checksum ::
  "hash_env \<Rightarrow> bool \<Rightarrow> bytes list \<Rightarrow> int \<Rightarrow> (ob_ret + u64) option" where
  "lgh_calculate_log_checksum E is_padding_log pieces data_len =
     (case pieces of
        [] \<Rightarrow> Some (Inl OB_INVALID_ARGUMENT)
      | cur # rest \<Rightarrow>
          if is_padding_log then Some (Inr PADDING_LOG_DATA_CHECKSUM)
          else if data_len + int LGH_HEADER_SER_SIZE \<noteq> int (length (concat pieces)) then None
          else calc_log_loop E cur rest LGH_HEADER_SER_SIZE 0)"

definition lgh_generate ::
  "hash_env \<Rightarrow> LogGroupEntryHeader \<Rightarrow> bool \<Rightarrow> bool \<Rightarrow> bytes list \<Rightarrow> int \<Rightarrow> SCN \<Rightarrow> u64 \<Rightarrow> LSN \<Rightarrow> u64
     \<Rightarrow> (LogGroupEntryHeader \<times> (ob_ret + u64)) option" where
  "lgh_generate E h is_raw_write is_padding_log pieces data_len max_scn log_id committed_end_lsn log_proposal_id =
     (if \<not> scn_is_valid max_scn \<or> \<not> is_valid_log_id log_id \<or> \<not> lsn_is_valid committed_end_lsn
         \<or> INVALID_PROPOSAL_ID = log_proposal_id
      then Some (h, Inl OB_INVALID_ARGUMENT)
      else let h = h\<lparr>lgh_magic := LGH_MAGIC, lgh_version := lgh_get_version E,
                     lgh_group_size := word_of_int data_len, lgh_max_scn := max_scn,
                     lgh_log_id := log_id, lgh_committed_end_lsn := committed_end_lsn,
                     lgh_proposal_id := log_proposal_id\<rparr>;
               h = (if is_padding_log then h\<lparr>lgh_flag := lgh_flag h OR lgh_get_padding_mask h\<rparr> else h);
               h = (if is_raw_write then h\<lparr>lgh_flag := lgh_flag h OR lgh_get_raw_write_mask h\<rparr> else h)
           in map_option (Pair h) (lgh_calculate_log_checksum E is_padding_log pieces data_len))"

text \<open>The loop of \<^verbatim>\<open>check_log_checksum_\<close> over contiguous bytes.\<close>

lemma le_deserialize_pos:
  assumes "le_deserialize E (Some b) n p = Inr (e, p')"
  shows "p < p' \<and> p' \<le> n"
  using assms leh_deserialize_pos [of E b n p]
  by (auto simp: le_deserialize_def Let_def split: if_splits sum.splits)

function check_log_loop :: "hash_env \<Rightarrow> bytes \<Rightarrow> nat \<Rightarrow> nat \<Rightarrow> u64 \<Rightarrow> bool \<times> u64" where
  "check_log_loop E b data_len pos acc =
     (if pos < data_len then
        (case le_deserialize E (Some b) data_len pos of
           Inl _ \<Rightarrow> (False, acc)
         | Inr (e, pos) \<Rightarrow>
             let acc = entry_checksum E acc (le_header e) in
             if \<not> le_check_integrity E e then (False, acc)
             else check_log_loop E b data_len pos acc)
      else (True, acc))"
  by pat_completeness auto
termination
proof (relation "measure (\<lambda>(_, _, data_len, pos, _). data_len - pos)", goal_cases)
  case (2 E b data_len pos acc x e p' acc')
  then show ?case
    using le_deserialize_pos [of E b data_len pos e p'] by auto
qed simp

declare check_log_loop.simps [simp del]

text \<open>The out-parameter \<open>old\<close> keeps its value when the check fails.\<close>

definition lgh_check_log_checksum ::
  "hash_env \<Rightarrow> LogGroupEntryHeader \<Rightarrow> buffer \<Rightarrow> int \<Rightarrow> u64 \<Rightarrow> bool \<times> u64" where
  "lgh_check_log_checksum E h buf data_len old =
     (case buf of
        None \<Rightarrow> (False, old)
      | Some b \<Rightarrow>
          if 0 > data_len then (False, old)
          else if lgh_is_padding_log h then (True, PADDING_LOG_DATA_CHECKSUM)
          else case check_log_loop E b (nat data_len) 0 0 of
            (ok, c) \<Rightarrow> (ok, if ok then c else old))"

definition lgh_check_integrity ::
  "hash_env \<Rightarrow> LogGroupEntryHeader \<Rightarrow> buffer \<Rightarrow> int \<Rightarrow> u64 \<Rightarrow> bool \<times> u64" where
  "lgh_check_integrity E h buf buf_len group_log_checksum =
     (if LGH_MAGIC \<noteq> lgh_magic h then (False, group_log_checksum)
      else if \<not> lgh_check_header_checksum E h then (False, group_log_checksum)
      else lgh_check_log_checksum E h buf buf_len group_log_checksum)"

text \<open>The loop of \<^verbatim>\<open>truncate\<close>: it returns the checksum, the cut position and the maximal SCN of the
  entries in front of the first one that is newer than \<open>cut_scn\<close>.\<close>

function truncate_loop ::
  "hash_env \<Rightarrow> bytes \<Rightarrow> nat \<Rightarrow> SCN \<Rightarrow> nat \<Rightarrow> nat \<Rightarrow> SCN \<Rightarrow> u64 \<Rightarrow> ob_ret + (nat \<times> SCN \<times> u64)" where
  "truncate_loop E b data_len cut_scn pos cut_pos tmp_max_scn acc =
     (if pos < data_len then
        (case leh_deserialize E (Some b) data_len pos of
           Inl ret \<Rightarrow> Inl ret
         | Inr (h, pos) \<Rightarrow>
             if scn_gt (leh_scn h) cut_scn then Inr (cut_pos, tmp_max_scn, acc)
             else let acc = entry_checksum E acc h;
                      pos = pos + nat (sint (leh_log_size h));
                      tmp_max_scn = (if \<not> scn_is_valid tmp_max_scn \<or> scn_gt (leh_scn h) tmp_max_scn
                                     then leh_scn h else tmp_max_scn)
                  in truncate_loop E b data_len cut_scn pos pos tmp_max_scn acc)
      else Inr (cut_pos, tmp_max_scn, acc))"
  by pat_completeness auto
termination
proof (relation "measure (\<lambda>(_, _, data_len, _, pos, _). data_len - pos)", goal_cases)
  case (2 E b data_len cut_scn pos cut_pos tmp_max_scn acc x h p' acc' q m)
  then show ?case
    using leh_deserialize_pos [of E b data_len pos h p'] by auto
qed simp

declare truncate_loop.simps [simp del]

definition lgh_truncate ::
  "hash_env \<Rightarrow> LogGroupEntryHeader \<Rightarrow> buffer \<Rightarrow> int \<Rightarrow> SCN \<Rightarrow> u64 \<Rightarrow> ob_ret \<times> LogGroupEntryHeader" where
  "lgh_truncate E h buf data_len cut_scn pre_accum_checksum =
     (case buf of
        None \<Rightarrow> (OB_INVALID_ARGUMENT, h)
      | Some b \<Rightarrow>
          if data_len \<le> 0 \<or> \<not> scn_is_valid cut_scn then (OB_INVALID_ARGUMENT, h)
          else if lgh_is_padding_log h then
            (OB_SUCCESS,
             if scn_gt (lgh_max_scn h) cut_scn
             then lgh_update_header_checksum E (h\<lparr>lgh_group_size := 0\<rparr>) else h)
          else case truncate_loop E b (nat data_len) cut_scn 0 0 scn_reset 0 of
            Inl ret \<Rightarrow> (ret, h)
          | Inr (cut_pos, tmp_max_scn, tmp_log_checksum) \<Rightarrow>
              (OB_SUCCESS,
               lgh_update_header_checksum E
                 (lgh_update_accumulated_checksum
                   (h\<lparr>lgh_group_size := word_of_int (int cut_pos), lgh_max_scn := tmp_max_scn\<rparr>)
                   (crc64 E pre_accum_checksum (le64 tmp_log_checksum)))))"

section \<open>The header checksum\<close>

lemma lgh_version_neq [simp]: "LGH_VERSION \<noteq> LGH_VERSION2" "LGH_VERSION2 \<noteq> LGH_VERSION"
  by (simp_all add: LGH_VERSION_def LGH_VERSION2_def)

interpretation lgh: checked_header lgh_flag "\<lambda>f h. h\<lparr>lgh_flag := f\<rparr>" lgh_get_header_checksum_mask
  "lgh_calculate_header_checksum E" for E
  by unfold_locales
    (simp_all add: lgh_get_header_checksum_mask_def lgh_calculate_header_checksum_def Let_def
      ucast_u16_fits ucast_bit_fits and.assoc)

lemma lgh_update_header_checksum_stored: "lgh_update_header_checksum E h = lgh.stored E h"
  by (simp add: lgh_update_header_checksum_def lgh.stored_def lgh_reset_header_checksum_def
        lgh_get_header_checksum_mask_def Let_def)

lemma lgh_update_header_checksum_fields [simp]:
  "lgh_magic (lgh_update_header_checksum E h) = lgh_magic h"
  "lgh_version (lgh_update_header_checksum E h) = lgh_version h"
  "lgh_group_size (lgh_update_header_checksum E h) = lgh_group_size h"
  "lgh_proposal_id (lgh_update_header_checksum E h) = lgh_proposal_id h"
  "lgh_committed_end_lsn (lgh_update_header_checksum E h) = lgh_committed_end_lsn h"
  "lgh_max_scn (lgh_update_header_checksum E h) = lgh_max_scn h"
  "lgh_accumulated_checksum (lgh_update_header_checksum E h) = lgh_accumulated_checksum h"
  "lgh_log_id (lgh_update_header_checksum E h) = lgh_log_id h"
  by (simp_all add: lgh_update_header_checksum_def lgh_reset_header_checksum_def Let_def)

lemma lgh_is_valid_update [simp]: "lgh_is_valid (lgh_update_header_checksum E h) \<longleftrightarrow> lgh_is_valid h"
  by (simp add: lgh_is_valid_def)

lemma lgh_update_checksum_ok:
  assumes "lgh_version h = LGH_VERSION \<or> lgh_version h = LGH_VERSION2"
  shows "lgh_check_header_checksum E (lgh_update_header_checksum E h)"
proof -
  have "lgh_version (lgh.stored E h) = lgh_version h"
    by (simp add: lgh.stored_def Let_def)
  then show ?thesis
    using assms lgh.stored_checks [of E h]
    by (auto simp: lgh_check_header_checksum_def lgh_update_header_checksum_stored)
qed

lemma lgh_update_integrity:
  "lgh_is_valid h \<Longrightarrow> lgh_check_header_integrity E (lgh_update_header_checksum E h)"
  using lgh_update_checksum_ok [of h E]
  by (auto simp: lgh_check_header_integrity_def lgh_is_valid_def)

lemma lgh_padding_mask_disjoint: "lgh_get_padding_mask h AND lgh_get_header_checksum_mask h = 0"
  by (simp add: lgh_get_padding_mask_def lgh_get_header_checksum_mask_def PADDING_TYPE_MASK_def
        PADDING_TYPE_MASK_VERSION2_def CRC16_MASK_def PARITY_MASK_def)

lemma lgh_raw_write_mask_disjoint: "lgh_get_raw_write_mask h AND lgh_get_header_checksum_mask h = 0"
  by (simp add: lgh_get_raw_write_mask_def lgh_get_header_checksum_mask_def RAW_WRITE_MASK_def
        RAW_WRITE_MASK_VERSION2_def CRC16_MASK_def PARITY_MASK_def)

lemma lgh_flags_update [simp]:
  "lgh_is_padding_log (lgh_update_header_checksum E h) \<longleftrightarrow> lgh_is_padding_log h"
  "lgh_is_raw_write (lgh_update_header_checksum E h) \<longleftrightarrow> lgh_is_raw_write h"
proof -
  have "lgh_get_padding_mask (lgh_update_header_checksum E h) = lgh_get_padding_mask h"
    "lgh_get_raw_write_mask (lgh_update_header_checksum E h) = lgh_get_raw_write_mask h"
    by (simp_all add: lgh_get_padding_mask_def lgh_get_raw_write_mask_def)
  then show "lgh_is_padding_log (lgh_update_header_checksum E h) \<longleftrightarrow> lgh_is_padding_log h"
    "lgh_is_raw_write (lgh_update_header_checksum E h) \<longleftrightarrow> lgh_is_raw_write h"
    using lgh.stored_other_bits [OF lgh_padding_mask_disjoint [of h], of E]
      lgh.stored_other_bits [OF lgh_raw_write_mask_disjoint [of h], of E]
    by (simp_all add: lgh_is_padding_log_def lgh_is_raw_write_def lgh_update_header_checksum_stored)
qed

section \<open>The bytes of a header\<close>

definition lgh_bytes :: "LogGroupEntryHeader \<Rightarrow> bytes" where
  "lgh_bytes h = be16 (lgh_magic h) @ be16 (lgh_version h) @ be32 (lgh_group_size h)
     @ be64 (lgh_proposal_id h) @ be64 (lsn_val (lgh_committed_end_lsn h)) @ be64 (scn_val (lgh_max_scn h))
     @ be64 (lgh_accumulated_checksum h) @ be64 (lgh_log_id h) @ be64 (lgh_flag h)"

lemma length_lgh_bytes [simp]: "length (lgh_bytes h) = 56"
  by (simp add: lgh_bytes_def i16.length_to_bytes i32.length_to_bytes i64.length_to_bytes)

lemma lgh_bytes_nonempty: "lgh_bytes h \<noteq> []"
  using length_lgh_bytes [of h] by (metis list.size(3) zero_neq_numeral)

lemma lgh_serialize_writes: "writes (\<lambda>b n p. lgh_serialize b n p h) (lgh_bytes h)"
proof -
  let ?es = "[\<lambda>b n p. encode_i16 b n p (lgh_magic h), \<lambda>b n p. encode_i16 b n p (lgh_version h),
    \<lambda>b n p. encode_i32 b n p (lgh_group_size h), \<lambda>b n p. encode_i64 b n p (lgh_proposal_id h),
    \<lambda>b n p. lsn_serialize b n p (lgh_committed_end_lsn h),
    \<lambda>b n p. scn_fixed_serialize b n p (lgh_max_scn h),
    \<lambda>b n p. encode_i64 b n p (lgh_accumulated_checksum h),
    \<lambda>b n p. encode_i64 b n p (lgh_log_id h), \<lambda>b n p. encode_i64 b n p (lgh_flag h)]"
  have "writes (enc_all ?es) (concat [be16 (lgh_magic h), be16 (lgh_version h), be32 (lgh_group_size h),
      be64 (lgh_proposal_id h), be64 (lsn_val (lgh_committed_end_lsn h)), be64 (scn_val (lgh_max_scn h)),
      be64 (lgh_accumulated_checksum h), be64 (lgh_log_id h), be64 (lgh_flag h)])"
    by (intro writes_enc_all)
      (simp add: i16.writes_enc i32.writes_enc i64.writes_enc scn_codec.writes_enc lsn_codec.writes_enc)
  then have w: "writes (enc_all ?es) (lgh_bytes h)"
    by (simp add: lgh_bytes_def)
  show ?thesis
    unfolding lgh_serialize_def by (rule writes_header [OF w lgh_bytes_nonempty]) simp_all
qed

lemma lgh_decode_reads: "scn_is_valid (lgh_max_scn h) \<Longrightarrow> reads lgh_decode h (lgh_bytes h)"
proof -
  assume v: "scn_is_valid (lgh_max_scn h)"
  have "reads lgh_decode h (be16 (lgh_magic h) @ be16 (lgh_version h) @ be32 (lgh_group_size h)
      @ be64 (lgh_proposal_id h) @ be64 (lsn_val (lgh_committed_end_lsn h)) @ be64 (scn_val (lgh_max_scn h))
      @ be64 (lgh_accumulated_checksum h) @ be64 (lgh_log_id h) @ be64 (lgh_flag h) @ [])"
    unfolding lgh_decode_def [abs_def]
    by (rule reads_bind, rule i16.reads_dec, rule reads_bind, rule i16.reads_dec,
        rule reads_bind, rule i32.reads_dec, rule reads_bind, rule i64.reads_dec,
        rule reads_bind, rule lsn_codec.reads_dec, rule reads_bind, rule reads_scn_fixed [OF v],
        rule reads_bind, rule i64.reads_dec, rule reads_bind, rule i64.reads_dec,
        rule reads_bind, rule i64.reads_dec) (simp add: reads_def)
  then show ?thesis by (simp add: lgh_bytes_def)
qed

lemma lgh_deserialize_reads:
  assumes "lgh_check_header_integrity E h"
  shows "reads (lgh_deserialize E) h (lgh_bytes h)"
proof -
  have "scn_is_valid (lgh_max_scn h)"
    using assms by (simp add: lgh_check_header_integrity_def lgh_is_valid_def)
  then show ?thesis
    using lgh_decode_reads [of h] assms by (auto simp: reads_def lgh_deserialize_def)
qed

section \<open>Bodies made of whole entries\<close>

text \<open>The body of a group as the list of its entries, each a header and its data.\<close>

type_synonym entry_img = "LogEntryHeader \<times> bytes"

definition entry_bytes :: "entry_img \<Rightarrow> bytes" where
  "entry_bytes e = leh_bytes (fst e) @ snd e"

definition body_bytes :: "entry_img list \<Rightarrow> bytes" where
  "body_bytes es = concat (map entry_bytes es)"

definition header_ok :: "hash_env \<Rightarrow> entry_img \<Rightarrow> bool" where
  "header_ok E e \<longleftrightarrow> leh_check_header_integrity E (fst e) \<and> sint (leh_log_size (fst e)) = int (length (snd e))"

definition entry_ok :: "hash_env \<Rightarrow> entry_img \<Rightarrow> bool" where
  "entry_ok E e \<longleftrightarrow> header_ok E e
     \<and> (if leh_is_padding_log (fst e)
        then 16 \<le> length (snd e) \<and> leh_data_checksum (fst e) = crc64 E 0 (take 16 (snd e))
        else leh_data_checksum (fst e) = crc64 E 0 (snd e))"

definition group_checksum :: "hash_env \<Rightarrow> u64 \<Rightarrow> entry_img list \<Rightarrow> u64" where
  "group_checksum E acc es = foldl (entry_checksum E) acc (map fst es)"

lemma body_bytes_simps [simp]:
  "body_bytes [] = []" "body_bytes (e # es) = leh_bytes (fst e) @ snd e @ body_bytes es"
  "body_bytes (xs @ ys) = body_bytes xs @ body_bytes ys"
  by (simp_all add: body_bytes_def entry_bytes_def)

lemma group_checksum_simps [simp]:
  "group_checksum E acc [] = acc"
  "group_checksum E acc (e # es) = group_checksum E (entry_checksum E acc (fst e)) es"
  by (simp_all add: group_checksum_def)

lemma header_ok_simps:
  assumes "header_ok E e"
  shows "leh_check_header_integrity E (fst e)" "nat (sint (leh_log_size (fst e))) = length (snd e)"
    "0 < length (snd e)"
proof -
  show "leh_check_header_integrity E (fst e)" "nat (sint (leh_log_size (fst e))) = length (snd e)"
    using assms by (simp_all add: header_ok_def)
  have "leh_is_valid (fst e)"
    using assms by (simp add: header_ok_def leh_check_header_integrity_def)
  then have "0 < sint (leh_log_size (fst e))" by (simp add: leh_is_valid_def word_sless_alt)
  moreover have "sint (leh_log_size (fst e)) = int (length (snd e))" using assms by (simp add: header_ok_def)
  ultimately show "0 < length (snd e)" by linarith
qed

lemma header_at:
  assumes "header_ok E e" "bytes_at b p (leh_bytes (fst e))" "p + 32 \<le> n" "n \<le> length b"
  shows "leh_deserialize E (Some b) n p = Inr (fst e, p + 32)"
  using reads_at [OF leh_deserialize_reads [OF header_ok_simps(1) [OF assms(1)]] assms(4) _ assms(2)] assms(3)
  by simp

lemma bytes_at_body:
  "bytes_at b p (body_bytes (e # es)) \<longleftrightarrow>
     bytes_at b p (leh_bytes (fst e)) \<and> bytes_at b (p + 32) (snd e) \<and> bytes_at b (p + 32 + length (snd e)) (body_bytes es)"
  by (simp add: bytes_at_append add.assoc)

subsection \<open>Checking\<close>

lemma entry_at:
  assumes "entry_ok E e" "bytes_at b p (leh_bytes (fst e))" "bytes_at b (p + 32) (snd e)"
    and "p + 32 + length (snd e) \<le> n" "n \<le> length b"
  shows "\<exists>l. le_deserialize E (Some b) n p = Inr (l, p + 32 + length (snd e))
    \<and> le_header l = fst e \<and> le_check_integrity E l"
proof -
  have h: "header_ok E e" using assms(1) by (simp add: entry_ok_def)
  note hs = header_ok_simps [OF h]
  have len: "sint (leh_log_size (fst e)) = int (length (snd e))" using h by (simp add: header_ok_def)
  let ?l = "\<lparr>le_header = fst e, le_buf = Some (drop (p + 32) b)\<rparr>"
  have n: "n \<noteq> 0" using assms(4) by simp
  have d: "take (length (snd e)) (drop (p + 32) b) = snd e" using assms(3) by (simp add: bytes_at_def)
  have d16: "take 16 (drop (p + 32) b) = take 16 (snd e)" if "16 \<le> length (snd e)"
    using that arg_cong [OF d, of "take 16"] by (simp add: min_def)
  have crc: "leh_data_checksum (fst e)
      = crc64 E 0 (take (nat (if leh_is_padding_log (fst e) then LOG_BASE_HEADER_SIZE else int (length (snd e)))) (drop (p + 32) b))"
    using assms(1) d d16 by (cases "leh_is_padding_log (fst e)") (simp_all add: entry_ok_def LOG_BASE_HEADER_SIZE_def)
  have "leh_magic (fst e) = LEH_MAGIC" "leh_check_header_checksum E (fst e)" "\<not> int (length (snd e)) \<le> 0"
    using hs by (simp_all add: leh_check_header_integrity_def leh_is_valid_def)
  then have "le_check_integrity E ?l"
    unfolding le_check_integrity_def leh_check_integrity_def le_get_data_len_def Let_def LogEntry.select_convs len option.case
    using crc by (simp only: simp_thms if_True if_False)
  moreover have "le_deserialize E (Some b) n p = Inr (?l, p + 32 + length (snd e))"
    using header_at [OF h assms(2) _ assms(5)] assms(4) n hs(3)
    by (simp add: le_deserialize_def len nat_add_distrib)
  ultimately show ?thesis by auto
qed

lemma check_log_loop_body:
  assumes "list_all (entry_ok E) es" "bytes_at b p (body_bytes es)" "p + length (body_bytes es) \<le> length b"
  shows "check_log_loop E b (p + length (body_bytes es)) p acc = (True, group_checksum E acc es)"
  using assms
proof (induction es arbitrary: p acc)
  case Nil
  then show ?case by (simp add: check_log_loop.simps)
next
  case (Cons e es)
  let ?n = "p + length (body_bytes (e # es))" and ?q = "p + 32 + length (snd e)"
  have n: "?n = ?q + length (body_bytes es)" by simp
  obtain l where l: "le_deserialize E (Some b) ?n p = Inr (l, ?q)" "le_header l = fst e" "le_check_integrity E l"
    using entry_at [of E e b p ?n] Cons.prems unfolding bytes_at_body by auto
  have "check_log_loop E b ?n p acc = check_log_loop E b ?n ?q (entry_checksum E acc (fst e))"
    using l by (subst check_log_loop.simps) simp
  also have "\<dots> = (True, group_checksum E (entry_checksum E acc (fst e)) es)"
    unfolding n using Cons.prems bytes_at_body [of b p e es] by (intro Cons.IH) auto
  finally show ?case by simp
qed

subsection \<open>Generating\<close>

lemma bytes_at_drop: "p \<le> length b \<Longrightarrow> drop p b = xs \<Longrightarrow> bytes_at b p xs"
  by (auto simp: bytes_at_def)

lemma drop_body_step:
  assumes "drop p b = body_bytes (e # es)"
  shows "bytes_at b p (leh_bytes (fst e))" "p + 32 + length (snd e) \<le> length b"
    "drop (p + 32 + length (snd e)) b = body_bytes es"
proof -
  have len: "length b - p = 32 + length (snd e) + length (body_bytes es)"
    using arg_cong [OF assms, of length] by simp
  then show "p + 32 + length (snd e) \<le> length b" by linarith
  have "take 32 (drop p b) = leh_bytes (fst e)" using assms by simp
  then show "bytes_at b p (leh_bytes (fst e))" using len by (simp add: bytes_at_def)
  have "drop (32 + length (snd e)) (drop p b) = body_bytes es" unfolding assms by simp
  then show "drop (p + 32 + length (snd e)) b = body_bytes es" by (simp add: ac_simps)
qed

text \<open>The three ways the loop finds the next header.\<close>

lemma calc_here:
  assumes "p + 32 \<le> length cur" "leh_deserialize E (Some cur) (length cur) p = Inr (h, q)"
    and "leh_check_header_integrity E h"
  shows "calc_log_loop E cur rest p acc = calc_log_loop E cur rest (q + nat (sint (leh_log_size h))) (entry_checksum E acc h)"
proof -
  have "\<not> length cur \<le> p" "\<not> length cur - p < 32" using assms(1) by linarith+
  with assms(2,3) show ?thesis
    by (subst calc_log_loop.simps) (simp add: LEH_HEADER_SER_SIZE_def)
qed

lemma calc_next:
  assumes "length cur \<le> p" "p - length cur < length nxt"
    and "leh_deserialize E (Some nxt) (length nxt) (p - length cur) = Inr (h, q)" "leh_check_header_integrity E h"
  shows "calc_log_loop E cur (nxt # rest) p acc
    = calc_log_loop E nxt rest (q + nat (sint (leh_log_size h))) (entry_checksum E acc h)"
proof -
  have "p - length cur \<noteq> length nxt" using assms(2) by simp
  with assms show ?thesis
    by (subst calc_log_loop.simps) (simp add: Let_def)
qed

lemma calc_seam:
  assumes "p < length cur" "length cur - p + k = 32" "0 < k" "k \<le> length nxt"
    and "leh_deserialize E (Some (drop p cur @ take k nxt)) 32 0 = Inr (h, q)" "leh_check_header_integrity E h"
  shows "calc_log_loop E cur (nxt # rest) p acc
    = calc_log_loop E nxt rest (k + nat (sint (leh_log_size h))) (entry_checksum E acc h)"
proof -
  have k: "32 - (length cur - p) = k" "length cur - p < 32" "\<not> length cur \<le> p" "\<not> length nxt < k"
    using assms(1-4) by linarith+
  then show ?thesis
    using assms(5,6)
    by (subst calc_log_loop.simps, unfold LEH_HEADER_SER_SIZE_def Let_def list.case k(1))
      (simp only: if_True if_False sum.case prod.case not_True_eq_False simp_thms)
qed

lemma calc_log_loop_one:
  assumes "list_all (header_ok E) es" "drop p cur = body_bytes es" "p \<le> length cur"
  shows "calc_log_loop E cur [] p acc = Some (Inr (group_checksum E acc es))"
  using assms
proof (induction es arbitrary: p acc)
  case Nil
  then show ?case by (simp add: calc_log_loop.simps)
next
  case (Cons e es)
  note d = drop_body_step [OF Cons.prems(2)]
  have h: "header_ok E e" using Cons.prems(1) by simp
  have "calc_log_loop E cur [] p acc
      = calc_log_loop E cur [] (p + 32 + length (snd e)) (entry_checksum E acc (fst e))"
    using calc_here [OF _ header_at [OF h d(1) _ le_refl] header_ok_simps(1) [OF h]] d(2)
    by (simp add: header_ok_simps(2) [OF h])
  also have "\<dots> = Some (Inr (group_checksum E (entry_checksum E acc (fst e)) es))"
    using Cons.prems(1) d by (intro Cons.IH) simp_all
  finally show ?case by simp
qed

lemma calc_log_loop_seam:
  assumes "header_ok E e" "list_all (header_ok E) es" "drop p (cur @ nxt) = body_bytes (e # es)" "length cur - p < 32"
  shows "calc_log_loop E cur [nxt] p acc = Some (Inr (group_checksum E acc (e # es)))"
proof -
  note hs = header_ok_simps [OF assms(1)] and d = drop_body_step [OF assms(3)]
  let ?q = "p + 32 + length (snd e) - length cur"
  have len: "p + 32 + length (snd e) \<le> length cur + length nxt" using d(2) by simp
  have "drop (p + 32 + length (snd e)) cur = []" using assms(4) by simp
  then have "drop ?q nxt = body_bytes es" using d(3) by simp
  then have tail: "calc_log_loop E nxt [] ?q acc' = Some (Inr (group_checksum E acc' es))" for acc'
    using assms(2) len by (intro calc_log_loop_one) auto
  show ?thesis
  proof (cases "length cur \<le> p")
    case True
    have at: "bytes_at nxt (p - length cur) (leh_bytes (fst e))"
      using d(1) True by (auto simp: bytes_at_def)
    have "leh_deserialize E (Some nxt) (length nxt) (p - length cur) = Inr (fst e, p - length cur + 32)"
      using header_at [OF assms(1) at _ le_refl] len True by simp
    from calc_next [OF True _ this hs(1)] show ?thesis
      using True len hs(2) tail by simp
  next
    case False
    let ?k = "32 - (length cur - p)"
    have img: "drop p cur @ take ?k nxt = leh_bytes (fst e)"
      using d(1) False assms(4) by (simp add: bytes_at_def)
    have "leh_deserialize E (Some (drop p cur @ take ?k nxt)) 32 0 = Inr (fst e, 32)"
      unfolding img using header_at [OF assms(1), of "leh_bytes (fst e)" 0 32] by (simp add: bytes_at_def)
    moreover have "p < length cur" "length cur - p + ?k = 32" "0 < ?k" "?k \<le> length nxt"
      "?k + length (snd e) = ?q"
      using len False assms(4) by linarith+
    ultimately show ?thesis
      using calc_seam [of p cur ?k nxt E "fst e" 32 "[]" acc] hs(1,2) tail by simp
  qed
qed

lemma calc_log_loop_two:
  assumes "list_all (header_ok E) es" "drop p (cur @ nxt) = body_bytes es" "p \<le> length (cur @ nxt)"
  shows "calc_log_loop E cur [nxt] p acc = Some (Inr (group_checksum E acc es))"
  using assms
proof (induction es arbitrary: p acc)
  case Nil
  then have "drop p (cur @ nxt) = []" by simp
  then have "length (cur @ nxt) \<le> p" by (simp only: drop_eq_Nil)
  with Nil have "p = length cur + length nxt" by simp
  then show ?case by (subst calc_log_loop.simps) simp
next
  case (Cons e es)
  note d = drop_body_step [OF Cons.prems(2)]
  have h: "header_ok E e" using Cons.prems(1) by simp
  show ?case
  proof (cases "length cur - p < 32")
    case True
    then show ?thesis using calc_log_loop_seam [OF h _ Cons.prems(2)] Cons.prems(1) by simp
  next
    case False
    then have p: "p + 32 \<le> length cur" by linarith
    then have "bytes_at cur p (leh_bytes (fst e))"
      using d(1) by (simp add: bytes_at_def)
    from calc_here [OF p header_at [OF h this p le_refl] header_ok_simps(1) [OF h]]
    have "calc_log_loop E cur [nxt] p acc
        = calc_log_loop E cur [nxt] (p + 32 + length (snd e)) (entry_checksum E acc (fst e))"
      by (simp add: header_ok_simps(2) [OF h])
    also have "\<dots> = Some (Inr (group_checksum E (entry_checksum E acc (fst e)) es))"
      using Cons.prems(1) d by (intro Cons.IH) simp_all
    finally show ?thesis by simp
  qed
qed

section \<open>Properties\<close>

text \<open>C21. The field updates that rewrite a header on a standby keep it intact: from a header that passes the
  header check, \<^verbatim>\<open>update_log_proposal_id\<close> and \<^verbatim>\<open>update_committed_end_lsn\<close> either refuse an invalid
  argument without changing the header, or give a header that passes the check, carries the new
  value and keeps the padding and raw-write marks; \<^verbatim>\<open>update_write_mode\<close> leaves the refresh of the
  checksum to a following \<^verbatim>\<open>update_header_checksum\<close>.\<close>

theorem group_header_updates_keep_integrity:
  assumes "lgh_check_header_integrity E h"
  shows "(let (ret, g) = lgh_update_log_proposal_id E h pid in
      if pid = INVALID_PROPOSAL_ID then ret = OB_INVALID_ARGUMENT \<and> g = h
      else ret = OB_SUCCESS \<and> lgh_check_header_integrity E g \<and> lgh_proposal_id g = pid
        \<and> lgh_is_padding_log g = lgh_is_padding_log h \<and> lgh_is_raw_write g = lgh_is_raw_write h)
    \<and> (let (ret, g) = lgh_update_committed_end_lsn E h lsn in
      if \<not> lsn_is_valid lsn then ret = OB_INVALID_ARGUMENT \<and> g = h
      else ret = OB_SUCCESS \<and> lgh_check_header_integrity E g \<and> lgh_committed_end_lsn g = lsn
        \<and> lgh_is_padding_log g = lgh_is_padding_log h \<and> lgh_is_raw_write g = lgh_is_raw_write h)
    \<and> lgh_check_header_integrity E (lgh_update_header_checksum E (lgh_update_write_mode h raw))"
proof -
  have v: "lgh_is_valid h" using assms by (simp add: lgh_check_header_integrity_def)
  have flags: "lgh_is_padding_log g = lgh_is_padding_log h" "lgh_is_raw_write g = lgh_is_raw_write h"
    if "lgh_flag g = lgh_flag h" "lgh_version g = lgh_version h" for g
    using that by (simp_all add: lgh_is_padding_log_def lgh_is_raw_write_def lgh_get_padding_mask_def lgh_get_raw_write_mask_def)
  have ok: "lgh_check_header_integrity E (lgh_update_header_checksum E (h\<lparr>lgh_proposal_id := pid\<rparr>))"
    if "pid \<noteq> INVALID_PROPOSAL_ID"
    using v that by (intro lgh_update_integrity) (simp add: lgh_is_valid_def)
  have ok': "lgh_check_header_integrity E (lgh_update_header_checksum E (h\<lparr>lgh_committed_end_lsn := lsn\<rparr>))"
    if "lsn_is_valid lsn"
    using v that by (intro lgh_update_integrity) (simp add: lgh_is_valid_def)
  have "lgh_is_valid (lgh_update_write_mode h raw)"
    using v by (simp add: lgh_is_valid_def lgh_update_write_mode_def)
  then show ?thesis
    using ok ok' flags [of "h\<lparr>lgh_proposal_id := pid\<rparr>"] flags [of "h\<lparr>lgh_committed_end_lsn := lsn\<rparr>"]
    by (simp add: lgh_update_log_proposal_id_def lgh_update_committed_end_lsn_def lgh_update_integrity)
qed

theorem group_header_updates_keep_integrity_witness:
  "\<exists>h. lgh_check_header_integrity wit_env h
     \<and> lgh_check_header_integrity wit_env (snd (lgh_update_log_proposal_id wit_env h 7))
     \<and> lgh_check_header_integrity wit_env (snd (lgh_update_committed_end_lsn wit_env h (LSN 100)))"
proof -
  let ?g = "lgh_reset\<lparr>lgh_magic := LGH_MAGIC, lgh_version := LGH_VERSION, lgh_proposal_id := 1,
      lgh_committed_end_lsn := LSN 0, lgh_max_scn := SCN 9, lgh_log_id := 1\<rparr>"
  have "lgh_is_valid ?g"
    by (simp add: lgh_is_valid_def scn_is_valid_uint is_valid_log_id_def lsn_is_valid_def LOG_INVALID_LSN_VAL_def
        INVALID_PROPOSAL_ID_def word_sless_alt)
  then have h: "lgh_check_header_integrity wit_env (lgh_update_header_checksum wit_env ?g)"
    by (rule lgh_update_integrity)
  from group_header_updates_keep_integrity [OF h, of 7 "LSN 100" False] h show ?thesis
    by (intro exI [of _ "lgh_update_header_checksum wit_env ?g"])
      (auto simp: INVALID_PROPOSAL_ID_def lsn_is_valid_def LOG_INVALID_LSN_VAL_def split: prod.splits)
qed

end
