(* ===== verification/GroupEntry.thy ===== *)
theory GroupEntry
  imports GroupHeader
begin

text \<open>
  \<^verbatim>\<open>src/logservice/palf/log_group_entry.cpp\<close>: a group header with the pointer to its body.  \<open>lge_buf\<close> is
  the memory behind the pointer.  A header whose size is negative passes its checks, so the position
  a successful \<^verbatim>\<open>deserialize\<close> leaves behind is an integer.
\<close>

record LogGroupEntry =
  lge_header :: LogGroupEntryHeader
  lge_buf :: buffer

definition lge_get_data_len :: "LogGroupEntry \<Rightarrow> int" where
  "lge_get_data_len e = sint (lgh_group_size (lge_header e))"

definition lge_is_valid :: "LogGroupEntry \<Rightarrow> bool" where
  "lge_is_valid e \<longleftrightarrow> lgh_is_valid (lge_header e) \<and> lge_buf e \<noteq> None"

definition lge_reset :: LogGroupEntry where
  "lge_reset = \<lparr>lge_header = lgh_reset, lge_buf = None\<rparr>"

definition lge_generate :: "LogGroupEntry \<Rightarrow> LogGroupEntryHeader \<Rightarrow> buffer \<Rightarrow> ob_ret \<times> LogGroupEntry" where
  "lge_generate e header buf =
     (if \<not> lgh_is_valid header \<or> buf = None then (OB_INVALID_ARGUMENT, e)
      else (OB_SUCCESS, e\<lparr>lge_header := header, lge_buf := buf\<rparr>))"

definition lge_shallow_copy :: "LogGroupEntry \<Rightarrow> LogGroupEntry \<Rightarrow> ob_ret \<times> LogGroupEntry" where
  "lge_shallow_copy e entry =
     (if \<not> lge_is_valid entry then (OB_INVALID_ARGUMENT, e)
      else (OB_SUCCESS, e\<lparr>lge_header := lge_header entry, lge_buf := lge_buf entry\<rparr>))"

definition lge_check_integrity :: "hash_env \<Rightarrow> LogGroupEntry \<Rightarrow> u64 \<Rightarrow> bool \<times> u64" where
  "lge_check_integrity E e data_checksum =
     lgh_check_integrity E (lge_header e) (lge_buf e) (lge_get_data_len e) data_checksum"

definition lge_truncate :: "hash_env \<Rightarrow> LogGroupEntry \<Rightarrow> SCN \<Rightarrow> u64 \<Rightarrow> ob_ret \<times> LogGroupEntry" where
  "lge_truncate E e upper_limit_scn pre_accum_checksum =
     (case lgh_truncate E (lge_header e) (lge_buf e) (lge_get_data_len e) upper_limit_scn pre_accum_checksum of
        (ret, h) \<Rightarrow> (ret, e\<lparr>lge_header := h\<rparr>))"

definition lge_serialize :: "buffer \<Rightarrow> nat \<Rightarrow> nat \<Rightarrow> LogGroupEntry \<Rightarrow> enc_result option" where
  "lge_serialize buf buf_len pos e =
     (if buf = None \<or> buf_len = 0 then Some (OB_INVALID_ARGUMENT, buf, pos)
      else case lgh_serialize buf buf_len pos (lge_header e) of
        (ret, buf', new_pos) \<Rightarrow>
          if ret \<noteq> OB_SUCCESS then Some (ret, buf', pos)
          else if int buf_len - int new_pos < lge_get_data_len e then Some (OB_BUF_NOT_ENOUGH, buf', pos)
          else case (buf', lge_buf e) of
            (Some b, Some d) \<Rightarrow>
              if lge_get_data_len e < 0 \<or> length d < nat (lge_get_data_len e) then None
              else Some (OB_SUCCESS, Some (splice_at b new_pos (take (nat (lge_get_data_len e)) d)),
                         new_pos + nat (lge_get_data_len e))
          | _ \<Rightarrow> None)"

definition lge_deserialize :: "hash_env \<Rightarrow> buffer \<Rightarrow> nat \<Rightarrow> nat \<Rightarrow> ob_ret + (LogGroupEntry \<times> int)" where
  "lge_deserialize E buf data_len pos =
     (case buf of
        None \<Rightarrow> Inl OB_INVALID_ARGUMENT
      | Some b \<Rightarrow>
          if data_len = 0 then Inl OB_INVALID_ARGUMENT
          else case lgh_deserialize E buf data_len pos of
            Inl ret \<Rightarrow> Inl ret
          | Inr (h, new_pos) \<Rightarrow>
              let len = sint (lgh_group_size h) in
              if int data_len - int new_pos < len then Inl OB_BUF_NOT_ENOUGH
              else Inr (\<lparr>lge_header = h, lge_buf = (if len \<ge> 0 then Some (drop new_pos b) else None)\<rparr>,
                        int new_pos + len))"

definition lge_get_serialize_size :: "LogGroupEntry \<Rightarrow> int" where
  "lge_get_serialize_size e = int lgh_get_serialize_size + lge_get_data_len e"

definition lge_get_log_min_scn :: "hash_env \<Rightarrow> LogGroupEntry \<Rightarrow> ob_ret + SCN" where
  "lge_get_log_min_scn E e =
     (if \<not> lgh_is_padding_log (lge_header e) then
        (case leh_deserialize E (lge_buf e) (nat (lge_get_data_len e)) 0 of
           Inl ret \<Rightarrow> Inl ret
         | Inr (h, _) \<Rightarrow> Inr (leh_scn h))
      else Inr (lgh_max_scn (lge_header e)))"

definition lge_check_compatibility :: "hash_env \<Rightarrow> LogGroupEntry \<Rightarrow> bool" where
  "lge_check_compatibility E e = lgh_check_compatibility E (lge_header e)"

section \<open>Truncating a body\<close>

definition kept :: "SCN \<Rightarrow> entry_img list \<Rightarrow> entry_img list" where
  "kept lim es = takeWhile (\<lambda>e. \<not> scn_gt (leh_scn (fst e)) lim) es"

definition max_step :: "SCN \<Rightarrow> LogEntryHeader \<Rightarrow> SCN" where
  "max_step m h = (if \<not> scn_is_valid m \<or> scn_gt (leh_scn h) m then leh_scn h else m)"

lemma truncate_loop_body:
  assumes "list_all (header_ok E) es" "bytes_at b p (body_bytes es)" "p + length (body_bytes es) \<le> length b"
  shows "truncate_loop E b (p + length (body_bytes es)) lim p p m acc
    = Inr (p + length (body_bytes (kept lim es)), foldl max_step m (map fst (kept lim es)), group_checksum E acc (kept lim es))"
  using assms
proof (induction es arbitrary: p m acc)
  case Nil
  then show ?case by (simp add: truncate_loop.simps kept_def)
next
  case (Cons e es)
  let ?n = "p + length (body_bytes (e # es))" and ?q = "p + 32 + length (snd e)"
  have n: "?n = ?q + length (body_bytes es)" by simp
  have h: "header_ok E e" using Cons.prems(1) by simp
  have de: "leh_deserialize E (Some b) ?n p = Inr (fst e, p + 32)"
    using Cons.prems unfolding bytes_at_body by (intro header_at [OF h]) auto
  show ?case
  proof (cases "scn_gt (leh_scn (fst e)) lim")
    case True
    then show ?thesis
      using de by (subst truncate_loop.simps) (simp add: kept_def)
  next
    case False
    have "truncate_loop E b ?n lim p p m acc
        = truncate_loop E b ?n lim ?q ?q (max_step m (fst e)) (entry_checksum E acc (fst e))"
      using de False header_ok_simps(2) [OF h]
      by (subst truncate_loop.simps) (simp add: max_step_def Let_def)
    also have "\<dots> = Inr (?q + length (body_bytes (kept lim es)),
        foldl max_step (max_step m (fst e)) (map fst (kept lim es)),
        group_checksum E (entry_checksum E acc (fst e)) (kept lim es))"
      unfolding n using Cons.prems bytes_at_body [of b p e es] by (intro Cons.IH) auto
    finally show ?thesis using False by (simp add: kept_def)
  qed
qed

text \<open>The SCN the loop ends with is the greatest one of the kept entries.\<close>

lemma max_step_max:
  "scn_is_valid (leh_scn h) \<Longrightarrow> scn_is_valid (max_step m h) \<and> scn_le (leh_scn h) (max_step m h)
    \<and> (scn_is_valid m \<longrightarrow> scn_le m (max_step m h))"
  by (auto simp: max_step_def scn_cmp_rank)

lemma foldl_max_step:
  assumes "\<forall>h \<in> set hs. scn_is_valid (leh_scn h)" "scn_is_valid m"
  shows "scn_is_valid (foldl max_step m hs) \<and> scn_le m (foldl max_step m hs)
    \<and> (\<forall>h \<in> set hs. scn_le (leh_scn h) (foldl max_step m hs))"
  using assms
proof (induction hs arbitrary: m)
  case Nil
  then show ?case by (simp add: scn_cmp_rank)
next
  case (Cons h hs)
  have "scn_is_valid (max_step m h)" "scn_le (leh_scn h) (max_step m h)" "scn_le m (max_step m h)"
    using max_step_max [of h m] Cons.prems by auto
  then show ?case
    using Cons.IH [of "max_step m h"] Cons.prems by (auto simp: scn_cmp_rank)
qed

lemma max_step_mem: "foldl max_step m hs \<in> insert m (leh_scn ` set hs)"
proof (induction hs arbitrary: m)
  case (Cons h hs)
  then show ?case using Cons.IH [of "max_step m h"] by (auto simp: max_step_def split: if_splits)
qed simp

lemma foldl_max_step_reset:
  assumes "\<forall>h \<in> set hs. scn_is_valid (leh_scn h)" "hs \<noteq> []"
  shows "scn_is_valid (foldl max_step scn_reset hs)
    \<and> (\<forall>h \<in> set hs. scn_le (leh_scn h) (foldl max_step scn_reset hs))
    \<and> foldl max_step scn_reset hs \<in> leh_scn ` set hs"
proof -
  obtain h hs' where hs: "hs = h # hs'" using assms(2) by (cases hs) auto
  have "max_step scn_reset h = leh_scn h" by (simp add: max_step_def)
  then show ?thesis
    using foldl_max_step [of hs' "leh_scn h"] max_step_mem [of "leh_scn h" hs'] assms(1) by (auto simp: hs)
qed

section \<open>A group from the writer to the reader\<close>

text \<open>The write buffer of a group holds its bytes in one piece, or in two pieces cut anywhere.\<close>

definition pieces_of :: "bytes \<Rightarrow> bytes list \<Rightarrow> bool" where
  "pieces_of w ps \<longleftrightarrow> ps = [w] \<or> (\<exists>k. ps = [take k w, drop k w])"

lemma calculate_log_checksum_pieces:
  assumes "list_all (header_ok E) es" "pieces_of (hdr @ body_bytes es) ps" "length hdr = 56"
  shows "lgh_calculate_log_checksum E False ps (int (length (body_bytes es))) = Some (Inr (group_checksum E 0 es))"
proof -
  let ?w = "hdr @ body_bytes es"
  have d: "drop 56 ?w = body_bytes es" using assms(3) by simp
  from assms(2) consider (one) "ps = [?w]" | (two) k where "ps = [take k ?w, drop k ?w]"
    unfolding pieces_of_def by blast
  then show ?thesis
  proof cases
    case one
    then show ?thesis
      using calc_log_loop_one [OF assms(1) d, of 0] assms(3)
      by (simp add: lgh_calculate_log_checksum_def LGH_HEADER_SER_SIZE_def)
  next
    case two
    have "calc_log_loop E (take k ?w) [drop k ?w] 56 0 = Some (Inr (group_checksum E 0 es))"
      using d assms(3) by (intro calc_log_loop_two [OF assms(1)]) (simp_all only: append_take_drop_id, simp)
    moreover have "int (length (body_bytes es)) + 56 = int (length (concat ps))"
      using assms(3) by (simp only: two concat.simps append_Nil2 append_take_drop_id) simp
    ultimately show ?thesis
      unfolding lgh_calculate_log_checksum_def LGH_HEADER_SER_SIZE_def by (simp add: two)
  qed
qed

lemma lgh_get_version_cases: "LGH_VERSION = lgh_get_version E \<or> LGH_VERSION2 = lgh_get_version E"
  by (simp add: lgh_get_version_def split: option.split)

lemma lgh_generate_ok:
  assumes "lgh_calculate_log_checksum E False ps len = Some (Inr c)"
    and "scn_is_valid max_scn" "is_valid_log_id log_id" "lsn_is_valid lsn" "INVALID_PROPOSAL_ID \<noteq> pid"
  shows "\<exists>h. lgh_generate E lgh_reset raw False ps len max_scn log_id lsn pid = Some (h, Inr c)
    \<and> lgh_is_valid h \<and> \<not> lgh_is_padding_log h \<and> lgh_is_raw_write h = raw
    \<and> lgh_group_size h = word_of_int len \<and> lgh_max_scn h = max_scn \<and> lgh_log_id h = log_id
    \<and> lgh_committed_end_lsn h = lsn \<and> lgh_proposal_id h = pid"
proof -
  let ?g = "lgh_reset\<lparr>lgh_magic := LGH_MAGIC, lgh_version := lgh_get_version E, lgh_group_size := word_of_int len,
      lgh_max_scn := max_scn, lgh_log_id := log_id, lgh_committed_end_lsn := lsn, lgh_proposal_id := pid\<rparr>"
  let ?h = "if raw then ?g\<lparr>lgh_flag := lgh_flag ?g OR lgh_get_raw_write_mask ?g\<rparr> else ?g"
  have flag: "lgh_flag ?h = (if raw then lgh_get_raw_write_mask ?g else 0)"
    by (simp add: lgh_reset_def)
  have masks: "lgh_get_padding_mask ?h = lgh_get_padding_mask ?g" "lgh_get_raw_write_mask ?h = lgh_get_raw_write_mask ?g"
    "lgh_get_raw_write_mask ?g AND lgh_get_padding_mask ?g = 0" "0 <s lgh_get_raw_write_mask ?g"
    by (auto simp: lgh_get_padding_mask_def lgh_get_raw_write_mask_def PADDING_TYPE_MASK_def
        PADDING_TYPE_MASK_VERSION2_def RAW_WRITE_MASK_def RAW_WRITE_MASK_VERSION2_def word_sless_alt)
  have "\<not> lgh_is_padding_log ?h" "lgh_is_raw_write ?h = raw"
    unfolding lgh_is_padding_log_def lgh_is_raw_write_def flag masks(1,2) using masks(3,4) by simp_all
  moreover have "lgh_is_valid ?h"
    using assms(2-5) lgh_get_version_cases [of E] by (simp add: lgh_is_valid_def)
  moreover have "lgh_generate E lgh_reset raw False ps len max_scn log_id lsn pid = Some (?h, Inr c)"
    using assms by (simp add: lgh_generate_def Let_def)
  ultimately show ?thesis
    by (intro exI [of _ ?h] conjI) simp_all
qed

lemma lgh_check_log_checksum_body:
  assumes "list_all (entry_ok E) es" "\<not> lgh_is_padding_log h" "take (length (body_bytes es)) b = body_bytes es"
    and "length (body_bytes es) \<le> length b"
  shows "lgh_check_log_checksum E h (Some b) (int (length (body_bytes es))) old = (True, group_checksum E 0 es)"
  using check_log_loop_body [OF assms(1), of b 0 0] assms(2-4)
  by (simp add: lgh_check_log_checksum_def bytes_at_def)

lemma entries_headers: "list_all (entry_ok E) es \<Longrightarrow> list_all (header_ok E) es"
  by (simp add: list_all_iff entry_ok_def)

lemma sint_size: "n < 2147483648 \<Longrightarrow> sint (word_of_nat n :: u32) = int n"
  using sint_u32_small [of "int n"] by simp

lemma lgh_is_padding_cong:
  "lgh_flag g = lgh_flag h \<Longrightarrow> lgh_version g = lgh_version h \<Longrightarrow> lgh_is_padding_log g = lgh_is_padding_log h"
  by (simp add: lgh_is_padding_log_def lgh_get_padding_mask_def)

lemma lge_deserialize_body:
  assumes "lgh_check_header_integrity E h" "sint (lgh_group_size h) = int (length body)"
  shows "lge_deserialize E (Some (lgh_bytes h @ body)) (56 + length body) 0
    = Inr (\<lparr>lge_header = h, lge_buf = Some body\<rparr>, int (56 + length body))"
proof -
  have "lgh_deserialize E (Some (lgh_bytes h @ body)) (56 + length body) 0 = Inr (h, 56)"
    using reads_at [OF lgh_deserialize_reads [OF assms(1)], of "56 + length body" "lgh_bytes h @ body" 0]
    by (simp add: bytes_at_def)
  then show ?thesis by (simp add: lge_deserialize_def assms(2))
qed

section \<open>Properties\<close>

text \<open>C17. A group survives the way from the leader's buffer to a reader.  Take a group buffer with room
  for the header and a body of intact entries, in one piece or cut into two pieces anywhere, also in
  the middle of an entry header.  Then \<^verbatim>\<open>generate\<close> succeeds with a checksum \<open>c\<close>; with any accumulated
  checksum stored and the header checksum refreshed, the serialized header in front of the body is
  read back as the same group, and \<^verbatim>\<open>check_integrity\<close> over the contiguous body accepts it with the
  same checksum \<open>c\<close>.\<close>

theorem group_entry_pipeline:
  assumes "list_all (entry_ok E) es" "length (body_bytes es) < 2 ^ 31" "length hdr = 56"
    and "pieces_of (hdr @ body_bytes es) ps"
    and "scn_is_valid max_scn" "is_valid_log_id log_id" "lsn_is_valid lsn" "INVALID_PROPOSAL_ID \<noteq> pid"
  shows "\<exists>h c. lgh_generate E lgh_reset raw False ps (int (length (body_bytes es))) max_scn log_id lsn pid = Some (h, Inr c)
    \<and> (let h' = lgh_update_header_checksum E (lgh_update_accumulated_checksum h accum);
           m = lgh_bytes h' @ body_bytes es; e = \<lparr>lge_header = h', lge_buf = Some (body_bytes es)\<rparr>
       in lgh_serialize (Some (hdr @ body_bytes es)) (length m) 0 h' = (OB_SUCCESS, Some m, 56)
        \<and> lge_deserialize E (Some m) (length m) 0 = Inr (e, int (length m))
        \<and> lge_check_integrity E e old = (True, c))"
proof -
  let ?B = "body_bytes es" and ?c = "group_checksum E 0 es"
  obtain h where h: "lgh_generate E lgh_reset raw False ps (int (length ?B)) max_scn log_id lsn pid = Some (h, Inr ?c)"
    "lgh_is_valid h" "\<not> lgh_is_padding_log h" "lgh_group_size h = word_of_int (int (length ?B))"
    using lgh_generate_ok [OF calculate_log_checksum_pieces [OF entries_headers [OF assms(1)] assms(4,3)] assms(5-8)]
    by blast
  define h' where "h' = lgh_update_header_checksum E (lgh_update_accumulated_checksum h accum)"
  have acc: "lgh_is_valid (lgh_update_accumulated_checksum h accum)"
    "\<not> lgh_is_padding_log (lgh_update_accumulated_checksum h accum)"
    using h(2,3) lgh_is_padding_cong [of "lgh_update_accumulated_checksum h accum" h]
    by (auto simp: lgh_update_accumulated_checksum_def lgh_is_valid_def)
  have size: "sint (lgh_group_size h') = int (length ?B)"
    using assms(2) by (simp add: h'_def lgh_update_accumulated_checksum_def h(4) sint_size)
  have ok: "lgh_check_header_integrity E h'" "\<not> lgh_is_padding_log h'"
    using acc by (simp_all add: h'_def lgh_update_integrity)
  have "lgh_serialize (Some (hdr @ ?B)) (56 + length ?B) 0 h' = (OB_SUCCESS, Some (lgh_bytes h' @ ?B), 56)"
    using writes_room [OF lgh_serialize_writes, of "56 + length ?B" "hdr @ ?B" 0 h'] assms(3)
    by (simp add: splice_at_def)
  moreover have "lge_check_integrity E \<lparr>lge_header = h', lge_buf = Some ?B\<rparr> old = (True, ?c)"
    using ok lgh_check_log_checksum_body [OF assms(1) ok(2), of ?B old]
    by (simp add: lge_check_integrity_def lgh_check_integrity_def lge_get_data_len_def size
        lgh_check_header_integrity_def lgh_is_valid_def)
  ultimately have "let m = lgh_bytes h' @ ?B; e = \<lparr>lge_header = h', lge_buf = Some ?B\<rparr>
       in lgh_serialize (Some (hdr @ ?B)) (length m) 0 h' = (OB_SUCCESS, Some m, 56)
        \<and> lge_deserialize E (Some m) (length m) 0 = Inr (e, int (length m))
        \<and> lge_check_integrity E e old = (True, ?c)"
    using lge_deserialize_body [OF ok(1) size] by simp
  with h(1) show ?thesis unfolding h'_def Let_def by blast
qed

text \<open>C20. Truncation keeps a valid prefix.  Truncating a group of intact entries at an SCN keeps exactly the
  entries in front of the first newer one: the new size is the length of their bytes, the new SCN
  is the greatest of theirs, the new accumulated checksum continues the given one with their group
  checksum, the header checksum is refreshed, and the shortened group passes \<^verbatim>\<open>check_integrity\<close>.  If
  nothing is kept, the header is invalid.\<close>

theorem group_entry_truncate:
  assumes "list_all (entry_ok E) es" "es \<noteq> []" "length (body_bytes es) < 2 ^ 31" "lgh_is_valid h" "\<not> lgh_is_padding_log h"
    and "lgh_group_size h = word_of_int (int (length (body_bytes es)))" "scn_is_valid lim"
    and "ks = kept lim es"
  shows "\<exists>h'. lge_truncate E \<lparr>lge_header = h, lge_buf = Some (body_bytes es)\<rparr> lim pre
      = (OB_SUCCESS, \<lparr>lge_header = h', lge_buf = Some (body_bytes es)\<rparr>)
    \<and> sint (lgh_group_size h') = int (length (body_bytes ks))
    \<and> (if ks = [] then \<not> lgh_is_valid h'
       else lgh_check_header_integrity E h'
          \<and> lgh_max_scn h' \<in> leh_scn ` fst ` set ks \<and> (\<forall>e \<in> set ks. scn_le (leh_scn (fst e)) (lgh_max_scn h')))
    \<and> (\<exists>c. lge_check_integrity E \<lparr>lge_header = h', lge_buf = Some (body_bytes es)\<rparr> old = (True, c)
          \<and> lgh_accumulated_checksum h' = crc64 E pre (le64 c))"
proof -
  let ?B = "body_bytes es" and ?K = "body_bytes ks" and ?m = "foldl max_step scn_reset (map fst ks)"
  let ?c = "group_checksum E 0 ks"
  define g where "g = h\<lparr>lgh_group_size := word_of_int (int (length ?K)), lgh_max_scn := ?m,
      lgh_accumulated_checksum := crc64 E pre (le64 ?c)\<rparr>"
  define h' where "h' = lgh_update_header_checksum E g"
  have "es = ks @ dropWhile (\<lambda>e. \<not> scn_gt (leh_scn (fst e)) lim) es"
    unfolding assms(8) kept_def by (rule takeWhile_dropWhile_id [symmetric])
  then obtain rest where es: "es = ks @ rest" by blast
  have K: "list_all (entry_ok E) ks" "length ?K \<le> length ?B" "take (length ?K) ?B = ?K"
    using assms(1) es by simp_all
  have size: "sint (lgh_group_size h) = int (length ?B)" "sint (lgh_group_size h') = int (length ?K)"
    using assms(3,6) K(2) by (simp_all add: sint_size h'_def g_def)
  have pos: "0 < length ?B" using assms(2) by (cases es) simp_all
  have tr: "lge_truncate E \<lparr>lge_header = h, lge_buf = Some ?B\<rparr> lim pre = (OB_SUCCESS, \<lparr>lge_header = h', lge_buf = Some ?B\<rparr>)"
    using truncate_loop_body [OF entries_headers [OF assms(1)], of ?B 0 lim scn_reset 0] pos assms(5,7)
    by (simp add: lge_truncate_def lgh_truncate_def lge_get_data_len_def size(1) bytes_at_def
        lgh_update_accumulated_checksum_def assms(8) [symmetric] h'_def g_def)
  have pad: "\<not> lgh_is_padding_log h'"
    using assms(5) lgh_is_padding_cong [of g h] by (simp add: h'_def g_def)
  have "lgh_version g = LGH_VERSION \<or> lgh_version g = LGH_VERSION2" "lgh_magic g = LGH_MAGIC"
    using assms(4) by (auto simp: lgh_is_valid_def g_def)
  then have sum: "lgh_check_header_checksum E h'" "lgh_magic h' = LGH_MAGIC"
    by (simp_all add: h'_def lgh_update_checksum_ok)
  have chk: "lge_check_integrity E \<lparr>lge_header = h', lge_buf = Some ?B\<rparr> old = (True, ?c)"
    using sum lgh_check_log_checksum_body [OF K(1) pad K(3,2), of old]
    by (simp add: lge_check_integrity_def lgh_check_integrity_def lge_get_data_len_def size(2))
  have scns: "\<forall>x \<in> set (map fst ks). scn_is_valid (leh_scn x)"
    using K(1) by (auto simp: list_all_iff entry_ok_def header_ok_def leh_check_header_integrity_def leh_is_valid_def)
  have valid: "lgh_is_valid h' \<longleftrightarrow> scn_is_valid ?m" and m: "lgh_max_scn h' = ?m"
    and acc: "lgh_accumulated_checksum h' = crc64 E pre (le64 ?c)"
    using assms(4) by (simp_all add: lgh_is_valid_def h'_def g_def)
  have "if ks = [] then \<not> lgh_is_valid h'
       else lgh_check_header_integrity E h'
          \<and> lgh_max_scn h' \<in> leh_scn ` fst ` set ks \<and> (\<forall>e \<in> set ks. scn_le (leh_scn (fst e)) (lgh_max_scn h'))"
  proof (cases "ks = []")
    case True
    then show ?thesis using valid by simp
  next
    case False
    then show ?thesis
      using foldl_max_step_reset [OF scns] valid sum(1) m
      by (simp add: lgh_check_header_integrity_def image_image)
  qed
  then show ?thesis using tr size(2) chk acc by blast
qed

subsection \<open>Witnesses\<close>

lemma wit_entry_ok:
  obtains h where "entry_ok wit_env (h, [1, 2, 3])" "leh_scn h = SCN 9"
proof -
  obtain h where h: "leh_generate_header wit_env leh_new (Some [1, 2, 3]) (int (length [1, 2, 3 :: u8])) (SCN 9) = (OB_SUCCESS, h)"
    by (rule wit_entry)
  have "entry_ok wit_env (h, [1, 2, 3])"
    using leh_generate_header_ok(1,2,4) [OF h] leh_generated_not_padding [OF h]
    by (simp add: entry_ok_def header_ok_def)
  with leh_generate_header_ok(3) [OF h] that show ?thesis by simp
qed

theorem group_entry_pipeline_witness:
  "\<exists>es h c. es \<noteq> [] \<and> lgh_generate wit_env lgh_reset False False
      [take 70 (replicate 56 0 @ body_bytes es), drop 70 (replicate 56 0 @ body_bytes es)]
      (int (length (body_bytes es))) (SCN 9) 1 (LSN 0) 1 = Some (h, Inr c)"
proof -
  obtain h where h: "entry_ok wit_env (h, [1, 2, 3])" by (rule wit_entry_ok)
  let ?es = "[(h, [1, 2, 3 :: u8])]"
  have "pieces_of (replicate 56 0 @ body_bytes ?es) [take 70 (replicate 56 0 @ body_bytes ?es), drop 70 (replicate 56 0 @ body_bytes ?es)]"
    unfolding pieces_of_def by blast
  from group_entry_pipeline [OF _ _ _ this, of wit_env "SCN 9" 1 "LSN 0" 1 False 0 0] h
  show ?thesis
    by (intro exI [of _ ?es]) (auto simp: scn_is_valid_uint is_valid_log_id_def lsn_is_valid_def
        LOG_INVALID_LSN_VAL_def INVALID_PROPOSAL_ID_def word_sless_alt Let_def)
qed

theorem group_entry_truncate_witness:
  "\<exists>es h h'. es \<noteq> [] \<and> lge_truncate wit_env \<lparr>lge_header = h, lge_buf = Some (body_bytes es)\<rparr> (SCN 5) 0
      = (OB_SUCCESS, \<lparr>lge_header = h', lge_buf = Some (body_bytes es)\<rparr>) \<and> sint (lgh_group_size h') = 0"
proof -
  obtain e where e: "entry_ok wit_env (e, [1, 2, 3])" "leh_scn e = SCN 9" by (rule wit_entry_ok)
  let ?es = "[(e, [1, 2, 3 :: u8])]"
  let ?h = "lgh_reset\<lparr>lgh_magic := LGH_MAGIC, lgh_version := LGH_VERSION, lgh_proposal_id := 1,
      lgh_committed_end_lsn := LSN 0, lgh_max_scn := SCN 9, lgh_log_id := 1,
      lgh_group_size := word_of_int (int (length (body_bytes ?es)))\<rparr>"
  have k: "[] = kept (SCN 5) ?es"
    using e(2) by (simp add: kept_def scn_cmp_rank scn_rank_def scn_is_valid_uint)
  have "lgh_is_valid ?h" "\<not> lgh_is_padding_log ?h" "scn_is_valid (SCN 5)" "list_all (entry_ok wit_env) ?es"
    using e(1) by (simp_all add: lgh_is_valid_def lgh_reset_def scn_is_valid_uint is_valid_log_id_def lsn_is_valid_def
        LOG_INVALID_LSN_VAL_def INVALID_PROPOSAL_ID_def word_sless_alt lgh_is_padding_log_def)
  from group_entry_truncate [OF this(4) _ _ this(1,2) _ this(3) k, of 0 0]
  have "\<exists>h'. lge_truncate wit_env \<lparr>lge_header = ?h, lge_buf = Some (body_bytes ?es)\<rparr> (SCN 5) 0
      = (OB_SUCCESS, \<lparr>lge_header = h', lge_buf = Some (body_bytes ?es)\<rparr>) \<and> sint (lgh_group_size h') = 0"
    by fastforce
  then show ?thesis by blast
qed

end
