(* ===== verification/GroupBuffer.thy ===== *)
theory GroupBuffer
  imports WriteBuf Lsn
begin

text \<open>
  The ring buffer of the log, \<^verbatim>\<open>src/logservice/palf/log_group_buffer.cpp\<close>.  An LSN is mapped to a buffer
  position by its distance from \<^verbatim>\<open>start_lsn_\<close> modulo the buffer size; bytes in front of \<^verbatim>\<open>reuse_lsn_\<close>
  are flushed and may be overwritten, and \<^verbatim>\<open>readable_begin_lsn_\<close> is the first LSN whose byte has not
  been overwritten.  \<open>gb_addr\<close> is the address of the buffer, \<open>gb_data\<close> its memory.  The atomic loads,
  stores and compare-and-swap loops of single words are atomic steps here.  \<open>None\<close> is a failed
  \<^verbatim>\<open>assert\<close> or a copy out of bounds.
\<close>

record LogGroupBuffer =
  gb_start_lsn :: LSN
  gb_reuse_lsn :: LSN
  gb_readable_begin_lsn :: LSN
  gb_reserved :: int
  gb_available :: int
  gb_addr :: nat
  gb_data :: "bytes option"
  gb_inited :: bool

definition LEADER_DEFAULT_GROUP_BUFFER_SIZE :: int where
  "LEADER_DEFAULT_GROUP_BUFFER_SIZE = 2 ^ 25"
definition FOLLOWER_DEFAULT_GROUP_BUFFER_SIZE :: int where
  "FOLLOWER_DEFAULT_GROUP_BUFFER_SIZE = LEADER_DEFAULT_GROUP_BUFFER_SIZE + 8 * 1024 * 1024"

definition gb_reset :: LogGroupBuffer where
  "gb_reset = \<lparr>gb_start_lsn = lsn_reset, gb_reuse_lsn = lsn_reset, gb_readable_begin_lsn = lsn_reset,
     gb_reserved = 0, gb_available = 0, gb_addr = 0, gb_data = None, gb_inited = False\<rparr>"

text \<open>\<open>alloc\<close> is the address \<^verbatim>\<open>mtl_malloc\<close> returns, 0 for a failure.\<close>

definition gb_init :: "LogGroupBuffer \<Rightarrow> nat \<Rightarrow> LSN \<Rightarrow> ob_ret \<times> LogGroupBuffer" where
  "gb_init g alloc start_lsn =
     (if gb_inited g then (OB_INIT_TWICE, g)
      else if \<not> lsn_is_valid start_lsn then (OB_INVALID_ARGUMENT, g)
      else let group_buffer_size = FOLLOWER_DEFAULT_GROUP_BUFFER_SIZE in
           if alloc = 0 then (OB_ALLOCATE_MEMORY_FAILED, g\<lparr>gb_addr := 0, gb_data := None\<rparr>)
           else (OB_SUCCESS,
                 g\<lparr>gb_addr := alloc, gb_data := Some (replicate (nat group_buffer_size) 0),
                   gb_start_lsn := start_lsn, gb_readable_begin_lsn := start_lsn, gb_reuse_lsn := start_lsn,
                   gb_reserved := group_buffer_size, gb_available := group_buffer_size, gb_inited := True\<rparr>))"

definition gb_destroy :: "LogGroupBuffer \<Rightarrow> LogGroupBuffer" where
  "gb_destroy g = \<lparr>gb_start_lsn = lsn_reset, gb_reuse_lsn = lsn_reset, gb_readable_begin_lsn = lsn_reset,
     gb_reserved = 0, gb_available = 0, gb_addr = 0, gb_data = None, gb_inited = False\<rparr>"

definition gb_get_buffer_pos :: "LogGroupBuffer \<Rightarrow> LSN \<Rightarrow> (ob_ret + nat) option" where
  "gb_get_buffer_pos g lsn =
     (if \<not> gb_inited g then Some (Inl OB_NOT_INIT)
      else if \<not> lsn_is_valid lsn then Some (Inl OB_INVALID_ARGUMENT)
      else if lsn_lt lsn (gb_start_lsn g) then Some (Inl OB_ERR_OUT_OF_LOWER_BOUND)
      else let diff_len = sint (lsn_diff lsn (gb_start_lsn g)) in
           if diff_len < 0 then None else Some (Inr (nat (diff_len mod gb_reserved g))))"

definition lsn_min :: "LSN \<Rightarrow> LSN \<Rightarrow> LSN" where
  "lsn_min a b = (if lsn_lt a b then a else b)"

definition gb_can_handle_new_log_ref :: "LogGroupBuffer \<Rightarrow> LSN \<Rightarrow> int \<Rightarrow> LSN \<Rightarrow> bool" where
  "gb_can_handle_new_log_ref g lsn total_len ref_reuse_lsn =
     (let end_lsn = lsn_plus lsn (word_of_int total_len);
          reuse_lsn = lsn_min (gb_reuse_lsn g) ref_reuse_lsn
      in if \<not> gb_inited g then False
         else if \<not> lsn_is_valid lsn \<or> total_len \<le> 0 \<or> \<not> lsn_is_valid ref_reuse_lsn then False
         else if lsn_lt lsn (gb_start_lsn g) then False
         else if lsn_gt end_lsn (lsn_plus reuse_lsn (word_of_int (gb_available g))) then False
         else True)"

definition gb_can_handle_new_log :: "LogGroupBuffer \<Rightarrow> LSN \<Rightarrow> int \<Rightarrow> bool" where
  "gb_can_handle_new_log g lsn total_len =
     (if \<not> gb_inited g then False
      else if \<not> lsn_is_valid lsn \<or> total_len \<le> 0 then False
      else gb_can_handle_new_log_ref g lsn total_len (LSN LOG_MAX_LSN_VAL))"

text \<open>\<^verbatim>\<open>get_log_buf\<close> appends the pieces of a log to a write buffer.\<close>

definition gb_get_log_buf :: "LogGroupBuffer \<Rightarrow> LSN \<Rightarrow> int \<Rightarrow> write_buf \<Rightarrow> (ob_ret \<times> write_buf) option" where
  "gb_get_log_buf g lsn total_len log_buf =
     (if \<not> gb_inited g then Some (OB_NOT_INIT, log_buf)
      else if \<not> lsn_is_valid lsn \<or> total_len \<le> 0 then Some (OB_INVALID_ARGUMENT, log_buf)
      else if lsn_lt lsn (gb_start_lsn g) then Some (OB_INVALID_ARGUMENT, log_buf)
      else case gb_get_buffer_pos g lsn of
        None \<Rightarrow> None
      | Some (Inl ret) \<Rightarrow> Some (ret, log_buf)
      | Some (Inr start_pos) \<Rightarrow>
          let group_buf_tail_len = gb_reserved g - int start_pos;
              first_part_len = min group_buf_tail_len total_len
          in case lwb_push_back log_buf (gb_addr g + start_pos) first_part_len of
               (ret, wb) \<Rightarrow>
                 if ret \<noteq> OB_SUCCESS then Some (ret, wb)
                 else if total_len > first_part_len
                 then Some (lwb_push_back wb (gb_addr g) (total_len - first_part_len))
                 else Some (OB_SUCCESS, wb))"

text \<open>\<^verbatim>\<open>memcpy\<close> and \<^verbatim>\<open>memset\<close> into the buffer.\<close>

definition mem_copy :: "bytes \<Rightarrow> nat \<Rightarrow> bytes \<Rightarrow> nat \<Rightarrow> bytes option" where
  "mem_copy dst off src n =
     (if off + n \<le> length dst \<and> n \<le> length src then Some (splice_at dst off (take n src)) else None)"

text \<open>\<^verbatim>\<open>fill_\<close>: \<open>data\<close> is the memory behind the source pointer.\<close>

definition gb_fill_bytes :: "LogGroupBuffer \<Rightarrow> nat \<Rightarrow> bytes \<Rightarrow> int \<Rightarrow> LogGroupBuffer option" where
  "gb_fill_bytes g start_pos data data_len =
     (case gb_data g of
        None \<Rightarrow> None
      | Some b \<Rightarrow>
          let group_buf_tail_len = gb_reserved g - int start_pos;
              first_part_len = min group_buf_tail_len data_len
          in if first_part_len < 0 then None
             else case mem_copy b start_pos data (nat first_part_len) of
               None \<Rightarrow> None
             | Some b' \<Rightarrow>
                 if data_len > first_part_len
                 then map_option (\<lambda>b. g\<lparr>gb_data := Some b\<rparr>)
                        (mem_copy b' 0 (drop (nat first_part_len) data) (nat (data_len - first_part_len)))
                 else Some (g\<lparr>gb_data := Some b'\<rparr>))"

definition gb_gen_readable_begin_lsn_for_filling :: "LogGroupBuffer \<Rightarrow> LSN \<Rightarrow> LSN" where
  "gb_gen_readable_begin_lsn_for_filling g lsn =
     (if lsn_val lsn \<ge> word_of_int (gb_reserved g) then lsn_minus lsn (word_of_int (gb_reserved g)) else LSN 0)"

definition gb_inc_update_readable :: "LogGroupBuffer \<Rightarrow> LSN \<Rightarrow> LogGroupBuffer" where
  "gb_inc_update_readable g lsn =
     g\<lparr>gb_readable_begin_lsn := LSN (max (lsn_val (gb_readable_begin_lsn g)) (lsn_val lsn))\<rparr>"

text \<open>The checks in front of a fill of \<open>len\<close> bytes; they load the LSNs once.\<close>

definition gb_fill_check :: "LogGroupBuffer \<Rightarrow> LSN \<Rightarrow> int \<Rightarrow> (ob_ret + nat) option" where
  "gb_fill_check g lsn len =
     (let end_lsn = lsn_plus lsn (word_of_int len) in
      if lsn_lt lsn (gb_start_lsn g) then Some (Inl OB_ERR_UNEXPECTED)
      else if lsn_le end_lsn (gb_reuse_lsn g) then Some (Inl OB_ERR_UNEXPECTED)
      else if lsn_gt end_lsn (lsn_plus (gb_reuse_lsn g) (word_of_int (gb_available g))) then Some (Inl OB_EAGAIN)
      else gb_get_buffer_pos g lsn)"

definition gb_publish :: "LogGroupBuffer \<Rightarrow> LSN \<Rightarrow> LogGroupBuffer" where
  "gb_publish g end_lsn = gb_inc_update_readable g (gb_gen_readable_begin_lsn_for_filling g end_lsn)"

definition gb_fill :: "LogGroupBuffer \<Rightarrow> LSN \<Rightarrow> buffer \<Rightarrow> int \<Rightarrow> (ob_ret \<times> LogGroupBuffer) option" where
  "gb_fill g lsn data data_len =
     (if \<not> gb_inited g then Some (OB_NOT_INIT, g)
      else if \<not> lsn_is_valid lsn \<or> data = None \<or> data_len \<le> 0 then Some (OB_INVALID_ARGUMENT, g)
      else case gb_fill_check g lsn data_len of
        None \<Rightarrow> None
      | Some (Inl ret) \<Rightarrow> Some (ret, g)
      | Some (Inr start_pos) \<Rightarrow>
          map_option (Pair OB_SUCCESS)
            (gb_fill_bytes (gb_publish g (lsn_plus lsn (word_of_int data_len))) start_pos (the data) data_len))"

text \<open>The padding fill zeroes the whole body and then copies \<open>data\<close>, which may be a null pointer only
  for an empty copy.\<close>

definition gb_zero :: "LogGroupBuffer \<Rightarrow> nat \<Rightarrow> int \<Rightarrow> LogGroupBuffer option" where
  "gb_zero g start_pos len = gb_fill_bytes g start_pos (replicate (nat len) 0) len"

definition gb_fill_padding_body ::
  "LogGroupBuffer \<Rightarrow> LSN \<Rightarrow> bytes \<Rightarrow> int \<Rightarrow> int \<Rightarrow> (ob_ret \<times> LogGroupBuffer) option" where
  "gb_fill_padding_body g lsn data data_len log_body_size =
     (if \<not> gb_inited g then Some (OB_NOT_INIT, g)
      else if \<not> lsn_is_valid lsn \<or> log_body_size \<le> 0 then Some (OB_INVALID_ARGUMENT, g)
      else case gb_fill_check g lsn log_body_size of
        None \<Rightarrow> None
      | Some (Inl ret) \<Rightarrow> Some (ret, g)
      | Some (Inr start_pos) \<Rightarrow>
          case gb_zero (gb_publish g (lsn_plus lsn (word_of_int log_body_size))) start_pos log_body_size of
            None \<Rightarrow> None
          | Some g' \<Rightarrow> map_option (Pair OB_SUCCESS) (gb_fill_bytes g' start_pos data data_len))"

text \<open>The result of \<^verbatim>\<open>check_log_buf_wrapped\<close> is the code and \<^verbatim>\<open>is_buf_wrapped\<close>.\<close>

definition gb_check_log_buf_wrapped :: "LogGroupBuffer \<Rightarrow> LSN \<Rightarrow> int \<Rightarrow> (ob_ret \<times> bool) option" where
  "gb_check_log_buf_wrapped g lsn log_len =
     (if \<not> gb_inited g then Some (OB_NOT_INIT, False)
      else if \<not> lsn_is_valid lsn \<or> log_len \<le> 0 then Some (OB_INVALID_ARGUMENT, False)
      else if lsn_lt lsn (gb_start_lsn g) then Some (OB_SUCCESS, False)
      else case gb_get_buffer_pos g lsn of
        None \<Rightarrow> None
      | Some (Inl ret) \<Rightarrow> Some (ret, False)
      | Some (Inr start_pos) \<Rightarrow> Some (OB_SUCCESS, int start_pos + log_len > gb_reserved g))"

definition gb_to_leader :: "LogGroupBuffer \<Rightarrow> ob_ret \<times> LogGroupBuffer" where
  "gb_to_leader g =
     (if \<not> gb_inited g then (OB_NOT_INIT, g)
      else if LEADER_DEFAULT_GROUP_BUFFER_SIZE = gb_available g then (OB_STATE_NOT_MATCH, g)
      else (OB_SUCCESS, g\<lparr>gb_available := LEADER_DEFAULT_GROUP_BUFFER_SIZE\<rparr>))"

definition gb_to_follower :: "LogGroupBuffer \<Rightarrow> ob_ret \<times> LogGroupBuffer" where
  "gb_to_follower g =
     (if \<not> gb_inited g then (OB_NOT_INIT, g)
      else if FOLLOWER_DEFAULT_GROUP_BUFFER_SIZE = gb_available g then (OB_SUCCESS, g)
      else (OB_SUCCESS, g\<lparr>gb_available := FOLLOWER_DEFAULT_GROUP_BUFFER_SIZE\<rparr>))"

definition gb_inc_update_readable_begin_lsn :: "LogGroupBuffer \<Rightarrow> LSN \<Rightarrow> ob_ret \<times> LogGroupBuffer" where
  "gb_inc_update_readable_begin_lsn g new_lsn =
     (if \<not> lsn_is_valid new_lsn then (OB_INVALID_ARGUMENT, g)
      else (OB_SUCCESS, gb_inc_update_readable g new_lsn))"

definition gb_inc_update_reuse_lsn :: "LogGroupBuffer \<Rightarrow> LSN \<Rightarrow> ob_ret \<times> LogGroupBuffer" where
  "gb_inc_update_reuse_lsn g new_reuse_lsn =
     (if \<not> lsn_is_valid new_reuse_lsn then (OB_INVALID_ARGUMENT, g)
      else (OB_SUCCESS,
            if lsn_gt new_reuse_lsn (gb_reuse_lsn g) then g\<lparr>gb_reuse_lsn := new_reuse_lsn\<rparr> else g))"

definition gb_truncate :: "LogGroupBuffer \<Rightarrow> LSN \<Rightarrow> ob_ret \<times> LogGroupBuffer" where
  "gb_truncate g new_lsn =
     (if \<not> lsn_is_valid new_lsn then (OB_INVALID_ARGUMENT, g)
      else if lsn_lt new_lsn (gb_start_lsn g) then (OB_INVALID_ARGUMENT, g)
      else (OB_SUCCESS, (gb_inc_update_readable g new_lsn)\<lparr>gb_reuse_lsn := new_lsn\<rparr>))"

text \<open>\<^verbatim>\<open>read_data\<close> in the three phases other threads can interleave with: the plan loads the LSNs and gives
  the position and the length to copy (length 0 when nothing is flushed behind the position), the
  copy takes the bytes, and the final check compares \<^verbatim>\<open>readable_begin_lsn_\<close> again.\<close>

definition gb_read_plan :: "LogGroupBuffer \<Rightarrow> LSN \<Rightarrow> int \<Rightarrow> (ob_ret + (nat \<times> int)) option" where
  "gb_read_plan g read_begin_lsn in_read_size =
     (case gb_get_buffer_pos g read_begin_lsn of
        None \<Rightarrow> None
      | Some (Inl ret) \<Rightarrow> Some (Inl ret)
      | Some (Inr start_pos) \<Rightarrow>
          if lsn_lt read_begin_lsn (gb_readable_begin_lsn g) then Some (Inl OB_ERR_OUT_OF_LOWER_BOUND)
          else if lsn_gt (gb_reuse_lsn g) read_begin_lsn
          then Some (Inr (start_pos, min (sint (lsn_diff (gb_reuse_lsn g) read_begin_lsn)) in_read_size))
          else Some (Inr (start_pos, 0)))"

definition gb_read_copy :: "LogGroupBuffer \<Rightarrow> nat \<Rightarrow> int \<Rightarrow> bytes option" where
  "gb_read_copy g start_pos real_read_size =
     (case gb_data g of
        None \<Rightarrow> None
      | Some b \<Rightarrow>
          let group_buf_tail_len = gb_reserved g - int start_pos;
              first_part_len = min group_buf_tail_len real_read_size
          in if first_part_len < 0 \<or> length b < start_pos + nat first_part_len
                \<or> length b < nat (real_read_size - first_part_len) then None
             else Some (take (nat first_part_len) (drop start_pos b) @ take (nat (real_read_size - first_part_len)) b))"

text \<open>\<open>buf_ok\<close> says that the output pointer is not null; \<open>out_size\<close> is the value the caller passed in for
  \<^verbatim>\<open>out_read_size\<close>, which stays when there is nothing to read.  The result is the code, the bytes
  written to the output and \<^verbatim>\<open>out_read_size\<close>.\<close>

definition gb_read_data :: "LogGroupBuffer \<Rightarrow> LSN \<Rightarrow> int \<Rightarrow> bool \<Rightarrow> int \<Rightarrow> (ob_ret \<times> bytes \<times> int) option" where
  "gb_read_data g read_begin_lsn in_read_size buf_ok out_size =
     (if \<not> lsn_is_valid read_begin_lsn \<or> in_read_size \<le> 0 \<or> \<not> buf_ok then Some (OB_INVALID_ARGUMENT, [], out_size)
      else case gb_read_plan g read_begin_lsn in_read_size of
        None \<Rightarrow> None
      | Some (Inl ret) \<Rightarrow> Some (ret, [], out_size)
      | Some (Inr (start_pos, n)) \<Rightarrow>
          if n = 0 then Some (OB_SUCCESS, [], out_size)
          else case gb_read_copy g start_pos n of
            None \<Rightarrow> None
          | Some bs \<Rightarrow>
              if lsn_gt (gb_readable_begin_lsn g) read_begin_lsn
              then Some (OB_ERR_OUT_OF_LOWER_BOUND, bs, 0)
              else Some (OB_SUCCESS, bs, n))"

section \<open>Rings\<close>

text \<open>Writing and reading a ring of bytes from a position on, wrapping once at its end.\<close>

definition ring_put :: "bytes \<Rightarrow> nat \<Rightarrow> bytes \<Rightarrow> bytes" where
  "ring_put b s xs = splice_at (splice_at b s (take (length b - s) xs)) 0 (drop (length b - s) xs)"

definition ring_get :: "bytes \<Rightarrow> nat \<Rightarrow> nat \<Rightarrow> bytes" where
  "ring_get b s n = map (\<lambda>i. b ! ((s + i) mod length b)) [0..<n]"

lemma length_ring_get [simp]: "length (ring_get b s n) = n"
  by (simp add: ring_get_def)

lemma length_ring_put [simp]:
  assumes "s < length b" "length xs \<le> length b"
  shows "length (ring_put b s xs) = length b"
  using assms by (simp add: ring_put_def)

lemma ring_mod_cases:
  fixes R :: nat
  assumes "s < R" "i < R"
  shows "(s + i) mod R = (if i < R - s then s + i else i - (R - s))"
proof (cases "i < R - s")
  case False
  then have "s + i = (i - (R - s)) + R" "i - (R - s) < R" using assms by linarith+
  then have "(s + i) mod R = i - (R - s)" by (metis mod_add_self2 mod_less)
  with False show ?thesis by simp
qed (use assms in auto)

lemma nth_ring_put:
  assumes "s < length b" "length xs \<le> length b" "i < length b"
  shows "ring_put b s xs ! ((s + i) mod length b) = (if i < length xs then xs ! i else b ! ((s + i) mod length b))"
  using assms unfolding ring_mod_cases [OF assms(1,3)]
  by (auto simp: ring_put_def nth_splice_at)

lemma ring_get_split:
  assumes "s < length b" "n \<le> length b"
  shows "take (min (length b - s) n) (drop s b) @ take (n - min (length b - s) n) b = ring_get b s n"
proof (rule nth_equalityI)
  show "length (take (min (length b - s) n) (drop s b) @ take (n - min (length b - s) n) b) = length (ring_get b s n)"
    using assms by (auto simp: min_def)
  fix i assume "i < length (take (min (length b - s) n) (drop s b) @ take (n - min (length b - s) n) b)"
  then have i: "i < n" using assms by (auto simp: min_def split: if_splits)
  then show "(take (min (length b - s) n) (drop s b) @ take (n - min (length b - s) n) b) ! i = ring_get b s n ! i"
    using assms ring_mod_cases [OF assms(1), of i] by (auto simp: ring_get_def nth_append min_def)
qed

lemma ring_get_put:
  assumes "s < length b" "length xs \<le> length b"
  shows "ring_get (ring_put b s xs) s (length xs) = xs"
  using assms by (intro nth_equalityI) (auto simp: ring_get_def nth_ring_put)

section \<open>The buffer as a window on the log\<close>

abbreviation lsn_int :: "LSN \<Rightarrow> int" where "lsn_int l \<equiv> uint (lsn_val l)"

definition gb_inv :: "LogGroupBuffer \<Rightarrow> bool" where
  "gb_inv g \<longleftrightarrow> gb_inited g \<and> gb_addr g \<noteq> 0
     \<and> (case gb_data g of None \<Rightarrow> False | Some b \<Rightarrow> int (length b) = gb_reserved g)
     \<and> 0 < gb_available g \<and> gb_available g \<le> gb_reserved g \<and> gb_reserved g < 2 ^ 31
     \<and> lsn_int (gb_start_lsn g) \<le> lsn_int (gb_reuse_lsn g) \<and> lsn_int (gb_start_lsn g) \<le> lsn_int (gb_readable_begin_lsn g)
     \<and> lsn_int (gb_reuse_lsn g) < 2 ^ 62 \<and> lsn_int (gb_readable_begin_lsn g) < 2 ^ 62"

text \<open>The position of an LSN in the buffer, and the byte it stands for.\<close>

definition gb_pos :: "LogGroupBuffer \<Rightarrow> int \<Rightarrow> nat" where
  "gb_pos g p = nat ((p - lsn_int (gb_start_lsn g)) mod gb_reserved g)"

definition gb_view :: "LogGroupBuffer \<Rightarrow> int \<Rightarrow> u8" where
  "gb_view g p = the (gb_data g) ! gb_pos g p"

definition gb_window :: "LogGroupBuffer \<Rightarrow> int \<Rightarrow> nat \<Rightarrow> bytes" where
  "gb_window g p n = map (\<lambda>i. gb_view g (p + int i)) [0..<n]"

lemma gb_invD:
  assumes "gb_inv g"
  obtains b where "gb_data g = Some b" "int (length b) = gb_reserved g" "nat (gb_reserved g) = length b"
    "0 < length b" "gb_inited g" "0 < gb_available g" "gb_available g \<le> gb_reserved g" "gb_reserved g < 2147483648"
    "lsn_int (gb_start_lsn g) \<le> lsn_int (gb_reuse_lsn g)" "lsn_int (gb_start_lsn g) \<le> lsn_int (gb_readable_begin_lsn g)"
    "lsn_int (gb_reuse_lsn g) < 4611686018427387904" "lsn_int (gb_readable_begin_lsn g) < 4611686018427387904"
    "gb_addr g \<noteq> 0"
proof -
  obtain b where b: "gb_data g = Some b" "int (length b) = gb_reserved g"
    using assms by (auto simp: gb_inv_def split: option.splits)
  moreover have "0 < gb_reserved g" using assms by (simp add: gb_inv_def)
  ultimately have "nat (gb_reserved g) = length b" "0 < length b" by linarith+
  with b assms that show thesis by (simp add: gb_inv_def)
qed

lemma gb_pos_less: "gb_inv g \<Longrightarrow> gb_data g = Some b \<Longrightarrow> gb_pos g p < length b"
proof -
  assume g: "gb_inv g" "gb_data g = Some b"
  then have "int (length b) = gb_reserved g" "0 < gb_reserved g" by (auto simp: gb_inv_def)
  then have "(p - lsn_int (gb_start_lsn g)) mod gb_reserved g < int (length b)"
    "0 \<le> (p - lsn_int (gb_start_lsn g)) mod gb_reserved g" by simp_all
  then show "gb_pos g p < length b" unfolding gb_pos_def by linarith
qed

lemma gb_pos_add:
  assumes "gb_inv g" "gb_data g = Some b"
  shows "gb_pos g (p + int i) = (gb_pos g p + i) mod length b"
proof -
  let ?s = "lsn_int (gb_start_lsn g)" and ?R = "gb_reserved g"
  have R: "?R = int (length b)" "0 < ?R" using assms by (auto simp: gb_inv_def)
  have "int (gb_pos g (p + int i)) = (p + int i - ?s) mod ?R"
    using R by (simp add: gb_pos_def)
  also have "\<dots> = ((p - ?s) mod ?R + int i) mod ?R" by (simp add: mod_simps algebra_simps)
  also have "(p - ?s) mod ?R = int (gb_pos g p)" using R by (simp add: gb_pos_def)
  also have "(int (gb_pos g p) + int i) mod ?R = int ((gb_pos g p + i) mod length b)"
    by (simp add: R zmod_int)
  finally show ?thesis by simp
qed

lemma gb_window_ring:
  assumes "gb_inv g" "gb_data g = Some b"
  shows "gb_window g p n = ring_get b (gb_pos g p) n"
  using gb_pos_add [OF assms] assms(2) by (simp add: gb_window_def ring_get_def gb_view_def)

lemma gb_get_buffer_pos_ok:
  assumes "gb_inv g" "lsn_int (gb_start_lsn g) \<le> lsn_int l" "lsn_int l < 9223372036854775808"
  shows "gb_get_buffer_pos g l = Some (Inr (gb_pos g (lsn_int l)))"
proof -
  have v: "lsn_is_valid l"
    using assms(3) by (auto simp: lsn_is_valid_def dest: arg_cong [of _ _ uint])
  have d: "uint (lsn_diff l (gb_start_lsn g)) = lsn_int l - lsn_int (gb_start_lsn g)"
    using assms(2) by (simp add: lsn_diff_def uint_sub_nowrap)
  then have "sint (lsn_diff l (gb_start_lsn g)) = lsn_int l - lsn_int (gb_start_lsn g)"
    using assms(3) uint_ge_0 [of "lsn_val (gb_start_lsn g)"] by (subst sint_u64_small) linarith+
  then show ?thesis
    using assms(1,2) v by (simp add: gb_get_buffer_pos_def gb_inv_def gb_pos_def)
qed

lemma lsn_int_plus:
  assumes "0 \<le> n" "lsn_int l + n < 18446744073709551616"
  shows "lsn_int (lsn_plus l (word_of_int n)) = lsn_int l + n"
proof -
  have "uint (word_of_int n :: u64) = n"
    using assms uint_ge_0 [of "lsn_val l"] by (intro uint_of_int_u64) linarith+
  then show ?thesis using assms(2) by (simp add: lsn_plus_def uint_add_nowrap)
qed

lemma lsn_lt_int: "lsn_lt a b \<longleftrightarrow> lsn_int a < lsn_int b"
  by (simp add: lsn_lt_def word_less_def)

lemma lsn_gt_int: "lsn_gt a b \<longleftrightarrow> lsn_int b < lsn_int a"
  by (simp add: lsn_gt_def lsn_lt_int)

lemma lsn_le_int: "lsn_le a b \<longleftrightarrow> lsn_int a \<le> lsn_int b"
proof -
  have "b = a \<longleftrightarrow> lsn_int b = lsn_int a" by (cases a; cases b) (auto intro: word_uint_eqI)
  then show ?thesis by (auto simp: lsn_le_def lsn_gt_int)
qed

lemma lsn_valid_int: "lsn_int l < 9223372036854775808 \<Longrightarrow> lsn_is_valid l"
  by (auto simp: lsn_is_valid_def dest: arg_cong [of _ _ uint])

lemma gb_fill_bytes_ring:
  assumes "gb_data g = Some b" "int (length b) = gb_reserved g" "s < length b"
    and "0 \<le> n" "n \<le> gb_reserved g" "n \<le> int (length data)"
  shows "gb_fill_bytes g s data n = Some (g\<lparr>gb_data := Some (ring_put b s (take (nat n) data))\<rparr>)"
proof -
  let ?t = "length b - s" and ?n = "nat n"
  have n: "int ?n = n" "?n \<le> length b" "?n \<le> length data" using assms by linarith+
  have first: "min (gb_reserved g - int s) n = int (min ?t ?n)"
    using assms(2,3) n(1) by (simp add: of_nat_diff min_def) linarith
  show ?thesis
  proof (cases "?n \<le> ?t")
    case True
    then have "ring_put b s (take ?n data) = splice_at b s (take ?n data)"
      by (simp add: ring_put_def splice_at_def)
    moreover have "\<not> n > int ?n" "s + ?n \<le> length b" using n True assms(3) by linarith+
    ultimately show ?thesis
      using assms(1) first n(3) True
      by (simp add: gb_fill_bytes_def mem_copy_def min_def)
  next
    case False
    then have m: "min ?t ?n = ?t" "int ?t < n" "s + ?t \<le> length b" "nat (n - int ?t) = ?n - ?t"
      using n assms(3) by linarith+
    have "ring_put b s (take ?n data)
      = splice_at (splice_at b s (take ?t data)) 0 (take (?n - ?t) (drop ?t data))"
      using False by (simp add: ring_put_def min_def drop_take)
    moreover have "?t \<le> length data" "?n - ?t \<le> length b" "?n - ?t \<le> length (drop ?t data)"
      "length (splice_at b s (take ?t data)) = length b"
      using n False assms(3) by simp_all
    ultimately show ?thesis
      using assms(1) m(2-4)
      unfolding gb_fill_bytes_def mem_copy_def Let_def first m(1) nat_int by (simp del: of_nat_diff)
  qed
qed

lemma gb_publish_simps [simp]:
  "gb_data (gb_publish g l) = gb_data g" "gb_reserved (gb_publish g l) = gb_reserved g"
  "gb_start_lsn (gb_publish g l) = gb_start_lsn g" "gb_reuse_lsn (gb_publish g l) = gb_reuse_lsn g"
  "gb_available (gb_publish g l) = gb_available g" "gb_inited (gb_publish g l) = gb_inited g"
  "gb_addr (gb_publish g l) = gb_addr g"
  by (simp_all add: gb_publish_def gb_inc_update_readable_def)

lemma gb_publish_readable:
  assumes "gb_inv g" "lsn_int l < 9223372036854775808"
  shows "lsn_int (gb_readable_begin_lsn (gb_publish g l)) = max (lsn_int (gb_readable_begin_lsn g)) (lsn_int l - gb_reserved g)"
proof -
  have R: "0 < gb_reserved g" "gb_reserved g < 2147483648" using assms(1) by (simp_all add: gb_inv_def)
  then have w: "uint (word_of_int (gb_reserved g) :: u64) = gb_reserved g" by (intro uint_of_int_u64) simp_all
  have "lsn_int (gb_gen_readable_begin_lsn_for_filling g l) = max 0 (lsn_int l - gb_reserved g)"
    using w by (auto simp: gb_gen_readable_begin_lsn_for_filling_def word_le_def lsn_minus_def uint_sub_nowrap)
  then show ?thesis
    using max.assoc [of "lsn_int (gb_readable_begin_lsn g)" 0 "lsn_int l - gb_reserved g"]
      max_absorb1 [OF uint_ge_0, of "lsn_val (gb_readable_begin_lsn g)"]
    by (simp add: gb_publish_def gb_inc_update_readable_def)
qed

text \<open>What a fill does on every branch, for a range that fits into the buffer and into 63 bits.\<close>

definition fill_args :: "LogGroupBuffer \<Rightarrow> LSN \<Rightarrow> bytes \<Rightarrow> int \<Rightarrow> bool" where
  "fill_args g lsn data n \<longleftrightarrow> 0 < n \<and> n \<le> gb_reserved g \<and> n \<le> int (length data) \<and> lsn_int lsn + n < 2 ^ 63"

definition fill_ret :: "LogGroupBuffer \<Rightarrow> LSN \<Rightarrow> int \<Rightarrow> ob_ret" where
  "fill_ret g lsn n =
     (if lsn_int lsn < lsn_int (gb_start_lsn g) \<or> lsn_int lsn + n \<le> lsn_int (gb_reuse_lsn g) then OB_ERR_UNEXPECTED
      else if lsn_int (gb_reuse_lsn g) + gb_available g < lsn_int lsn + n then OB_EAGAIN else OB_SUCCESS)"

lemma gb_fill_check_ok:
  assumes "gb_inv g" "0 < n" "n \<le> gb_reserved g" "lsn_int lsn + n < 9223372036854775808"
  shows "gb_fill_check g lsn n
    = Some (if fill_ret g lsn n = OB_SUCCESS then Inr (gb_pos g (lsn_int lsn)) else Inl (fill_ret g lsn n))"
proof -
  obtain b where b: "0 < gb_available g" "gb_available g \<le> gb_reserved g" "gb_reserved g < 2147483648"
    "lsn_int (gb_reuse_lsn g) < 4611686018427387904" by (rule gb_invD [OF assms(1)])
  have e: "lsn_int (lsn_plus lsn (word_of_int n)) = lsn_int lsn + n"
    using assms(2,4) by (intro lsn_int_plus) simp_all
  have r: "lsn_int (lsn_plus (gb_reuse_lsn g) (word_of_int (gb_available g))) = lsn_int (gb_reuse_lsn g) + gb_available g"
    using b by (intro lsn_int_plus) simp_all
  have "gb_get_buffer_pos g lsn = Some (Inr (gb_pos g (lsn_int lsn)))" if "lsn_int (gb_start_lsn g) \<le> lsn_int lsn"
    using assms that by (intro gb_get_buffer_pos_ok) simp_all
  then show ?thesis
    by (simp add: gb_fill_check_def fill_ret_def lsn_lt_int lsn_gt_int lsn_le_int e r Let_def)
qed

lemma gb_fill_spec:
  assumes "gb_inv g" "fill_args g lsn data n"
  shows "gb_fill g lsn (Some data) n
    = Some (fill_ret g lsn n,
        if fill_ret g lsn n = OB_SUCCESS
        then (gb_publish g (lsn_plus lsn (word_of_int n)))
               \<lparr>gb_data := Some (ring_put (the (gb_data g)) (gb_pos g (lsn_int lsn)) (take (nat n) data))\<rparr>
        else g)"
proof -
  obtain b where b: "gb_data g = Some b" "int (length b) = gb_reserved g" "gb_inited g" by (rule gb_invD [OF assms(1)])
  have a: "0 < n" "n \<le> gb_reserved g" "n \<le> int (length data)" "lsn_int lsn + n < 9223372036854775808"
    using assms(2) by (simp_all add: fill_args_def)
  have v: "lsn_is_valid lsn" using a by (intro lsn_valid_int) simp
  show ?thesis
    using gb_fill_check_ok [OF assms(1) a(1,2,4)] v b a gb_pos_less [OF assms(1) b(1)]
    by (simp add: gb_fill_def gb_fill_bytes_ring)
qed

lemma gb_inv_fill:
  assumes "gb_inv g" "fill_args g lsn data n" "fill_ret g lsn n = OB_SUCCESS"
    and "lsn_int lsn + n - gb_reserved g < 2 ^ 62"
  shows "gb_inv ((gb_publish g (lsn_plus lsn (word_of_int n)))
      \<lparr>gb_data := Some (ring_put (the (gb_data g)) (gb_pos g (lsn_int lsn)) (take (nat n) data))\<rparr>)"
proof -
  have "lsn_int (lsn_plus lsn (word_of_int n)) = lsn_int lsn + n"
    using assms(2) by (intro lsn_int_plus) (simp_all add: fill_args_def)
  then have "lsn_int (gb_readable_begin_lsn (gb_publish g (lsn_plus lsn (word_of_int n))))
    = max (lsn_int (gb_readable_begin_lsn g)) (lsn_int lsn + n - gb_reserved g)"
    using assms(2) gb_publish_readable [OF assms(1), of "lsn_plus lsn (word_of_int n)"] by (simp add: fill_args_def)
  moreover obtain b where "gb_data g = Some b" "int (length b) = gb_reserved g" by (rule gb_invD [OF assms(1)])
  moreover have "length (take (nat n) data) \<le> length b"
    using assms(2) calculation(3) by (simp add: fill_args_def min_def) linarith
  ultimately show ?thesis
    using assms(1,4) gb_pos_less [OF assms(1)] by (auto simp: gb_inv_def max_def)
qed

lemma gb_pos_period: "gb_pos g (p + gb_reserved g) = gb_pos g p"
proof -
  have "(p + gb_reserved g - lsn_int (gb_start_lsn g)) mod gb_reserved g
      = ((p - lsn_int (gb_start_lsn g)) + gb_reserved g) mod gb_reserved g" by (simp add: algebra_simps)
  then show ?thesis by (simp add: gb_pos_def)
qed

lemma gb_view_put:
  assumes "gb_inv g" "gb_data g = Some b" "length xs \<le> length b"
    and g': "gb_data g' = Some (ring_put b (gb_pos g l) xs)" "gb_start_lsn g' = gb_start_lsn g" "gb_reserved g' = gb_reserved g"
    and p: "l + int (length xs) - gb_reserved g \<le> p" "p < l + gb_reserved g"
  shows "gb_view g' p = (if l \<le> p \<and> p < l + int (length xs) then xs ! nat (p - l) else gb_view g p)"
proof -
  have R: "int (length b) = gb_reserved g" using assms(1,2) by (simp add: gb_inv_def)
  have pos: "gb_pos g' p = gb_pos g p" by (simp add: gb_pos_def g'(2,3))
  have s: "gb_pos g l < length b" by (rule gb_pos_less [OF assms(1,2)])
  show ?thesis
  proof (cases "l \<le> p")
    case True
    define i where "i = nat (p - l)"
    have i: "p = l + int i" "i < length b" using True p(2) R by (simp_all add: i_def)
    then show ?thesis
      using nth_ring_put [OF s assms(3) i(2)] gb_pos_add [OF assms(1,2), of l i] pos
      by (simp add: gb_view_def g'(1) assms(2))
  next
    case False
    define i where "i = nat (p + gb_reserved g - l)"
    have i: "p + gb_reserved g = l + int i" "length xs \<le> i" "i < length b"
      using False p(1) R by (simp_all add: i_def)
    have "gb_pos g p = (gb_pos g l + i) mod length b"
      using gb_pos_add [OF assms(1,2), of l i] gb_pos_period [of g p] i(1) by simp
    then show ?thesis
      using nth_ring_put [OF s assms(3) i(3)] i(2) False
      by (simp add: gb_view_def pos g'(1) assms(2))
  qed
qed

lemma gb_read_copy_window:
  assumes "gb_inv g" "0 < n" "n \<le> gb_reserved g"
  shows "gb_read_copy g (gb_pos g l) n = Some (gb_window g l (nat n))"
proof -
  obtain b where b: "gb_data g = Some b" "int (length b) = gb_reserved g" by (rule gb_invD [OF assms(1)])
  let ?s = "gb_pos g l" and ?n = "nat n"
  have s: "?s < length b" by (rule gb_pos_less [OF assms(1) b(1)])
  have first: "min (gb_reserved g - int ?s) n = int (min (length b - ?s) ?n)"
    using b(2) s assms(2) by (simp add: of_nat_diff min_def) linarith
  have n: "?n \<le> length b" using b(2) assms(3) by linarith
  have r: "nat (n - int (min (length b - ?s) ?n)) = ?n - min (length b - ?s) ?n"
    using assms(2) by (simp add: nat_diff_distrib)
  have "\<not> length b < ?s + min (length b - ?s) ?n" "\<not> length b < ?n - min (length b - ?s) ?n"
    using s n by linarith+
  then show ?thesis
    unfolding gb_read_copy_def Let_def first nat_int r
    by (simp add: b(1) ring_get_split [OF s n] gb_window_ring [OF assms(1) b(1)] del: of_nat_min)
qed

lemma gb_read_data_window:
  assumes "gb_inv g" "lsn_int (gb_readable_begin_lsn g) \<le> lsn_int l" "lsn_int l < lsn_int (gb_reuse_lsn g)"
    and "0 < n" "n \<le> gb_reserved g"
  shows "gb_read_data g l n True out
    = (let k = min (lsn_int (gb_reuse_lsn g) - lsn_int l) n in Some (OB_SUCCESS, gb_window g (lsn_int l) (nat k), k))"
proof -
  obtain b where b: "lsn_int (gb_start_lsn g) \<le> lsn_int (gb_readable_begin_lsn g)"
    "lsn_int (gb_reuse_lsn g) < 4611686018427387904" by (rule gb_invD [OF assms(1)])
  have l: "lsn_int l < 9223372036854775808" "lsn_is_valid l"
    using assms(3) b by (simp_all add: lsn_valid_int)
  have d: "uint (lsn_diff (gb_reuse_lsn g) l) = lsn_int (gb_reuse_lsn g) - lsn_int l"
    using assms(3) by (simp add: lsn_diff_def uint_sub_nowrap)
  then have "sint (lsn_diff (gb_reuse_lsn g) l) = lsn_int (gb_reuse_lsn g) - lsn_int l"
    using b(2) uint_ge_0 [of "lsn_val l"] by (subst sint_u64_small) linarith+
  then have plan: "gb_read_plan g l n = Some (Inr (gb_pos g (lsn_int l), min (lsn_int (gb_reuse_lsn g) - lsn_int l) n))"
    using gb_get_buffer_pos_ok [OF assms(1) _ l(1)] assms(2,3) b(1)
    by (simp add: gb_read_plan_def lsn_lt_int lsn_gt_int)
  have k: "0 < min (lsn_int (gb_reuse_lsn g) - lsn_int l) n" "min (lsn_int (gb_reuse_lsn g) - lsn_int l) n \<le> gb_reserved g"
    using assms(3-5) by (simp_all add: min_def)
  show ?thesis
    using gb_read_copy_window [OF assms(1) k, of "lsn_int l"] plan l(2) assms(2,4) k
    by (simp add: gb_read_data_def lsn_gt_int Let_def del: min_less_iff_conj)
qed

section \<open>The contract of a byte window\<close>

text \<open>What the writers of the log rely on: a store of the bytes of a sliding range of positions, in which
  a write is visible at its positions and nowhere else in the range.\<close>

locale byte_window =
  fixes inv :: "'s \<Rightarrow> bool" and extent :: "'s \<Rightarrow> int" and byte :: "'s \<Rightarrow> int \<Rightarrow> u8"
    and put :: "'s \<Rightarrow> int \<Rightarrow> bytes \<Rightarrow> 's"
  assumes inv_put: "inv s \<Longrightarrow> int (length xs) \<le> extent s \<Longrightarrow> inv (put s l xs)"
    and extent_put: "extent (put s l xs) = extent s"
    and byte_put: "inv s \<Longrightarrow> int (length xs) \<le> extent s \<Longrightarrow> l + int (length xs) - extent s \<le> p \<Longrightarrow> p < l + extent s \<Longrightarrow>
      byte (put s l xs) p = (if l \<le> p \<and> p < l + int (length xs) then xs ! nat (p - l) else byte s p)"
begin

definition window :: "'s \<Rightarrow> int \<Rightarrow> nat \<Rightarrow> bytes" where
  "window s l n = map (\<lambda>i. byte s (l + int i)) [0..<n]"

definition in_range :: "'s \<Rightarrow> int \<Rightarrow> int \<times> bytes \<Rightarrow> bool" where
  "in_range s lo w \<longleftrightarrow> lo \<le> fst w \<and> fst w + int (length (snd w)) \<le> lo + extent s"

definition apart :: "int \<times> bytes \<Rightarrow> int \<times> bytes \<Rightarrow> bool" where
  "apart v w \<longleftrightarrow> fst v + int (length (snd v)) \<le> fst w \<or> fst w + int (length (snd w)) \<le> fst v"

lemma window_put_same:
  assumes "inv s" "int (length xs) \<le> extent s"
  shows "window (put s l xs) l (length xs) = xs"
  using assms by (intro nth_equalityI) (auto simp: window_def byte_put)

lemma window_put_apart:
  assumes "inv s" "in_range s lo v" "in_range s lo w" "apart v w"
  shows "window (put s (fst w) (snd w)) (fst v) (length (snd v)) = window s (fst v) (length (snd v))"
  using assms by (auto simp: window_def byte_put in_range_def apart_def)

lemma inv_puts:
  assumes "inv s" "\<forall>w \<in> set ws. in_range s lo w"
  shows "inv (foldl (\<lambda>s w. put s (fst w) (snd w)) s ws) \<and> extent (foldl (\<lambda>s w. put s (fst w) (snd w)) s ws) = extent s"
  using assms
proof (induction ws arbitrary: s)
  case (Cons w ws)
  have "inv (put s (fst w) (snd w))" using Cons.prems by (intro inv_put) (auto simp: in_range_def)
  then show ?case using Cons by (auto simp: in_range_def extent_put)
qed simp

lemma window_puts_apart:
  assumes "inv s" "\<forall>w \<in> set ws. in_range s lo w \<and> apart v w" "in_range s lo v"
  shows "window (foldl (\<lambda>s w. put s (fst w) (snd w)) s ws) (fst v) (length (snd v)) = window s (fst v) (length (snd v))"
  using assms
proof (induction ws arbitrary: s)
  case (Cons w ws)
  have "inv (put s (fst w) (snd w))" using Cons.prems by (intro inv_put) (auto simp: in_range_def)
  then have "window (foldl (\<lambda>s w. put s (fst w) (snd w)) s (w # ws)) (fst v) (length (snd v))
      = window (put s (fst w) (snd w)) (fst v) (length (snd v))"
    using Cons.IH [of "put s (fst w) (snd w)"] Cons.prems by (auto simp: in_range_def extent_put)
  then show ?case using window_put_apart [of s lo v w] Cons.prems by simp
qed simp

text \<open>Disjoint writes are all visible afterwards, in whatever order they were made.\<close>

lemma window_puts:
  assumes "inv s" "\<forall>w \<in> set ws. in_range s lo w" "sorted_wrt apart ws" "v \<in> set ws"
  shows "window (foldl (\<lambda>s w. put s (fst w) (snd w)) s ws) (fst v) (length (snd v)) = snd v"
proof -
  obtain us vs where ws: "ws = us @ v # vs" using assms(4) by (meson split_list)
  let ?s = "foldl (\<lambda>s w. put s (fst w) (snd w)) s us"
  have s: "inv ?s" "extent ?s = extent s" using inv_puts [of s us lo] assms(1,2) by (auto simp: ws)
  have v: "int (length (snd v)) \<le> extent ?s" "in_range ?s lo v" using assms(2) s by (auto simp: ws in_range_def)
  have "inv (put ?s (fst v) (snd v))" by (rule inv_put [OF s(1) v(1)])
  then show ?thesis
    using window_puts_apart [of "put ?s (fst v) (snd v)" vs lo v] window_put_same [OF s(1) v(1), of "fst v"] assms(2,3) s v
    by (auto simp: ws sorted_wrt_append in_range_def extent_put)
qed

end

definition gb_put :: "LogGroupBuffer \<Rightarrow> int \<Rightarrow> bytes \<Rightarrow> LogGroupBuffer" where
  "gb_put g l xs = g\<lparr>gb_data := map_option (\<lambda>b. ring_put b (gb_pos g l) xs) (gb_data g)\<rparr>"

interpretation gbw: byte_window gb_inv gb_reserved gb_view gb_put
proof
  fix g :: LogGroupBuffer and xs :: bytes and l p
  assume g: "gb_inv g" "int (length xs) \<le> gb_reserved g"
  obtain b where b: "gb_data g = Some b" "int (length b) = gb_reserved g" by (rule gb_invD [OF g(1)])
  have len: "length xs \<le> length b" using g(2) b(2) by linarith
  show "gb_inv (gb_put g l xs)"
    using g(1) b len gb_pos_less [OF g(1) b(1)] by (simp add: gb_put_def gb_inv_def)
  assume p: "l + int (length xs) - gb_reserved g \<le> p" "p < l + gb_reserved g"
  show "gb_view (gb_put g l xs) p = (if l \<le> p \<and> p < l + int (length xs) then xs ! nat (p - l) else gb_view g p)"
    using gb_view_put [OF g(1) b(1) len _ _ _ p, of "gb_put g l xs"] by (simp add: gb_put_def b(1))
qed (simp add: gb_put_def)

lemma gb_window_eq: "gb_window g l n = gbw.window g l n"
  by (simp add: gb_window_def gbw.window_def)

section \<open>Sequences of fills\<close>

text \<open>A thread fills disjoint parts of the log one after the other; it stops at the first failure.\<close>

fun gb_fills :: "LogGroupBuffer \<Rightarrow> (LSN \<times> bytes) list \<Rightarrow> (ob_ret \<times> LogGroupBuffer) option" where
  "gb_fills g [] = Some (OB_SUCCESS, g)"
| "gb_fills g ((lsn, d) # ws) =
     (case gb_fill g lsn (Some d) (int (length d)) of
        None \<Rightarrow> None
      | Some (ret, g') \<Rightarrow> if ret \<noteq> OB_SUCCESS then Some (ret, g') else gb_fills g' ws)"

definition same_bytes :: "LogGroupBuffer \<Rightarrow> LogGroupBuffer \<Rightarrow> bool" where
  "same_bytes g h \<longleftrightarrow> gb_data g = gb_data h \<and> gb_start_lsn g = gb_start_lsn h \<and> gb_reserved g = gb_reserved h"

lemma same_bytes_window: "same_bytes g h \<Longrightarrow> gb_window g l n = gb_window h l n"
  by (simp add: same_bytes_def gb_window_def gb_view_def gb_pos_def)

lemma same_bytes_put: "same_bytes g h \<Longrightarrow> same_bytes (gb_put g l xs) (gb_put h l xs)"
  by (simp add: same_bytes_def gb_put_def gb_pos_def)

text \<open>One fill of unflushed bytes that fit in front of the reuse limit.\<close>

definition fits :: "LogGroupBuffer \<Rightarrow> LSN \<times> bytes \<Rightarrow> bool" where
  "fits g w \<longleftrightarrow> snd w \<noteq> [] \<and> lsn_int (gb_reuse_lsn g) \<le> lsn_int (fst w)
     \<and> lsn_int (fst w) + int (length (snd w)) \<le> lsn_int (gb_reuse_lsn g) + gb_available g"

lemma gb_fill_fits:
  assumes "gb_inv g" "fits g (lsn, d)"
  shows "\<exists>g'. gb_fill g lsn (Some d) (int (length d)) = Some (OB_SUCCESS, g') \<and> gb_inv g'
    \<and> same_bytes g' (gb_put g (lsn_int lsn) d)
    \<and> gb_reuse_lsn g' = gb_reuse_lsn g \<and> gb_available g' = gb_available g
    \<and> lsn_int (gb_readable_begin_lsn g')
        = max (lsn_int (gb_readable_begin_lsn g)) (lsn_int lsn + int (length d) - gb_reserved g)"
proof -
  obtain b where b: "gb_data g = Some b" "0 < gb_available g" "gb_available g \<le> gb_reserved g" "gb_reserved g < 2147483648"
    "lsn_int (gb_reuse_lsn g) < 4611686018427387904" "lsn_int (gb_start_lsn g) \<le> lsn_int (gb_reuse_lsn g)"
    by (rule gb_invD [OF assms(1)])
  have f: "0 < length d" "lsn_int (gb_reuse_lsn g) \<le> lsn_int lsn"
    "lsn_int lsn + int (length d) \<le> lsn_int (gb_reuse_lsn g) + gb_available g"
    using assms(2) by (simp_all add: fits_def)
  have a: "fill_args g lsn d (int (length d))" using f b by (simp add: fill_args_def)
  have "\<not> (lsn_int lsn < lsn_int (gb_start_lsn g) \<or> lsn_int lsn + int (length d) \<le> lsn_int (gb_reuse_lsn g))"
    "\<not> lsn_int (gb_reuse_lsn g) + gb_available g < lsn_int lsn + int (length d)"
    using f b(6) by linarith+
  then have r: "fill_ret g lsn (int (length d)) = OB_SUCCESS" by (simp only: fill_ret_def if_False)
  have l: "lsn_int lsn + int (length d) - gb_reserved g < 2 ^ 62" using f b by simp
  let ?e = "lsn_plus lsn (word_of_int (int (length d)))"
  have e: "lsn_int ?e = lsn_int lsn + int (length d)" using f b by (intro lsn_int_plus) simp_all
  then have "lsn_int ?e < 9223372036854775808" using f b by simp
  from gb_publish_readable [OF assms(1) this] e
  have "lsn_int (gb_readable_begin_lsn (gb_publish g ?e))
      = max (lsn_int (gb_readable_begin_lsn g)) (lsn_int lsn + int (length d) - gb_reserved g)" by simp
  then show ?thesis
    using gb_fill_spec [OF assms(1) a] gb_inv_fill [OF assms(1) a r l] r b(1)
    by (simp add: same_bytes_def gb_put_def)
qed

lemma gb_fills_puts:
  assumes "gb_inv g" "\<forall>w \<in> set ws. fits g w" "lsn_int (gb_readable_begin_lsn g) \<le> lsn_int (gb_reuse_lsn g)"
  shows "\<exists>g'. gb_fills g ws = Some (OB_SUCCESS, g') \<and> gb_inv g'
    \<and> same_bytes g' (foldl (\<lambda>s w. gb_put s (fst w) (snd w)) g (map (\<lambda>(l, d). (lsn_int l, d)) ws))
    \<and> gb_reuse_lsn g' = gb_reuse_lsn g \<and> gb_available g' = gb_available g \<and> gb_reserved g' = gb_reserved g
    \<and> lsn_int (gb_readable_begin_lsn g') \<le> lsn_int (gb_reuse_lsn g)"
  using assms
proof (induction ws arbitrary: g)
  case Nil
  then show ?case by (simp add: same_bytes_def)
next
  case (Cons w ws)
  obtain lsn d where w: "w = (lsn, d)" by force
  obtain g1 where g1: "gb_fill g lsn (Some d) (int (length d)) = Some (OB_SUCCESS, g1)" "gb_inv g1"
    "same_bytes g1 (gb_put g (lsn_int lsn) d)" "gb_reuse_lsn g1 = gb_reuse_lsn g" "gb_available g1 = gb_available g"
    "lsn_int (gb_readable_begin_lsn g1) = max (lsn_int (gb_readable_begin_lsn g)) (lsn_int lsn + int (length d) - gb_reserved g)"
    using gb_fill_fits [OF Cons.prems(1), of lsn d] Cons.prems(2) by (auto simp: w)
  have R: "gb_reserved g1 = gb_reserved g" using g1(3) by (simp add: same_bytes_def gb_put_def)
  have "gb_available g \<le> gb_reserved g" using Cons.prems(1) by (simp add: gb_inv_def)
  then have "lsn_int (gb_readable_begin_lsn g1) \<le> lsn_int (gb_reuse_lsn g1)"
    using g1(4,6) Cons.prems(2,3) by (simp add: w fits_def)
  moreover have "\<forall>w \<in> set ws. fits g1 w" using Cons.prems(2) g1(4,5) by (simp add: fits_def)
  ultimately obtain g' where g': "gb_fills g1 ws = Some (OB_SUCCESS, g')" "gb_inv g'"
    "same_bytes g' (foldl (\<lambda>s w. gb_put s (fst w) (snd w)) g1 (map (\<lambda>(l, d). (lsn_int l, d)) ws))"
    "gb_reuse_lsn g' = gb_reuse_lsn g1" "gb_available g' = gb_available g1" "gb_reserved g' = gb_reserved g1"
    "lsn_int (gb_readable_begin_lsn g') \<le> lsn_int (gb_reuse_lsn g1)"
    using Cons.IH [OF g1(2)] by blast
  have "same_bytes (foldl (\<lambda>s w. gb_put s (fst w) (snd w)) x vs) (foldl (\<lambda>s w. gb_put s (fst w) (snd w)) y vs)"
    if "same_bytes x y" for x y vs
    using that by (induction vs arbitrary: x y) (simp_all add: same_bytes_put)
  from this [OF g1(3)] g'(3) have "same_bytes g' (foldl (\<lambda>s w. gb_put s (fst w) (snd w)) g (map (\<lambda>(l, d). (lsn_int l, d)) (w # ws)))"
    by (simp add: w same_bytes_def)
  then show ?case using g1 g' R by (simp add: w)
qed

section \<open>The pieces of a log in the buffer\<close>

lemma push_pieces_single:
  assumes "0 < n" "n \<le> MAX_LOG_BUFFER_SIZE" "a \<noteq> 0"
  shows "lwb_push_back wb a n = (OB_SUCCESS, wb @ [(a, n)])"
  using assms by (simp add: lwb_push_back_def push_pieces.simps [of a n n] push_pieces.simps [of a n 0] Let_def)

text \<open>The write buffer of a log holds its bytes in one piece, or in two pieces when the log wraps.\<close>

lemma gb_get_log_buf_pieces:
  assumes "gb_inv g" "lsn_int (gb_start_lsn g) \<le> lsn_int l" "lsn_int l < 2 ^ 63"
    and "0 < n" "n \<le> gb_reserved g" "n \<le> MAX_LOG_BUFFER_SIZE"
    and m: "mem_range m (gb_addr g) (nat (gb_reserved g)) = the (gb_data g)"
  shows "\<exists>wb. gb_get_log_buf g l n [] = Some (OB_SUCCESS, wb)
    \<and> (let w = gb_window g (lsn_int l) (nat n) in lwb_pieces m wb = [w] \<or> (\<exists>k. lwb_pieces m wb = [take k w, drop k w]))"
proof -
  obtain b where b: "gb_data g = Some b" "int (length b) = gb_reserved g" "nat (gb_reserved g) = length b"
    "gb_inited g" "gb_addr g \<noteq> 0" by (rule gb_invD [OF assms(1)])
  let ?s = "gb_pos g (lsn_int l)" and ?n = "nat n" and ?a = "gb_addr g"
  have s: "?s < length b" by (rule gb_pos_less [OF assms(1) b(1)])
  have n: "?n \<le> length b" "int ?n = n" using b(2) assms(4,5) by linarith+
  have l: "lsn_is_valid l" "gb_get_buffer_pos g l = Some (Inr ?s)" "\<not> lsn_lt l (gb_start_lsn g)"
    using assms(2,3) gb_get_buffer_pos_ok [OF assms(1,2)] by (simp_all add: lsn_valid_int lsn_lt_int)
  have mem: "mem_range m (?a + k) j = take j (drop k b)" if "k + j \<le> length b" for k j
    using mem_range_inner [OF that, of m ?a] m by (simp add: b(1,3))
  have mem0: "mem_range m ?a j = take j b" if "j \<le> length b" for j
    using mem [of 0 j] that by simp
  let ?t = "length b - ?s"
  have w: "gb_window g (lsn_int l) ?n = take (min ?t ?n) (drop ?s b) @ take (?n - min ?t ?n) b"
    using gb_window_ring [OF assms(1) b(1)] ring_get_split [OF s n(1)] by simp
  show ?thesis
  proof (cases "?n \<le> ?t")
    case True
    then have "min (gb_reserved g - int ?s) n = n" using n s b(2) by linarith
    then have "gb_get_log_buf g l n [] = Some (OB_SUCCESS, [(?a + ?s, n)])"
      using l b(4,5) assms(4,6) by (simp add: gb_get_log_buf_def push_pieces_single)
    moreover have "lwb_pieces m [(?a + ?s, n)] = [gb_window g (lsn_int l) ?n]"
      using mem [of ?s ?n] True s w by (simp add: lwb_pieces_def min_def)
    ultimately show ?thesis by auto
  next
    case False
    then have t: "min (gb_reserved g - int ?s) n = int ?t" "int ?t < n" "0 < ?t" "nat (n - int ?t) = ?n - ?t" "min ?t ?n = ?t"
      using n s b(2) by linarith+
    then have "gb_get_log_buf g l n [] = Some (OB_SUCCESS, [(?a + ?s, int ?t), (?a, n - int ?t)])"
      using l b(4,5) assms(4,6) push_pieces_single [of "int ?t" "?a + ?s" "[]"] push_pieces_single [of "n - int ?t" ?a]
      unfolding gb_get_log_buf_def Let_def by (simp del: of_nat_diff)
    moreover have "lwb_pieces m [(?a + ?s, int ?t), (?a, n - int ?t)] = [take ?t (drop ?s b), take (?n - ?t) b]"
      using mem [of ?s ?t] mem0 [of "?n - ?t"] s n t(4) by (simp add: lwb_pieces_def del: of_nat_diff)
    then have "lwb_pieces m [(?a + ?s, int ?t), (?a, n - int ?t)]
        = [take ?t (gb_window g (lsn_int l) ?n), drop ?t (gb_window g (lsn_int l) ?n)]"
      using s w t(5) by simp
    ultimately show ?thesis unfolding Let_def by blast
  qed
qed

section \<open>Properties\<close>

text \<open>C18. Fills of unflushed, pairwise disjoint ranges that fit in front of the reuse limit all succeed, in
  whatever order they are made and wherever they wrap; afterwards every range holds its data, the
  buffer is well-formed, and once the flush position has passed a range, \<^verbatim>\<open>read_data\<close> returns
  exactly its data.\<close>

theorem group_buffer_fills:
  assumes "gb_inv g" "\<forall>w \<in> set ws. fits g w" "lsn_int (gb_readable_begin_lsn g) \<le> lsn_int (gb_reuse_lsn g)"
    and "sorted_wrt (\<lambda>v w. lsn_int (fst v) + int (length (snd v)) \<le> lsn_int (fst w)
          \<or> lsn_int (fst w) + int (length (snd w)) \<le> lsn_int (fst v)) ws"
  shows "\<exists>g'. gb_fills g ws = Some (OB_SUCCESS, g') \<and> gb_inv g'
    \<and> (\<forall>(l, d) \<in> set ws. gb_window g' (lsn_int l) (length d) = d
        \<and> (\<forall>e out. lsn_int l + int (length d) \<le> lsn_int e \<and> lsn_int e < 2 ^ 62 \<longrightarrow>
            gb_read_data (snd (gb_inc_update_reuse_lsn g' e)) l (int (length d)) True out
              = Some (OB_SUCCESS, d, int (length d))))"
proof -
  let ?vs = "map (\<lambda>(l, d). (lsn_int l, d)) ws"
  obtain g' where g': "gb_fills g ws = Some (OB_SUCCESS, g')" "gb_inv g'"
    "same_bytes g' (foldl (\<lambda>s w. gb_put s (fst w) (snd w)) g ?vs)" "gb_reuse_lsn g' = gb_reuse_lsn g"
    "gb_reserved g' = gb_reserved g" "lsn_int (gb_readable_begin_lsn g') \<le> lsn_int (gb_reuse_lsn g)"
    using gb_fills_puts [OF assms(1-3)] by blast
  have avail: "gb_available g \<le> gb_reserved g" using assms(1) by (simp add: gb_inv_def)
  have range: "\<forall>w \<in> set ?vs. gbw.in_range g (lsn_int (gb_reuse_lsn g)) w"
    using assms(2) avail by (force simp: gbw.in_range_def fits_def)
  have "sorted_wrt gbw.apart ?vs"
    using assms(4) by (simp add: sorted_wrt_map gbw.apart_def case_prod_beta)
  then have data: "gb_window g' (lsn_int l) (length d) = d" if "(l, d) \<in> set ws" for l d
    using gbw.window_puts [OF assms(1) range, of "(lsn_int l, d)"] that same_bytes_window [OF g'(3)]
    by (force simp: gb_window_eq)
  have "gb_read_data (snd (gb_inc_update_reuse_lsn g' e)) l (int (length d)) True out = Some (OB_SUCCESS, d, int (length d))"
    if ld: "(l, d) \<in> set ws" and e: "lsn_int l + int (length d) \<le> lsn_int e" "lsn_int e < 4611686018427387904" for l d e out
  proof -
    have f: "d \<noteq> []" "lsn_int (gb_reuse_lsn g) \<le> lsn_int l" "int (length d) \<le> gb_reserved g"
      using assms(2) ld avail by (auto simp: fits_def)
    then have len: "0 < int (length d)" by simp
    have gt: "lsn_int (gb_reuse_lsn g) < lsn_int e" using f(2) len e(1) by linarith
    define h where "h = g'\<lparr>gb_reuse_lsn := e\<rparr>"
    have h: "snd (gb_inc_update_reuse_lsn g' e) = h" "gb_inv h" "gb_reuse_lsn h = e"
      "gb_readable_begin_lsn h = gb_readable_begin_lsn g'" "same_bytes h g'" "gb_reserved h = gb_reserved g"
      using e(2) gt g'(2,4,5) by (auto simp: h_def gb_inc_update_reuse_lsn_def lsn_gt_int lsn_valid_int gb_inv_def same_bytes_def split: option.splits)
    have "min (lsn_int e - lsn_int l) (int (length d)) = int (length d)" using e(1) by simp
    then show ?thesis
      using gb_read_data_window [OF h(2), of l "int (length d)" out] len f e g'(6) data [OF ld] same_bytes_window [OF h(5)]
      by (simp add: h)
  qed
  then show ?thesis using g'(1,2) data by auto
qed

text \<open>C19. The admission test is sufficient: when \<^verbatim>\<open>can_handle_new_log\<close> accepts a range that is not flushed yet,
  against its own reuse position or any other one, a following fill of that range is neither refused
  nor asked to retry.\<close>

theorem can_handle_new_log_admits_fill:
  assumes "gb_inv g" "gb_can_handle_new_log_ref g lsn n ref" "lsn_int (gb_reuse_lsn g) < lsn_int lsn + n"
    and "fill_args g lsn data n"
  shows "\<exists>g'. gb_fill g lsn (Some data) n = Some (OB_SUCCESS, g')"
proof -
  obtain b where b: "0 < gb_available g" "gb_available g \<le> gb_reserved g" "gb_reserved g < 2147483648"
    "lsn_int (gb_reuse_lsn g) < 4611686018427387904" by (rule gb_invD [OF assms(1)])
  let ?r = "lsn_min (gb_reuse_lsn g) ref"
  have r: "lsn_int ?r \<le> lsn_int (gb_reuse_lsn g)" by (simp add: lsn_min_def lsn_lt_int)
  have e: "lsn_int (lsn_plus lsn (word_of_int n)) = lsn_int lsn + n"
    using assms(4) by (intro lsn_int_plus) (simp_all add: fill_args_def)
  have "lsn_int (lsn_plus ?r (word_of_int (gb_available g))) = lsn_int ?r + gb_available g"
    using b r by (intro lsn_int_plus) simp_all
  then have "lsn_int (gb_start_lsn g) \<le> lsn_int lsn" "lsn_int lsn + n \<le> lsn_int (gb_reuse_lsn g) + gb_available g"
    using assms(2) e r by (auto simp: gb_can_handle_new_log_ref_def Let_def lsn_lt_int lsn_gt_int split: if_splits)
  then have "fill_ret g lsn n = OB_SUCCESS" using assms(3) by (simp add: fill_ret_def)
  then show ?thesis using gb_fill_spec [OF assms(1,4)] by simp
qed

subsection \<open>Witnesses\<close>

text \<open>A buffer of eight bytes whose first five positions are flushed.\<close>

definition wit_buffer :: LogGroupBuffer where
  "wit_buffer = \<lparr>gb_start_lsn = LSN 0, gb_reuse_lsn = LSN 5, gb_readable_begin_lsn = LSN 0, gb_reserved = 8,
     gb_available = 8, gb_addr = 100, gb_data = Some (replicate 8 0), gb_inited = True\<rparr>"

lemma wit_buffer_inv: "gb_inv wit_buffer"
  by (simp add: gb_inv_def wit_buffer_def)

theorem group_buffer_fills_witness:
  "\<exists>g'. gb_fills wit_buffer [(LSN 9, [7, 8]), (LSN 5, [1, 2, 3, 4])] = Some (OB_SUCCESS, g')
     \<and> gb_read_data (snd (gb_inc_update_reuse_lsn g' (LSN 11))) (LSN 5) 4 True 0 = Some (OB_SUCCESS, [1, 2, 3, 4], 4)"
proof -
  have "lsn_int (LSN 5) + int (length [1, 2, 3, 4 :: u8]) \<le> lsn_int (LSN 11) \<and> lsn_int (LSN 11) < 2 ^ 62" by simp
  then show ?thesis
    using group_buffer_fills [OF wit_buffer_inv, of "[(LSN 9, [7, 8]), (LSN 5, [1, 2, 3, 4])]"]
    by (fastforce simp: fits_def wit_buffer_def)
qed

theorem can_handle_new_log_admits_fill_witness:
  "gb_can_handle_new_log_ref wit_buffer (LSN 6) 4 (LSN 3) \<and> (\<exists>g'. gb_fill wit_buffer (LSN 6) (Some [1, 2, 3, 4]) 4 = Some (OB_SUCCESS, g'))"
proof -
  have "gb_can_handle_new_log_ref wit_buffer (LSN 6) 4 (LSN 3)" by code_simp
  moreover have "fill_args wit_buffer (LSN 6) [1, 2, 3, 4] 4" "lsn_int (gb_reuse_lsn wit_buffer) < lsn_int (LSN 6) + 4"
    by (simp_all add: fill_args_def wit_buffer_def)
  ultimately show ?thesis
    using can_handle_new_log_admits_fill [OF wit_buffer_inv, of "LSN 6" 4 "LSN 3" "[1, 2, 3, 4]"] by blast
qed

end
