(* ===== verification/SlidingWindow.thy ===== *)
theory SlidingWindow
  imports Lsn
begin

text \<open>
  The fixed-size sliding window of log tasks (\<^verbatim>\<open>fixed_sliding_window.h\<close>): an array of \<^verbatim>\<open>size_\<close> slots, a power
  of two, in which the slot of a log id is its low bits.  \<open>FixedSlidingWindow\<close> is the object in memory;
  the operations that run alone under the write lock are functions on it here.  \<^verbatim>\<open>get\<close>, \<^verbatim>\<open>revert\<close> and
  \<^verbatim>\<open>slide\<close> run concurrently and are modelled by their atomic steps in \<open>SlidingWindowConc\<close>.  The type of a
  slot is a parameter; \<open>rst\<close> is what its \<^verbatim>\<open>reset\<close> leaves.  Log ids and reference counts are \<^verbatim>\<open>int64_t\<close> in the code
  and unbounded here.
\<close>

section \<open>The window\<close>

text \<open>\<^verbatim>\<open>array_\<close> as two functions of the index: the reference count and the content of a slot.\<close>

record 'v FixedSlidingWindow =
  sw_inited :: bool
  begin_sn :: int
  end_sn :: int
  sw_size :: int
  array_ref :: "int \<Rightarrow> int"
  array_val :: "int \<Rightarrow> 'v"

definition calc_idx :: "int \<Rightarrow> int \<Rightarrow> int" where
  "calc_idx sz log_id = log_id AND (sz - 1)"

text \<open>A window before \<^verbatim>\<open>init\<close>, whose array is not allocated.\<close>

definition fsw_new :: "'v \<Rightarrow> 'v FixedSlidingWindow" where
  "fsw_new rst = \<lparr>sw_inited = False, begin_sn = OB_INVALID_LOG_ID, end_sn = OB_INVALID_LOG_ID, sw_size = -1,
     array_ref = (\<lambda>_. 0), array_val = (\<lambda>_. rst)\<rparr>"

text \<open>\<open>have_alloc\<close> says that an allocator is given, \<open>alloc_ok\<close> that it returns memory.\<close>

definition fsw_init ::
  "'v \<Rightarrow> 'v FixedSlidingWindow \<Rightarrow> int \<Rightarrow> int \<Rightarrow> bool \<Rightarrow> bool \<Rightarrow> ob_ret \<times> 'v FixedSlidingWindow" where
  "fsw_init rst w start_id sz have_alloc alloc_ok =
     (if sw_inited w then (OB_INIT_TWICE, w)
      else if 0 > start_id \<or> 1 \<ge> sz \<or> 0 \<noteq> sz AND (sz - 1) \<or> \<not> have_alloc then (OB_INVALID_ARGUMENT, w)
      else if \<not> alloc_ok then (OB_ALLOCATE_MEMORY_FAILED, w)
      else (OB_SUCCESS, \<lparr>sw_inited = True, begin_sn = start_id, end_sn = start_id + sz, sw_size = sz,
                         array_ref = (\<lambda>_. 0), array_val = (\<lambda>_. rst)\<rparr>))"

definition check_id_in_range :: "'v FixedSlidingWindow \<Rightarrow> int \<Rightarrow> ob_ret" where
  "check_id_in_range w log_id =
     (if log_id < begin_sn w then OB_ERR_OUT_OF_LOWER_BOUND
      else if log_id \<ge> end_sn w then OB_ERR_OUT_OF_UPPER_BOUND
      else OB_SUCCESS)"

text \<open>\<^verbatim>\<open>range_truncate_\<close> waits until a slot has no reference.  It runs under the write lock, so only a concurrent
  revert ends the wait.  The function reads the reference counts once: \<open>None\<close> says that the loop is still waiting
  at the counts of \<open>w\<close>.\<close>

function truncate_slots :: "'v \<Rightarrow> 'v FixedSlidingWindow \<Rightarrow> int \<Rightarrow> int \<Rightarrow> 'v FixedSlidingWindow option" where
  "truncate_slots rst w i fin =
     (if i < fin then
        if array_ref w (calc_idx (sw_size w) i) \<noteq> 0 then None
        else truncate_slots rst (w\<lparr>array_val := (array_val w)(calc_idx (sw_size w) i := rst)\<rparr>) (i + 1) fin
      else Some w)"
  by pat_completeness auto
termination by (relation "measure (\<lambda>(_, _, i, fin). nat (fin - i))") auto

declare truncate_slots.simps [simp del]

definition range_truncate ::
  "'v \<Rightarrow> 'v FixedSlidingWindow \<Rightarrow> int \<Rightarrow> int \<Rightarrow> (ob_ret \<times> 'v FixedSlidingWindow) option" where
  "range_truncate rst w begin_tid end_tid =
     (if \<not> sw_inited w then Some (OB_NOT_INIT, w)
      else map_option (Pair OB_SUCCESS) (truncate_slots rst w begin_tid end_tid))"

definition fsw_destroy :: "'v \<Rightarrow> 'v FixedSlidingWindow \<Rightarrow> 'v FixedSlidingWindow option" where
  "fsw_destroy rst w =
     (if \<not> sw_inited w then Some w
      else case range_truncate rst w (begin_sn w) (end_sn w) of
        None \<Rightarrow> None
      | Some (ret, w') \<Rightarrow> if ret \<noteq> OB_SUCCESS then Some w' else Some (fsw_new rst))"

definition fsw_truncate :: "'v \<Rightarrow> 'v FixedSlidingWindow \<Rightarrow> int \<Rightarrow> (ob_ret \<times> 'v FixedSlidingWindow) option" where
  "fsw_truncate rst w t_id =
     (if \<not> sw_inited w then Some (OB_NOT_INIT, w)
      else case check_id_in_range w t_id of
        OB_SUCCESS \<Rightarrow> range_truncate rst w t_id (end_sn w)
      | OB_ERR_OUT_OF_UPPER_BOUND \<Rightarrow> Some (OB_SUCCESS, w)
      | OB_ERR_OUT_OF_LOWER_BOUND \<Rightarrow> Some (OB_ERR_UNEXPECTED, w)
      | ret \<Rightarrow> Some (ret, w))"

definition fsw_truncate_and_reset_begin_sn ::
  "'v \<Rightarrow> 'v FixedSlidingWindow \<Rightarrow> int \<Rightarrow> (ob_ret \<times> 'v FixedSlidingWindow) option" where
  "fsw_truncate_and_reset_begin_sn rst w t_id =
     (if \<not> sw_inited w then Some (OB_SUCCESS, w)
      else if t_id < begin_sn w then Some (OB_INVALID_ARGUMENT, w)
      else if calc_idx (sw_size w) (begin_sn w) \<noteq> calc_idx (sw_size w) (end_sn w)
      then Some (OB_ERR_UNEXPECTED, w)
      else case range_truncate rst w (begin_sn w)
                  (if check_id_in_range w t_id \<noteq> OB_SUCCESS then end_sn w else t_id) of
        None \<Rightarrow> None
      | Some (ret, w') \<Rightarrow>
          if ret \<noteq> OB_SUCCESS then Some (ret, w')
          else Some (OB_SUCCESS, w'\<lparr>begin_sn := t_id, end_sn := t_id + sw_size w'\<rparr>))"

section \<open>Slots of a power of two\<close>

lemma and_pred_pow2:
  assumes "0 < (x::int)" and "x AND (x - 1) = 0"
  shows "\<exists>k. x = 2 ^ k"
  using assms
proof (induction "nat x" arbitrary: x rule: less_induct)
  case less
  show ?case
  proof (cases "even x")
    case True
    then obtain y where y: "x = 2 * y" by blast
    have "(2 * y - 1) div 2 = y - 1" by presburger
    then have "(2 * y) AND (2 * y - 1) = 2 * (y AND (y - 1))"
      by (subst and_int_rec) simp
    with less.prems y have "0 < y" "y AND (y - 1) = 0" by simp_all
    with less.hyps [of y] y obtain k where "y = 2 ^ k" by auto
    with y have "x = 2 ^ Suc k" by simp
    then show ?thesis by blast
  next
    case False
    then obtain y where y: "x = 2 * y + 1" by (elim oddE)
    have "(2 * y + 1) AND (2 * y) = 2 * y"
      by (subst and_int_rec) simp
    with less.prems(2) y have "x = 2 ^ 0" by simp
    then show ?thesis by blast
  qed
qed

definition pow2 :: "int \<Rightarrow> bool" where
  "pow2 sz \<longleftrightarrow> 1 < sz \<and> sz AND (sz - 1) = 0"

lemma calc_idx_mod: "pow2 sz \<Longrightarrow> calc_idx sz log_id = log_id mod sz"
proof -
  assume "pow2 sz"
  then obtain k where "sz = 2 ^ k" using and_pred_pow2 [of sz] by (auto simp: pow2_def)
  then show ?thesis by (simp add: calc_idx_def mask_eq_exp_minus_1 [symmetric] take_bit_eq_mask [symmetric] take_bit_eq_mod)
qed

text \<open>Two ids of a window share a slot only if they are equal.\<close>

lemma calc_idx_eq_iff:
  assumes "pow2 sz"
  shows "calc_idx sz a = calc_idx sz b \<longleftrightarrow> sz dvd (a - b)"
  using assms by (simp add: calc_idx_mod mod_eq_dvd_iff)

lemma calc_idx_inj:
  assumes "pow2 sz" and "calc_idx sz a = calc_idx sz b" and "\<bar>a - b\<bar> < sz"
  shows "a = b"
  using assms dvd_imp_le_int [of "a - b" sz] by (auto simp: calc_idx_eq_iff pow2_def)

lemma calc_idx_inside:
  assumes "pow2 sz" and "e - sz < g" and "g < e"
  shows "calc_idx sz g \<noteq> calc_idx sz e"
  using calc_idx_inj [OF assms(1), of g e] assms(2,3) by auto

lemma calc_idx_wrap:
  assumes "pow2 sz" and "calc_idx sz a = calc_idx sz b" and "a < b" and "b < a + 2 * sz"
  shows "b = a + sz"
proof -
  from assms obtain k where k: "b - a = sz * k"
    by (metis calc_idx_eq_iff dvdE)
  with assms(3) have "0 < sz * k" by linarith
  with assms(1) have "0 < k" by (simp add: pow2_def zero_less_mult_iff)
  moreover have "sz * k < sz * 2" using k assms(4) by linarith
  then have "k < 2" using assms(1) by (simp add: pow2_def)
  ultimately have "k = 1" by linarith
  with k show ?thesis by simp
qed

lemma calc_idx_add [simp]: "pow2 sz \<Longrightarrow> calc_idx sz (a + sz) = calc_idx sz a"
  by (simp add: calc_idx_mod)

lemma calc_idx_sub [simp]: "pow2 sz \<Longrightarrow> calc_idx sz (a - sz) = calc_idx sz a"
  by (simp add: calc_idx_mod)

lemma calc_idx_next: "pow2 sz \<Longrightarrow> calc_idx sz (calc_idx sz a + 1) = calc_idx sz (a + 1)"
  by (simp add: calc_idx_mod mod_simps)

lemma calc_idx_Suc_neq: "pow2 sz \<Longrightarrow> calc_idx sz (a + 1) \<noteq> calc_idx sz a"
  by (simp add: calc_idx_eq_iff pow2_def)

section \<open>Operations under the write lock\<close>

lemma truncate_slots_spec:
  "truncate_slots rst w i fin =
     (if \<exists>g \<in> {i..<fin}. array_ref w (calc_idx (sw_size w) g) \<noteq> 0 then None
      else Some (w\<lparr>array_val := (\<lambda>j. if j \<in> calc_idx (sw_size w) ` {i..<fin} then rst else array_val w j)\<rparr>))"
proof (induction rst w i fin rule: truncate_slots.induct)
  case (1 rst w i fin)
  have R: "{i..<fin} = insert i {i + 1..<fin}" if "i < fin" using that by auto
  show ?case
  proof (cases "i < fin \<and> array_ref w (calc_idx (sw_size w) i) = 0")
    case True
    then have "truncate_slots rst w i fin =
        truncate_slots rst (w\<lparr>array_val := (array_val w)(calc_idx (sw_size w) i := rst)\<rparr>) (i + 1) fin"
      by (subst truncate_slots.simps) simp
    with 1 True R show ?thesis by (auto simp: fun_eq_iff)
  next
    case False
    then show ?thesis using R by (subst truncate_slots.simps) (auto simp: fun_eq_iff)
  qed
qed

text \<open>C24. \<^verbatim>\<open>truncate\<close> on an initialised window whose slots at and behind \<^verbatim>\<open>t_id\<close> are not referenced returns.
  Below the window it returns \<^verbatim>\<open>OB_ERR_UNEXPECTED\<close> and above it \<^verbatim>\<open>OB_SUCCESS\<close>, both without a change.  In the window it
  succeeds, keeps both ends and every reference count, keeps the content of each id before \<^verbatim>\<open>t_id\<close> and resets
  the content of each id from \<^verbatim>\<open>t_id\<close> to the end: the slots of the two groups are different although they are
  addressed modulo the size.\<close>

theorem window_truncate_resets:
  assumes "sw_inited w" and "pow2 (sw_size w)" and "end_sn w \<le> begin_sn w + sw_size w"
    and "\<And>g. t_id \<le> g \<Longrightarrow> g < end_sn w \<Longrightarrow> array_ref w (calc_idx (sw_size w) g) = 0"
  shows "\<exists>ret w'. fsw_truncate rst w t_id = Some (ret, w')
    \<and> ret = (if t_id < begin_sn w then OB_ERR_UNEXPECTED else OB_SUCCESS)
    \<and> (t_id < begin_sn w \<or> end_sn w \<le> t_id \<longrightarrow> w' = w)
    \<and> begin_sn w' = begin_sn w \<and> end_sn w' = end_sn w \<and> array_ref w' = array_ref w
    \<and> (\<forall>g. begin_sn w \<le> t_id \<and> begin_sn w \<le> g \<and> g < end_sn w \<longrightarrow>
          array_val w' (calc_idx (sw_size w) g) = (if g < t_id then array_val w (calc_idx (sw_size w) g) else rst))"
proof -
  let ?n = "sw_size w"
  have k: "calc_idx ?n g \<notin> calc_idx ?n ` {t_id..<end_sn w}" if "begin_sn w \<le> g" "g < t_id" for g
    using calc_idx_inj [OF assms(2), of g] that assms(3) by fastforce
  show ?thesis
  proof (cases "begin_sn w \<le> t_id \<and> t_id < end_sn w")
    case True
    with assms(1,4) k show ?thesis
      by (auto simp: fsw_truncate_def check_id_in_range_def range_truncate_def truncate_slots_spec)
  next
    case False
    with assms(1) show ?thesis by (auto simp: fsw_truncate_def check_id_in_range_def)
  qed
qed

theorem window_truncate_resets_witness:
  "let w = (snd (fsw_init 0 (fsw_new 0) 8 4 True True))\<lparr>array_val := nat, array_ref := (\<lambda>_. 0)(1 := 1)\<rparr>;
       w' = snd (the (fsw_truncate 0 w 10))
   in fsw_truncate 0 w 10 \<noteq> None \<and> map (\<lambda>g. array_val w' (calc_idx 4 g)) [8, 9, 10, 11] = [0, 1, 0, 0 :: nat]"
proof -
  define w where "w = (snd (fsw_init 0 (fsw_new 0) 8 4 True True))\<lparr>array_val := nat, array_ref := (\<lambda>_. 0)(1 := 1)\<rparr>"
  have w: "sw_inited w" "pow2 (sw_size w)" "end_sn w \<le> begin_sn w + sw_size w" "sw_size w = 4" "begin_sn w = 8" "end_sn w = 12"
    "array_val w = nat" "array_ref w = (\<lambda>_. 0)(1 := 1)"
    by (simp_all add: w_def fsw_init_def fsw_new_def pow2_def)
  have r: "array_ref w (calc_idx (sw_size w) g) = 0" if "10 \<le> g" "g < end_sn w" for g
  proof -
    have "g = 10 \<or> g = 11" using that w(6) by auto
    then show ?thesis by (auto simp: w calc_idx_def)
  qed
  obtain w' where w': "fsw_truncate 0 w 10 = Some (OB_SUCCESS, w')"
    "\<And>g. 8 \<le> g \<Longrightarrow> g < 12 \<Longrightarrow> array_val w' (calc_idx 4 g) = (if g < 10 then nat (calc_idx 4 g) else 0)"
    using window_truncate_resets [of w 10 0, OF w(1-3) r] w(4-7) by auto
  then have "map (\<lambda>g. array_val w' (calc_idx 4 g)) [8, 9, 10, 11] = [0, 1, 0, 0]"
    using w'(2) [of 8] w'(2) [of 9] w'(2) [of 10] w'(2) [of 11] by (simp add: calc_idx_def)
  with w'(1) show ?thesis unfolding w_def [symmetric] by simp
qed

text \<open>\<^verbatim>\<open>truncate_and_reset_begin_sn\<close> on a window that spans all its slots, none of them referenced, moves the
  window to \<^verbatim>\<open>t_id\<close>: the slots of ids that stay in the window keep their content, all others are reset.\<close>

theorem window_forward_truncate:
  assumes "sw_inited w" and "pow2 (sw_size w)" and "end_sn w = begin_sn w + sw_size w" and "begin_sn w \<le> t_id"
    and "\<forall>i. array_ref w i = 0"
  shows "\<exists>w'. fsw_truncate_and_reset_begin_sn rst w t_id = Some (OB_SUCCESS, w')
    \<and> begin_sn w' = t_id \<and> end_sn w' = t_id + sw_size w
    \<and> (\<forall>g. t_id \<le> g \<and> g < t_id + sw_size w \<longrightarrow>
          array_val w' (calc_idx (sw_size w) g) = (if g < end_sn w then array_val w (calc_idx (sw_size w) g) else rst))"
proof -
  let ?n = "sw_size w" and ?b = "begin_sn w"
  define fin where "fin = (if check_id_in_range w t_id \<noteq> OB_SUCCESS then end_sn w else t_id)"
  have fin: "fin = min t_id (end_sn w)"
    using assms(4) by (simp add: fin_def check_id_in_range_def)
  have "calc_idx ?n g \<in> calc_idx ?n ` {?b..<fin} \<longleftrightarrow> end_sn w \<le> g" if g: "t_id \<le> g" "g < t_id + ?n" for g
  proof
    assume "calc_idx ?n g \<in> calc_idx ?n ` {?b..<fin}"
    then obtain h where h: "calc_idx ?n g = calc_idx ?n h" "?b \<le> h" "h < fin" by auto
    then show "end_sn w \<le> g"
      using calc_idx_inj [OF assms(2) h(1)] g assms(3) by (fastforce simp: fin)
  next
    assume e: "end_sn w \<le> g"
    define h where "h = (if t_id \<le> end_sn w then g - ?n else ?b + (g - ?b) mod ?n)"
    have n: "0 < ?n" using assms(2) by (simp add: pow2_def)
    have m: "(g - ?b) mod ?n < ?n" "0 \<le> (g - ?b) mod ?n" using n by simp_all
    have "calc_idx ?n g = calc_idx ?n h"
      using assms(2) by (auto simp: h_def calc_idx_mod mod_simps)
    moreover have "?b \<le> h" "h < fin"
      using e g assms(3) m by (simp_all add: h_def fin del: pos_mod_bound split: if_splits)
    ultimately show "calc_idx ?n g \<in> calc_idx ?n ` {?b..<fin}" by auto
  qed
  then show ?thesis
    using assms by (auto simp: fsw_truncate_and_reset_begin_sn_def range_truncate_def truncate_slots_spec fin_def [symmetric])
qed

theorem window_forward_truncate_witness:
  "let w = (snd (fsw_init 0 (fsw_new 0) 8 4 True True))\<lparr>array_val := nat\<rparr>;
       w' = snd (the (fsw_truncate_and_reset_begin_sn 0 w 10))
   in begin_sn w' = 10 \<and> map (\<lambda>g. array_val w' (calc_idx 4 g)) [10, 11, 12, 13] = [2, 3, 0, 0 :: nat]"
proof -
  define w where "w = (snd (fsw_init 0 (fsw_new 0) 8 4 True True))\<lparr>array_val := nat\<rparr>"
  have w: "sw_inited w" "pow2 (sw_size w)" "end_sn w = begin_sn w + sw_size w" "begin_sn w \<le> 10"
    "\<forall>i. array_ref w i = 0" "sw_size w = 4" "end_sn w = 12" "array_val w = nat"
    by (simp_all add: w_def fsw_init_def fsw_new_def pow2_def)
  obtain w' where w': "fsw_truncate_and_reset_begin_sn 0 w 10 = Some (OB_SUCCESS, w')" "begin_sn w' = 10"
    "\<And>g. 10 \<le> g \<Longrightarrow> g < 14 \<Longrightarrow> array_val w' (calc_idx 4 g) = (if g < 12 then nat (calc_idx 4 g) else 0)"
    using window_forward_truncate [OF w(1-5), of 0] w(6-8) by auto
  then have "map (\<lambda>g. array_val w' (calc_idx 4 g)) [10, 11, 12, 13] = [2, 3, 0, 0]"
    using w'(3) [of 10] w'(3) [of 11] w'(3) [of 12] w'(3) [of 13] by (simp add: calc_idx_def)
  with w'(1,2) show ?thesis unfolding w_def [symmetric] by simp
qed

end
