(* ===== verification/SlidingWindowConc.thy ===== *)
theory SlidingWindowConc
  imports SlidingWindow
begin

text \<open>
  Threads that use one \<^verbatim>\<open>FixedSlidingWindow\<close> at once.  A thread is at a program point (\<open>sw_pc\<close>) of
  \<^verbatim>\<open>get\<close>, \<^verbatim>\<open>revert\<close>, \<^verbatim>\<open>slide\<close> or \<^verbatim>\<open>truncate\<close>; \<open>sw_act\<close> executes its next atomic action: one load, store or
  read-modify-write of a shared word, or one lock operation.  The scheduler's choice is the action, the
  environment's choices (the verdict of the sliding callback, the clock) are its argument.

  The array is compared with a map from log ids to contents without bounds (\<open>ideal\<close>).  The invariant says
  that the array is that map on the window and on every slot a client still references, although slots
  are recycled.
\<close>

section \<open>Threads\<close>

type_synonym tid = nat

text \<open>Arguments: the log id of a call; in the loop of \<^verbatim>\<open>revert_\<close> the locals \<^verbatim>\<open>i\<close>, \<^verbatim>\<open>tmp_id\<close>, \<^verbatim>\<open>tmp_end\<close>; in \<^verbatim>\<open>slide\<close> the
  locals \<^verbatim>\<open>curr_begin\<close>, \<^verbatim>\<open>curr_end\<close>, \<^verbatim>\<open>ret\<close>; in \<^verbatim>\<open>truncate\<close> the next and the last id.  \<open>Unlock\<close> releases slot
  locks before the thread goes on.\<close>

datatype sw_pc =
    Ret ob_ret
  | GetB1 int | GetE1 int | GetInc int | GetB2 int | GetE2 int
  | RevCheck int | RevEnter int | RevSub int | RevZero int
  | RevLoop int int int | RevLock int int int | RevIn int int int | RevRef int int int
  | RevReset int int int | RevCas int int int | RevDone ob_ret
  | SlBegin | SlEnd1 int | SlLock int int | SlCheck int int | SlCall int | SlNext int | SlBump int
  | SlEnd2 int ob_ret | SlRef int int ob_ret | SlReset int int ob_ret | SlCas int int ob_ret
  | SlDone ob_ret | SlBreak ob_ret
  | TrCheck int | TrEnd int | TrLoop int int | TrReset int int
  | Unlock "int list" sw_pc

text \<open>What the callback says of a slot, or whether the time of \<^verbatim>\<open>slide\<close> is over.\<close>

datatype verdict = NotYet | CbFail ob_ret | Go

text \<open>\<open>handles\<close> are the slot pointers that clients got and did not revert, \<open>readers\<close> and \<open>writer\<close> hold
  \<^verbatim>\<open>lock_\<close>, \<open>slid\<close> lists the ids that left the window, newest first.\<close>

record 'v sw_sys =
  win :: "'v FixedSlidingWindow"
  slot_lock :: "int \<Rightarrow> tid option"
  readers :: "tid list"
  writer :: "tid option"
  thr :: "tid \<Rightarrow> sw_pc"
  handles :: "nat \<Rightarrow> int option"
  hnext :: nat
  ideal :: "int \<Rightarrow> 'v"
  slid :: "int list"

abbreviation go :: "'v sw_sys \<Rightarrow> tid \<Rightarrow> sw_pc \<Rightarrow> 'v sw_sys" where
  "go s t pc \<equiv> s\<lparr>thr := (thr s)(t := pc)\<rparr>"

abbreviation idx :: "'v sw_sys \<Rightarrow> int \<Rightarrow> int" where
  "idx s \<equiv> calc_idx (sw_size (win s))"

definition leave :: "'v sw_sys \<Rightarrow> tid \<Rightarrow> ob_ret \<Rightarrow> 'v sw_sys" where
  "leave s t ret = (go s t (Ret ret))\<lparr>readers := remove1 t (readers s)\<rparr>"

text \<open>\<^verbatim>\<open>revert_\<close> called by \<^verbatim>\<open>get\<close>, which holds the read lock, makes \<^verbatim>\<open>get\<close> return
  \<^verbatim>\<open>OB_ERR_OUT_OF_LOWER_BOUND\<close>.\<close>

definition rev_return :: "'v sw_sys \<Rightarrow> tid \<Rightarrow> ob_ret \<Rightarrow> 'v sw_sys" where
  "rev_return s t ret =
     leave s t (if ret = OB_SUCCESS \<and> t \<in> set (readers s) then OB_ERR_OUT_OF_LOWER_BOUND else ret)"

definition set_val :: "'v sw_sys \<Rightarrow> int \<Rightarrow> 'v \<Rightarrow> 'v sw_sys" where
  "set_val s i v = s\<lparr>win := (win s)\<lparr>array_val := (array_val (win s))(i := v)\<rparr>\<rparr>"

definition set_ref :: "'v sw_sys \<Rightarrow> int \<Rightarrow> int \<Rightarrow> 'v sw_sys" where
  "set_ref s i c = s\<lparr>win := (win s)\<lparr>array_ref := (array_ref (win s))(i := c)\<rparr>\<rparr>"

definition set_begin :: "'v sw_sys \<Rightarrow> int \<Rightarrow> 'v sw_sys" where
  "set_begin s b = s\<lparr>win := (win s)\<lparr>begin_sn := b\<rparr>\<rparr>"

definition set_end :: "'v sw_sys \<Rightarrow> int \<Rightarrow> 'v sw_sys" where
  "set_end s e = s\<lparr>win := (win s)\<lparr>end_sn := e\<rparr>\<rparr>"

definition lock_slot :: "'v sw_sys \<Rightarrow> tid \<Rightarrow> int \<Rightarrow> sw_pc \<Rightarrow> 'v sw_sys option" where
  "lock_slot s t i pc =
     (if slot_lock s i = None then Some ((go s t pc)\<lparr>slot_lock := (slot_lock s)(i := Some t)\<rparr>) else None)"

section \<open>The operations\<close>

text \<open>\<open>None\<close> means that the thread waits.\<close>

fun get_act :: "'v sw_sys \<Rightarrow> tid \<Rightarrow> sw_pc \<Rightarrow> 'v sw_sys option" where
  "get_act s t (GetB1 g) =
     Some (if g < begin_sn (win s) then leave s t OB_ERR_OUT_OF_LOWER_BOUND else go s t (GetE1 g))"
| "get_act s t (GetE1 g) =
     Some (if g \<ge> end_sn (win s) then leave s t OB_ERR_OUT_OF_UPPER_BOUND else go s t (GetInc g))"
| "get_act s t (GetInc g) = Some (go (set_ref s (idx s g) (array_ref (win s) (idx s g) + 1)) t (GetB2 g))"
| "get_act s t (GetB2 g) = Some (go s t (if g < begin_sn (win s) then RevEnter g else GetE2 g))"
| "get_act s t (GetE2 g) =
     Some (if g \<ge> end_sn (win s) then go s t (RevEnter g)
           else (leave s t OB_SUCCESS)\<lparr>handles := (handles s)(hnext s := Some g), hnext := Suc (hnext s)\<rparr>)"
| "get_act s t pc = None"

fun revert_act :: "'v \<Rightarrow> 'v sw_sys \<Rightarrow> tid \<Rightarrow> sw_pc \<Rightarrow> 'v sw_sys option" where
  "revert_act rst s t (RevCheck r_id) =
     Some (go s t (if r_id < begin_sn (win s) - sw_size (win s) then RevDone OB_ERR_UNEXPECTED else RevEnter r_id))"
| "revert_act rst s t (RevEnter r_id) =
     Some (go s t (if r_id \<ge> end_sn (win s) then RevDone OB_ERR_UNEXPECTED else RevSub r_id))"
| "revert_act rst s t (RevSub r_id) =
     (let i = idx s r_id; curr_ref = array_ref (win s) i - 1 in
      Some (go (set_ref s i curr_ref) t
        (if 0 > curr_ref then RevDone OB_ERR_UNEXPECTED
         else if 0 = curr_ref then RevZero r_id else RevDone OB_SUCCESS)))"
| "revert_act rst s t (RevZero r_id) = Some (go s t (RevLoop (idx s r_id) r_id (end_sn (win s))))"
| "revert_act rst s t (RevLoop i tmp_id tmp_end) =
     Some (go s t (if i = idx s tmp_end \<and> tmp_id < begin_sn (win s)
                   then RevLock i tmp_id tmp_end else RevDone OB_SUCCESS))"
| "revert_act rst s t (RevLock i tmp_id tmp_end) = lock_slot s t i (RevIn i tmp_id tmp_end)"
| "revert_act rst s t (RevIn i tmp_id tmp_end) =
     Some (go s t (if tmp_end = end_sn (win s) then RevRef i tmp_id tmp_end
                   else Unlock [i] (RevDone OB_SUCCESS)))"
| "revert_act rst s t (RevRef i tmp_id tmp_end) =
     Some (go s t (if 0 = array_ref (win s) i then RevReset i tmp_id tmp_end
                   else Unlock [i] (RevDone OB_SUCCESS)))"
| "revert_act rst s t (RevReset i tmp_id tmp_end) = Some (go (set_val s i rst) t (RevCas i tmp_id tmp_end))"
| "revert_act rst s t (RevCas i tmp_id tmp_end) =
     Some (if end_sn (win s) = tmp_end
           then go (set_end s (tmp_end + 1)) t (Unlock [i] (RevLoop (idx s (i + 1)) (tmp_id + 1) (tmp_end + 1)))
           else go s t (Unlock [i] (RevDone OB_ERR_UNEXPECTED)))"
| "revert_act rst s t (RevDone ret) = Some (rev_return s t ret)"
| "revert_act rst s t pc = None"

fun slide_act :: "'v \<Rightarrow> 'v sw_sys \<Rightarrow> tid \<Rightarrow> verdict \<Rightarrow> sw_pc \<Rightarrow> 'v sw_sys option" where
  "slide_act rst s t v SlBegin = Some (go s t (SlEnd1 (begin_sn (win s))))"
| "slide_act rst s t v (SlEnd1 b) = Some (go s t (SlLock b (end_sn (win s))))"
| "slide_act rst s t v (SlLock b e) = lock_slot s t (idx s b) (SlCheck b e)"
| "slide_act rst s t v (SlCheck b e) =
     Some (go s t (if e - b \<le> 0 \<or> b \<noteq> begin_sn (win s) then Unlock [idx s b] (SlDone OB_SUCCESS) else SlCall b))"
| "slide_act rst s t v (SlCall b) =
     (case v of
        NotYet \<Rightarrow> Some (go s t (Unlock [idx s b] (SlBreak OB_SUCCESS)))
      | CbFail ret \<Rightarrow> Some (go s t (Unlock [idx s b] (SlBreak ret)))
      | Go \<Rightarrow> Some (go s t (SlNext b)))"
| "slide_act rst s t v (SlNext b) = lock_slot s t (idx s (b + 1)) (SlBump b)"
| "slide_act rst s t v (SlBump b) =
     Some (if begin_sn (win s) = b
           then (go (set_begin s (b + 1)) t (SlEnd2 b OB_SUCCESS))\<lparr>slid := b # slid s\<rparr>
           else go s t (SlEnd2 b OB_ERR_UNEXPECTED))"
| "slide_act rst s t v (SlEnd2 b ret) = Some (go s t (SlRef b (end_sn (win s)) ret))"
| "slide_act rst s t v (SlRef b e ret) =
     Some (go s t (if array_ref (win s) (idx s b) = 0 \<and> idx s e = idx s b then SlReset b e ret
                   else Unlock [idx s (b + 1), idx s b] (SlDone ret)))"
| "slide_act rst s t v (SlReset b e ret) = Some (go (set_val s (idx s b) rst) t (SlCas b e ret))"
| "slide_act rst s t v (SlCas b e ret) =
     Some (if end_sn (win s) = e
           then go (set_end s (e + 1)) t (Unlock [idx s (b + 1), idx s b] (SlDone ret))
           else go s t (Unlock [idx s (b + 1), idx s b] (SlDone OB_ERR_UNEXPECTED)))"
| "slide_act rst s t v (SlDone ret) =
     Some (if ret \<noteq> OB_SUCCESS then leave s t ret
           else if v = NotYet then leave s t OB_SUCCESS else go s t SlBegin)"
| "slide_act rst s t v (SlBreak ret) = Some (leave s t ret)"
| "slide_act rst s t v pc = None"

fun truncate_act :: "'v \<Rightarrow> 'v sw_sys \<Rightarrow> tid \<Rightarrow> sw_pc \<Rightarrow> 'v sw_sys option" where
  "truncate_act rst s t (TrCheck t_id) =
     Some (if t_id < begin_sn (win s) then (go s t (Ret OB_ERR_UNEXPECTED))\<lparr>writer := None\<rparr>
           else if t_id \<ge> end_sn (win s) then (go s t (Ret OB_SUCCESS))\<lparr>writer := None\<rparr>
           else go s t (TrEnd t_id))"
| "truncate_act rst s t (TrEnd t_id) = Some (go s t (TrLoop t_id (end_sn (win s))))"
| "truncate_act rst s t (TrLoop i fin) =
     (if i < fin then
        if 0 \<noteq> array_ref (win s) (idx s i) then None else Some (go s t (TrReset i fin))
      else Some ((go s t (Ret OB_SUCCESS))\<lparr>writer := None\<rparr>))"
| "truncate_act rst s t (TrReset i fin) =
     Some ((go (set_val s (idx s i) rst) t (TrLoop (i + 1) fin))\<lparr>ideal := (ideal s)(i := rst)\<rparr>)"
| "truncate_act rst s t pc = None"

fun unlock_act :: "'v sw_sys \<Rightarrow> tid \<Rightarrow> sw_pc \<Rightarrow> 'v sw_sys option" where
  "unlock_act s t (Unlock [] pc) = Some (go s t pc)"
| "unlock_act s t (Unlock (i # is) pc) =
     Some ((go s t (Unlock is pc))\<lparr>slot_lock := (slot_lock s)(i := None)\<rparr>)"
| "unlock_act s t pc = None"

text \<open>The next action of a thread, by the operation it is in.\<close>

definition or_else :: "'a option \<Rightarrow> 'a option \<Rightarrow> 'a option" where
  "or_else x y = (case x of None \<Rightarrow> y | Some a \<Rightarrow> Some a)"

definition thread_act :: "'v \<Rightarrow> 'v sw_sys \<Rightarrow> tid \<Rightarrow> verdict \<Rightarrow> 'v sw_sys option" where
  "thread_act rst s t v =
     (let pc = thr s t in
      or_else (get_act s t pc) (or_else (revert_act rst s t pc) (or_else (slide_act rst s t v pc)
        (or_else (truncate_act rst s t pc) (unlock_act s t pc)))))"

text \<open>Actions of the scheduler: a thread calls an operation, a client writes a slot it references, a
  thread goes on.\<close>

datatype 'v sw_action =
    CallGet tid int | CallRevert tid nat | CallSlide tid | CallTruncate tid int
  | WriteSlot nat 'v | Step tid verdict

fun is_ret :: "sw_pc \<Rightarrow> bool" where
  "is_ret (Ret ret) = True"
| "is_ret pc = False"

fun sw_act :: "'v \<Rightarrow> 'v sw_sys \<Rightarrow> 'v sw_action \<Rightarrow> 'v sw_sys option" where
  "sw_act rst s (CallGet t g) =
     (if is_ret (thr s t) \<and> writer s = None then Some ((go s t (GetB1 g))\<lparr>readers := t # readers s\<rparr>) else None)"
| "sw_act rst s (CallRevert t n) =
     (case handles s n of
        Some g \<Rightarrow> if is_ret (thr s t) then Some ((go s t (RevCheck g))\<lparr>handles := (handles s)(n := None)\<rparr>) else None
      | None \<Rightarrow> None)"
| "sw_act rst s (CallSlide t) =
     (if is_ret (thr s t) \<and> writer s = None then Some ((go s t SlBegin)\<lparr>readers := t # readers s\<rparr>) else None)"
| "sw_act rst s (CallTruncate t t_id) =
     (if is_ret (thr s t) \<and> writer s = None \<and> readers s = []
      then Some ((go s t (TrCheck t_id))\<lparr>writer := Some t\<rparr>) else None)"
| "sw_act rst s (WriteSlot n v) =
     (case handles s n of
        Some g \<Rightarrow> Some ((set_val s (idx s g) v)\<lparr>ideal := (ideal s)(g := v)\<rparr>)
      | None \<Rightarrow> None)"
| "sw_act rst s (Step t v) = thread_act rst s t v"

section \<open>Reachable states\<close>

definition sw_start :: "'v \<Rightarrow> 'v FixedSlidingWindow \<Rightarrow> 'v sw_sys" where
  "sw_start rst w = \<lparr>win = w, slot_lock = (\<lambda>_. None), readers = [], writer = None,
     thr = (\<lambda>_. Ret OB_SUCCESS), handles = (\<lambda>_. None), hnext = 0, ideal = (\<lambda>_. rst), slid = []\<rparr>"

text \<open>States reached by actions taken only in states where \<open>P\<close> holds.\<close>

inductive sw_reach :: "('v sw_sys \<Rightarrow> bool) \<Rightarrow> 'v \<Rightarrow> 'v FixedSlidingWindow \<Rightarrow> 'v sw_sys \<Rightarrow> bool"
  for P rst w where
  start: "sw_reach P rst w (sw_start rst w)"
| act: "sw_reach P rst w s \<Longrightarrow> P s \<Longrightarrow> sw_act rst s a = Some s' \<Longrightarrow> sw_reach P rst w s'"

text \<open>No thread that is about to load \<^verbatim>\<open>end_sn_\<close> in \<^verbatim>\<open>revert_\<close> was overtaken by a whole window since its log id
  was in the window.\<close>

definition not_overtaken :: "'v sw_sys \<Rightarrow> bool" where
  "not_overtaken s \<longleftrightarrow> (\<forall>t g. thr s t = RevZero g \<longrightarrow> end_sn (win s) < g + 2 * sw_size (win s))"

end
