(* ===== verification/SlidingWindowInv.thy ===== *)
theory SlidingWindowInv
  imports SlidingWindowConc
begin

text \<open>
  The invariant of the concurrent sliding window and the lemmas that carry it over the kinds of atomic
  action: moving a thread, taking and releasing a slot lock, changing a reference count, resetting a
  slot, advancing \<^verbatim>\<open>begin_sn_\<close> or \<^verbatim>\<open>end_sn_\<close>, writing a slot, passing a reference between a thread and its client.
\<close>

section \<open>The invariant\<close>

text \<open>The log id whose reference a thread holds between its increment and its decrement, and the
  references of all threads and clients.\<close>

fun inflight :: "sw_pc \<Rightarrow> int option" where
  "inflight (GetB2 g) = Some g"
| "inflight (GetE2 g) = Some g"
| "inflight (RevCheck g) = Some g"
| "inflight (RevEnter g) = Some g"
| "inflight (RevSub g) = Some g"
| "inflight pc = None"

definition toks :: "'v sw_sys \<Rightarrow> tid + nat \<Rightarrow> int option" where
  "toks s x = (case x of Inl t \<Rightarrow> inflight (thr s t) | Inr n \<Rightarrow> handles s n)"

definition users :: "'v sw_sys \<Rightarrow> int \<Rightarrow> (tid + nat) set" where
  "users s i = {x. \<exists>g. toks s x = Some g \<and> idx s g = i}"

text \<open>References that were validated against the window.\<close>

fun pc_prot :: "sw_pc \<Rightarrow> int option" where
  "pc_prot (GetE2 g) = Some g"
| "pc_prot (RevCheck g) = Some g"
| "pc_prot pc = None"

definition prot :: "'v sw_sys \<Rightarrow> int \<Rightarrow> bool" where
  "prot s g \<longleftrightarrow> (\<exists>n. handles s n = Some g) \<or> (\<exists>t. pc_prot (thr s t) = Some g)"

text \<open>The slot locks a thread holds.\<close>

fun holds :: "int \<Rightarrow> sw_pc \<Rightarrow> int set" where
  "holds sz (RevIn i a e) = {i}"
| "holds sz (RevRef i a e) = {i}"
| "holds sz (RevReset i a e) = {i}"
| "holds sz (RevCas i a e) = {i}"
| "holds sz (SlCheck b e) = {calc_idx sz b}"
| "holds sz (SlCall b) = {calc_idx sz b}"
| "holds sz (SlNext b) = {calc_idx sz b}"
| "holds sz (SlBump b) = {calc_idx sz b, calc_idx sz (b + 1)}"
| "holds sz (SlEnd2 b ret) = {calc_idx sz b, calc_idx sz (b + 1)}"
| "holds sz (SlRef b e ret) = {calc_idx sz b, calc_idx sz (b + 1)}"
| "holds sz (SlReset b e ret) = {calc_idx sz b, calc_idx sz (b + 1)}"
| "holds sz (SlCas b e ret) = {calc_idx sz b, calc_idx sz (b + 1)}"
| "holds sz (Unlock is pc) = set is"
| "holds sz pc = {}"

text \<open>Threads that found a slot free and have not yet advanced \<^verbatim>\<open>end_sn_\<close>.\<close>

fun reclaiming :: "sw_pc \<Rightarrow> bool" where
  "reclaiming (RevReset i a e) = True"
| "reclaiming (RevCas i a e) = True"
| "reclaiming (SlReset b e ret) = True"
| "reclaiming (SlCas b e ret) = True"
| "reclaiming pc = False"

fun reading :: "sw_pc \<Rightarrow> bool" where
  "reading (GetB1 g) = True"
| "reading (GetE1 g) = True"
| "reading (GetInc g) = True"
| "reading (GetB2 g) = True"
| "reading (GetE2 g) = True"
| "reading SlBegin = True"
| "reading (SlEnd1 b) = True"
| "reading (SlLock b e) = True"
| "reading (SlCheck b e) = True"
| "reading (SlCall b) = True"
| "reading (SlNext b) = True"
| "reading (SlBump b) = True"
| "reading (SlEnd2 b ret) = True"
| "reading (SlRef b e ret) = True"
| "reading (SlReset b e ret) = True"
| "reading (SlCas b e ret) = True"
| "reading (SlDone ret) = True"
| "reading (SlBreak ret) = True"
| "reading (Unlock is pc) = reading pc"
| "reading pc = False"

fun truncating :: "sw_pc \<Rightarrow> bool" where
  "truncating (TrCheck i) = True"
| "truncating (TrEnd i) = True"
| "truncating (TrLoop i fin) = True"
| "truncating (TrReset i fin) = True"
| "truncating pc = False"

text \<open>What a thread knows at each point about the window.\<close>

fun pc_ok :: "'v \<Rightarrow> 'v FixedSlidingWindow \<Rightarrow> sw_pc \<Rightarrow> bool" where
  "pc_ok rst w (GetInc g) \<longleftrightarrow> g < end_sn w"
| "pc_ok rst w (GetB2 g) \<longleftrightarrow> g < end_sn w"
| "pc_ok rst w (GetE2 g) \<longleftrightarrow> g < end_sn w"
| "pc_ok rst w (RevCheck g) \<longleftrightarrow> g < end_sn w"
| "pc_ok rst w (RevEnter g) \<longleftrightarrow> g < end_sn w"
| "pc_ok rst w (RevSub g) \<longleftrightarrow> g < end_sn w"
| "pc_ok rst w (RevZero g) \<longleftrightarrow> g < end_sn w"
| "pc_ok rst w (RevLoop i a e) \<longleftrightarrow> e \<le> end_sn w \<and> (i = calc_idx (sw_size w) e \<longrightarrow> e = a + sw_size w)"
| "pc_ok rst w (RevLock i a e) \<longleftrightarrow>
     e \<le> end_sn w \<and> i = calc_idx (sw_size w) e \<and> e = a + sw_size w \<and> a < begin_sn w"
| "pc_ok rst w (RevIn i a e) \<longleftrightarrow>
     e \<le> end_sn w \<and> i = calc_idx (sw_size w) e \<and> e = a + sw_size w \<and> a < begin_sn w"
| "pc_ok rst w (RevRef i a e) \<longleftrightarrow>
     e = end_sn w \<and> i = calc_idx (sw_size w) e \<and> e = a + sw_size w \<and> a < begin_sn w"
| "pc_ok rst w (RevReset i a e) \<longleftrightarrow>
     e = end_sn w \<and> i = calc_idx (sw_size w) e \<and> e = a + sw_size w \<and> a < begin_sn w"
| "pc_ok rst w (RevCas i a e) \<longleftrightarrow>
     e = end_sn w \<and> i = calc_idx (sw_size w) e \<and> e = a + sw_size w \<and> a < begin_sn w \<and> array_val w i = rst"
| "pc_ok rst w (RevDone ret) \<longleftrightarrow> ret = OB_SUCCESS"
| "pc_ok rst w (SlEnd1 b) \<longleftrightarrow> b \<le> begin_sn w"
| "pc_ok rst w (SlLock b e) \<longleftrightarrow> b \<le> begin_sn w \<and> e \<le> end_sn w"
| "pc_ok rst w (SlCheck b e) \<longleftrightarrow> b \<le> begin_sn w \<and> e \<le> end_sn w"
| "pc_ok rst w (SlCall b) \<longleftrightarrow> b = begin_sn w \<and> b < end_sn w"
| "pc_ok rst w (SlNext b) \<longleftrightarrow> b = begin_sn w \<and> b < end_sn w"
| "pc_ok rst w (SlBump b) \<longleftrightarrow> b = begin_sn w \<and> b < end_sn w"
| "pc_ok rst w (SlEnd2 b ret) \<longleftrightarrow> ret = OB_SUCCESS \<and> begin_sn w = b + 1"
| "pc_ok rst w (SlRef b e ret) \<longleftrightarrow> ret = OB_SUCCESS \<and> begin_sn w = b + 1 \<and> b < e \<and> e \<le> end_sn w
     \<and> (e = b + sw_size w \<longrightarrow> e = end_sn w)"
| "pc_ok rst w (SlReset b e ret) \<longleftrightarrow> ret = OB_SUCCESS \<and> begin_sn w = b + 1 \<and> e = b + sw_size w \<and> e = end_sn w"
| "pc_ok rst w (SlCas b e ret) \<longleftrightarrow> ret = OB_SUCCESS \<and> begin_sn w = b + 1 \<and> e = b + sw_size w \<and> e = end_sn w
     \<and> array_val w (calc_idx (sw_size w) b) = rst"
| "pc_ok rst w (SlDone ret) \<longleftrightarrow> ret = OB_SUCCESS"
| "pc_ok rst w (TrEnd i) \<longleftrightarrow> begin_sn w \<le> i"
| "pc_ok rst w (TrLoop i fin) \<longleftrightarrow> begin_sn w \<le> i \<and> fin \<le> end_sn w"
| "pc_ok rst w (TrReset i fin) \<longleftrightarrow> begin_sn w \<le> i \<and> i < fin \<and> fin \<le> end_sn w"
| "pc_ok rst w (Unlock is pc) \<longleftrightarrow> distinct is \<and> pc_ok rst w pc
     \<and> (case pc of RevLoop i a e \<Rightarrow> True | RevDone ret \<Rightarrow> True | SlDone ret \<Rightarrow> True | SlBreak ret \<Rightarrow> True | _ \<Rightarrow> False)"
| "pc_ok rst w pc \<longleftrightarrow> True"

text \<open>Threads that will look at the slot behind the window before they return.\<close>

fun resp :: "'v FixedSlidingWindow \<Rightarrow> sw_pc \<Rightarrow> bool" where
  "resp w (RevZero g) \<longleftrightarrow> calc_idx (sw_size w) g = calc_idx (sw_size w) (end_sn w)"
| "resp w (RevLoop i a e) \<longleftrightarrow> i = calc_idx (sw_size w) e \<and> e = end_sn w"
| "resp w (RevLock i a e) \<longleftrightarrow> e = end_sn w"
| "resp w (RevIn i a e) \<longleftrightarrow> e = end_sn w"
| "resp w (RevRef i a e) \<longleftrightarrow> True"
| "resp w (RevReset i a e) \<longleftrightarrow> True"
| "resp w (RevCas i a e) \<longleftrightarrow> True"
| "resp w (SlEnd2 b ret) \<longleftrightarrow> end_sn w = b + sw_size w"
| "resp w (SlRef b e ret) \<longleftrightarrow> e = end_sn w \<and> e = b + sw_size w"
| "resp w (SlReset b e ret) \<longleftrightarrow> True"
| "resp w (SlCas b e ret) \<longleftrightarrow> True"
| "resp w (Unlock is pc) \<longleftrightarrow> resp w pc"
| "resp w pc \<longleftrightarrow> False"

definition reclaim :: "'v sw_sys \<Rightarrow> bool" where
  "reclaim s \<longleftrightarrow> (\<exists>t. reclaiming (thr s t))"

definition inv_rw :: "'v sw_sys \<Rightarrow> bool" where
  "inv_rw s \<longleftrightarrow> distinct (readers s) \<and> (writer s \<noteq> None \<longrightarrow> readers s = [])
     \<and> (\<forall>t. (reading (thr s t) \<longrightarrow> t \<in> set (readers s)) \<and> (is_ret (thr s t) \<longrightarrow> t \<notin> set (readers s))
            \<and> (truncating (thr s t) \<longleftrightarrow> writer s = Some t))"

definition inv_win :: "'v FixedSlidingWindow \<Rightarrow> 'v FixedSlidingWindow \<Rightarrow> int list \<Rightarrow> bool" where
  "inv_win w0 w ids \<longleftrightarrow> pow2 (sw_size w) \<and> begin_sn w \<le> end_sn w \<and> end_sn w \<le> begin_sn w + sw_size w
     \<and> sw_size w0 = sw_size w \<and> begin_sn w0 \<le> begin_sn w \<and> ids = rev [begin_sn w0..begin_sn w - 1]"

definition inv_locks :: "'v sw_sys \<Rightarrow> bool" where
  "inv_locks s \<longleftrightarrow> (\<forall>t i. slot_lock s i = Some t \<longleftrightarrow> i \<in> holds (sw_size (win s)) (thr s t))"

definition inv_refs :: "'v sw_sys \<Rightarrow> bool" where
  "inv_refs s \<longleftrightarrow> finite (dom (toks s)) \<and> (\<forall>n \<ge> hnext s. handles s n = None)
     \<and> (\<forall>i. array_ref (win s) i = int (card (users s i)))
     \<and> (\<forall>t i fin. thr s t = TrReset i fin \<longrightarrow> users s (idx s i) = {})"

definition inv_prot :: "'v sw_sys \<Rightarrow> bool" where
  "inv_prot s \<longleftrightarrow> (\<forall>g. prot s g \<longrightarrow>
     end_sn (win s) - sw_size (win s) \<le> g \<and> g < end_sn (win s)
     \<and> (reclaim s \<longrightarrow> g \<noteq> end_sn (win s) - sw_size (win s)))"

definition inv_vals :: "'v \<Rightarrow> 'v sw_sys \<Rightarrow> bool" where
  "inv_vals rst s \<longleftrightarrow> (\<forall>g. end_sn (win s) \<le> g \<longrightarrow> ideal s g = rst)
     \<and> (\<forall>g. end_sn (win s) - sw_size (win s) \<le> g \<and> g < end_sn (win s)
          \<and> \<not> (reclaim s \<and> g = end_sn (win s) - sw_size (win s)) \<longrightarrow> array_val (win s) (idx s g) = ideal s g)"

definition inv_pcs :: "'v \<Rightarrow> 'v sw_sys \<Rightarrow> bool" where
  "inv_pcs rst s \<longleftrightarrow> (\<forall>t. pc_ok rst (win s) (thr s t))"

definition inv_resp :: "'v sw_sys \<Rightarrow> bool" where
  "inv_resp s \<longleftrightarrow> end_sn (win s) = begin_sn (win s) + sw_size (win s)
     \<or> array_ref (win s) (idx s (end_sn (win s))) \<noteq> 0 \<or> (\<exists>t. resp (win s) (thr s t))"

definition sw_inv :: "'v \<Rightarrow> 'v FixedSlidingWindow \<Rightarrow> 'v sw_sys \<Rightarrow> bool" where
  "sw_inv rst w0 s \<longleftrightarrow> inv_win w0 (win s) (slid s) \<and> inv_rw s \<and> inv_locks s \<and> inv_refs s
     \<and> inv_prot s \<and> inv_vals rst s \<and> inv_pcs rst s \<and> inv_resp s"

lemma sw_invD:
  assumes "sw_inv rst w0 s"
  shows "inv_win w0 (win s) (slid s)" "inv_rw s" "inv_locks s" "inv_refs s" "inv_prot s" "inv_vals rst s"
    "inv_pcs rst s" "inv_resp s" "pow2 (sw_size (win s))" "begin_sn (win s) \<le> end_sn (win s)"
    "end_sn (win s) \<le> begin_sn (win s) + sw_size (win s)"
  using assms unfolding sw_inv_def inv_win_def by blast+

lemma pcD: "sw_inv rst w0 s \<Longrightarrow> pc_ok rst (win s) (thr s t)"
  by (simp add: sw_inv_def inv_pcs_def)

lemma lock_owner:
  assumes "sw_inv rst w0 s" "i \<in> holds (sw_size (win s)) (thr s t)" "i \<in> holds (sw_size (win s)) (thr s u)"
  shows "t = u"
  using sw_invD(3) [OF assms(1)] assms(2,3) unfolding inv_locks_def by (metis option.inject)

text \<open>Reclaiming threads hold the lock of the slot behind the window.\<close>

lemma reclaiming_holds:
  assumes "pc_ok rst w pc" "reclaiming pc" "pow2 (sw_size w)"
  shows "calc_idx (sw_size w) (end_sn w) \<in> holds (sw_size w) pc" "end_sn w - sw_size w < begin_sn w"
  using assms by (cases pc; simp)+

lemma reclaim_behind:
  assumes "sw_inv rst w0 s" "reclaim s"
  shows "end_sn (win s) - sw_size (win s) < begin_sn (win s)"
  using assms reclaiming_holds(2) pcD sw_invD(9) unfolding reclaim_def by metis

lemma ref_zero_users:
  assumes "sw_inv rst w0 s"
  shows "array_ref (win s) i = 0 \<longleftrightarrow> users s i = {}"
proof -
  have "users s i \<subseteq> dom (toks s)" by (auto simp: users_def)
  with sw_invD(4) [OF assms] have "finite (users s i)" by (auto simp: inv_refs_def intro: finite_subset)
  with sw_invD(4) [OF assms] show ?thesis by (simp add: inv_refs_def)
qed

lemma prot_users:
  assumes "prot s g"
  shows "users s (idx s g) \<noteq> {}"
proof -
  have "inflight pc = Some g" if "pc_prot pc = Some g" for pc using that by (cases pc) auto
  with assms have "\<exists>x. toks s x = Some g"
    by (auto simp: prot_def toks_def split: sum.splits)
  then show ?thesis by (auto simp: users_def)
qed

section \<open>Steps that only move a thread\<close>

lemma toks_upd:
  assumes "thr s' = (thr s)(t := p)" "handles s' = handles s"
  shows "toks s' = (toks s)(Inl t := inflight p)"
  using assms by (auto simp: toks_def fun_eq_iff split: sum.splits)

lemma prot_upd:
  assumes "thr s' = (thr s)(t := p)" "handles s' = handles s" "prot s' g"
  shows "prot s g \<or> pc_prot p = Some g"
  using assms by (auto simp: prot_def split: if_splits)

lemma ex_thr_upd:
  assumes "thr s' = (thr s)(t := p)" "\<And>u. Q (thr s u) \<Longrightarrow> u \<noteq> t \<or> Q p"
  shows "(\<exists>u. Q (thr s u)) \<longrightarrow> (\<exists>u. Q (thr s' u))"
  using assms by (metis fun_upd_other fun_upd_same)

lemma inv_move:
  assumes I: "sw_inv rst w0 s"
    and thr: "thr s' = (thr s)(t := p)"
    and eqs: "win s' = win s" "handles s' = handles s" "hnext s' = hnext s"
      "ideal s' = ideal s" "slid s' = slid s"
    and lk: "inv_locks s'"
    and fl: "inflight p = inflight (thr s t)"
    and ok: "pc_ok rst (win s) p"
    and pr: "\<And>g. pc_prot p = Some g \<Longrightarrow> prot s g \<or> begin_sn (win s) \<le> g \<and> g < end_sn (win s)"
    and rc: "reclaiming (thr s t) \<Longrightarrow> reclaiming p"
      "reclaiming p \<Longrightarrow> \<not> reclaiming (thr s t) \<Longrightarrow> users s (idx s (end_sn (win s))) = {}"
    and rw: "inv_rw s'"
    and tr: "\<And>i fin. p = TrReset i fin \<Longrightarrow> users s (idx s i) = {}"
    and rs: "resp (win s) (thr s t) \<Longrightarrow> resp (win s) p
      \<or> end_sn (win s) = begin_sn (win s) + sw_size (win s)
      \<or> array_ref (win s) (idx s (end_sn (win s))) \<noteq> 0"
  shows "sw_inv rst w0 s'"
proof -
  note I' = sw_invD [OF I]
  have tk: "toks s' = toks s"
    using toks_upd [OF thr eqs(2)] fl by (auto simp: toks_def fun_eq_iff)
  then have us: "users s' = users s" by (simp add: users_def fun_eq_iff eqs(1))
  have "inv_refs s'"
    using I'(4) tr by (auto simp: inv_refs_def eqs tk us thr)
  moreover have rcs: "reclaim s \<Longrightarrow> reclaim s'"
    using ex_thr_upd [OF thr, of reclaiming] rc(1) unfolding reclaim_def by blast
  have rcn: "reclaim s' \<Longrightarrow> \<not> reclaim s \<Longrightarrow> users s (idx s (end_sn (win s))) = {}"
    using rc(2) by (auto simp: reclaim_def thr split: if_splits)
  have "inv_prot s'"
    unfolding inv_prot_def eqs
  proof (intro allI impI)
    fix g assume g: "prot s' g"
    have B: "end_sn (win s) - sw_size (win s) < begin_sn (win s)" if "reclaim s'"
    proof -
      from that obtain u where "reclaiming (thr s' u)" by (auto simp: reclaim_def)
      moreover have "pc_ok rst (win s) (thr s' u)" using pcD [OF I, of u] ok by (simp add: thr)
      ultimately show ?thesis using reclaiming_holds(2) [of rst "win s" "thr s' u"] I'(9) by simp
    qed
    have C: "g \<noteq> end_sn (win s) - sw_size (win s)" if "reclaim s'" "prot s g"
      using that rcn prot_users [of s g] I'(5,9) by (auto simp: inv_prot_def)
    from prot_upd [OF thr eqs(2) g] pr
    consider "prot s g" | "begin_sn (win s) \<le> g" "g < end_sn (win s)" by blast
    then show "end_sn (win s) - sw_size (win s) \<le> g \<and> g < end_sn (win s)
      \<and> (reclaim s' \<longrightarrow> g \<noteq> end_sn (win s) - sw_size (win s))"
    proof cases
      case 1
      then show ?thesis using I'(5) C by (auto simp: inv_prot_def)
    next
      case 2
      then show ?thesis using B I'(11) by auto
    qed
  qed
  moreover have "inv_vals rst s'"
    using I'(6) rcs by (auto simp: inv_vals_def eqs)
  moreover have "inv_pcs rst s'"
    using I'(7) ok by (auto simp: inv_pcs_def eqs thr)
  moreover have "inv_resp s'"
    using I'(8) rs ex_thr_upd [OF thr, of "resp (win s)"] unfolding inv_resp_def eqs by blast
  ultimately show ?thesis using I'(1) rw lk by (simp add: sw_inv_def eqs)
qed

lemma inv_rw_go:
  assumes "inv_rw s" "thr s' = (thr s)(t := p)" "readers s' = readers s" "writer s' = writer s"
    "reading p \<Longrightarrow> t \<in> set (readers s)" "\<not> is_ret p" "truncating p = truncating (thr s t)"
  shows "inv_rw s'"
  using assms by (auto simp: inv_rw_def)

lemma inv_locks_eq:
  assumes "inv_locks s" "thr s' = (thr s)(t := p)" "slot_lock s' = slot_lock s" "sw_size (win s') = sw_size (win s)"
    "holds (sw_size (win s)) p = holds (sw_size (win s)) (thr s t)"
  shows "inv_locks s'"
  using assms by (auto simp: inv_locks_def)

lemma inv_rw_leave:
  assumes "inv_rw s" "\<not> truncating (thr s t)"
  shows "inv_rw (leave s t ret)"
  using assms by (auto simp: inv_rw_def leave_def split: if_splits)

text \<open>Moving on without a change of the window.\<close>

lemma inv_go:
  assumes I: "sw_inv rst w0 s"
    and old: "thr s t = q"
    and "holds (sw_size (win s)) p = holds (sw_size (win s)) q" "inflight p = inflight q" "pc_ok rst (win s) p"
      "\<And>g. pc_prot p = Some g \<Longrightarrow> prot s g \<or> begin_sn (win s) \<le> g \<and> g < end_sn (win s)"
      "reclaiming q \<Longrightarrow> reclaiming p"
      "reclaiming p \<Longrightarrow> \<not> reclaiming q \<Longrightarrow> users s (idx s (end_sn (win s))) = {}"
      "reading p \<Longrightarrow> reading q" "\<not> is_ret p" "truncating p = truncating q"
      "\<And>i fin. p = TrReset i fin \<Longrightarrow> users s (idx s i) = {}"
      "resp (win s) q \<Longrightarrow> resp (win s) p
        \<or> end_sn (win s) = begin_sn (win s) + sw_size (win s)
        \<or> array_ref (win s) (idx s (end_sn (win s))) \<noteq> 0"
  shows "sw_inv rst w0 (go s t p)"
proof -
  have "reading p \<Longrightarrow> t \<in> set (readers s)"
    using assms(9) old sw_invD(2) [OF I] by (auto simp: inv_rw_def)
  then have "inv_rw (go s t p)"
    using assms(10,11) old by (intro inv_rw_go [OF sw_invD(2) [OF I], where t = t and p = p]) simp_all
  moreover have "inv_locks (go s t p)"
    using assms(3) old by (intro inv_locks_eq [OF sw_invD(3) [OF I], where t = t and p = p]) simp_all
  ultimately show ?thesis
    using assms by (intro inv_move [OF I, where t = t and p = p]) simp_all
qed

lemma inv_leave:
  assumes I: "sw_inv rst w0 s" and old: "thr s t = q"
    and "holds (sw_size (win s)) q = {}" "inflight q = None" "\<not> reclaiming q" "\<not> truncating q"
      "\<not> resp (win s) q"
  shows "sw_inv rst w0 (leave s t ret)"
  using assms inv_rw_leave [OF sw_invD(2) [OF I], of t]
    inv_locks_eq [OF sw_invD(3) [OF I], of "leave s t ret" t "Ret ret"]
  by (intro inv_move [OF I, where t = t and p = "Ret ret"]) (simp_all add: leave_def)

lemma inv_lock:
  assumes I: "sw_inv rst w0 s" and old: "thr s t = q" and l: "lock_slot s t i p = Some s'"
    and "holds (sw_size (win s)) p = insert i (holds (sw_size (win s)) q)" "inflight p = inflight q"
      "pc_ok rst (win s) p" "pc_prot p = None" "\<not> reclaiming q" "\<not> reclaiming p"
      "reading p \<Longrightarrow> reading q" "\<not> is_ret p" "\<not> truncating p" "\<not> truncating q"
      "resp (win s) q \<Longrightarrow> resp (win s) p"
  shows "sw_inv rst w0 s'"
proof -
  have s': "slot_lock s i = None" "s' = (go s t p)\<lparr>slot_lock := (slot_lock s)(i := Some t)\<rparr>"
    using l by (auto simp: lock_slot_def split: if_splits)
  have "inv_rw s'"
    using assms(10-13) old sw_invD(2) [OF I] s'
    by (intro inv_rw_go [OF sw_invD(2) [OF I], where t = t and p = p]) (auto simp: inv_rw_def)
  moreover have "inv_locks s'"
    using sw_invD(3) [OF I] s' assms(4) old
    by (auto simp: inv_locks_def) (metis option.distinct(1))+
  ultimately show ?thesis
    using assms s' by (intro inv_move [OF I, where t = t and p = p]) (auto split: sw_pc.splits)
qed

lemma inv_unlock:
  assumes I: "sw_inv rst w0 s" and old: "thr s t = Unlock (i # is) p"
    and s': "s' = (go s t (Unlock is p))\<lparr>slot_lock := (slot_lock s)(i := None)\<rparr>"
  shows "sw_inv rst w0 s'"
proof -
  have ok: "pc_ok rst (win s) (Unlock (i # is) p)" using pcD [OF I, of t] old by simp
  have tr: "\<not> truncating p" "\<not> is_ret p" using ok by (cases p; simp)+
  have "inv_rw s'"
    using tr old sw_invD(2) [OF I] s'
    by (intro inv_rw_go [OF sw_invD(2) [OF I], where t = t and p = "Unlock is p"]) (auto simp: inv_rw_def)
  moreover have "inv_locks s'"
    using sw_invD(3) [OF I] s' old ok lock_owner [OF I, of i t] by (auto simp: inv_locks_def)
  ultimately show ?thesis
    using assms ok by (intro inv_move [OF I, where t = t and p = "Unlock is p"]) auto
qed

section \<open>Steps that change the window\<close>

lemma users_upd:
  assumes "sw_size (win s') = sw_size (win s)" "toks s' = (toks s)(x := r)"
  shows "users s' i = (users s i - {x}) \<union> {y. y = x \<and> (\<exists>g. r = Some g \<and> idx s g = i)}"
  using assms by (auto simp: users_def split: if_splits)

lemma finite_users:
  assumes "finite (dom (toks s))"
  shows "finite (users s i)"
  by (rule finite_subset [OF _ assms]) (auto simp: users_def)

lemma pc_ok_ref [simp]: "pc_ok rst (w\<lparr>array_ref := r\<rparr>) pc = pc_ok rst w pc"
  by (induction pc) auto

lemma resp_ref [simp]: "resp (w\<lparr>array_ref := r\<rparr>) pc = resp w pc"
  by (induction pc) auto

lemma resp_begin [simp]: "resp (w\<lparr>begin_sn := b\<rparr>) pc = resp w pc"
  by (induction pc) auto

lemma resp_val [simp]: "resp (w\<lparr>array_val := v\<rparr>) pc = resp w pc"
  by (induction pc) auto

lemma pc_ok_val:
  assumes "pc_ok rst w pc" "pow2 (sw_size w)" "v = rst \<or> (reclaiming pc \<longrightarrow> i \<noteq> calc_idx (sw_size w) (end_sn w))"
  shows "pc_ok rst (w\<lparr>array_val := (array_val w)(i := v)\<rparr>) pc"
  using assms by (induction pc) (auto split: sw_pc.splits)

lemma pc_ok_end:
  assumes "pc_ok rst w pc" "pow2 (sw_size w)" "calc_idx (sw_size w) (end_sn w) \<notin> holds (sw_size w) pc"
  shows "pc_ok rst (w\<lparr>end_sn := end_sn w + 1\<rparr>) pc"
  using assms
proof (induction pc)
  case (SlRef b e ret)
  have "calc_idx (sw_size w) (b + sw_size w) \<noteq> calc_idx (sw_size w) (end_sn w)"
    using SlRef.prems(2,3) by simp
  then have "b + sw_size w \<noteq> end_sn w" by metis
  with SlRef show ?case by auto
qed (auto split: sw_pc.splits)

lemma pc_ok_begin:
  assumes "pc_ok rst w pc" "calc_idx (sw_size w) (begin_sn w) \<notin> holds (sw_size w) pc" "\<not> truncating pc"
  shows "pc_ok rst (w\<lparr>begin_sn := begin_sn w + 1\<rparr>) pc"
  using assms by (induction pc) (auto split: sw_pc.splits)

lemma reclaim_upd:
  assumes "thr s' = (thr s)(t := p)" "reclaiming p = reclaiming (thr s t)"
  shows "reclaim s' = reclaim s"
  unfolding reclaim_def by (metis assms fun_upd_other fun_upd_same)

lemma inv_resp_keep:
  assumes "inv_resp s" and thr: "thr s' = (thr s)(t := p)"
    and "begin_sn (win s') = begin_sn (win s)" "end_sn (win s') = end_sn (win s)" "sw_size (win s') = sw_size (win s)"
      "resp (win s') = resp (win s)"
      "array_ref (win s) (idx s (end_sn (win s))) \<noteq> 0 \<Longrightarrow>
        array_ref (win s') (idx s (end_sn (win s))) \<noteq> 0 \<or> resp (win s) p"
      "resp (win s) (thr s t) \<Longrightarrow> resp (win s) p"
  shows "inv_resp s'"
proof -
  have "(\<exists>u. resp (win s) (thr s u)) \<longrightarrow> (\<exists>u. resp (win s) (thr s' u))"
    using assms(8) by (intro ex_thr_upd [OF thr]) blast
  moreover have "resp (win s) p \<longrightarrow> (\<exists>u. resp (win s) (thr s' u))"
    by (metis thr fun_upd_same)
  ultimately show ?thesis using assms(1,3-7) by (auto simp: inv_resp_def)
qed

lemma inv_ref_change:
  assumes I: "sw_inv rst w0 s" and thr: "thr s' = (thr s)(t := p)"
    and w: "win s' = (win s)\<lparr>array_ref := (array_ref (win s))(i := c)\<rparr>"
    and eqs: "slot_lock s' = slot_lock s" "readers s' = readers s" "writer s' = writer s" "handles s' = handles s"
      "hnext s' = hnext s" "ideal s' = ideal s" "slid s' = slid s"
    and c: "c = int (card (users s' i))" "\<And>j. j \<noteq> i \<Longrightarrow> users s' j = users s j"
    and tr: "\<And>u j fin. thr s u = TrReset j fin \<Longrightarrow> u \<noteq> t \<Longrightarrow> users s' (idx s j) = {}"
    and p: "\<not> reclaiming p" "\<not> reclaiming (thr s t)" "pc_prot p = None" "pc_ok rst (win s) p"
      "holds (sw_size (win s)) p = holds (sw_size (win s)) (thr s t)" "reading p \<Longrightarrow> reading (thr s t)"
      "\<not> is_ret p" "\<not> truncating p" "\<not> truncating (thr s t)"
    and rs: "inv_resp s'"
  shows "sw_inv rst w0 s'"
proof -
  note I' = sw_invD [OF I]
  have rc: "reclaim s' = reclaim s" using p by (intro reclaim_upd [OF thr]) simp
  have tk: "toks s' = (toks s)(Inl t := inflight p)" by (rule toks_upd [OF thr eqs(4)])
  have "finite (dom (toks s'))"
    using I'(4) by (cases "inflight p") (auto simp: tk inv_refs_def intro: finite_subset)
  moreover have "users s' (idx s j) = {}" if "thr s' u = TrReset j fin" for u j fin
    using that tr [of u j fin] p(8) by (auto simp: thr split: if_splits)
  ultimately have "inv_refs s'"
    using I'(4) c by (auto simp: inv_refs_def w eqs)
  moreover have "inv_rw s'"
    using I'(2) p by (intro inv_rw_go [OF I'(2) thr]) (auto simp: eqs inv_rw_def)
  moreover have "inv_locks s'"
    using p(5) by (intro inv_locks_eq [OF I'(3) thr]) (simp_all add: eqs w)
  moreover have "inv_prot s'"
    using I'(5) prot_upd [OF thr eqs(4)] p(3) by (auto simp: inv_prot_def w rc)
  moreover have "inv_vals rst s'" using I'(6) by (simp add: inv_vals_def w eqs rc)
  moreover have "inv_pcs rst s'" using I'(7) p(4) by (simp add: inv_pcs_def w thr)
  moreover have "inv_win w0 (win s') (slid s')" using I'(1) by (simp add: inv_win_def w eqs)
  ultimately show ?thesis using rs by (simp add: sw_inv_def)
qed

lemma reader_no_writer:
  assumes "sw_inv rst w0 s" "reading (thr s t)"
  shows "\<not> truncating (thr s u)"
  using sw_invD(2) [OF assms(1)] assms(2) by (force simp: inv_rw_def)

lemma inv_inc:
  assumes I: "sw_inv rst w0 s" and old: "thr s t = GetInc g"
  shows "sw_inv rst w0 (go (set_ref s (idx s g) (array_ref (win s) (idx s g) + 1)) t (GetB2 g))"
proof -
  note I' = sw_invD [OF I]
  define c where "c = array_ref (win s) (idx s g) + 1"
  define s' where "s' = go (set_ref s (idx s g) c) t (GetB2 g)"
  have eqs: "thr s' = (thr s)(t := GetB2 g)" "win s' = (win s)\<lparr>array_ref := (array_ref (win s))(idx s g := c)\<rparr>"
    "handles s' = handles s" "slot_lock s' = slot_lock s" "readers s' = readers s" "writer s' = writer s"
    "hnext s' = hnext s" "ideal s' = ideal s" "slid s' = slid s"
    by (simp_all add: s'_def set_ref_def)
  have tk: "toks s' = (toks s)(Inl t := Some g)" "toks s (Inl t) = None"
    using old toks_upd [OF eqs(1,3)] by (simp_all add: toks_def)
  have us: "users s' i = (if idx s g = i then insert (Inl t) (users s i) else users s i)" "Inl t \<notin> users s i" for i
    using users_upd [OF _ tk(1), of i] tk(2) by (auto simp: eqs users_def)
  have fin: "finite (users s i)" for i using finite_users I'(4) by (auto simp: inv_refs_def)
  have c: "c = int (card (users s' (idx s g)))" "c \<noteq> 0"
    using I'(4) us fin by (simp_all add: c_def inv_refs_def)
  have "inv_resp s'"
    using old c(2) by (intro inv_resp_keep [OF I'(8) eqs(1)]) (auto simp: eqs fun_eq_iff)
  moreover have "\<not> truncating (thr s u)" for u
    using reader_no_writer [OF I, of t] old by simp
  then have "thr s u \<noteq> TrReset j fin" for u j fin by (metis truncating.simps(4))
  ultimately have "sw_inv rst w0 s'"
    using c(1) old us pcD [OF I, of t]
    by (intro inv_ref_change [OF I eqs(1,2,4-6,3,7-9)]) simp_all
  then show ?thesis by (simp add: s'_def c_def)
qed

lemma inv_sub:
  assumes I: "sw_inv rst w0 s" and old: "thr s t = RevSub g"
  shows "sw_inv rst w0 (the (revert_act rst s t (RevSub g)))"
proof -
  note I' = sw_invD [OF I]
  define c where "c = array_ref (win s) (idx s g) - 1"
  have "Inl t \<in> users s (idx s g)" using old by (simp add: users_def toks_def)
  moreover have fin: "finite (users s i)" for i using finite_users I'(4) by (auto simp: inv_refs_def)
  ultimately have c: "c = int (card (users s (idx s g) - {Inl t}))"
    using I'(4) card_Diff_singleton [of "Inl t" "users s (idx s g)"] card_gt_0_iff [of "users s (idx s g)"]
    by (auto simp: c_def inv_refs_def)
  define p where "p = (if 0 = c then RevZero g else RevDone OB_SUCCESS)"
  define s' where "s' = go (set_ref s (idx s g) c) t p"
  have act: "the (revert_act rst s t (RevSub g)) = s'"
    using c unfolding revert_act.simps Let_def c_def [symmetric] s'_def p_def by simp
  have p: "inflight p = None" "\<not> reclaiming p" "pc_prot p = None" "pc_ok rst (win s) p" "holds (sw_size (win s)) p = {}"
    "\<not> reading p" "\<not> is_ret p" "\<not> truncating p"
    using pcD [OF I, of t] old by (simp_all add: p_def)
  have eqs: "thr s' = (thr s)(t := p)" "win s' = (win s)\<lparr>array_ref := (array_ref (win s))(idx s g := c)\<rparr>"
    "handles s' = handles s" "slot_lock s' = slot_lock s" "readers s' = readers s" "writer s' = writer s"
    "hnext s' = hnext s" "ideal s' = ideal s" "slid s' = slid s"
    by (simp_all add: s'_def set_ref_def)
  have tk: "toks s' = (toks s)(Inl t := None)" "toks s (Inl t) = Some g"
    using old toks_upd [OF eqs(1,3)] p by (simp_all add: toks_def)
  have us: "users s' i = (if idx s g = i then users s i - {Inl t} else users s i)" for i
    using users_upd [OF _ tk(1), of i] tk(2) by (auto simp: eqs users_def)
  have "users s (idx s j) = {}" if "thr s u = TrReset j fin" for u j fin
    using I'(4) that unfolding inv_refs_def by metis
  moreover have "inv_resp s'"
    using old by (intro inv_resp_keep [OF I'(8) eqs(1)]) (auto simp: eqs fun_eq_iff p_def)
  ultimately have "sw_inv rst w0 s'"
    using c old us p by (intro inv_ref_change [OF I eqs(1,2,4-6,3,7-9)]) simp_all
  then show ?thesis by (simp only: act)
qed

lemma win_set [simp]:
  "win (set_val s i v) = (win s)\<lparr>array_val := (array_val (win s))(i := v)\<rparr>"
  "win (set_end s e) = (win s)\<lparr>end_sn := e\<rparr>"
  by (simp_all add: set_val_def set_end_def)

text \<open>A change of the window by a thread that keeps its locks and references.\<close>

lemma inv_win_change:
  assumes I: "sw_inv rst w0 s" and thr: "thr s' = (thr s)(t := p)"
    and eqs: "slot_lock s' = slot_lock s" "readers s' = readers s" "writer s' = writer s" "handles s' = handles s"
      "hnext s' = hnext s" "sw_size (win s') = sw_size (win s)" "array_ref (win s') = array_ref (win s)"
    and p: "holds (sw_size (win s)) p = holds (sw_size (win s)) (thr s t)" "inflight p = None" "inflight (thr s t) = None"
      "reading p \<Longrightarrow> reading (thr s t)" "\<not> is_ret p" "\<not> truncating p" "\<not> truncating (thr s t)"
    and ok: "\<And>u. u \<noteq> t \<Longrightarrow> pc_ok rst (win s') (thr s u)" "pc_ok rst (win s') p"
    and rest: "inv_win w0 (win s') (slid s')" "inv_prot s'" "inv_vals rst s'" "inv_resp s'"
  shows "sw_inv rst w0 s'"
proof -
  note I' = sw_invD [OF I]
  have tk: "toks s' = toks s" using toks_upd [OF thr eqs(4)] p by (auto simp: toks_def fun_eq_iff)
  then have us: "users s' = users s" by (simp add: users_def fun_eq_iff eqs)
  have "users s (idx s j) = {}" if "thr s' u = TrReset j fin" for u j fin
    using I'(4) that p(6) unfolding inv_refs_def thr by (metis fun_upd_apply truncating.simps(4))
  then have "inv_refs s'" using I'(4) by (auto simp: inv_refs_def eqs tk us)
  moreover have "inv_rw s'"
    using I'(2) p by (intro inv_rw_go [OF I'(2) thr]) (auto simp: eqs inv_rw_def)
  moreover have "inv_locks s'"
    using p(1) by (intro inv_locks_eq [OF I'(3) thr]) (simp_all add: eqs)
  moreover have "inv_pcs rst s'" using ok by (simp add: inv_pcs_def thr)
  ultimately show ?thesis using rest by (simp add: sw_inv_def)
qed

lemma inv_reset:
  assumes I: "sw_inv rst w0 s" and old: "thr s t = q" "reclaiming q" "reclaiming p" "resp (win s) p"
    and i: "i = idx s (end_sn (win s))"
    and p: "holds (sw_size (win s)) p = holds (sw_size (win s)) q" "inflight p = None" "inflight q = None"
      "reading p = reading q" "\<not> is_ret p" "\<not> truncating p" "\<not> truncating q" "pc_prot p = None"
      "pc_ok rst (win (set_val s i rst)) p"
  shows "sw_inv rst w0 (go (set_val s i rst) t p)"
proof -
  note I' = sw_invD [OF I]
  define s' where "s' = go (set_val s i rst) t p"
  have thr: "thr s' = (thr s)(t := p)" and w: "win s' = (win s)\<lparr>array_val := (array_val (win s))(i := rst)\<rparr>"
    and eqs: "handles s' = handles s" "slot_lock s' = slot_lock s" "readers s' = readers s" "writer s' = writer s"
    "hnext s' = hnext s" "ideal s' = ideal s" "slid s' = slid s"
    by (simp_all add: s'_def set_val_def)
  have rc: "reclaim s' = reclaim s" "reclaim s" using old reclaim_upd [OF thr] by (auto simp: reclaim_def)
  have "inv_vals rst s'"
    using I'(6) calc_idx_inside [OF I'(9), of "end_sn (win s)"] by (auto simp: inv_vals_def w eqs rc i)
  moreover have "inv_prot s'"
    using I'(5) prot_upd [OF thr eqs(1)] p(8) by (auto simp: inv_prot_def w rc)
  moreover have "pc_ok rst (win s') (thr s u)" for u
    using pc_ok_val [OF pcD [OF I, of u] I'(9)] by (simp add: w)
  moreover have "inv_resp s'"
    using old by (intro inv_resp_keep [OF I'(8) thr]) (auto simp: w fun_eq_iff)
  moreover have "inv_win w0 (win s') (slid s')" using I'(1) by (simp add: inv_win_def w eqs)
  ultimately have "sw_inv rst w0 s'"
    using old p by (intro inv_win_change [OF I thr eqs(2-4,1,5)]) (simp_all add: w set_val_def)
  then show ?thesis by (simp only: s'_def)
qed

text \<open>\<^verbatim>\<open>end_sn_\<close> advances over a slot that was reset under its lock.\<close>

lemma inv_end:
  assumes I: "sw_inv rst w0 s" and old: "thr s t = q" "reclaiming q"
    "array_val (win s) (idx s (end_sn (win s))) = rst"
    and e: "e = end_sn (win s) + 1"
    and p: "holds (sw_size (win s)) p = holds (sw_size (win s)) q" "inflight p = None" "inflight q = None"
      "\<not> reclaiming p" "reading p \<Longrightarrow> reading q" "\<not> is_ret p" "\<not> truncating p" "\<not> truncating q" "pc_prot p = None"
      "pc_ok rst (win (set_end s e)) p"
      "resp (win (set_end s e)) p \<or> e = begin_sn (win s) + sw_size (win s)"
  shows "sw_inv rst w0 (go (set_end s e) t p)"
proof -
  note I' = sw_invD [OF I]
  define s' where "s' = go (set_end s e) t p"
  have thr: "thr s' = (thr s)(t := p)" and w: "win s' = (win s)\<lparr>end_sn := end_sn (win s) + 1\<rparr>"
    and eqs: "handles s' = handles s" "slot_lock s' = slot_lock s" "readers s' = readers s" "writer s' = writer s"
    "hnext s' = hnext s" "ideal s' = ideal s" "slid s' = slid s"
    by (simp_all add: s'_def set_end_def e)
  have q: "idx s (end_sn (win s)) \<in> holds (sw_size (win s)) (thr s t)" "end_sn (win s) - sw_size (win s) < begin_sn (win s)"
    using reclaiming_holds [OF pcD [OF I, of t]] old I'(9) by simp_all
  have other: "idx s (end_sn (win s)) \<notin> holds (sw_size (win s)) (thr s u)" if "u \<noteq> t" for u
    using lock_owner [OF I q(1), of u] that by blast
  have "\<not> reclaiming (thr s u)" if "u \<noteq> t" for u
    using other [OF that] reclaiming_holds(1) [OF pcD [OF I, of u] _ I'(9)] by blast
  then have rc: "\<not> reclaim s'" "reclaim s" using old p(4) by (auto simp: reclaim_def thr)
  have "inv_vals rst s'"
    unfolding inv_vals_def
  proof (intro conjI allI impI)
    show "ideal s' g = rst" if "end_sn (win s') \<le> g" for g
      using that I'(6) by (simp add: inv_vals_def w eqs)
    show "array_val (win s') (idx s' g) = ideal s' g"
      if "end_sn (win s') - sw_size (win s') \<le> g \<and> g < end_sn (win s') \<and> \<not> (reclaim s' \<and> g = end_sn (win s') - sw_size (win s'))" for g
      using that I'(6) old(3) by (cases "g = end_sn (win s)") (auto simp: inv_vals_def w eqs)
  qed
  moreover have "inv_prot s'"
    using I'(5) prot_upd [OF thr eqs(1)] p(9) rc by (force simp: inv_prot_def w)
  moreover have "pc_ok rst (win s') (thr s u)" if "u \<noteq> t" for u
    using pc_ok_end [OF pcD [OF I, of u] I'(9) other [OF that]] by (simp add: w)
  moreover have "\<exists>u. resp (win s') (thr s' u)" if "resp (win s') p"
    using that by (metis thr fun_upd_same)
  then have "inv_resp s'"
    using p(11) by (auto simp: inv_resp_def w set_end_def e)
  moreover have "inv_win w0 (win s') (slid s')" using I'(1) q(2) by (auto simp: inv_win_def w eqs)
  ultimately have "sw_inv rst w0 s'"
    using old p by (intro inv_win_change [OF I thr eqs(2-4,1,5)]) (simp_all add: w set_end_def e)
  then show ?thesis by (simp only: s'_def)
qed

text \<open>\<^verbatim>\<open>begin_sn_\<close> advances; the sliding thread holds the locks of the old and the new first slot.\<close>

lemma inv_begin:
  assumes I: "sw_inv rst w0 s" and old: "thr s t = SlBump b"
  shows "sw_inv rst w0 ((go (set_begin s (b + 1)) t (SlEnd2 b OB_SUCCESS))\<lparr>slid := b # slid s\<rparr>)"
proof -
  note I' = sw_invD [OF I]
  define s' where "s' = (go (set_begin s (b + 1)) t (SlEnd2 b OB_SUCCESS))\<lparr>slid := b # slid s\<rparr>"
  have b: "b = begin_sn (win s)" "b < end_sn (win s)" using pcD [OF I, of t] old by simp_all
  have thr: "thr s' = (thr s)(t := SlEnd2 b OB_SUCCESS)" and w: "win s' = (win s)\<lparr>begin_sn := begin_sn (win s) + 1\<rparr>"
    and eqs: "handles s' = handles s" "slot_lock s' = slot_lock s" "readers s' = readers s" "writer s' = writer s"
    "hnext s' = hnext s" "ideal s' = ideal s" "slid s' = b # slid s"
    by (simp_all add: s'_def set_begin_def b)
  have other: "idx s (begin_sn (win s)) \<notin> holds (sw_size (win s)) (thr s u)" if "u \<noteq> t" for u
    using lock_owner [OF I, of "idx s (begin_sn (win s))" t u] that old b(1) by auto
  have rc: "reclaim s' = reclaim s" using old reclaim_upd [OF thr] by simp
  have "(\<exists>u. resp (win s) (thr s u)) \<longrightarrow> (\<exists>u. resp (win s) (thr s' u))"
    using old by (intro ex_thr_upd [OF thr]) auto
  moreover have "\<exists>u. resp (win s) (thr s' u)" if "resp (win s) (SlEnd2 b OB_SUCCESS)"
    using that by (metis thr fun_upd_same)
  ultimately have "inv_resp s'"
    using I'(8) b by (auto simp: inv_resp_def w)
  moreover have "inv_vals rst s'" using I'(6) by (simp add: inv_vals_def w eqs rc)
  moreover have "inv_prot s'"
    using I'(5) prot_upd [OF thr eqs(1)] by (auto simp: inv_prot_def w rc)
  moreover have "pc_ok rst (win s') (thr s u)" if "u \<noteq> t" for u
    using pc_ok_begin [OF pcD [OF I, of u] other [OF that]] reader_no_writer [OF I, of t u] old by (simp add: w)
  moreover have "[begin_sn w0..b] = [begin_sn w0..b - 1] @ [b]"
    using I'(1) b(1) by (intro upto_rec2) (simp add: inv_win_def)
  then have "inv_win w0 (win s') (slid s')" using I'(1) b by (auto simp: inv_win_def w eqs)
  ultimately have "sw_inv rst w0 s'"
    using old b by (intro inv_win_change [OF I thr eqs(2-4,1,5)]) (simp_all add: w)
  then show ?thesis by (simp only: s'_def)
qed

text \<open>A write to a slot of the window or to one that is still referenced.\<close>

lemma inv_write:
  assumes I: "sw_inv rst w0 s" and g: "end_sn (win s) - sw_size (win s) \<le> g" "g < end_sn (win s)"
    "reclaim s \<Longrightarrow> g \<noteq> end_sn (win s) - sw_size (win s)"
  shows "sw_inv rst w0 ((set_val s (idx s g) v)\<lparr>ideal := (ideal s)(g := v)\<rparr>)"
proof -
  note I' = sw_invD [OF I]
  define s' where "s' = (set_val s (idx s g) v)\<lparr>ideal := (ideal s)(g := v)\<rparr>"
  have w: "win s' = (win s)\<lparr>array_val := (array_val (win s))(idx s g := v)\<rparr>"
    and eqs: "thr s' = thr s" "handles s' = handles s" "slot_lock s' = slot_lock s" "readers s' = readers s"
    "writer s' = writer s" "hnext s' = hnext s" "ideal s' = (ideal s)(g := v)" "slid s' = slid s"
    by (simp_all add: s'_def set_val_def)
  have rc: "reclaim s' = reclaim s" and pt: "prot s' = prot s" and tk: "toks s' = toks s" and us: "users s' = users s"
    by (simp_all add: reclaim_def prot_def users_def toks_def eqs w fun_eq_iff split: sum.splits)
  have "pc_ok rst (win s') (thr s u)" for u
  proof -
    have "idx s g \<noteq> idx s (end_sn (win s))" if "reclaim s"
      using calc_idx_inside [OF I'(9), of "end_sn (win s)" g] g that by simp
    then show ?thesis
      using pc_ok_val [OF pcD [OF I, of u] I'(9)] by (auto simp: w reclaim_def)
  qed
  moreover have "h = g" if "end_sn (win s) - sw_size (win s) \<le> h" "h < end_sn (win s)" "idx s h = idx s g" for h
    using calc_idx_inj [OF I'(9) that(3)] g that by auto
  then have "inv_vals rst s'"
    using I'(6) g unfolding inv_vals_def w eqs rc by auto
  ultimately show ?thesis
    using I'(1-5,8) unfolding s'_def [symmetric]
    by (simp add: sw_inv_def inv_win_def inv_rw_def inv_locks_def inv_refs_def inv_prot_def inv_pcs_def inv_resp_def
        w eqs rc pt tk us)
qed

text \<open>A reference passes between a thread and its client.\<close>

lemma inv_transfer:
  assumes I: "sw_inv rst w0 s" and thr: "thr s' = (thr s)(t := p)"
    and eqs: "win s' = win s" "slot_lock s' = slot_lock s" "ideal s' = ideal s" "slid s' = slid s"
    and x: "toks s x = Some g" "toks s y = None" "toks s' = (toks s)(x := None, y := Some g)"
    and pt: "\<And>h. prot s' h \<Longrightarrow> prot s h" and hn: "\<forall>n \<ge> hnext s'. handles s' n = None" and rw: "inv_rw s'"
    and p: "holds (sw_size (win s)) p = {}" "holds (sw_size (win s)) (thr s t) = {}" "\<not> reclaiming p"
      "\<not> reclaiming (thr s t)" "\<not> truncating p" "\<not> resp (win s) (thr s t)" "pc_ok rst (win s) p"
  shows "sw_inv rst w0 s'"
proof -
  note I' = sw_invD [OF I]
  have us: "users s' i = (if idx s g = i then insert y (users s i - {x}) else users s i)" for i
    using x by (auto simp: users_def eqs split: if_splits)
  have xy: "x \<in> users s (idx s g)" "y \<notin> users s i" for i using x by (auto simp: users_def)
  have fin: "finite (users s i)" for i using finite_users I'(4) by (auto simp: inv_refs_def)
  have "card (users s' i) = card (users s i)" for i
    using xy fin [of i] card_Suc_Diff1 [of "users s i" x] by (auto simp: us)
  moreover have "finite (dom (toks s'))" using I'(4) by (simp add: x(3) inv_refs_def)
  moreover have "users s' (idx s j) = {}" if "thr s' u = TrReset j fin" for u j fin
  proof -
    have "thr s u = TrReset j fin" using that p(5) by (auto simp: thr split: if_splits)
    then have "users s (idx s j) = {}" using I'(4) unfolding inv_refs_def by metis
    with xy(1) show ?thesis by (auto simp: us)
  qed
  ultimately have "inv_refs s'" using I'(4) hn by (auto simp: inv_refs_def eqs)
  moreover have rc: "reclaim s' = reclaim s" using p by (intro reclaim_upd [OF thr]) simp
  have "inv_prot s'" using I'(5) pt by (auto simp: inv_prot_def eqs rc)
  moreover have "inv_vals rst s'" using I'(6) by (simp add: inv_vals_def eqs rc)
  moreover have "inv_pcs rst s'" using I'(7) p(7) by (simp add: inv_pcs_def thr eqs)
  moreover have "inv_locks s'" using p(1,2) by (intro inv_locks_eq [OF I'(3) thr]) (simp_all add: eqs)
  moreover have "inv_resp s'" using p(6) by (intro inv_resp_keep [OF I'(8) thr]) (simp_all add: eqs)
  ultimately show ?thesis using I'(1) rw by (simp add: sw_inv_def eqs)
qed

lemma inv_got:
  assumes I: "sw_inv rst w0 s" and old: "thr s t = GetE2 g"
  shows "sw_inv rst w0 ((leave s t OB_SUCCESS)\<lparr>handles := (handles s)(hnext s := Some g), hnext := Suc (hnext s)\<rparr>)"
    (is "sw_inv rst w0 ?s'")
proof (rule inv_transfer [OF I])
  have h: "\<forall>n \<ge> hnext s. handles s n = None" using sw_invD(4) [OF I] by (simp add: inv_refs_def)
  show "thr ?s' = (thr s)(t := Ret OB_SUCCESS)" by (simp add: leave_def)
  show "toks s (Inl t) = Some g" "toks s (Inr (hnext s)) = None" using old h by (simp_all add: toks_def)
  show "toks ?s' = (toks s)(Inl t := None, Inr (hnext s) := Some g)"
    by (auto simp: toks_def leave_def fun_eq_iff split: sum.splits)
  show "prot s h" if "prot ?s' h" for h
  proof -
    have "prot s g" using old unfolding prot_def by (metis pc_prot.simps(1))
    with that show ?thesis by (auto simp: prot_def leave_def split: if_splits)
  qed
  show "\<forall>n \<ge> hnext ?s'. handles ?s' n = None" using h by simp
  show "inv_rw ?s'" using inv_rw_leave [OF sw_invD(2) [OF I], of t OB_SUCCESS] old by (simp add: inv_rw_def leave_def)
qed (use old in \<open>simp_all add: leave_def\<close>)

lemma inv_call_revert:
  assumes I: "sw_inv rst w0 s" and old: "is_ret (thr s t)" and h: "handles s n = Some g"
  shows "sw_inv rst w0 ((go s t (RevCheck g))\<lparr>handles := (handles s)(n := None)\<rparr>)" (is "sw_inv rst w0 ?s'")
proof (rule inv_transfer [OF I])
  obtain ret where q: "thr s t = Ret ret" using old by (cases "thr s t") auto
  have g: "prot s g" using h by (auto simp: prot_def)
  show "thr ?s' = (thr s)(t := RevCheck g)" by simp
  show "toks s (Inr n) = Some g" "toks s (Inl t) = None" using q h by (simp_all add: toks_def)
  show "toks ?s' = (toks s)(Inr n := None, Inl t := Some g)"
    by (auto simp: toks_def fun_eq_iff split: sum.splits)
  show "prot s h" if "prot ?s' h" for h
    using that g by (auto simp: prot_def split: if_splits)
  show "\<forall>m \<ge> hnext ?s'. handles ?s' m = None" using sw_invD(4) [OF I] by (simp add: inv_refs_def)
  show "inv_rw ?s'" using q by (intro inv_rw_go [OF sw_invD(2) [OF I], where t = t and p = "RevCheck g"]) simp_all
  show "pc_ok rst (win s) (RevCheck g)" using sw_invD(5) [OF I] g by (simp add: inv_prot_def)
  show "holds (sw_size (win s)) (thr s t) = {}" "\<not> reclaiming (thr s t)" "\<not> resp (win s) (thr s t)"
    using q by simp_all
qed simp_all

end
