(* ===== verification/SlidingWindowSafe.thy ===== *)
theory SlidingWindowSafe
  imports SlidingWindowInv
begin

text \<open>
  Every action of \<^verbatim>\<open>get\<close>, \<^verbatim>\<open>revert\<close>, \<^verbatim>\<open>slide\<close> and \<^verbatim>\<open>truncate\<close> keeps the invariant, and what follows from it.
\<close>

section \<open>Every action keeps the invariant\<close>

lemma inv_get_act:
  assumes I: "sw_inv rst w0 s" and a: "get_act s t (thr s t) = Some s'"
  shows "sw_inv rst w0 s'"
proof (cases "thr s t")
  case (GetB1 g)
  then show ?thesis using a by (auto intro: inv_leave [OF I GetB1] inv_go [OF I GetB1] split: if_splits)
next
  case (GetE1 g)
  then show ?thesis using a by (auto intro: inv_leave [OF I GetE1] inv_go [OF I GetE1] split: if_splits)
next
  case (GetInc g)
  then show ?thesis using a inv_inc [OF I GetInc] by auto
next
  case (GetB2 g)
  then show ?thesis using a pcD [OF I, of t] by (auto intro!: inv_go [OF I GetB2] split: if_splits)
next
  case (GetE2 g)
  then show ?thesis
    using a inv_got [OF I GetE2] pcD [OF I, of t] by (auto intro!: inv_go [OF I GetE2] split: if_splits)
qed (use a in simp_all)

lemma inv_revert_act:
  assumes I: "sw_inv rst w0 s" and a: "revert_act rst s t (thr s t) = Some s'" and n: "not_overtaken s"
  shows "sw_inv rst w0 s'"
proof -
  note I' = sw_invD [OF I] and ok = pcD [OF I, of t]
  note a = a [symmetric]
  show ?thesis
  proof (cases "thr s t")
    case (RevCheck g)
    have "prot s g" using RevCheck unfolding prot_def by (metis pc_prot.simps(2))
    then have "\<not> g < begin_sn (win s) - sw_size (win s)" using I'(5,10) by (auto simp: inv_prot_def)
    then show ?thesis using a RevCheck ok by (auto intro!: inv_go [OF I RevCheck])
  next
    case (RevEnter g)
    then show ?thesis using a ok by (auto intro!: inv_go [OF I RevEnter])
  next
    case (RevSub g)
    then show ?thesis using a inv_sub [OF I RevSub] by (metis option.sel)
  next
    case (RevZero g)
    have "end_sn (win s) < g + 2 * sw_size (win s)" using n RevZero by (auto simp: not_overtaken_def)
    then have "end_sn (win s) = g + sw_size (win s)" if "idx s g = idx s (end_sn (win s))"
      using calc_idx_wrap [OF I'(9) that] ok RevZero by simp
    then show ?thesis using a RevZero ok by (auto intro!: inv_go [OF I RevZero])
  next
    case (RevLoop i b e)
    then show ?thesis using a ok I'(11) by (auto intro!: inv_go [OF I RevLoop])
  next
    case (RevLock i b e)
    then show ?thesis using a [symmetric] ok by (intro inv_lock [OF I RevLock]) auto
  next
    case (RevIn i b e)
    then show ?thesis using a ok by (auto intro!: inv_go [OF I RevIn])
  next
    case (RevRef i b e)
    then show ?thesis using a ok ref_zero_users [OF I] by (auto intro!: inv_go [OF I RevRef])
  next
    case (RevReset i b e)
    then show ?thesis using a ok I'(9) by (auto intro!: inv_reset [OF I RevReset])
  next
    case (RevCas i b e)
    have e: "e = end_sn (win s)" "i = idx s e" "e = b + sw_size (win s)" "b < begin_sn (win s)" "array_val (win s) i = rst"
      using ok unfolding RevCas pc_ok.simps by blast+
    have "s' = go (set_end s (e + 1)) t (Unlock [i] (RevLoop (idx s (e + 1)) (b + 1) (e + 1)))"
      using a RevCas e(1,2) I'(9) by (simp add: calc_idx_next)
    then show ?thesis using e I'(9) by (simp only:, intro inv_end [OF I RevCas]) simp_all
  next
    case (RevDone ret)
    then show ?thesis using a ok by (auto intro!: inv_leave [OF I RevDone] simp: rev_return_def)
  qed (use a in simp_all)
qed

lemma inv_slide_act:
  assumes I: "sw_inv rst w0 s" and a: "slide_act rst s t v (thr s t) = Some s'"
  shows "sw_inv rst w0 s'"
proof -
  note I' = sw_invD [OF I] and ok = pcD [OF I, of t]
  note a = a [symmetric]
  show ?thesis
  proof (cases "thr s t")
    case SlBegin
    then show ?thesis using a by (auto intro!: inv_go [OF I SlBegin])
  next
    case (SlEnd1 b)
    then show ?thesis using a ok by (auto intro!: inv_go [OF I SlEnd1])
  next
    case (SlLock b e)
    then show ?thesis using a [symmetric] ok by (intro inv_lock [OF I SlLock]) auto
  next
    case (SlCheck b e)
    then show ?thesis using a ok by (auto intro!: inv_go [OF I SlCheck])
  next
    case (SlCall b)
    then show ?thesis using a ok by (auto intro!: inv_go [OF I SlCall] split: verdict.splits)
  next
    case (SlNext b)
    then show ?thesis using a [symmetric] ok by (intro inv_lock [OF I SlNext]) auto
  next
    case (SlBump b)
    then show ?thesis using a ok inv_begin [OF I SlBump] by auto
  next
    case (SlEnd2 b ret)
    then show ?thesis using a ok I'(10) by (auto intro!: inv_go [OF I SlEnd2])
  next
    case (SlRef b e ret)
    have k: "ret = OB_SUCCESS" "begin_sn (win s) = b + 1" "e = b + sw_size (win s) \<Longrightarrow> e = end_sn (win s)"
      "b < e" "e \<le> end_sn (win s)"
      using ok unfolding SlRef pc_ok.simps by blast+
    have "1 < sw_size (win s)" using I'(9) by (simp add: pow2_def)
    then have "e < b + 2 * sw_size (win s)" using k(2,5) I'(11) by linarith
    then have e: "e = b + sw_size (win s)" if "idx s e = idx s b"
      using calc_idx_wrap [OF I'(9) that [symmetric] k(4)] by blast
    have i: "idx s (b + sw_size (win s)) = idx s b" "idx s (b + 1) \<noteq> idx s b"
      using I'(9) calc_idx_Suc_neq by simp_all
    show ?thesis
    proof (cases "array_ref (win s) (idx s b) = 0 \<and> idx s e = idx s b")
      case True
      then have "s' = go s t (SlReset b e ret)" using a SlRef by simp
      moreover have f: "e = b + sw_size (win s)" "e = end_sn (win s)" using True e k(3) by blast+
      then have "users s (idx s (end_sn (win s))) = {}"
        using True ref_zero_users [OF I, of "idx s b"] by simp
      moreover have "sw_inv rst w0 (go s t (SlReset b e ret))"
        using f k(1,2) calculation(2) by (intro inv_go [OF I SlRef]) simp_all
      ultimately show ?thesis by simp
    next
      case False
      then have "s' = go s t (Unlock [idx s (b + 1), idx s b] (SlDone ret))"
        using a unfolding SlRef slide_act.simps if_not_P [OF False] by simp
      moreover have "array_ref (win s) (idx s (end_sn (win s))) \<noteq> 0" if "resp (win s) (SlRef b e ret)"
      proof -
        from that have "end_sn (win s) = b + sw_size (win s)" "e = b + sw_size (win s)" by simp_all
        with False i(1) show ?thesis by simp
      qed
      then have "sw_inv rst w0 (go s t (Unlock [idx s (b + 1), idx s b] (SlDone ret)))"
        using k(1,2) i(2) by (intro inv_go [OF I SlRef]) auto
      ultimately show ?thesis by simp
    qed
  next
    case (SlReset b e ret)
    then have e: "ret = OB_SUCCESS" "begin_sn (win s) = b + 1" "end_sn (win s) = b + sw_size (win s)" "e = b + sw_size (win s)"
      using ok by simp_all
    then show ?thesis using a SlReset I'(9) by (auto intro!: inv_reset [OF I SlReset])
  next
    case (SlCas b e ret)
    then have e: "ret = OB_SUCCESS" "begin_sn (win s) = b + 1" "end_sn (win s) = b + sw_size (win s)" "e = b + sw_size (win s)"
      "array_val (win s) (idx s b) = rst"
      using ok by simp_all
    have "s' = go (set_end s (e + 1)) t (Unlock [idx s (b + 1), idx s b] (SlDone ret))"
      using a SlCas e by simp
    then show ?thesis using e I'(9) calc_idx_Suc_neq [OF I'(9), of b]
      by (simp only:, intro inv_end [OF I SlCas]) auto
  next
    case (SlDone ret)
    then show ?thesis using a ok by (auto intro!: inv_leave [OF I SlDone] inv_go [OF I SlDone] split: if_splits)
  next
    case (SlBreak ret)
    then show ?thesis using a by (auto intro!: inv_leave [OF I SlBreak])
  qed (use a in simp_all)
qed

lemma inv_unlock_act:
  assumes I: "sw_inv rst w0 s" and a: "unlock_act s t (thr s t) = Some s'"
  shows "sw_inv rst w0 s'"
proof (cases "thr s t")
  case (Unlock ks p)
  show ?thesis
  proof (cases ks)
    case Nil
    with Unlock have q: "thr s t = Unlock [] p" by simp
    have "s' = go s t p" using a q by simp
    moreover have "sw_inv rst w0 (go s t p)" using pcD [OF I, of t] q by (cases p; auto intro!: inv_go [OF I q])
    ultimately show ?thesis by simp
  next
    case (Cons i js)
    with Unlock a show ?thesis using inv_unlock [OF I, of t i js p] by auto
  qed
qed (use a in simp_all)

lemma inv_leave_writer:
  assumes I: "sw_inv rst w0 s" and old: "thr s t = q" and q: "truncating q"
  shows "sw_inv rst w0 ((go s t (Ret ret))\<lparr>writer := None\<rparr>)" (is "sw_inv rst w0 ?s'")
proof (rule inv_move [OF I])
  have q': "holds (sw_size (win s)) q = {}" "inflight q = None" "\<not> reclaiming q" "\<not> resp (win s) q"
    using q by (cases q; simp)+
  have w: "writer s = Some t" "readers s = []" using sw_invD(2) [OF I] old q unfolding inv_rw_def by force+
  have "\<not> reading (thr s u)" "truncating (thr s u) \<longleftrightarrow> u = t" for u
    using sw_invD(2) [OF I] w unfolding inv_rw_def by force+
  then show "inv_rw ?s'" using w unfolding inv_rw_def by simp
  show "inv_locks ?s'"
    using q' old by (intro inv_locks_eq [OF sw_invD(3) [OF I], where t = t and p = "Ret ret"]) simp_all
  show "inflight (Ret ret) = inflight (thr s t)" using q' old by simp
  show "reclaiming (Ret ret)" if "reclaiming (thr s t)" using that q' old by simp
  show "resp (win s) (Ret ret) \<or> end_sn (win s) = begin_sn (win s) + sw_size (win s)
    \<or> array_ref (win s) (idx s (end_sn (win s))) \<noteq> 0" if "resp (win s) (thr s t)"
    using that q' old by simp
qed simp_all

lemma inv_truncate_act:
  assumes I: "sw_inv rst w0 s" and a: "truncate_act rst s t (thr s t) = Some s'"
  shows "sw_inv rst w0 s'"
proof -
  note I' = sw_invD [OF I] and ok = pcD [OF I, of t]
  show ?thesis
  proof (cases "thr s t")
    case (TrCheck i)
    then show ?thesis
      using a by (auto intro!: inv_leave_writer [OF I TrCheck] inv_go [OF I TrCheck] split: if_splits)
  next
    case (TrEnd i)
    then show ?thesis using a ok by (auto intro!: inv_go [OF I TrEnd])
  next
    case (TrLoop i fin)
    then show ?thesis
      using a ok ref_zero_users [OF I, of "idx s i"]
      by (auto intro!: inv_leave_writer [OF I TrLoop] inv_go [OF I TrLoop] split: if_splits)
  next
    case (TrReset i fin)
    define s1 where "s1 = go s t (TrLoop (i + 1) fin)"
    have i: "begin_sn (win s) \<le> i" "i < fin" "fin \<le> end_sn (win s)" using ok TrReset by simp_all
    then have s1: "sw_inv rst w0 s1" unfolding s1_def by (intro inv_go [OF I TrReset]) auto
    have "reclaim s1 \<Longrightarrow> i \<noteq> end_sn (win s1) - sw_size (win s1)"
      using reclaim_behind [OF s1] i by (auto simp: s1_def)
    then have "sw_inv rst w0 ((set_val s1 (idx s1 i) rst)\<lparr>ideal := (ideal s1)(i := rst)\<rparr>)"
      using i I'(11) by (intro inv_write [OF s1]) (simp_all add: s1_def)
    moreover have "(set_val s1 (idx s1 i) rst)\<lparr>ideal := (ideal s1)(i := rst)\<rparr>
        = (go (set_val s (idx s i) rst) t (TrLoop (i + 1) fin))\<lparr>ideal := (ideal s)(i := rst)\<rparr>"
      by (rule sw_sys.equality) (simp_all add: s1_def set_val_def)
    ultimately show ?thesis using a unfolding TrReset truncate_act.simps by simp
  qed (use a in simp_all)
qed

lemma inv_call_read:
  assumes I: "sw_inv rst w0 s" and c: "is_ret (thr s t)" "writer s = None"
    and p: "reading p" "holds (sw_size (win s)) p = {}" "inflight p = None" "pc_ok rst (win s) p" "pc_prot p = None"
      "\<not> reclaiming p" "\<not> is_ret p" "\<not> truncating p"
  shows "sw_inv rst w0 ((go s t p)\<lparr>readers := t # readers s\<rparr>)" (is "sw_inv rst w0 ?s'")
proof (rule inv_move [OF I])
  obtain ret where q: "thr s t = Ret ret" using c(1) by (cases "thr s t") auto
  then have "t \<notin> set (readers s)" using sw_invD(2) [OF I] by (auto simp: inv_rw_def)
  then show "inv_rw ?s'" using sw_invD(2) [OF I] c(2) p by (auto simp: inv_rw_def)
  show "inv_locks ?s'"
    using q p by (intro inv_locks_eq [OF sw_invD(3) [OF I], where t = t and p = p]) simp_all
  show "inflight p = inflight (thr s t)" using q p by simp
  show "reclaiming p" if "reclaiming (thr s t)" using that q by simp
  show "resp (win s) p \<or> end_sn (win s) = begin_sn (win s) + sw_size (win s)
    \<or> array_ref (win s) (idx s (end_sn (win s))) \<noteq> 0" if "resp (win s) (thr s t)"
    using that q by simp
  show "users s (idx s i) = {}" if "p = TrReset i fin" for i fin using that p(8) by simp
qed (use p in simp_all)

lemma inv_call_truncate:
  assumes I: "sw_inv rst w0 s" and c: "is_ret (thr s t)" "writer s = None" "readers s = []"
  shows "sw_inv rst w0 ((go s t (TrCheck i))\<lparr>writer := Some t\<rparr>)" (is "sw_inv rst w0 ?s'")
proof (rule inv_move [OF I])
  obtain ret where q: "thr s t = Ret ret" using c(1) by (cases "thr s t") auto
  show "inv_rw ?s'" using sw_invD(2) [OF I] c q by (auto simp: inv_rw_def)
  show "inv_locks ?s'"
    using q by (intro inv_locks_eq [OF sw_invD(3) [OF I], where t = t and p = "TrCheck i"]) simp_all
  show "inflight (TrCheck i) = inflight (thr s t)" using q by simp
  show "reclaiming (TrCheck i)" if "reclaiming (thr s t)" using that q by simp
  show "resp (win s) (TrCheck i) \<or> end_sn (win s) = begin_sn (win s) + sw_size (win s)
    \<or> array_ref (win s) (idx s (end_sn (win s))) \<noteq> 0" if "resp (win s) (thr s t)"
    using that q by simp
qed simp_all

lemma or_else_SomeD: "or_else x y = Some a \<Longrightarrow> x = Some a \<or> y = Some a"
  by (auto simp: or_else_def split: option.splits)

lemma inv_thread_act:
  assumes I: "sw_inv rst w0 s" and n: "not_overtaken s" and a: "thread_act rst s t v = Some s'"
  shows "sw_inv rst w0 s'"
proof -
  have "get_act s t (thr s t) = Some s' \<or> revert_act rst s t (thr s t) = Some s'
      \<or> slide_act rst s t v (thr s t) = Some s' \<or> truncate_act rst s t (thr s t) = Some s'
      \<or> unlock_act s t (thr s t) = Some s'"
    using a unfolding thread_act_def Let_def by (auto dest!: or_else_SomeD)
  then show ?thesis
    by (elim disjE) (rule inv_get_act [OF I] inv_revert_act [OF I _ n] inv_slide_act [OF I]
        inv_truncate_act [OF I] inv_unlock_act [OF I], assumption)+
qed

lemma inv_sw_act:
  assumes I: "sw_inv rst w0 s" and n: "not_overtaken s" and a: "sw_act rst s act = Some s'"
  shows "sw_inv rst w0 s'"
proof (cases act)
  case (CallGet t g)
  then show ?thesis using a by (auto intro!: inv_call_read [OF I] split: if_splits)
next
  case (CallRevert t h)
  then show ?thesis using a by (auto intro!: inv_call_revert [OF I] split: if_splits option.splits)
next
  case (CallSlide t)
  then show ?thesis using a by (auto intro!: inv_call_read [OF I] split: if_splits)
next
  case (CallTruncate t i)
  then show ?thesis using a by (auto intro!: inv_call_truncate [OF I] split: if_splits)
next
  case (WriteSlot h v)
  with a obtain g where g: "handles s h = Some g" "s' = (set_val s (idx s g) v)\<lparr>ideal := (ideal s)(g := v)\<rparr>"
    by (auto split: option.splits)
  then have "prot s g" by (auto simp: prot_def)
  then show ?thesis using sw_invD(5) [OF I] g(2) by (auto intro!: inv_write [OF I] simp: inv_prot_def)
next
  case (Step t v)
  then show ?thesis using a inv_thread_act [OF I n] by simp
qed

lemma inv_start:
  assumes "fsw_init rst wn start_id sz have_alloc alloc_ok = (OB_SUCCESS, w)"
  shows "sw_inv rst w (sw_start rst w)" "sw_size w = sz" "begin_sn w = start_id" "pow2 sz"
proof -
  have w: "w = \<lparr>sw_inited = True, begin_sn = start_id, end_sn = start_id + sz, sw_size = sz,
      array_ref = (\<lambda>_. 0), array_val = (\<lambda>_. rst)\<rparr>" and sz: "pow2 sz"
    using assms by (auto simp: fsw_init_def pow2_def split: if_splits)
  then show "sw_size w = sz" "begin_sn w = start_id" "pow2 sz" by simp_all
  have "toks (sw_start rst w) = Map.empty" by (auto simp: toks_def sw_start_def split: sum.splits)
  then have "finite (dom (toks (sw_start rst w)))" "users (sw_start rst w) i = {}" for i by (auto simp: users_def)
  moreover have "inv_win w w []" using w sz by (simp add: inv_win_def pow2_def)
  ultimately show "sw_inv rst w (sw_start rst w)"
    by (simp add: sw_inv_def inv_rw_def inv_locks_def inv_refs_def inv_prot_def inv_vals_def inv_pcs_def inv_resp_def
        prot_def reclaim_def) (simp add: sw_start_def w)
qed

lemma reach_inv:
  assumes "sw_reach not_overtaken rst w s" "fsw_init rst wn start_id sz have_alloc alloc_ok = (OB_SUCCESS, w)"
  shows "sw_inv rst w s"
  using assms by (induction rule: sw_reach.induct) (simp_all add: inv_start inv_sw_act)

section \<open>Deadlock freedom\<close>






section \<open>Executions\<close>

fun sw_run :: "'v \<Rightarrow> 'v sw_sys \<Rightarrow> 'v sw_action list \<Rightarrow> 'v sw_sys option" where
  "sw_run rst s [] = Some s"
| "sw_run rst s (a # as) = (case sw_act rst s a of None \<Rightarrow> None | Some s' \<Rightarrow> sw_run rst s' as)"

lemma run_reach:
  "sw_run rst s as = Some s' \<Longrightarrow> sw_reach (\<lambda>_. True) rst w s \<Longrightarrow> sw_reach (\<lambda>_. True) rst w s'"
  by (induction rst s as rule: sw_run.induct) (auto split: option.splits intro: sw_reach.act)

text \<open>Runs of a few threads that check that no one is overtaken.\<close>

definition calm :: "tid list \<Rightarrow> 'v sw_sys \<Rightarrow> bool" where
  "calm ts s \<longleftrightarrow> list_all (\<lambda>t. case thr s t of RevZero g \<Rightarrow> end_sn (win s) < g + 2 * sw_size (win s) | _ \<Rightarrow> True) ts"

fun actor :: "'v sw_action \<Rightarrow> tid option" where
  "actor (CallGet t g) = Some t"
| "actor (CallRevert t n) = Some t"
| "actor (CallSlide t) = Some t"
| "actor (CallTruncate t i) = Some t"
| "actor (WriteSlot n v) = None"
| "actor (Step t v) = Some t"

fun sw_run_calm :: "tid list \<Rightarrow> 'v \<Rightarrow> 'v sw_sys \<Rightarrow> 'v sw_action list \<Rightarrow> 'v sw_sys option" where
  "sw_run_calm ts rst s [] = Some s"
| "sw_run_calm ts rst s (a # as) =
     (if calm ts s \<and> (case actor a of None \<Rightarrow> True | Some t \<Rightarrow> t \<in> set ts)
      then case sw_act rst s a of None \<Rightarrow> None | Some s' \<Rightarrow> sw_run_calm ts rst s' as
      else None)"

lemma thread_act_other:
  assumes "thread_act rst s t v = Some s'" "u \<noteq> t"
  shows "thr s' u = thr s u"
proof -
  note defs = leave_def rev_return_def set_val_def set_ref_def set_begin_def set_end_def lock_slot_def Let_def
  have "get_act s t (thr s t) = Some s' \<or> revert_act rst s t (thr s t) = Some s'
      \<or> slide_act rst s t v (thr s t) = Some s' \<or> truncate_act rst s t (thr s t) = Some s'
      \<or> unlock_act s t (thr s t) = Some s'"
    using assms(1) unfolding thread_act_def Let_def by (auto dest!: or_else_SomeD)
  then show ?thesis
  proof (elim disjE)
    assume "unlock_act s t (thr s t) = Some s'"
    then show ?thesis using assms(2) by (cases "(s, t, thr s t)" rule: unlock_act.cases) (auto simp: defs)
  next
    assume "get_act s t (thr s t) = Some s'"
    then show ?thesis using assms(2) by (cases "thr s t") (auto simp: defs split: if_splits)
  next
    assume "revert_act rst s t (thr s t) = Some s'"
    then show ?thesis using assms(2) by (cases "thr s t") (auto simp: defs split: if_splits)
  next
    assume "slide_act rst s t v (thr s t) = Some s'"
    then show ?thesis using assms(2) by (cases "thr s t") (auto simp: defs split: if_splits verdict.splits)
  next
    assume "truncate_act rst s t (thr s t) = Some s'"
    then show ?thesis using assms(2) by (cases "thr s t") (auto simp: defs split: if_splits)
  qed
qed

lemma sw_act_other:
  assumes "sw_act rst s a = Some s'" "actor a \<noteq> Some u"
  shows "thr s' u = thr s u"
  using assms by (cases a) (auto simp: set_val_def split: if_splits option.splits intro: thread_act_other)

lemma run_calm_reach:
  assumes "sw_run_calm ts rst s as = Some s'" "sw_reach not_overtaken rst w s" "\<forall>t. t \<notin> set ts \<longrightarrow> is_ret (thr s t)"
  shows "sw_reach not_overtaken rst w s' \<and> (\<forall>t. t \<notin> set ts \<longrightarrow> is_ret (thr s' t))"
  using assms
proof (induction as arbitrary: s)
  case (Cons a as)
  from Cons.prems(1) obtain s1 where s1: "calm ts s" "\<forall>t. actor a = Some t \<longrightarrow> t \<in> set ts"
    "sw_act rst s a = Some s1" "sw_run_calm ts rst s1 as = Some s'"
    by (auto split: option.splits if_splits)
  have "end_sn (win s) < g + 2 * sw_size (win s)" if "thr s t = RevZero g" for t g
  proof -
    have "t \<in> set ts" using that Cons.prems(3) by (metis is_ret.simps(10))
    with s1(1) that show ?thesis by (auto simp: calm_def list_all_iff)
  qed
  then have "not_overtaken s" by (simp add: not_overtaken_def)
  then have "sw_reach not_overtaken rst w s1" using Cons.prems(2) s1(3) by (blast intro: sw_reach.act)
  moreover have "\<forall>t. t \<notin> set ts \<longrightarrow> is_ret (thr s1 t)"
    using Cons.prems(3) s1(2) sw_act_other [OF s1(3)] by metis
  ultimately show ?case using Cons.IH s1(4) by blast
qed simp

definition steps :: "nat \<Rightarrow> nat \<Rightarrow> 'v sw_action list" where
  "steps n t = replicate n (Step t Go)"

definition wit_win :: "nat FixedSlidingWindow" where
  "wit_win = snd (fsw_init 0 (fsw_new 0) 0 2 True True)"

text \<open>Thread 0 passes the first range check of \<^verbatim>\<open>get(0)\<close> and is suspended; thread 1 slides log 0 and log 1;
  thread 2 gets the slot of log 2, writes 7 and reverts it; then thread 0 goes on.\<close>

definition overtaking_run :: "nat sw_action list" where
  "overtaking_run =
     [CallGet 0 0] @ steps 2 0 @ [CallSlide 1] @ steps 28 1 @ [CallGet 2 2] @ steps 5 2 @ [WriteSlot 0 7, CallRevert 2 0]
     @ steps 6 2 @ steps 12 0"

definition overtaken_state :: "nat sw_sys option" where
  "overtaken_state = sw_run 0 (sw_start 0 wit_win) overtaking_run"

text \<open>Thread 0 gets the slot of log 0 and its client writes 7; thread 1 slides log 0.\<close>

definition calm_run :: "nat sw_action list" where
  "calm_run = [CallGet 0 0] @ steps 5 0 @ [WriteSlot 0 7, CallSlide 1] @ steps 9 1"

definition calm_state :: "nat sw_sys" where
  "calm_state = the (sw_run_calm [0, 1] 0 (sw_start 0 wit_win) calm_run)"



lemma wit_init: "fsw_init 0 (fsw_new 0) 0 2 True True = (OB_SUCCESS, wit_win)"
  by (simp add: wit_win_def fsw_init_def fsw_new_def)

lemma calm_start: "sw_reach not_overtaken rst w (sw_start rst w) \<and> (\<forall>t. is_ret (thr (sw_start rst w) t))"
  by (simp add: sw_reach.start) (simp add: sw_start_def)

lemma calm_state_reach: "sw_reach not_overtaken 0 wit_win calm_state"
proof -
  have "sw_run_calm [0, 1] 0 (sw_start 0 wit_win) calm_run \<noteq> None" by code_simp
  then have "sw_run_calm [0, 1] 0 (sw_start 0 wit_win) calm_run = Some calm_state" by (auto simp: calm_state_def)
  from run_calm_reach [OF this] calm_start [of 0 wit_win] show ?thesis by blast
qed


section \<open>Properties\<close>

text \<open>C10. The concurrent sliding window behaves like an array without bounds: in every interleaving of
  \<^verbatim>\<open>get\<close>, \<^verbatim>\<open>revert\<close>, \<^verbatim>\<open>slide\<close>, \<^verbatim>\<open>truncate\<close> and writes through the slot pointers, in which no \<^verbatim>\<open>revert_\<close> is overtaken by a
  whole window, logs leave the window one by one in the order of their ids, the window never exceeds
  its slots, and the slot of every log id in the window or still referenced by a client holds what was
  written for that id, with a positive reference count while it is referenced; none of the errors that
  the code marks as bugs occurs.\<close>

theorem sliding_window_safe:
  assumes "sw_reach not_overtaken rst w s" and "fsw_init rst wn start_id sz have_alloc alloc_ok = (OB_SUCCESS, w)"
  shows "begin_sn (win s) \<le> end_sn (win s) \<and> end_sn (win s) \<le> begin_sn (win s) + sz
    \<and> rev (slid s) = [start_id..begin_sn (win s) - 1]
    \<and> (\<forall>g \<in> {begin_sn (win s)..<end_sn (win s)}. array_val (win s) (calc_idx sz g) = ideal s g)
    \<and> (\<forall>n g. handles s n = Some g \<longrightarrow> array_val (win s) (calc_idx sz g) = ideal s g
          \<and> 0 < array_ref (win s) (calc_idx sz g) \<and> g < end_sn (win s))
    \<and> (\<forall>t. thr s t \<noteq> RevDone OB_ERR_UNEXPECTED \<and> thr s t \<noteq> SlDone OB_ERR_UNEXPECTED)"
proof -
  have I: "sw_inv rst w s" by (rule reach_inv [OF assms])
  note I' = sw_invD [OF I]
  have w: "sw_size (win s) = sz" "begin_sn w = start_id"
    using I'(1) inv_start(2,3) [OF assms(2)] by (simp_all add: inv_win_def)
  have "array_val (win s) (calc_idx sz g) = ideal s g" if "begin_sn (win s) \<le> g" "g < end_sn (win s)" for g
    using I'(6,11) that reclaim_behind [OF I] w by (fastforce simp: inv_vals_def)
  moreover have "array_val (win s) (calc_idx sz g) = ideal s g \<and> 0 < array_ref (win s) (calc_idx sz g)
      \<and> g < end_sn (win s)" if "handles s n = Some g" for n g
  proof -
    have p: "prot s g" using that by (auto simp: prot_def)
    then have "array_ref (win s) (calc_idx sz g) \<noteq> 0"
      using prot_users [OF p] ref_zero_users [OF I, of "calc_idx sz g"] w by simp
    moreover have "0 \<le> array_ref (win s) (calc_idx sz g)" using I'(4) by (simp add: inv_refs_def)
    ultimately show ?thesis using I'(5,6) p w by (auto simp: inv_prot_def inv_vals_def)
  qed
  moreover have "thr s t \<noteq> RevDone OB_ERR_UNEXPECTED \<and> thr s t \<noteq> SlDone OB_ERR_UNEXPECTED" for t
    using pcD [OF I, of t] by auto
  ultimately show ?thesis using I'(1) w by (auto simp: inv_win_def)
qed

text \<open>A slot that was slid but is still referenced keeps its content.\<close>

theorem sliding_window_safe_witness:
  "handles calm_state 0 = Some 0 \<and> begin_sn (win calm_state) = 1
    \<and> array_val (win calm_state) (calc_idx 2 0) = 7 \<and> rev (slid calm_state) = [0]"
proof -
  have "handles calm_state 0 = Some 0 \<and> begin_sn (win calm_state) = 1 \<and> ideal calm_state 0 = 7" by code_simp
  moreover from this have "array_val (win calm_state) (calc_idx 2 0) = ideal calm_state 0"
    using sliding_window_safe [OF calm_state_reach wit_init] by blast
  moreover have "rev (slid calm_state) = [0]"
    using sliding_window_safe [OF calm_state_reach wit_init] calculation(1) by simp
  ultimately show ?thesis by simp
qed





text \<open>C23. The assumption is needed: a \<^verbatim>\<open>get\<close> that is suspended between its first range check and its increment
  while the window moves on by its whole size makes \<^verbatim>\<open>revert_\<close> reset the slot of the log at the front of the window
  and advance \<^verbatim>\<open>end_sn_\<close> beyond the number of slots, because \<^verbatim>\<open>revert_\<close> compares \<^verbatim>\<open>tmp_id\<close>, not the id that the slot
  holds now, with \<^verbatim>\<open>begin_sn_\<close>.\<close>

theorem sliding_window_overtaken_reset:
  "\<exists>s. sw_reach (\<lambda>_. True) 0 wit_win s \<and> begin_sn (win s) = 2 \<and> 2 < end_sn (win s)
     \<and> ideal s 2 = 7 \<and> array_val (win s) (calc_idx 2 2) = 0
     \<and> end_sn (win s) > begin_sn (win s) + sw_size (win s)"
proof -
  have "overtaken_state \<noteq> None" by code_simp
  then obtain s where s: "overtaken_state = Some s" by blast
  have "map_option (\<lambda>s. (begin_sn (win s), end_sn (win s), ideal s 2, array_val (win s) (calc_idx 2 2), sw_size (win s)))
      overtaken_state = Some (2, 5, 7, 0, 2)"
    by code_simp
  with s run_reach [OF _ sw_reach.start, of 0 wit_win overtaking_run s] show ?thesis
    by (auto simp: overtaken_state_def)
qed

end
