(* ===== verification/NetAddr.thy ===== *)
theory NetAddr
  imports PalfPrelude
begin

text \<open>
  Server addresses, \<^verbatim>\<open>lib/net/ob_addr.h\<close>.  The tag \<^verbatim>\<open>version_\<close> and the member of the union
  \<^verbatim>\<open>ip_\<close> it selects are the two constructors; the twelve bytes of the union behind \<^verbatim>\<open>v4_\<close> are
  zero in every IPv4 address (the constructor and \<^verbatim>\<open>reset\<close> clear them) and are not represented.
  The sixteen bytes of \<^verbatim>\<open>v6_\<close> are one 128-bit number, first byte first, so that comparing the
  bytes in order is comparing the numbers.  Addresses of Unix domain sockets, which no replica has,
  are left out.

  The operators make the type a linear order; that \<^verbatim>\<open>operator==\<close> is equality is what lets the
  election compare addresses with \<open>=\<close>.
\<close>

datatype ObAddr = IPV4 u32 int | IPV6 "128 word" int

fun addr_version :: "ObAddr \<Rightarrow> int" where
  "addr_version (IPV4 _ _) = 4"
| "addr_version (IPV6 _ _) = 6"

fun addr_ip :: "ObAddr \<Rightarrow> int" where
  "addr_ip (IPV4 ip _) = uint ip"
| "addr_ip (IPV6 ip _) = uint ip"

fun addr_port :: "ObAddr \<Rightarrow> int" where
  "addr_port (IPV4 _ p) = p"
| "addr_port (IPV6 _ p) = p"

definition addr_new :: ObAddr where
  "addr_new = IPV4 0 0"

text \<open>\<^verbatim>\<open>reset\<close> clears the port and all but the first four bytes of the union; the version stays.\<close>

fun addr_reset :: "ObAddr \<Rightarrow> ObAddr" where
  "addr_reset (IPV4 ip _) = IPV4 ip 0"
| "addr_reset (IPV6 ip _) = IPV6 (push_bit 96 (drop_bit 96 ip)) 0"

definition addr_is_valid :: "ObAddr \<Rightarrow> bool" where
  "addr_is_valid a \<longleftrightarrow> \<not> addr_port a \<le> 0 \<and> addr_ip a \<noteq> 0"

definition addr_compare_refactored :: "ObAddr \<Rightarrow> ObAddr \<Rightarrow> int" where
  "addr_compare_refactored a b =
     (let ipcmp = (if addr_version a \<noteq> addr_version b then addr_version a - addr_version b
                   else addr_ip a - addr_ip b);
          ipcmp = (if ipcmp = 0 then addr_port a - addr_port b else ipcmp)
      in if ipcmp = 0 then 0 else if ipcmp > 0 then 1 else -1)"

lemma addr_compare_refactored_cases:
  "addr_compare_refactored a b = 0 \<longleftrightarrow> (addr_version a, addr_ip a, addr_port a) = (addr_version b, addr_ip b, addr_port b)"
  "addr_compare_refactored a b < 0 \<longleftrightarrow>
     addr_version a < addr_version b \<or> addr_version a = addr_version b
       \<and> (addr_ip a < addr_ip b \<or> addr_ip a = addr_ip b \<and> addr_port a < addr_port b)"
  by (auto simp: addr_compare_refactored_def Let_def)

lemma addr_fields_inject: "(addr_version a, addr_ip a, addr_port a) = (addr_version b, addr_ip b, addr_port b) \<longleftrightarrow> a = b"
  by (cases a; cases b) (auto simp: word_uint_eq_iff)

lemma addr_compare_eq: "addr_compare_refactored a b = 0 \<longleftrightarrow> a = b"
  unfolding addr_compare_refactored_cases(1) addr_fields_inject ..

lemma addr_reset_invalid [simp]: "\<not> addr_is_valid (addr_reset a)"
  by (cases a) (simp_all add: addr_is_valid_def)

lemma addr_new_invalid [simp]: "\<not> addr_is_valid addr_new"
  by (simp add: addr_is_valid_def addr_new_def)

instantiation ObAddr :: linorder
begin

definition less_ObAddr :: "ObAddr \<Rightarrow> ObAddr \<Rightarrow> bool" where
  "less_ObAddr a b \<longleftrightarrow> addr_compare_refactored a b < 0"

definition less_eq_ObAddr :: "ObAddr \<Rightarrow> ObAddr \<Rightarrow> bool" where
  "less_eq_ObAddr a b \<longleftrightarrow> \<not> addr_compare_refactored b a < 0"

instance
proof
  fix a b c :: ObAddr
  show "(a < b) = (a \<le> b \<and> \<not> b \<le> a)"
    by (auto simp: less_ObAddr_def less_eq_ObAddr_def addr_compare_refactored_cases(2))
  show "a \<le> a"
    by (simp add: less_eq_ObAddr_def addr_compare_refactored_cases(2))
  show "a \<le> b \<Longrightarrow> b \<le> c \<Longrightarrow> a \<le> c"
    by (auto simp: less_eq_ObAddr_def addr_compare_refactored_cases(2))
  show "a \<le> b \<Longrightarrow> b \<le> a \<Longrightarrow> a = b"
    by (rule addr_fields_inject [THEN iffD1]) (auto simp: less_eq_ObAddr_def addr_compare_refactored_cases(2))
  show "a \<le> b \<or> b \<le> a"
    by (auto simp: less_eq_ObAddr_def addr_compare_refactored_cases(2))
qed

end

end
