(* ===== verification/ConfigVersion.thy ===== *)
theory ConfigVersion
  imports Lsn RecordCodec
begin

text \<open>
  \<^verbatim>\<open>LogConfigVersion\<close> of \<^verbatim>\<open>log_meta_info.cpp\<close>: the version of the membership configuration, a
  proposal id and a sequence number, both \<^verbatim>\<open>int64_t\<close> (words compared as signed numbers).  The
  election compares versions before it counts a vote, so the operators must order them; they treat
  every invalid version as lower than every valid one and as incomparable with other invalid ones.
\<close>

record LogConfigVersion =
  cv_proposal_id :: u64
  cv_config_seq :: u64

definition cv_new :: LogConfigVersion where
  "cv_new = \<lparr>cv_proposal_id = INVALID_PROPOSAL_ID, cv_config_seq = -1\<rparr>"

definition cv_reset :: "LogConfigVersion \<Rightarrow> LogConfigVersion" where
  "cv_reset v = v\<lparr>cv_proposal_id := INVALID_PROPOSAL_ID, cv_config_seq := -1\<rparr>"

definition cv_is_valid :: "LogConfigVersion \<Rightarrow> bool" where
  "cv_is_valid v \<longleftrightarrow> cv_proposal_id v \<noteq> INVALID_PROPOSAL_ID \<and> 0 \<le>s cv_config_seq v"

definition cv_is_initial_version :: "LogConfigVersion \<Rightarrow> bool" where
  "cv_is_initial_version v \<longleftrightarrow> cv_config_seq v \<le>s 0"

definition cv_generate :: "LogConfigVersion \<Rightarrow> u64 \<Rightarrow> u64 \<Rightarrow> ob_ret \<times> LogConfigVersion" where
  "cv_generate v proposal_id config_seq =
     (if proposal_id = INVALID_PROPOSAL_ID \<or> config_seq <s 0 then (OB_INVALID_ARGUMENT, v)
      else (OB_SUCCESS, v\<lparr>cv_proposal_id := proposal_id, cv_config_seq := config_seq\<rparr>))"

text \<open>\<open>None\<close> is the signed overflow of \<^verbatim>\<open>config_seq_ += 1\<close>.\<close>

definition cv_inc_update_version :: "LogConfigVersion \<Rightarrow> u64 \<Rightarrow> (ob_ret \<times> LogConfigVersion) option" where
  "cv_inc_update_version v proposal_id =
     (if INVALID_PROPOSAL_ID = cv_proposal_id v \<or> cv_config_seq v <s 0 then Some (OB_NOT_INIT, v)
      else if INVALID_PROPOSAL_ID = proposal_id \<or> proposal_id <s cv_proposal_id v then Some (OB_INVALID_ARGUMENT, v)
      else if sint (cv_config_seq v) + 1 \<ge> 2 ^ 63 then None
      else Some (OB_SUCCESS, v\<lparr>cv_proposal_id := proposal_id, cv_config_seq := cv_config_seq v + 1\<rparr>))"

definition cv_gt :: "LogConfigVersion \<Rightarrow> LogConfigVersion \<Rightarrow> bool" where
  "cv_gt a b =
     (let self_valid = cv_is_valid a;
          arg_valid = cv_is_valid b;
          cmp_ret = cv_proposal_id b <s cv_proposal_id a
            \<or> cv_proposal_id a = cv_proposal_id b \<and> cv_config_seq b <s cv_config_seq a
      in if self_valid \<and> arg_valid then cmp_ret else if \<not> self_valid then False else True)"

definition cv_lt :: "LogConfigVersion \<Rightarrow> LogConfigVersion \<Rightarrow> bool" where
  "cv_lt a b =
     (let self_valid = cv_is_valid a;
          arg_valid = cv_is_valid b;
          cmp_ret = cv_proposal_id a <s cv_proposal_id b
            \<or> cv_proposal_id a = cv_proposal_id b \<and> cv_config_seq a <s cv_config_seq b
      in if self_valid \<and> arg_valid then cmp_ret else if \<not> arg_valid then False else True)"

definition cv_ge :: "LogConfigVersion \<Rightarrow> LogConfigVersion \<Rightarrow> bool" where
  "cv_ge a b \<longleftrightarrow> cv_gt a b \<or> a = b"

definition cv_le :: "LogConfigVersion \<Rightarrow> LogConfigVersion \<Rightarrow> bool" where
  "cv_le a b \<longleftrightarrow> cv_lt a b \<or> a = b"

definition cv_serialize :: "buffer \<Rightarrow> nat \<Rightarrow> nat \<Rightarrow> LogConfigVersion \<Rightarrow> enc_result" where
  "cv_serialize buf buf_len pos v =
     (if buf = None \<or> buf_len = 0 then (OB_INVALID_ARGUMENT, buf, pos)
      else case enc_all [\<lambda>b n p. encode_i64 b n p (cv_proposal_id v), \<lambda>b n p. encode_i64 b n p (cv_config_seq v)]
                  buf buf_len pos of
             (ret, buf', new_pos) \<Rightarrow> if ret \<noteq> OB_SUCCESS then (ret, buf', pos) else (OB_SUCCESS, buf', new_pos))"

definition cv_deserialize :: "buffer \<Rightarrow> nat \<Rightarrow> nat \<Rightarrow> LogConfigVersion dec_result" where
  "cv_deserialize buf data_len pos =
     (if buf = None \<or> data_len = 0 then Inl OB_INVALID_ARGUMENT
      else dec_bind (decode_i64 buf data_len pos) (\<lambda>proposal_id pos.
           dec_bind (decode_i64 buf data_len pos) (\<lambda>config_seq pos.
             Inr (\<lparr>cv_proposal_id = proposal_id, cv_config_seq = config_seq\<rparr>, pos))))"

definition cv_get_serialize_size :: nat where
  "cv_get_serialize_size = 8 + 8"

section \<open>The order\<close>

lemma cv_lt_iff: "cv_lt a b \<longleftrightarrow> cv_is_valid b \<and> (cv_is_valid a \<longrightarrow>
   sint (cv_proposal_id a) < sint (cv_proposal_id b)
   \<or> cv_proposal_id a = cv_proposal_id b \<and> sint (cv_config_seq a) < sint (cv_config_seq b))"
  by (auto simp: cv_lt_def Let_def word_sless_alt)

lemma cv_gt_iff: "cv_gt a b \<longleftrightarrow> cv_lt b a"
  by (auto simp: cv_lt_iff cv_gt_def Let_def word_sless_alt)

lemma cv_lt_irrefl [simp]: "\<not> cv_lt a a"
  by (simp add: cv_lt_iff)

lemma cv_lt_trans: "cv_lt a b \<Longrightarrow> cv_lt b c \<Longrightarrow> cv_lt a c"
  by (auto simp: cv_lt_iff)

lemma cv_lt_total: "cv_is_valid a \<Longrightarrow> cv_is_valid b \<Longrightarrow> cv_lt a b \<or> a = b \<or> cv_lt b a"
  by (cases a; cases b) (fastforce simp: cv_lt_iff sint_eq_iff [symmetric])

section \<open>The format\<close>

definition cv_bytes :: "LogConfigVersion \<Rightarrow> bytes" where
  "cv_bytes v = be64 (cv_proposal_id v) @ be64 (cv_config_seq v)"

lemma length_cv_bytes [simp]: "length (cv_bytes v) = 16"
  by (simp add: cv_bytes_def i64.length_to_bytes)

lemma cv_serialize_writes: "writes (\<lambda>b n p. cv_serialize b n p v) (cv_bytes v)"
proof -
  let ?es = "[\<lambda>b n p. encode_i64 b n p (cv_proposal_id v), \<lambda>b n p. encode_i64 b n p (cv_config_seq v)]"
  have "writes (enc_all ?es) (concat [be64 (cv_proposal_id v), be64 (cv_config_seq v)])"
    by (intro writes_enc_all) (simp add: i64.writes_enc)
  then have w: "writes (enc_all ?es) (cv_bytes v)" by (simp add: cv_bytes_def)
  have ne: "cv_bytes v \<noteq> []" by (metis length_cv_bytes list.size(3) zero_neq_numeral)
  show ?thesis
    by (intro writes_wrap [OF w ne]) (auto simp: cv_serialize_def split: prod.splits)
qed

lemma cv_deserialize_reads: "reads cv_deserialize v (cv_bytes v)"
proof -
  have "reads (\<lambda>buf data_len pos. dec_bind (decode_i64 buf data_len pos) (\<lambda>proposal_id pos.
      dec_bind (decode_i64 buf data_len pos) (\<lambda>config_seq pos.
        Inr (\<lparr>cv_proposal_id = proposal_id, cv_config_seq = config_seq\<rparr>, pos))))
    v (be64 (cv_proposal_id v) @ be64 (cv_config_seq v) @ [])"
    by (rule reads_bind, rule i64.reads_dec, rule reads_bind, rule i64.reads_dec) (simp add: reads_def)
  then show ?thesis
    using length_cv_bytes [of v] by (simp add: cv_bytes_def reads_def cv_deserialize_def)
qed

section \<open>Properties\<close>

text \<open>C33. The comparison operators of configuration versions agree with each other and order the
  versions: \<^verbatim>\<open><\<close> is the converse of \<^verbatim>\<open>>\<close>, it is irreflexive and transitive, two valid versions
  are always comparable, and an invalid version is below every valid one and not below or above
  another invalid one.  \<^verbatim>\<open><=\<close> and \<^verbatim>\<open>>=\<close> are converse to each other, \<^verbatim>\<open><=\<close> is a partial order, and on two
  versions of which at least one is valid \<^verbatim>\<open><=\<close> is the negation of \<^verbatim>\<open>>\<close> and \<^verbatim>\<open>>=\<close> the negation of \<^verbatim>\<open><\<close>.\<close>

theorem config_version_order:
  "(cv_lt a b \<longleftrightarrow> cv_gt b a) \<and> \<not> cv_lt a a \<and> (cv_lt a b \<and> cv_lt b c \<longrightarrow> cv_lt a c)
   \<and> (cv_is_valid a \<and> cv_is_valid b \<longrightarrow> cv_lt a b \<or> a = b \<or> cv_lt b a)
   \<and> (\<not> cv_is_valid a \<longrightarrow> cv_lt a b = cv_is_valid b)
   \<and> (cv_ge a b \<longleftrightarrow> cv_le b a) \<and> cv_le a a
   \<and> (cv_le a b \<and> cv_le b c \<longrightarrow> cv_le a c) \<and> (cv_le a b \<and> cv_le b a \<longrightarrow> a = b)
   \<and> (cv_is_valid a \<or> cv_is_valid b \<longrightarrow> (cv_le a b \<longleftrightarrow> \<not> cv_gt a b) \<and> (cv_ge a b \<longleftrightarrow> \<not> cv_lt a b))"
proof -
  have "cv_is_valid a \<or> cv_is_valid b \<Longrightarrow> cv_lt a b \<or> a = b \<or> cv_lt b a"
    using cv_lt_total [of a b] by (auto simp: cv_lt_iff)
  moreover have "\<not> (cv_lt a b \<and> cv_lt b a)" using cv_lt_trans [of a b a] by auto
  moreover have "\<not> cv_is_valid a \<longrightarrow> cv_lt a b = cv_is_valid b" by (simp add: cv_lt_iff)
  ultimately show ?thesis
    using cv_lt_trans [of a b c] unfolding cv_gt_iff cv_ge_def cv_le_def by auto
qed

theorem config_version_order_witness:
  "cv_lt \<lparr>cv_proposal_id = 2, cv_config_seq = 7\<rparr> \<lparr>cv_proposal_id = 3, cv_config_seq = 1\<rparr>
   \<and> cv_lt cv_new \<lparr>cv_proposal_id = 2, cv_config_seq = 7\<rparr>
   \<and> cv_lt cv_new \<lparr>cv_proposal_id = 3, cv_config_seq = 1\<rparr>
   \<and> cv_le cv_new \<lparr>cv_proposal_id = 2, cv_config_seq = 7\<rparr> \<and> \<not> cv_ge cv_new \<lparr>cv_proposal_id = 2, cv_config_seq = 7\<rparr>"
proof -
  have v: "cv_is_valid \<lparr>cv_proposal_id = 2, cv_config_seq = 7\<rparr>" "\<not> cv_is_valid cv_new"
    "cv_lt \<lparr>cv_proposal_id = 2, cv_config_seq = 7\<rparr> \<lparr>cv_proposal_id = 3, cv_config_seq = 1\<rparr>"
    by (simp_all add: cv_is_valid_def cv_lt_iff cv_new_def INVALID_PROPOSAL_ID_def word_sle_eq)
  then show ?thesis
    using config_version_order [of cv_new "\<lparr>cv_proposal_id = 2, cv_config_seq = 7\<rparr>" "\<lparr>cv_proposal_id = 3, cv_config_seq = 1\<rparr>"]
    by (auto simp: cv_gt_iff cv_lt_iff)
qed

text \<open>C34. \<^verbatim>\<open>inc_update_version\<close> yields a strictly greater version, or leaves the version unchanged
  with an error code; the increment overflows only at the last sequence number,
  \<open>2 ^ 63 - 1\<close>.\<close>

theorem config_version_inc:
  assumes "cv_config_seq v \<noteq> 0x7fffffffffffffff"
  shows "\<exists>ret w. cv_inc_update_version v pid = Some (ret, w)
    \<and> (if cv_is_valid v \<and> pid \<noteq> INVALID_PROPOSAL_ID \<and> sint (cv_proposal_id v) \<le> sint pid
       then ret = OB_SUCCESS \<and> cv_is_valid w \<and> cv_lt v w \<and> cv_proposal_id w = pid
         \<and> sint (cv_config_seq w) = sint (cv_config_seq v) + 1
       else ret \<noteq> OB_SUCCESS \<and> w = v)"
proof -
  let ?s = "sint (cv_config_seq v)"
  have ub: "?s < 2 ^ 63" using sint_lt [of "cv_config_seq v"] by simp
  have "?s \<noteq> 2 ^ 63 - 1"
  proof
    assume "?s = 2 ^ 63 - 1"
    then have "word_of_int ?s = (word_of_int (2 ^ 63 - 1) :: u64)" by simp
    then show False using assms by simp
  qed
  with ub have ub': "?s + 1 < 2 ^ 63" by simp
  have inc: "sint (cv_config_seq v + 1) = ?s + 1" if "0 \<le> ?s"
  proof -
    have "sint (cv_config_seq v + 1) = signed_take_bit 63 (?s + 1)"
      by (simp add: sint_word_ariths(1))
    also have "\<dots> = ?s + 1" using that ub' by (intro signed_take_bit_int_eq_self) auto
    finally show ?thesis .
  qed
  show ?thesis
    using ub' inc sint_eq_iff [of "cv_proposal_id v" pid]
    by (auto simp: cv_inc_update_version_def cv_is_valid_def cv_lt_iff word_sless_alt word_sle_eq)
qed

theorem config_version_inc_witness:
  "\<exists>w. cv_inc_update_version \<lparr>cv_proposal_id = 2, cv_config_seq = 7\<rparr> 5 = Some (OB_SUCCESS, w)
    \<and> cv_lt \<lparr>cv_proposal_id = 2, cv_config_seq = 7\<rparr> w"
  using config_version_inc [of "\<lparr>cv_proposal_id = 2, cv_config_seq = 7\<rparr>" 5]
  by (simp add: cv_is_valid_def INVALID_PROPOSAL_ID_def word_sle_eq) blast

text \<open>A configuration version written to a buffer with room for it reads back as it was, and
  without room the write reports an error.\<close>

theorem config_version_roundtrip:
  assumes "n \<le> length b" and "p \<le> n"
  shows "if p + cv_get_serialize_size \<le> n
    then \<exists>b'. cv_serialize (Some b) n p v = (OB_SUCCESS, Some b', p + cv_get_serialize_size)
      \<and> cv_deserialize (Some b') n p = Inr (v, p + cv_get_serialize_size)
    else fst (cv_serialize (Some b) n p v) \<noteq> OB_SUCCESS"
proof (cases "p + cv_get_serialize_size \<le> n")
  case True
  then have r: "cv_serialize (Some b) n p v = (OB_SUCCESS, Some (splice_at b p (cv_bytes v)), p + 16)"
    using writes_room [OF cv_serialize_writes assms(1), of p v] by (simp add: cv_get_serialize_size_def)
  show ?thesis
    using True r reads_all_room [OF cv_deserialize_reads cv_serialize_writes assms r]
    by (simp add: cv_get_serialize_size_def)
next
  case False
  then show ?thesis
    using writes_full [OF cv_serialize_writes assms, of v] by (simp add: cv_get_serialize_size_def)
qed

theorem config_version_roundtrip_witness:
  "\<exists>b'. cv_serialize (Some (replicate 20 0)) 20 3 \<lparr>cv_proposal_id = 2, cv_config_seq = 7\<rparr> = (OB_SUCCESS, Some b', 19)
    \<and> cv_deserialize (Some b') 20 3 = Inr (\<lparr>cv_proposal_id = 2, cv_config_seq = 7\<rparr>, 19)"
  using config_version_roundtrip [of 20 "replicate 20 0" 3 "\<lparr>cv_proposal_id = 2, cv_config_seq = 7\<rparr>"]
  by (simp add: cv_get_serialize_size_def)

end
