(* ===== verification/ElectionMsg.thy ===== *)
theory ElectionMsg
  imports NetAddr ConfigVersion
begin

text \<open>
  The messages of the election protocol and the lease they carry: \<^verbatim>\<open>election_common_define.h\<close>,
  \<^verbatim>\<open>election_message.h\<close>, \<^verbatim>\<open>election_message.cpp\<close> and the class \<^verbatim>\<open>Lease\<close> of
  \<^verbatim>\<open>election_utils.cpp\<close>.

  The message classes derive from \<^verbatim>\<open>ElectionMsgBase\<close>; they are extensions of its record.  Left
  out are the debug timestamps, which only feed the log, and the flags that choose between two wire
  formats.  Times are microseconds and ballots are counters, both \<open>int\<close>.  A \<^verbatim>\<open>const ElectionPriority *\<close>
  is an opaque reference: what its class computes is a parameter of the model (\<open>el_env\<close>).
\<close>

section \<open>Constants\<close>

definition MAX_LEASE_TIME :: int where "MAX_LEASE_TIME = 10000000"
definition PRIORITY_BUFFER_SIZE :: nat where "PRIORITY_BUFFER_SIZE = 512"
definition INVALID_VALUE :: int where "INVALID_VALUE = -1"
definition CACHE_EXPIRATION_TIME :: int where "CACHE_EXPIRATION_TIME = 5000000"

definition DEFAULT_SEED :: u64 where "DEFAULT_SEED = 2 ^ 12"
definition SEED_TEMORARILY_DOWNGRADE_PRIORIY_BIT :: u64 where "SEED_TEMORARILY_DOWNGRADE_PRIORIY_BIT = 2 ^ 22"
definition SEED_IN_REBUILD_PHASE_BIT :: u64 where "SEED_IN_REBUILD_PHASE_BIT = 2 ^ 32"
definition SEED_NOT_NORMOL_REPLICA_BIT :: u64 where "SEED_NOT_NORMOL_REPLICA_BIT = 2 ^ 48"

text \<open>The intervals derived from the global \<^verbatim>\<open>MAX_TST\<close>; \<^verbatim>\<open>0.5 * MAX_TST\<close> is a \<^verbatim>\<open>double\<close> that is
  converted back to \<^verbatim>\<open>int64_t\<close>, which truncates.\<close>

definition CALCULATE_RENEW_LEASE_INTERVAL :: "int \<Rightarrow> int" where
  "CALCULATE_RENEW_LEASE_INTERVAL MAX_TST = min (sgn MAX_TST * (\<bar>MAX_TST\<bar> div 2)) 500000"
definition CALCULATE_TIME_WINDOW_SPAN_TS :: "int \<Rightarrow> int" where
  "CALCULATE_TIME_WINDOW_SPAN_TS MAX_TST = 2 * MAX_TST"
definition CALCULATE_MAX_ELECT_COST_TIME :: "int \<Rightarrow> int" where
  "CALCULATE_MAX_ELECT_COST_TIME MAX_TST = 10 * MAX_TST"
definition CALCULATE_LEASE_INTERVAL :: "int \<Rightarrow> int" where
  "CALCULATE_LEASE_INTERVAL MAX_TST = 4 * MAX_TST"
definition CALCULATE_TRIGGER_ELECT_WATER_MARK :: "int \<Rightarrow> int" where
  "CALCULATE_TRIGGER_ELECT_WATER_MARK MAX_TST = min MAX_TST 1000000"

lemmas election_const =
  MAX_LEASE_TIME_def INVALID_VALUE_def CACHE_EXPIRATION_TIME_def
  CALCULATE_RENEW_LEASE_INTERVAL_def CALCULATE_TIME_WINDOW_SPAN_TS_def CALCULATE_MAX_ELECT_COST_TIME_def
  CALCULATE_LEASE_INTERVAL_def CALCULATE_TRIGGER_ELECT_WATER_MARK_def

datatype ObRole = INVALID_ROLE | LEADER | FOLLOWER | STANDBY_LEADER | RESTORE_LEADER

datatype RoleChangeReason =
    DevoteToBeLeader | ChangeLeaderToBeLeader | LeaseExpiredToRevoke | ChangeLeaderToRevoke | StopToRevoke

section \<open>The lease of an acceptor\<close>

record Lease =
  l_owner :: ObAddr
  l_lease_end_ts :: int
  l_ballot_number :: int

definition lease_new :: Lease where
  "lease_new = \<lparr>l_owner = addr_new, l_lease_end_ts = INVALID_VALUE, l_ballot_number = INVALID_VALUE\<rparr>"

text \<open>\<^verbatim>\<open>is_expired\<close> compares with a reading of the local monotonic clock.  \<^verbatim>\<open>reset\<close> keeps the
  ballot.\<close>

definition lease_is_expired :: "int \<Rightarrow> Lease \<Rightarrow> bool" where
  "lease_is_expired ts l \<longleftrightarrow> ts > l_lease_end_ts l"

definition lease_reset :: "Lease \<Rightarrow> Lease" where
  "lease_reset l = l\<lparr>l_owner := addr_reset (l_owner l), l_lease_end_ts := -1\<rparr>"

definition lease_is_empty :: "Lease \<Rightarrow> bool" where
  "lease_is_empty l \<longleftrightarrow> \<not> addr_is_valid (l_owner l) \<and> l_lease_end_ts l = -1"

section \<open>Messages\<close>

datatype ElectionMsgType =
    PREPARE_REQUEST | PREPARE_RESPONSE | ACCEPT_REQUEST | ACCEPT_RESPONSE | CHANGE_LEADER | INVALID_TYPE

record ElectionMsgBase =
  m_id :: int
  m_sender :: ObAddr
  m_receiver :: ObAddr
  m_restart_counter :: int
  m_ballot_number :: int
  m_version :: u64  \<comment> \<open>\<^verbatim>\<open>biggest_min_cluster_version_ever_seen_\<close>\<close>
  m_type :: ElectionMsgType

record ElectionPrepareRequestMsg = ElectionMsgBase +
  pq_role :: ObRole
  pq_is_buffer_valid :: bool
  pq_inner_priority_seed :: u64
  pq_membership_version :: LogConfigVersion
  pq_priority_buffer :: bytes

record ElectionPrepareResponseMsg = ElectionMsgBase +
  pr_accepted :: bool
  pr_lease :: Lease

record ElectionAcceptRequestMsg = ElectionMsgBase +
  aq_lease_start_ts_on_proposer :: int
  aq_lease_interval :: int
  aq_membership_version :: LogConfigVersion

record ElectionAcceptResponseMsg = ElectionMsgBase +
  ar_lease_started_ts_on_proposer :: int
  ar_lease_interval :: int
  ar_accepted :: bool
  ar_is_buffer_valid :: bool
  ar_inner_priority_seed :: u64
  ar_responsed_membership_version :: LogConfigVersion
  ar_membership_version :: LogConfigVersion
  ar_priority_buffer :: bytes

record ElectionChangeLeaderMsg = ElectionMsgBase +
  cl_switch_source_leader_ballot :: int
  cl_membership_version :: LogConfigVersion

datatype el_msg =
    PrepareReq ElectionPrepareRequestMsg
  | PrepareRes ElectionPrepareResponseMsg
  | AcceptReq ElectionAcceptRequestMsg
  | AcceptRes ElectionAcceptResponseMsg
  | ChangeLeader ElectionChangeLeaderMsg

fun el_msg_set_receiver :: "ObAddr \<Rightarrow> el_msg \<Rightarrow> el_msg" where
  "el_msg_set_receiver a (PrepareReq m) = PrepareReq (m\<lparr>m_receiver := a\<rparr>)"
| "el_msg_set_receiver a (PrepareRes m) = PrepareRes (m\<lparr>m_receiver := a\<rparr>)"
| "el_msg_set_receiver a (AcceptReq m) = AcceptReq (m\<lparr>m_receiver := a\<rparr>)"
| "el_msg_set_receiver a (AcceptRes m) = AcceptRes (m\<lparr>m_receiver := a\<rparr>)"
| "el_msg_set_receiver a (ChangeLeader m) = ChangeLeader (m\<lparr>m_receiver := a\<rparr>)"

fun el_msg_receiver :: "el_msg \<Rightarrow> ObAddr" where
  "el_msg_receiver (PrepareReq m) = m_receiver m"
| "el_msg_receiver (PrepareRes m) = m_receiver m"
| "el_msg_receiver (AcceptReq m) = m_receiver m"
| "el_msg_receiver (AcceptRes m) = m_receiver m"
| "el_msg_receiver (ChangeLeader m) = m_receiver m"

fun el_msg_sender :: "el_msg \<Rightarrow> ObAddr" where
  "el_msg_sender (PrepareReq m) = m_sender m"
| "el_msg_sender (PrepareRes m) = m_sender m"
| "el_msg_sender (AcceptReq m) = m_sender m"
| "el_msg_sender (AcceptRes m) = m_sender m"
| "el_msg_sender (ChangeLeader m) = m_sender m"

definition msg_base_reset :: "'a ElectionMsgBase_scheme \<Rightarrow> 'a ElectionMsgBase_scheme" where
  "msg_base_reset m = m\<lparr>m_sender := addr_reset (m_sender m), m_receiver := addr_reset (m_receiver m),
     m_restart_counter := INVALID_VALUE, m_ballot_number := INVALID_VALUE, m_version := 0, m_type := INVALID_TYPE\<rparr>"

definition msg_base_is_valid :: "'a ElectionMsgBase_scheme \<Rightarrow> bool" where
  "msg_base_is_valid m \<longleftrightarrow> addr_is_valid (m_sender m) \<and> addr_is_valid (m_receiver m)
     \<and> m_restart_counter m \<noteq> INVALID_VALUE \<and> m_ballot_number m \<noteq> INVALID_VALUE \<and> m_type m \<noteq> INVALID_TYPE"

section \<open>What the election relies on\<close>

text \<open>
  One activation of the election (a message handler, a timer task or a call of its interface) runs
  with an environment: the readings of \<^verbatim>\<open>get_monotonic_ts\<close> and of \<^verbatim>\<open>ObClockGenerator\<close> in the order
  in which the activation takes them, the globals \<^verbatim>\<open>MAX_TST\<close> and \<^verbatim>\<open>INIT_TS\<close>, the return codes of
  the message sender, the timer and the leader change callback, the cluster version, and the class
  behind \<^verbatim>\<open>ElectionPriority\<close>.
\<close>

type_synonym priority_ref = nat

record el_env =
  mono :: "nat \<Rightarrow> int"
  wall :: "nat \<Rightarrow> int"
  max_tst :: int
  init_ts :: int
  send_ret :: "el_msg \<Rightarrow> ob_ret"
  reschedule_ret :: ob_ret
  change_leader_cb :: "ob_ret option"  \<comment> \<open>\<open>None\<close>: the callback is not valid\<close>
  min_cluster_version :: u64
  arbitration_mode :: bool
  priority_serialize :: "priority_ref \<Rightarrow> ob_ret \<times> bytes"
  priority_deserialize :: "priority_ref \<Rightarrow> bytes \<Rightarrow> ob_ret"
  priority_compare :: "priority_ref \<Rightarrow> bytes \<Rightarrow> bytes \<Rightarrow> u64 \<Rightarrow> bool \<Rightarrow> ob_ret \<times> int"
  priority_has_fatal_failure :: "priority_ref \<Rightarrow> bool"

section \<open>Constructors and setters\<close>

definition prepare_req_default :: ElectionPrepareRequestMsg where
  "prepare_req_default = \<lparr>m_id = INVALID_VALUE, m_sender = addr_new, m_receiver = addr_new,
     m_restart_counter = INVALID_VALUE, m_ballot_number = INVALID_VALUE, m_version = 0, m_type = INVALID_TYPE,
     pq_role = INVALID_ROLE, pq_is_buffer_valid = False, pq_inner_priority_seed = DEFAULT_SEED,
     pq_membership_version = cv_new, pq_priority_buffer = replicate PRIORITY_BUFFER_SIZE 0\<rparr>"

definition prepare_req_new ::
  "int \<Rightarrow> ObAddr \<Rightarrow> int \<Rightarrow> int \<Rightarrow> u64 \<Rightarrow> u64 \<Rightarrow> LogConfigVersion \<Rightarrow> ElectionPrepareRequestMsg" where
  "prepare_req_new mid self_addr restart_counter ballot_number version seed membership_version =
     \<lparr>m_id = mid, m_sender = self_addr, m_receiver = addr_new, m_restart_counter = restart_counter,
      m_ballot_number = ballot_number, m_version = version, m_type = PREPARE_REQUEST,
      pq_role = INVALID_ROLE, pq_is_buffer_valid = False, pq_inner_priority_seed = seed,
      pq_membership_version = membership_version, pq_priority_buffer = replicate PRIORITY_BUFFER_SIZE 0\<rparr>"

definition prepare_req_set ::
  "el_env \<Rightarrow> priority_ref option \<Rightarrow> ObRole \<Rightarrow> ElectionPrepareRequestMsg \<Rightarrow> ob_ret \<times> ElectionPrepareRequestMsg" where
  "prepare_req_set E priority role m =
     (let m = m\<lparr>pq_role := role\<rparr>
      in case priority of
           None \<Rightarrow> (OB_SUCCESS, m)
         | Some p \<Rightarrow>
             (case priority_serialize E p of
                (ret, buf) \<Rightarrow>
                  if ret \<noteq> OB_SUCCESS then (ret, m\<lparr>pq_priority_buffer := buf\<rparr>)
                  else (OB_SUCCESS, m\<lparr>pq_priority_buffer := buf, pq_is_buffer_valid := True\<rparr>)))"

definition prepare_res_new :: "ObAddr \<Rightarrow> u64 \<Rightarrow> ElectionPrepareRequestMsg \<Rightarrow> ElectionPrepareResponseMsg" where
  "prepare_res_new self_addr version request =
     \<lparr>m_id = m_id request, m_sender = self_addr, m_receiver = m_sender request,
      m_restart_counter = m_restart_counter request, m_ballot_number = INVALID_VALUE, m_version = version,
      m_type = PREPARE_RESPONSE, pr_accepted = False, pr_lease = lease_new\<rparr>"

definition prepare_res_set_accepted :: "int \<Rightarrow> Lease \<Rightarrow> ElectionPrepareResponseMsg \<Rightarrow> ElectionPrepareResponseMsg" where
  "prepare_res_set_accepted ballot_number lease m =
     m\<lparr>m_ballot_number := ballot_number, pr_lease := lease, pr_accepted := True\<rparr>"

definition prepare_res_set_rejected :: "int \<Rightarrow> ElectionPrepareResponseMsg \<Rightarrow> ElectionPrepareResponseMsg" where
  "prepare_res_set_rejected ballot_number m = m\<lparr>m_ballot_number := ballot_number, pr_accepted := False\<rparr>"

definition accept_req_new ::
  "int \<Rightarrow> ObAddr \<Rightarrow> int \<Rightarrow> int \<Rightarrow> u64 \<Rightarrow> int \<Rightarrow> int \<Rightarrow> LogConfigVersion \<Rightarrow> ElectionAcceptRequestMsg" where
  "accept_req_new mid self_addr restart_counter ballot_number version lease_start_ts lease_interval membership_version =
     \<lparr>m_id = mid, m_sender = self_addr, m_receiver = addr_new, m_restart_counter = restart_counter,
      m_ballot_number = ballot_number, m_version = version, m_type = ACCEPT_REQUEST,
      aq_lease_start_ts_on_proposer = lease_start_ts, aq_lease_interval = lease_interval,
      aq_membership_version = membership_version\<rparr>"

definition accept_res_default :: ElectionAcceptResponseMsg where
  "accept_res_default = \<lparr>m_id = INVALID_VALUE, m_sender = addr_new, m_receiver = addr_new,
     m_restart_counter = INVALID_VALUE, m_ballot_number = INVALID_VALUE, m_version = 0, m_type = INVALID_TYPE,
     ar_lease_started_ts_on_proposer = 0, ar_lease_interval = 0, ar_accepted = False, ar_is_buffer_valid = False,
     ar_inner_priority_seed = DEFAULT_SEED, ar_responsed_membership_version = cv_new, ar_membership_version = cv_new,
     ar_priority_buffer = replicate PRIORITY_BUFFER_SIZE 0\<rparr>"

definition accept_res_new ::
  "ObAddr \<Rightarrow> u64 \<Rightarrow> LogConfigVersion \<Rightarrow> u64 \<Rightarrow> ElectionAcceptRequestMsg \<Rightarrow> ElectionAcceptResponseMsg" where
  "accept_res_new self_addr seed membership_version version request =
     \<lparr>m_id = m_id request, m_sender = self_addr, m_receiver = m_sender request,
      m_restart_counter = m_restart_counter request, m_ballot_number = INVALID_VALUE, m_version = version,
      m_type = ACCEPT_RESPONSE,
      ar_lease_started_ts_on_proposer = aq_lease_start_ts_on_proposer request,
      ar_lease_interval = aq_lease_interval request, ar_accepted = False, ar_is_buffer_valid = False,
      ar_inner_priority_seed = seed, ar_responsed_membership_version = aq_membership_version request,
      ar_membership_version = membership_version, ar_priority_buffer = replicate PRIORITY_BUFFER_SIZE 0\<rparr>"

definition accept_res_set_accepted ::
  "el_env \<Rightarrow> int \<Rightarrow> priority_ref option \<Rightarrow> ElectionAcceptResponseMsg \<Rightarrow> ob_ret \<times> ElectionAcceptResponseMsg" where
  "accept_res_set_accepted E ballot_number priority m =
     (let m = m\<lparr>m_ballot_number := ballot_number, ar_accepted := True\<rparr>
      in case priority of
           None \<Rightarrow> (OB_SUCCESS, m)
         | Some p \<Rightarrow>
             (case priority_serialize E p of
                (ret, buf) \<Rightarrow>
                  if ret \<noteq> OB_SUCCESS then (ret, m\<lparr>ar_priority_buffer := buf\<rparr>)
                  else (OB_SUCCESS, m\<lparr>ar_priority_buffer := buf, ar_is_buffer_valid := True\<rparr>)))"

definition accept_res_set_rejected :: "int \<Rightarrow> ElectionAcceptResponseMsg \<Rightarrow> ElectionAcceptResponseMsg" where
  "accept_res_set_rejected ballot_number m = m\<lparr>m_ballot_number := ballot_number, ar_accepted := False\<rparr>"

definition change_leader_new ::
  "int \<Rightarrow> ObAddr \<Rightarrow> int \<Rightarrow> int \<Rightarrow> u64 \<Rightarrow> int \<Rightarrow> LogConfigVersion \<Rightarrow> ElectionChangeLeaderMsg" where
  "change_leader_new mid self_addr restart_counter ballot_number version old_ballot membership_version =
     \<lparr>m_id = mid, m_sender = self_addr, m_receiver = addr_new, m_restart_counter = restart_counter,
      m_ballot_number = ballot_number, m_version = version, m_type = CHANGE_LEADER,
      cl_switch_source_leader_ballot = old_ballot, cl_membership_version = membership_version\<rparr>"

text \<open>\<^verbatim>\<open>Lease::update_from\<close>; \<open>None\<close> is the failure of its assertion.\<close>

definition lease_update_from :: "int \<Rightarrow> ElectionAcceptRequestMsg \<Rightarrow> Lease \<Rightarrow> Lease option" where
  "lease_update_from ts accept_req l =
     (let l = l\<lparr>l_owner := m_sender accept_req,
                l_lease_end_ts := max (l_lease_end_ts l) (ts + aq_lease_interval accept_req)\<rparr>
      in if \<not> m_ballot_number accept_req \<ge> l_ballot_number l then None
         else Some (l\<lparr>l_ballot_number := m_ballot_number accept_req\<rparr>))"

end
