(* ===== verification/ElectionMembers.thy ===== *)
theory ElectionMembers
  imports ElectionMsg "HOL-Library.Multiset"
begin

text \<open>
  The member list of an election and what a proposer records of each member:
  \<^verbatim>\<open>election_member_list.cpp\<close> and the class \<^verbatim>\<open>MemberListWithStates\<close> of \<^verbatim>\<open>election_utils.cpp\<close> with
  the templates of \<^verbatim>\<open>election_utils.h\<close> it uses.

  \<^verbatim>\<open>replica_num_\<close> is a \<^verbatim>\<open>uint8_t\<close>; the arrays have that many cells and are indexed by positions of
  the address list, so an address list longer than \<^verbatim>\<open>replica_num_\<close> leads outside them.  Such an
  access is \<open>None\<close>; \<open>mls_wf\<close> is the invariant that excludes it.  The pointer \<^verbatim>\<open>p_impl_\<close> is not null
  once \<^verbatim>\<open>init\<close> has succeeded, so its target is the model's state.
\<close>

section \<open>Member lists\<close>

record MemberList =
  ml_addr_list :: "ObAddr list"
  ml_membership_version :: LogConfigVersion
  ml_replica_num :: u8

definition ml_new :: MemberList where
  "ml_new = \<lparr>ml_addr_list = [], ml_membership_version = cv_new, ml_replica_num = 0\<rparr>"

definition ml_get_replica_num :: "MemberList \<Rightarrow> nat" where
  "ml_get_replica_num ml = unat (ml_replica_num ml)"

definition ml_is_valid :: "MemberList \<Rightarrow> bool" where
  "ml_is_valid ml \<longleftrightarrow> length (ml_addr_list ml) \<noteq> 0 \<and> cv_is_valid (ml_membership_version ml) \<and> ml_replica_num ml > 0"

definition ml_eq :: "MemberList \<Rightarrow> MemberList \<Rightarrow> bool" where
  "ml_eq a b =
     (let valid_member_list_count = (if ml_is_valid b then 1 else 0) + (if ml_is_valid a then 1 else 0 :: int)
      in if valid_member_list_count = 0 then True
         else if valid_member_list_count = 2 then
           (if ml_membership_version a = ml_membership_version b \<and> ml_replica_num a = ml_replica_num b then
              (if length (ml_addr_list a) = length (ml_addr_list b)
               then (\<forall>i \<in> set [0..<length (ml_addr_list a)]. ml_addr_list a ! i = ml_addr_list b ! i)
               else False)
            else False)
         else False)"

definition ml_only_membership_version_different :: "MemberList \<Rightarrow> MemberList \<Rightarrow> bool" where
  "ml_only_membership_version_different a b =
     (if ml_eq a b then True
      else if ml_replica_num a \<noteq> ml_replica_num b then False
      else if length (ml_addr_list a) \<noteq> length (ml_addr_list b) then False
      else (\<forall>i \<in> set [0..<length (ml_addr_list a)]. ml_addr_list a ! i = ml_addr_list b ! i))"

text \<open>The argument \<^verbatim>\<open>replica_num\<close> is an \<^verbatim>\<open>int64_t\<close> stored in a \<^verbatim>\<open>uint8_t\<close>.  \<open>assign_ret\<close> is the
  result of copying the address array.\<close>

definition ml_set_new_member_list ::
  "ob_ret \<Rightarrow> ObAddr list \<Rightarrow> LogConfigVersion \<Rightarrow> int \<Rightarrow> MemberList \<Rightarrow> ob_ret \<times> MemberList" where
  "ml_set_new_member_list assign_ret addr_list membership_version replica_num ml =
     (if assign_ret \<noteq> OB_SUCCESS then (assign_ret, ml)
      else (OB_SUCCESS, ml\<lparr>ml_addr_list := addr_list, ml_membership_version := membership_version,
                           ml_replica_num := word_of_int replica_num\<rparr>))"

section \<open>Counting and sorting\<close>

fun count_if :: "'a list \<Rightarrow> ('a \<Rightarrow> bool) \<Rightarrow> nat" where
  "count_if [] f = 0"
| "count_if (x # xs) f = (if f x then 1 + count_if xs f else count_if xs f)"

text \<open>The two loops of \<^verbatim>\<open>bubble_sort_desc\<close>: \<open>bubble_pass m\<close> is the inner loop with \<open>m\<close> rounds.\<close>

definition bubble_step :: "nat \<Rightarrow> 'a::linorder list \<Rightarrow> 'a list" where
  "bubble_step j xs = (if xs ! j < xs ! (j + 1) then xs[j := xs ! (j + 1), j + 1 := xs ! j] else xs)"

definition bubble_pass :: "nat \<Rightarrow> 'a::linorder list \<Rightarrow> 'a list" where
  "bubble_pass m xs = fold bubble_step [0..<m] xs"

definition bubble_sort_desc :: "'a::linorder list \<Rightarrow> 'a list" where
  "bubble_sort_desc xs =
     (if length xs \<ge> 2 then fold (\<lambda>i ys. bubble_pass (length ys - i - 1) ys) [0..<length xs - 1] xs else xs)"

text \<open>\<open>None\<close> is the access outside an empty array.\<close>

definition get_sorted_majority_one_desc :: "'a::linorder list \<Rightarrow> 'a option" where
  "get_sorted_majority_one_desc xs =
     (let temp_array = bubble_sort_desc xs
      in if length temp_array div 2 < length temp_array then Some (temp_array ! (length temp_array div 2)) else None)"

section \<open>Member lists with states\<close>

record PImpl =
  member_list :: MemberList
  prepare_ok :: "bool list"
  accept_ok_promise_not_vote_before_local_ts :: "int list"
  follower_renew_lease_success_membership_version :: "LogConfigVersion list"

definition mls_new :: PImpl where
  "mls_new = \<lparr>member_list = ml_new, prepare_ok = [], accept_ok_promise_not_vote_before_local_ts = [],
     follower_renew_lease_success_membership_version = []\<rparr>"

text \<open>\<^verbatim>\<open>init\<close>: the new state, or no state when the memory for it is missing.\<close>

definition mls_init :: "bool \<Rightarrow> ob_ret \<times> PImpl option" where
  "mls_init malloc_ok = (if \<not> malloc_ok then (OB_ALLOCATE_MEMORY_FAILED, None) else (OB_SUCCESS, Some mls_new))"

definition mls_init_array :: "nat \<Rightarrow> 'a \<Rightarrow> 'a list" where
  "mls_init_array n default_value = replicate n default_value"

definition mls_copy_state :: "PImpl \<Rightarrow> nat \<times> nat \<Rightarrow> PImpl \<Rightarrow> PImpl option" where
  "mls_copy_state old ij new =
     (case ij of (i, j) \<Rightarrow>
        if ml_addr_list (member_list old) ! i = ml_addr_list (member_list new) ! j then
          (if i < length (prepare_ok old) \<and> i < length (accept_ok_promise_not_vote_before_local_ts old)
              \<and> i < length (follower_renew_lease_success_membership_version old)
              \<and> j < length (prepare_ok new) \<and> j < length (accept_ok_promise_not_vote_before_local_ts new)
              \<and> j < length (follower_renew_lease_success_membership_version new)
           then Some (new\<lparr>
             prepare_ok := (prepare_ok new)[j := prepare_ok old ! i],
             accept_ok_promise_not_vote_before_local_ts :=
               (accept_ok_promise_not_vote_before_local_ts new)[j := accept_ok_promise_not_vote_before_local_ts old ! i],
             follower_renew_lease_success_membership_version :=
               (follower_renew_lease_success_membership_version new)[j := follower_renew_lease_success_membership_version old ! i]\<rparr>)
           else None)
        else Some new)"

definition mls_copy_states :: "PImpl \<Rightarrow> PImpl \<Rightarrow> PImpl option" where
  "mls_copy_states old new =
     fold (\<lambda>ij r. Option.bind r (mls_copy_state old ij))
       (List.product [0..<length (ml_addr_list (member_list old))] [0..<length (ml_addr_list (member_list new))])
       (Some new)"

text \<open>\<^verbatim>\<open>set_member_list\<close>: \<open>malloc_ok\<close> tells whether the memory of the new state could be had,
  \<open>mem k\<close> the result of filling its \<open>k\<close>-th array.  A failed \<^verbatim>\<open>mtl_malloc\<close> leaves \<^verbatim>\<open>ret\<close> at
  \<^verbatim>\<open>OB_SUCCESS\<close>.\<close>

definition mls_set_member_list ::
  "bool \<Rightarrow> (nat \<Rightarrow> ob_ret) \<Rightarrow> MemberList \<Rightarrow> PImpl \<Rightarrow> (ob_ret \<times> PImpl) option" where
  "mls_set_member_list malloc_ok mem new_member_list p =
     (let only_membership_version_different =
        (if ml_get_replica_num (member_list p) \<noteq> ml_get_replica_num new_member_list then False
         else if length (ml_addr_list (member_list p)) \<noteq> length (ml_addr_list new_member_list) then False
         else (\<forall>i \<in> set [0..<length (ml_addr_list new_member_list)].
                 ml_addr_list new_member_list ! i = ml_addr_list (member_list p) ! i))
      in if only_membership_version_different
         then Some (OB_SUCCESS, p\<lparr>member_list :=
                (member_list p)\<lparr>ml_membership_version := ml_membership_version new_member_list\<rparr>\<rparr>)
         else if \<not> malloc_ok then Some (OB_SUCCESS, p)
         else if mem 0 \<noteq> OB_SUCCESS then Some (mem 0, p)
         else if mem 1 \<noteq> OB_SUCCESS then Some (mem 1, p)
         else if mem 2 \<noteq> OB_SUCCESS then Some (mem 2, p)
         else if mem 3 \<noteq> OB_SUCCESS then Some (mem 3, p)
         else map_option (Pair OB_SUCCESS) (mls_copy_states p
                \<lparr>member_list = new_member_list,
                 prepare_ok = mls_init_array (ml_get_replica_num new_member_list) False,
                 accept_ok_promise_not_vote_before_local_ts = mls_init_array (ml_get_replica_num new_member_list) 0,
                 follower_renew_lease_success_membership_version =
                   mls_init_array (ml_get_replica_num new_member_list) cv_new\<rparr>))"

definition mls_clear_prepare_and_accept_states :: "PImpl \<Rightarrow> PImpl" where
  "mls_clear_prepare_and_accept_states p =
     p\<lparr>prepare_ok := mls_init_array (ml_get_replica_num (member_list p)) False,
       accept_ok_promise_not_vote_before_local_ts := mls_init_array (ml_get_replica_num (member_list p)) 0\<rparr>"

fun mls_index_loop :: "ObAddr \<Rightarrow> nat \<Rightarrow> ObAddr list \<Rightarrow> nat option" where
  "mls_index_loop addr idx [] = None"
| "mls_index_loop addr idx (a # as) = (if a = addr then Some idx else mls_index_loop addr (idx + 1) as)"

definition mls_get_server_idx_in_memberlist :: "ObAddr \<Rightarrow> PImpl \<Rightarrow> nat option" where
  "mls_get_server_idx_in_memberlist addr p = mls_index_loop addr 0 (ml_addr_list (member_list p))"

definition mls_record_prepare_ok :: "ElectionPrepareResponseMsg \<Rightarrow> PImpl \<Rightarrow> (ob_ret \<times> PImpl) option" where
  "mls_record_prepare_ok prepare_res p =
     (case mls_get_server_idx_in_memberlist (m_sender prepare_res) p of
        None \<Rightarrow> Some (OB_ENTRY_NOT_EXIST, p)
      | Some idx \<Rightarrow>
          if \<not> idx < length (prepare_ok p) then None
          else
            let p = p\<lparr>prepare_ok := (prepare_ok p)[idx := True]\<rparr>;
                ok_count = count_if (prepare_ok p) (\<lambda>v. v);
                majority = ml_get_replica_num (member_list p) div 2 + 1
            in Some (if ok_count < majority then OB_ELECTION_BELOW_MAJORITY
                     else if ok_count > majority then OB_ELECTION_OVER_MAJORITY
                     else OB_SUCCESS, p))"

definition cv_max :: "LogConfigVersion \<Rightarrow> LogConfigVersion \<Rightarrow> LogConfigVersion" where
  "cv_max a b = (if cv_gt a b then a else b)"

definition mls_record_accept_ok :: "ElectionAcceptResponseMsg \<Rightarrow> PImpl \<Rightarrow> (ob_ret \<times> PImpl) option" where
  "mls_record_accept_ok accept_res p =
     (case mls_get_server_idx_in_memberlist (m_sender accept_res) p of
        None \<Rightarrow> Some (OB_ENTRY_NOT_EXIST, p)
      | Some idx \<Rightarrow>
          if \<not> (idx < length (accept_ok_promise_not_vote_before_local_ts p)
                 \<and> idx < length (follower_renew_lease_success_membership_version p)) then None
          else
            let write_ts = max (accept_ok_promise_not_vote_before_local_ts p ! idx)
                  (ar_lease_started_ts_on_proposer accept_res + ar_lease_interval accept_res);
                write_version = follower_renew_lease_success_membership_version p ! idx;
                write_version = (if \<not> cv_is_valid write_version then ar_responsed_membership_version accept_res
                                 else cv_max write_version (ar_responsed_membership_version accept_res));
                p = p\<lparr>accept_ok_promise_not_vote_before_local_ts :=
                        (accept_ok_promise_not_vote_before_local_ts p)[idx := write_ts],
                      follower_renew_lease_success_membership_version :=
                        (follower_renew_lease_success_membership_version p)[idx := write_version]\<rparr>;
                ok_count = count_if (accept_ok_promise_not_vote_before_local_ts p) (\<lambda>v. v \<noteq> 0);
                majority = ml_get_replica_num (member_list p) div 2 + 1
            in Some (if ok_count < majority then OB_ELECTION_BELOW_MAJORITY else OB_SUCCESS, p))"

definition mls_get_majority_promised_not_vote_ts :: "PImpl \<Rightarrow> int option" where
  "mls_get_majority_promised_not_vote_ts p =
     get_sorted_majority_one_desc (accept_ok_promise_not_vote_before_local_ts p)"

definition mls_is_synced_with_majority :: "PImpl \<Rightarrow> bool" where
  "mls_is_synced_with_majority p =
     (if \<not> cv_is_valid (ml_membership_version (member_list p)) then True
      else let version = ml_membership_version (member_list p);
               sync_count = count_if (follower_renew_lease_success_membership_version p) (\<lambda>v. v = version)
           in sync_count \<ge> ml_get_replica_num (member_list p) div 2 + 1)"

section \<open>Correctness of the sort\<close>

lemma count_if_filter: "count_if xs f = length (filter f xs)"
  by (induction xs) auto

lemma count_if_card: "count_if xs f = card {i. i < length xs \<and> f (xs ! i)}"
  by (simp add: count_if_filter length_filter_conv_card)

lemma bubble_step_simps [simp]:
  "length (bubble_step j xs) = length xs"
  "Suc j < length xs \<Longrightarrow> mset (bubble_step j xs) = mset xs"
  "k \<noteq> j \<Longrightarrow> k \<noteq> Suc j \<Longrightarrow> bubble_step j xs ! k = xs ! k"
  "Suc j < length xs \<Longrightarrow> bubble_step j xs ! Suc j = min (xs ! j) (xs ! Suc j)"
  "Suc j < length xs \<Longrightarrow> bubble_step j xs ! j = max (xs ! j) (xs ! Suc j)"
  by (auto simp: bubble_step_def mset_swap min_def max_def)

lemma bubble_pass_Suc: "bubble_pass (Suc m) xs = bubble_step m (bubble_pass m xs)"
  by (simp add: bubble_pass_def)

lemma bubble_pass_props:
  "m < length xs \<Longrightarrow> length (bubble_pass m xs) = length xs \<and> mset (bubble_pass m xs) = mset xs
   \<and> (\<forall>k. m < k \<longrightarrow> bubble_pass m xs ! k = xs ! k)
   \<and> (\<forall>k \<le> m. bubble_pass m xs ! m \<le> bubble_pass m xs ! k)
   \<and> (\<forall>k \<le> m. \<exists>k' \<le> m. bubble_pass m xs ! k = xs ! k')"
proof (induction m)
  case 0
  then show ?case by (simp add: bubble_pass_def)
next
  case (Suc m)
  let ?ys = "bubble_pass m xs" and ?zs = "bubble_pass (Suc m) xs"
  from Suc have ys: "length ?ys = length xs" "mset ?ys = mset xs" "\<And>k. m < k \<Longrightarrow> ?ys ! k = xs ! k"
    "\<And>k. k \<le> m \<Longrightarrow> ?ys ! m \<le> ?ys ! k" "\<And>k. k \<le> m \<Longrightarrow> \<exists>k' \<le> m. ?ys ! k = xs ! k'"
    and m: "Suc m < length ?ys" by auto
  have zs: "?zs ! Suc m = min (?ys ! m) (?ys ! Suc m)" "?zs ! m = max (?ys ! m) (?ys ! Suc m)"
    "\<And>k. k \<noteq> m \<Longrightarrow> k \<noteq> Suc m \<Longrightarrow> ?zs ! k = ?ys ! k"
    using m by (simp_all add: bubble_pass_Suc)
  have "?zs ! Suc m \<le> ?zs ! k" if "k \<le> Suc m" for k
    using that zs ys(4) [of k] by (cases "k = Suc m"; cases "k = m") (auto simp: min_le_iff_disj)
  moreover have "\<exists>k' \<le> Suc m. ?zs ! k = xs ! k'" if k: "k \<le> Suc m" for k
  proof (cases "k = Suc m \<or> k = m")
    case True
    then have "?zs ! k = ?ys ! m \<or> ?zs ! k = ?ys ! Suc m" using zs by (auto simp: min_def max_def)
    then show ?thesis using ys(3) [of "Suc m"] ys(5) [of m] by (metis le_SucI lessI order_refl)
  next
    case False
    then show ?thesis using k zs(3) [of k] ys(5) [of k] by (auto intro: le_SucI)
  qed
  moreover have "?zs ! k = xs ! k" if "Suc m < k" for k
    using that zs(3) [of k] ys(3) [of k] by simp
  moreover have "length ?zs = length xs" "mset ?zs = mset xs"
    using m ys by (simp_all add: bubble_pass_Suc)
  ultimately show ?case by blast
qed

lemma bubble_outer:
  assumes "i < length xs"
  shows "let ys = fold (\<lambda>i ys. bubble_pass (length ys - i - 1) ys) [0..<i] xs in
     length ys = length xs \<and> mset ys = mset xs \<and>
     (\<forall>k l. k \<le> l \<longrightarrow> l < length xs \<longrightarrow> length xs - i \<le> l \<longrightarrow> ys ! l \<le> ys ! k)"
  using assms
proof (induction i)
  case 0
  then show ?case by simp
next
  case (Suc i)
  let ?f = "\<lambda>i ys. bubble_pass (length ys - i - 1) ys"
  let ?ys = "fold ?f [0..<i] xs"
  let ?m = "length xs - i - 1"
  let ?zs = "bubble_pass ?m ?ys"
  have "i < length xs" using Suc.prems by simp
  note ih = Suc.IH [OF this, unfolded Let_def]
  from ih have ys: "length ?ys = length xs" "mset ?ys = mset xs" by blast+
  from ih have sorted: "\<And>k l. k \<le> l \<Longrightarrow> l < length xs \<Longrightarrow> length xs - i \<le> l \<Longrightarrow> ?ys ! l \<le> ?ys ! k"
    by blast
  have m: "?m < length ?ys" using Suc.prems ys by simp
  note z = bubble_pass_props [OF m]
  have z1: "length ?zs = length xs" "mset ?zs = mset xs" using z unfolding ys by blast+
  have z2: "?m < k \<Longrightarrow> ?zs ! k = ?ys ! k" for k using z by blast
  have z3: "k \<le> ?m \<Longrightarrow> ?zs ! ?m \<le> ?zs ! k" for k using z by blast
  have z4: "k \<le> ?m \<Longrightarrow> \<exists>k' \<le> ?m. ?zs ! k = ?ys ! k'" for k using z by blast
  have "fold ?f [0..<Suc i] xs = ?f i ?ys" by simp
  then have zs: "fold ?f [0..<Suc i] xs = ?zs" by (simp only: ys(1))
  have "?zs ! l \<le> ?zs ! k" if kl: "k \<le> l" "l < length xs" "length xs - Suc i \<le> l" for k l
  proof (cases "l = ?m")
    case True
    then show ?thesis using z3 [of k] kl(1) by simp
  next
    case False
    then have l: "?m < l" "length xs - i \<le> l" using kl by auto
    show ?thesis
    proof (cases "?m < k")
      case True
      show ?thesis unfolding z2 [OF True] z2 [OF l(1)] by (rule sorted [OF kl(1,2) l(2)])
    next
      case False
      then obtain k' where k': "k' \<le> ?m" "?zs ! k = ?ys ! k'" using z4 [of k] by auto
      then have "k' \<le> l" using l by simp
      show ?thesis unfolding z2 [OF l(1)] k'(2) by (rule sorted [OF \<open>k' \<le> l\<close> kl(2) l(2)])
    qed
  qed
  then show ?case using z1 unfolding zs Let_def by blast
qed

lemma bubble_sort_desc_props:
  "mset (bubble_sort_desc xs) = mset xs" "length (bubble_sort_desc xs) = length xs"
  "sorted_wrt (\<ge>) (bubble_sort_desc xs)"
proof -
  have "mset (bubble_sort_desc xs) = mset xs \<and> length (bubble_sort_desc xs) = length xs \<and> sorted_wrt (\<ge>) (bubble_sort_desc xs)"
  proof (cases "length xs \<ge> 2")
    case True
    let ?ys = "fold (\<lambda>i ys. bubble_pass (length ys - i - 1) ys) [0..<length xs - 1] xs"
    have "length xs - 1 < length xs" using True by simp
    note o = bubble_outer [OF this, unfolded Let_def]
    have "?ys ! l \<le> ?ys ! k" if kl: "k < l" "l < length ?ys" for k l
    proof -
      have "length ?ys = length xs" using o by blast
      then have "l < length xs" "length xs - (length xs - 1) \<le> l" using kl by simp_all
      then show ?thesis using o kl(1) less_imp_le by blast
    qed
    then have "sorted_wrt (\<ge>) ?ys" unfolding sorted_wrt_iff_nth_less by blast
    moreover have "bubble_sort_desc xs = ?ys" using True by (simp add: bubble_sort_desc_def)
    ultimately show ?thesis using o by metis
  next
    case False
    then consider "xs = []" | x where "xs = [x]"
      by (cases xs; cases "tl xs") auto
    then show ?thesis by cases (simp_all add: bubble_sort_desc_def)
  qed
  then show "mset (bubble_sort_desc xs) = mset xs" "length (bubble_sort_desc xs) = length xs"
    "sorted_wrt (\<ge>) (bubble_sort_desc xs)" by blast+
qed

section \<open>Majorities\<close>

lemma filter_sorted_prefix:
  fixes ys :: "'a::linorder list"
  assumes "sorted_wrt (\<ge>) ys" and "m < length ys"
  shows "length (filter (\<lambda>y. ys ! m \<le> y) ys) \<ge> m + 1"
proof -
  have "{i. i \<le> m} \<subseteq> {i. i < length ys \<and> ys ! m \<le> ys ! i}"
    using assms sorted_wrt_nth_less [OF assms(1)] by (auto simp: le_less)
  then have "card {i. i \<le> m} \<le> card {i. i < length ys \<and> ys ! m \<le> ys ! i}"
    by (intro card_mono) auto
  then show ?thesis by (simp add: length_filter_conv_card)
qed

lemma filter_above_sorted:
  fixes ys :: "'a::linorder list"
  assumes "sorted_wrt (\<ge>) ys" and "m < length ys" and "ys ! m < v"
  shows "length (filter (\<lambda>y. v \<le> y) ys) \<le> m"
proof -
  have "{i. i < length ys \<and> v \<le> ys ! i} \<subseteq> {i. i < m}"
  proof safe
    fix i assume i: "i < length ys" "v \<le> ys ! i"
    show "i < m"
    proof (rule ccontr)
      assume "\<not> i < m"
      then have "ys ! i \<le> ys ! m" using sorted_wrt_nth_less [OF assms(1), of m i] i by (cases "i = m") auto
      then show False using i assms(3) by simp
    qed
  qed
  then have "card {i. i < length ys \<and> v \<le> ys ! i} \<le> card {i. i < m}" by (intro card_mono) auto
  then show ?thesis by (simp add: length_filter_conv_card)
qed

lemma count_if_bubble: "count_if (bubble_sort_desc xs) f = count_if xs f"
proof -
  have "size (filter_mset f (mset (bubble_sort_desc xs))) = size (filter_mset f (mset xs))"
    by (simp add: bubble_sort_desc_props)
  then show ?thesis by (simp add: count_if_filter flip: mset_filter)
qed

lemma get_sorted_majority_one_desc_props:
  assumes "xs \<noteq> []"
  obtains v where "get_sorted_majority_one_desc xs = Some v" "v \<in> set xs"
    "count_if xs (\<lambda>x. v \<le> x) \<ge> length xs div 2 + 1"
    "\<And>w. v < w \<Longrightarrow> count_if xs (\<lambda>x. w \<le> x) < length xs div 2 + 1"
proof -
  let ?ys = "bubble_sort_desc xs"
  let ?m = "length ?ys div 2"
  have m: "?m < length ?ys" using assms by (simp add: bubble_sort_desc_props)
  have set_eq: "set ?ys = set xs" using bubble_sort_desc_props(1) by (metis set_mset_mset)
  show ?thesis
  proof (rule that)
    show "get_sorted_majority_one_desc xs = Some (?ys ! ?m)"
      using m by (simp add: get_sorted_majority_one_desc_def Let_def)
    show "?ys ! ?m \<in> set xs" using m nth_mem set_eq by blast
    show "count_if xs (\<lambda>x. ?ys ! ?m \<le> x) \<ge> length xs div 2 + 1"
      using filter_sorted_prefix [OF bubble_sort_desc_props(3) m] count_if_bubble [of xs "\<lambda>x. ?ys ! ?m \<le> x"]
      by (simp add: count_if_filter bubble_sort_desc_props)
    show "count_if xs (\<lambda>x. w \<le> x) < length xs div 2 + 1" if "?ys ! ?m < w" for w
      using filter_above_sorted [OF bubble_sort_desc_props(3) m that] count_if_bubble [of xs "\<lambda>x. w \<le> x"]
      by (simp add: count_if_filter bubble_sort_desc_props)
  qed
qed

section \<open>The invariant of the recorded states\<close>

definition mls_wf :: "PImpl \<Rightarrow> bool" where
  "mls_wf p \<longleftrightarrow>
     length (ml_addr_list (member_list p)) \<le> ml_get_replica_num (member_list p)
     \<and> length (prepare_ok p) = ml_get_replica_num (member_list p)
     \<and> length (accept_ok_promise_not_vote_before_local_ts p) = ml_get_replica_num (member_list p)
     \<and> length (follower_renew_lease_success_membership_version p) = ml_get_replica_num (member_list p)"

lemma mls_wf_new: "mls_wf mls_new"
  by (simp add: mls_wf_def mls_new_def ml_new_def ml_get_replica_num_def)

lemma mls_index_loop_Some: "mls_index_loop addr idx as = Some i \<Longrightarrow> idx \<le> i \<and> i < idx + length as \<and> as ! (i - idx) = addr"
  by (induction as arbitrary: idx) (fastforce split: if_splits simp: nth_Cons')+

lemma mls_index_loop_None: "mls_index_loop addr idx as = None \<longleftrightarrow> addr \<notin> set as"
  by (induction as arbitrary: idx) auto

lemma mls_get_server_idx_Some:
  "mls_get_server_idx_in_memberlist addr p = Some i \<Longrightarrow>
   i < length (ml_addr_list (member_list p)) \<and> ml_addr_list (member_list p) ! i = addr"
  using mls_index_loop_Some [of addr 0 "ml_addr_list (member_list p)" i]
  by (simp add: mls_get_server_idx_in_memberlist_def)

lemma mls_clear_wf [simp]: "mls_wf p \<Longrightarrow> mls_wf (mls_clear_prepare_and_accept_states p)"
  by (simp add: mls_wf_def mls_clear_prepare_and_accept_states_def mls_init_array_def)

lemma mls_record_prepare_ok_wf:
  "mls_wf p \<Longrightarrow> \<exists>ret p'. mls_record_prepare_ok r p = Some (ret, p') \<and> mls_wf p' \<and> member_list p' = member_list p"
  using mls_get_server_idx_Some [of "m_sender r" p]
  by (fastforce simp: mls_record_prepare_ok_def mls_wf_def Let_def split: option.splits)

lemma mls_record_accept_ok_wf:
  "mls_wf p \<Longrightarrow> \<exists>ret p'. mls_record_accept_ok r p = Some (ret, p') \<and> mls_wf p' \<and> member_list p' = member_list p"
  using mls_get_server_idx_Some [of "m_sender r" p]
  by (fastforce simp: mls_record_accept_ok_def mls_wf_def Let_def split: option.splits)

text \<open>What is recorded of the member at a position.\<close>

definition mls_row :: "PImpl \<Rightarrow> nat \<Rightarrow> bool \<times> int \<times> LogConfigVersion" where
  "mls_row p i = (prepare_ok p ! i, accept_ok_promise_not_vote_before_local_ts p ! i,
     follower_renew_lease_success_membership_version p ! i)"

definition mls_same_shape :: "PImpl \<Rightarrow> PImpl \<Rightarrow> bool" where
  "mls_same_shape p q \<longleftrightarrow> member_list p = member_list q \<and> length (prepare_ok p) = length (prepare_ok q)
     \<and> length (accept_ok_promise_not_vote_before_local_ts p) = length (accept_ok_promise_not_vote_before_local_ts q)
     \<and> length (follower_renew_lease_success_membership_version p) = length (follower_renew_lease_success_membership_version q)"

lemma mls_same_shape_wf: "mls_same_shape p q \<Longrightarrow> mls_wf q \<Longrightarrow> mls_wf p"
  by (simp add: mls_same_shape_def mls_wf_def)

lemma mls_copy_state_ok:
  assumes "mls_wf old" "mls_wf new" "i < length (ml_addr_list (member_list old))" "j < length (ml_addr_list (member_list new))"
  shows "\<exists>new'. mls_copy_state old (i, j) new = Some new' \<and> mls_same_shape new' new
    \<and> (\<forall>k. mls_row new' k = (if k = j \<and> ml_addr_list (member_list old) ! i = ml_addr_list (member_list new) ! j
       then mls_row old i else mls_row new k))"
proof (cases "ml_addr_list (member_list old) ! i = ml_addr_list (member_list new) ! j")
  case True
  then show ?thesis
    using assms by (simp add: mls_copy_state_def mls_same_shape_def mls_wf_def mls_row_def nth_list_update)
qed (simp add: mls_copy_state_def mls_same_shape_def)

lemma mls_copy_fold:
  assumes "mls_wf old" "distinct (ml_addr_list (member_list old))"
    and "mls_wf new" "\<forall>(i, j) \<in> set ps. i < length (ml_addr_list (member_list old)) \<and> j < length (ml_addr_list (member_list new))"
  shows "\<exists>new'. fold (\<lambda>ij r. Option.bind r (mls_copy_state old ij)) ps (Some new) = Some new' \<and> mls_same_shape new' new
    \<and> (\<forall>i j. (i, j) \<in> set ps \<longrightarrow> ml_addr_list (member_list old) ! i = ml_addr_list (member_list new) ! j \<longrightarrow> mls_row new' j = mls_row old i)
    \<and> (\<forall>j. (\<forall>i. (i, j) \<in> set ps \<longrightarrow> ml_addr_list (member_list old) ! i \<noteq> ml_addr_list (member_list new) ! j) \<longrightarrow> mls_row new' j = mls_row new j)"
  using assms(3,4)
proof (induction ps arbitrary: new)
  case Nil
  then show ?case by (simp add: mls_same_shape_def)
next
  case (Cons ij ps)
  obtain i j where ij: "ij = (i, j)" by (cases ij)
  let ?A = "ml_addr_list (member_list old)" and ?B = "ml_addr_list (member_list new)"
  have r: "i < length ?A" "j < length ?B" using Cons.prems ij by auto
  obtain new1 where n1: "mls_copy_state old (i, j) new = Some new1" "mls_same_shape new1 new"
    and row1: "\<And>k. mls_row new1 k = (if k = j \<and> ?A ! i = ?B ! j then mls_row old i else mls_row new k)"
    using mls_copy_state_ok [OF assms(1) Cons.prems(1) r] by blast
  have B: "ml_addr_list (member_list new1) = ?B" using n1(2) by (simp add: mls_same_shape_def)
  have "\<forall>(i, j) \<in> set ps. i < length ?A \<and> j < length (ml_addr_list (member_list new1))"
    using Cons.prems(2) B by auto
  note ih = Cons.IH [OF mls_same_shape_wf [OF n1(2) Cons.prems(1)] this, unfolded B]
  obtain new' where n': "fold (\<lambda>ij r. Option.bind r (mls_copy_state old ij)) ps (Some new1) = Some new'"
      "mls_same_shape new' new1"
    and hit: "\<And>i j. (i, j) \<in> set ps \<Longrightarrow> ?A ! i = ?B ! j \<Longrightarrow> mls_row new' j = mls_row old i"
    and miss: "\<And>j. \<forall>i. (i, j) \<in> set ps \<longrightarrow> ?A ! i \<noteq> ?B ! j \<Longrightarrow> mls_row new' j = mls_row new1 j"
    using ih by blast
  have "mls_row new' j' = mls_row old i'" if "(i', j') \<in> set (ij # ps)" "?A ! i' = ?B ! j'" for i' j'
  proof (cases "(i', j') \<in> set ps")
    case False
    then have eq: "i' = i" "j' = j" using that ij by auto
    show ?thesis
    proof (cases "\<exists>i2. (i2, j) \<in> set ps \<and> ?A ! i2 = ?B ! j")
      case True
      then obtain i2 where i2: "(i2, j) \<in> set ps" "?A ! i2 = ?B ! j" by blast
      then have "i2 < length ?A" using Cons.prems(2) by auto
      moreover have "?A ! i2 = ?A ! i" using i2 that eq by simp
      ultimately have "i2 = i" using nth_eq_iff_index_eq [OF assms(2)] r by blast
      then show ?thesis using hit [OF i2] eq by simp
    next
      case False
      then show ?thesis using miss [of j] row1 [of j] that eq by auto
    qed
  qed (use hit that in blast)
  moreover have "mls_row new' j' = mls_row new j'"
    if "\<forall>i. (i, j') \<in> set (ij # ps) \<longrightarrow> ?A ! i \<noteq> ?B ! j'" for j'
    using miss [of j'] row1 [of j'] that ij by auto
  moreover have "mls_same_shape new' new" using n'(2) n1(2) by (simp add: mls_same_shape_def)
  ultimately show ?case using n'(1) n1(1) ij by auto
qed

lemma mls_set_member_list_ok:
  assumes wf: "mls_wf p" and d: "distinct (ml_addr_list (member_list p))"
    and new: "length (ml_addr_list ml) \<le> ml_get_replica_num ml"
    and mem: "malloc_ok" "\<And>k. mem k = OB_SUCCESS"
  shows "\<exists>p'. mls_set_member_list malloc_ok mem ml p = Some (OB_SUCCESS, p') \<and> mls_wf p' \<and> member_list p' = ml
    \<and> (\<forall>i j. i < length (ml_addr_list (member_list p)) \<longrightarrow> j < length (ml_addr_list ml) \<longrightarrow>
         ml_addr_list (member_list p) ! i = ml_addr_list ml ! j \<longrightarrow> mls_row p' j = mls_row p i)
    \<and> (\<forall>j. j < length (ml_addr_list ml) \<longrightarrow> ml_addr_list ml ! j \<notin> set (ml_addr_list (member_list p)) \<longrightarrow>
         mls_row p' j = (False, 0, cv_new))"
proof (cases "ml_get_replica_num (member_list p) = ml_get_replica_num ml \<and> ml_addr_list (member_list p) = ml_addr_list ml")
  case True
  let ?p = "p\<lparr>member_list := (member_list p)\<lparr>ml_membership_version := ml_membership_version ml\<rparr>\<rparr>"
  have ml: "(member_list p)\<lparr>ml_membership_version := ml_membership_version ml\<rparr> = ml"
    using True by (intro MemberList.equality) (simp_all add: ml_get_replica_num_def word_unat_eq_iff)
  have "mls_set_member_list malloc_ok mem ml p = Some (OB_SUCCESS, ?p)"
    using True by (simp add: mls_set_member_list_def)
  moreover have "mls_wf ?p" using wf True unfolding ml by (simp add: mls_wf_def)
  moreover have "mls_row ?p j = mls_row p j" for j by (simp add: mls_row_def)
  moreover have "i = j" if "i < length (ml_addr_list (member_list p))" "j < length (ml_addr_list ml)"
      "ml_addr_list (member_list p) ! i = ml_addr_list ml ! j" for i j
    using that True d by (simp add: nth_eq_iff_index_eq)
  moreover have "ml_addr_list ml ! j \<in> set (ml_addr_list (member_list p))" if "j < length (ml_addr_list ml)" for j
    using that True by simp
  moreover have "member_list ?p = ml" using ml by simp
  ultimately show ?thesis by metis
next
  case False
  let ?n = "ml_get_replica_num ml"
  let ?new = "\<lparr>member_list = ml, prepare_ok = mls_init_array ?n False,
    accept_ok_promise_not_vote_before_local_ts = mls_init_array ?n 0,
    follower_renew_lease_success_membership_version = mls_init_array ?n cv_new\<rparr>"
  have different: "\<not> (if ml_get_replica_num (member_list p) \<noteq> ?n then False
       else if length (ml_addr_list (member_list p)) \<noteq> length (ml_addr_list ml) then False
       else (\<forall>i \<in> set [0..<length (ml_addr_list ml)]. ml_addr_list ml ! i = ml_addr_list (member_list p) ! i))"
    (is "\<not> ?same")
  proof
    assume ?same
    then have n: "ml_get_replica_num (member_list p) = ?n" "length (ml_addr_list (member_list p)) = length (ml_addr_list ml)"
      and eq: "\<And>i. i < length (ml_addr_list ml) \<Longrightarrow> ml_addr_list ml ! i = ml_addr_list (member_list p) ! i"
      by (simp_all split: if_splits)
    have "ml_addr_list (member_list p) = ml_addr_list ml" by (rule nth_equalityI [OF n(2)]) (metis eq n(2))
    then show False using False n(1) by simp
  qed
  have r: "mls_set_member_list malloc_ok mem ml p = map_option (Pair OB_SUCCESS) (mls_copy_states p ?new)"
    using different mem by (simp add: mls_set_member_list_def Let_def)
  have wf_new: "mls_wf ?new" using new by (simp add: mls_wf_def mls_init_array_def)
  have row_new: "mls_row ?new j = (False, 0, cv_new)" if "j < length (ml_addr_list ml)" for j
    using that new by (simp add: mls_row_def mls_init_array_def)
  let ?ps = "List.product [0..<length (ml_addr_list (member_list p))] [0..<length (ml_addr_list ml)]"
  have ps: "\<forall>(i, j) \<in> set ?ps. i < length (ml_addr_list (member_list p)) \<and> j < length (ml_addr_list (member_list ?new))"
    by auto
  obtain p' where p': "mls_copy_states p ?new = Some p'" "mls_same_shape p' ?new"
    and hit: "\<And>i j. (i, j) \<in> set ?ps \<Longrightarrow> ml_addr_list (member_list p) ! i = ml_addr_list ml ! j \<Longrightarrow> mls_row p' j = mls_row p i"
    and miss: "\<And>j. \<forall>i. (i, j) \<in> set ?ps \<longrightarrow> ml_addr_list (member_list p) ! i \<noteq> ml_addr_list ml ! j \<Longrightarrow> mls_row p' j = mls_row ?new j"
    using mls_copy_fold [OF wf d wf_new ps] unfolding mls_copy_states_def PImpl.select_convs by blast
  have "mls_row p' j = (False, 0, cv_new)"
    if "j < length (ml_addr_list ml)" "ml_addr_list ml ! j \<notin> set (ml_addr_list (member_list p))" for j
  proof -
    have "\<forall>i. (i, j) \<in> set ?ps \<longrightarrow> ml_addr_list (member_list p) ! i \<noteq> ml_addr_list ml ! j"
      using that(2) by (auto simp: in_set_conv_nth)
    then show ?thesis using miss [of j] row_new [OF that(1)] by simp
  qed
  moreover have "mls_row p' j = mls_row p i"
    if "i < length (ml_addr_list (member_list p))" "j < length (ml_addr_list ml)"
      "ml_addr_list (member_list p) ! i = ml_addr_list ml ! j" for i j
    by (rule hit) (use that in simp_all)
  moreover have "mls_set_member_list malloc_ok mem ml p = Some (OB_SUCCESS, p')" using r p'(1) by simp
  moreover have "mls_wf p'" "member_list p' = ml"
    using mls_same_shape_wf [OF p'(2) wf_new] p'(2) by (simp_all add: mls_same_shape_def)
  ultimately show ?thesis by blast
qed

section \<open>Properties\<close>

text \<open>C31. The lease end a proposer derives from its members' promises is the latest time before which
  a majority has promised not to vote: \<^verbatim>\<open>get_majority_promised_not_vote_ts\<close>, which bubble-sorts the
  promises and takes the element in the middle, returns a recorded promise that at least
  \<open>replica_num div 2 + 1\<close> members reach, and fewer members reach any later time.\<close>

theorem majority_promise_is_latest:
  assumes "mls_wf p" and "0 < ml_get_replica_num (member_list p)"
  shows "\<exists>ts. mls_get_majority_promised_not_vote_ts p = Some ts
    \<and> ts \<in> set (accept_ok_promise_not_vote_before_local_ts p)
    \<and> count_if (accept_ok_promise_not_vote_before_local_ts p) (\<lambda>v. ts \<le> v) \<ge> ml_get_replica_num (member_list p) div 2 + 1
    \<and> (\<forall>ts' > ts. count_if (accept_ok_promise_not_vote_before_local_ts p) (\<lambda>v. ts' \<le> v) < ml_get_replica_num (member_list p) div 2 + 1)"
proof -
  let ?xs = "accept_ok_promise_not_vote_before_local_ts p"
  have n: "length ?xs = ml_get_replica_num (member_list p)" using assms(1) by (simp add: mls_wf_def)
  then have "?xs \<noteq> []" using assms(2) by auto
  from get_sorted_majority_one_desc_props [OF this] show ?thesis
    unfolding mls_get_majority_promised_not_vote_ts_def n by metis
qed

definition wit_members :: MemberList where
  "wit_members = \<lparr>ml_addr_list = [IPV4 1 80, IPV4 2 80, IPV4 3 80],
     ml_membership_version = \<lparr>cv_proposal_id = 1, cv_config_seq = 1\<rparr>, ml_replica_num = 3\<rparr>"

definition wit_states :: PImpl where
  "wit_states = \<lparr>member_list = wit_members, prepare_ok = [True, False, True],
     accept_ok_promise_not_vote_before_local_ts = [50, 0, 70],
     follower_renew_lease_success_membership_version = [cv_new, cv_new, cv_new]\<rparr>"

lemma wit_states_wf: "mls_wf wit_states" "ml_get_replica_num (member_list wit_states) = 3"
  by (simp_all add: mls_wf_def wit_states_def wit_members_def ml_get_replica_num_def)

theorem majority_promise_is_latest_witness:
  "\<exists>ts. mls_get_majority_promised_not_vote_ts wit_states = Some ts
    \<and> count_if [50, 0, 70] (\<lambda>v. ts \<le> v) \<ge> 2 \<and> (\<forall>ts' > ts. count_if [50, 0, 70] (\<lambda>v. ts' \<le> v) < 2)"
proof -
  have ts: "accept_ok_promise_not_vote_before_local_ts wit_states = [50, 0, 70]" by (simp add: wit_states_def)
  have n: "0 < ml_get_replica_num (member_list wit_states)" "ml_get_replica_num (member_list wit_states) div 2 + 1 = 2"
    by (simp_all add: wit_states_wf(2))
  show ?thesis
    using majority_promise_is_latest [OF wit_states_wf(1) n(1)] unfolding ts n(2) by blast
qed

text \<open>C32. \<^verbatim>\<open>set_member_list\<close> keeps what was recorded of every member that stays: if the new list fits
  its replica number and memory is available, the call installs the new list with arrays of the right
  size, a member of both lists keeps its vote, its promise and its acknowledged version under its new
  position, and a member that joins starts with nothing recorded.\<close>

theorem set_member_list_keeps_states:
  assumes "mls_wf p" and "distinct (ml_addr_list (member_list p))"
    and "length (ml_addr_list ml) \<le> ml_get_replica_num ml"
  shows "\<exists>p'. mls_set_member_list True (\<lambda>_. OB_SUCCESS) ml p = Some (OB_SUCCESS, p') \<and> mls_wf p' \<and> member_list p' = ml
    \<and> (\<forall>i j. i < length (ml_addr_list (member_list p)) \<longrightarrow> j < length (ml_addr_list ml) \<longrightarrow>
         ml_addr_list (member_list p) ! i = ml_addr_list ml ! j \<longrightarrow> mls_row p' j = mls_row p i)
    \<and> (\<forall>j. j < length (ml_addr_list ml) \<longrightarrow> ml_addr_list ml ! j \<notin> set (ml_addr_list (member_list p)) \<longrightarrow>
         mls_row p' j = (False, 0, cv_new))"
  by (rule mls_set_member_list_ok [OF assms]) simp_all

theorem set_member_list_keeps_states_witness:
  "\<exists>p'. mls_set_member_list True (\<lambda>_. OB_SUCCESS)
        (wit_members\<lparr>ml_addr_list := [IPV4 3 80, IPV4 4 80], ml_replica_num := 2\<rparr>) wit_states = Some (OB_SUCCESS, p')
    \<and> mls_row p' 0 = (True, 70, cv_new) \<and> mls_row p' 1 = (False, 0, cv_new)"
proof -
  let ?ml = "wit_members\<lparr>ml_addr_list := [IPV4 3 80, IPV4 4 80], ml_replica_num := 2\<rparr>"
  have d: "distinct (ml_addr_list (member_list wit_states))" "length (ml_addr_list ?ml) \<le> ml_get_replica_num ?ml"
    by (simp_all add: wit_states_def wit_members_def ml_get_replica_num_def)
  have row: "mls_row wit_states 2 = (True, 70, cv_new)" by (simp add: mls_row_def wit_states_def)
  have at: "ml_addr_list (member_list wit_states) = [IPV4 1 80, IPV4 2 80, IPV4 3 80]"
    "ml_addr_list ?ml = [IPV4 3 80, IPV4 4 80]"
    by (simp_all add: wit_states_def wit_members_def)
  obtain p' where p': "mls_set_member_list True (\<lambda>_. OB_SUCCESS) ?ml wit_states = Some (OB_SUCCESS, p')"
    and hit: "\<And>i j. i < 3 \<Longrightarrow> j < 2 \<Longrightarrow> [IPV4 1 80, IPV4 2 80, IPV4 3 80] ! i = [IPV4 3 80, IPV4 4 80] ! j \<Longrightarrow> mls_row p' j = mls_row wit_states i"
    and miss: "\<And>j. j < 2 \<Longrightarrow> [IPV4 3 80, IPV4 4 80] ! j \<notin> {IPV4 1 80, IPV4 2 80, IPV4 3 80} \<Longrightarrow> mls_row p' j = (False, 0, cv_new)"
    using set_member_list_keeps_states [OF wit_states_wf(1) d] unfolding at by auto
  have "mls_row p' 0 = mls_row wit_states 2" by (rule hit) simp_all
  moreover have "mls_row p' 1 = (False, 0, cv_new)" by (rule miss) simp_all
  ultimately show ?thesis using p' row by auto
qed

end
