(* ===== verification/ElectionState.thy ===== *)
theory ElectionState
  imports ElectionMembers "HOL-Library.Monad_Syntax"
begin

text \<open>
  The state of one election instance and the helpers that both its roles call: the members of
  \<^verbatim>\<open>ElectionProposer\<close>, \<^verbatim>\<open>ElectionAcceptor\<close> and \<^verbatim>\<open>ElectionImpl\<close>, the leader's lease, and the private
  methods of \<^verbatim>\<open>election_impl.h\<close> and \<^verbatim>\<open>election_impl.cpp\<close> that proposer and acceptor use.

  An \<^verbatim>\<open>ElectionImpl\<close> owns one proposer and one acceptor, and both reach everything through their
  pointer \<^verbatim>\<open>p_election_\<close>.  The three classes are three records, each extending the previous one, so
  that one value holds the whole object.  Every activation runs under the lock of the object; what
  it does to the outside (messages, callbacks, timers) is appended to \<open>e_out\<close> in the order in which it
  happens.  An assertion that fails, an \<^verbatim>\<open>abort\<close> and an access outside an array are \<open>None\<close>.  Log
  lines, the event recorder, the message counter and the texts that explain a decision are left out:
  nothing reads them.

  The argument \<open>k\<close> of an operation is the position of its first clock reading among those of the
  activation.
\<close>

datatype el_out =
    Send el_msg
  | Broadcast el_msg "ObAddr list"
  | RoleChange ObRole ObRole RoleChangeReason
  | PrepareChangeLeader int ObAddr
  | RescheduleWindow int
  | RescheduleDevote int
  | RegisterDevote int

section \<open>The leader's lease and epoch\<close>

record LeaderLeaseAndEpoch =
  lle_lease :: int
  lle_epoch :: int
  lle_seq :: int

definition lle_new :: LeaderLeaseAndEpoch where
  "lle_new = \<lparr>lle_lease = INVALID_VALUE, lle_epoch = INVALID_VALUE, lle_seq = INVALID_VALUE\<rparr>"

definition lle_set_lease_and_epoch_if_lease_expired_or_just_set_lease ::
  "el_env \<Rightarrow> nat \<Rightarrow> int \<Rightarrow> int \<Rightarrow> LeaderLeaseAndEpoch \<Rightarrow> LeaderLeaseAndEpoch" where
  "lle_set_lease_and_epoch_if_lease_expired_or_just_set_lease E k lease epoch l =
     (let l = l\<lparr>lle_seq := lle_seq l + 1\<rparr>;
          old_lease = lle_lease l;
          l = (if mono E k < old_lease
               then (let l = l\<lparr>lle_lease := lease\<rparr>
                     in if mono E (k + 1) \<ge> old_lease then l\<lparr>lle_epoch := epoch\<rparr> else l)
               else l\<lparr>lle_lease := lease, lle_epoch := epoch\<rparr>)
      in l\<lparr>lle_seq := lle_seq l + 1\<rparr>)"

text \<open>One round of the reader's loop: it succeeds on an odd sequence number that has not changed.\<close>

definition lle_get :: "LeaderLeaseAndEpoch \<Rightarrow> (int \<times> int) option" where
  "lle_get l = (if lle_seq l mod 2 \<noteq> 0 then Some (lle_lease l, lle_epoch l) else None)"

definition lle_is_valid :: "LeaderLeaseAndEpoch \<Rightarrow> bool" where
  "lle_is_valid l \<longleftrightarrow> lle_lease l \<noteq> INVALID_VALUE \<and> lle_epoch l \<noteq> INVALID_VALUE"

definition lle_reset :: "LeaderLeaseAndEpoch \<Rightarrow> LeaderLeaseAndEpoch" where
  "lle_reset l = l\<lparr>lle_lease := INVALID_VALUE, lle_epoch := INVALID_VALUE, lle_seq := lle_seq l + 2\<rparr>"

section \<open>The highest priority message a leader caches\<close>

record HighestPriorityMsgCache =
  hc_cached_msg :: ElectionAcceptResponseMsg
  hc_cached_ts :: int

definition hc_new :: HighestPriorityMsgCache where
  "hc_new = \<lparr>hc_cached_msg = accept_res_default, hc_cached_ts = INVALID_VALUE\<rparr>"

definition hc_set :: "int \<Rightarrow> ElectionAcceptResponseMsg \<Rightarrow> HighestPriorityMsgCache \<Rightarrow> HighestPriorityMsgCache" where
  "hc_set clock rhs c = c\<lparr>hc_cached_msg := rhs, hc_cached_ts := clock\<rparr>"

definition hc_reset :: "HighestPriorityMsgCache \<Rightarrow> HighestPriorityMsgCache" where
  "hc_reset c = c\<lparr>hc_cached_ts := INVALID_VALUE, hc_cached_msg := msg_base_reset (hc_cached_msg c)\<rparr>"

definition hc_check_expired :: "int \<Rightarrow> HighestPriorityMsgCache \<Rightarrow> HighestPriorityMsgCache" where
  "hc_check_expired clock c =
     (if hc_cached_ts c \<noteq> INVALID_VALUE \<and> clock - hc_cached_ts c > CACHE_EXPIRATION_TIME then hc_reset c else c)"

section \<open>The objects\<close>

record ElectionProposer =
  p_role :: ObRole
  p_ballot_number :: int
  p_memberlist_with_states :: PImpl
  p_prepare_success_ballot :: int
  p_leader_lease_and_epoch :: LeaderLeaseAndEpoch
  p_switch_source_leader_ballot :: int
  p_switch_source_leader_addr :: ObAddr
  p_restart_counter :: int
  p_last_do_prepare_ts :: int
  p_record_lease_interval :: int
  p_highest_priority_cache :: HighestPriorityMsgCache
  p_devote_task_running :: bool

text \<open>The last two members of the acceptor are the variables its timer task captures.\<close>

record ElectionAcceptor = ElectionProposer +
  a_ballot_number :: int
  a_ballot_of_time_window :: int
  a_lease :: Lease
  a_highest_priority_prepare_req :: ElectionPrepareRequestMsg
  a_is_time_window_opened :: bool
  a_last_time_window_open_ts :: int
  a_last_record_lease_owner :: ObAddr
  a_last_record_lease_valid_state :: bool

record ElectionImpl = ElectionAcceptor +
  e_is_inited :: bool
  e_is_running :: bool
  e_id :: int
  e_priority :: "priority_ref option"
  e_self_addr :: ObAddr
  e_inner_priority_seed :: u64
  e_downgrade_expire_ts :: int
  e_downgrade_interval :: int
  e_version :: u64
  e_out :: "el_out list"

text \<open>The members \<^verbatim>\<open>id_\<close> and \<^verbatim>\<open>inner_priority_seed_\<close> have no initial value; \<^verbatim>\<open>init_and_start\<close> sets
  them.\<close>

definition election_new :: "int \<Rightarrow> u64 \<Rightarrow> ElectionImpl" where
  "election_new garbage_id garbage_seed =
     \<lparr>p_role = FOLLOWER, p_ballot_number = INVALID_VALUE, p_memberlist_with_states = mls_new,
      p_prepare_success_ballot = INVALID_VALUE, p_leader_lease_and_epoch = lle_new,
      p_switch_source_leader_ballot = INVALID_VALUE, p_switch_source_leader_addr = addr_new,
      p_restart_counter = INVALID_VALUE, p_last_do_prepare_ts = INVALID_VALUE, p_record_lease_interval = INVALID_VALUE,
      p_highest_priority_cache = hc_new, p_devote_task_running = False,
      a_ballot_number = INVALID_VALUE, a_ballot_of_time_window = INVALID_VALUE, a_lease = lease_new,
      a_highest_priority_prepare_req = prepare_req_default, a_is_time_window_opened = False,
      a_last_time_window_open_ts = INVALID_VALUE, a_last_record_lease_owner = addr_new,
      a_last_record_lease_valid_state = False,
      e_is_inited = False, e_is_running = False, e_id = garbage_id, e_priority = None, e_self_addr = addr_new,
      e_inner_priority_seed = garbage_seed, e_downgrade_expire_ts = 0, e_downgrade_interval = 0, e_version = 0, e_out = []\<rparr>"

definition emit :: "el_out \<Rightarrow> ElectionImpl \<Rightarrow> ElectionImpl" where
  "emit x e = e\<lparr>e_out := e_out e @ [x]\<rparr>"

abbreviation e_member_list :: "ElectionImpl \<Rightarrow> MemberList" where
  "e_member_list e \<equiv> member_list (p_memberlist_with_states e)"

section \<open>Helpers of the election object\<close>

definition is_member_list_valid :: "ElectionImpl \<Rightarrow> bool" where
  "is_member_list_valid e = ml_is_valid (e_member_list e)"

definition get_membership_version :: "ElectionImpl \<Rightarrow> LogConfigVersion" where
  "get_membership_version e = ml_membership_version (e_member_list e)"

definition send_msg :: "el_env \<Rightarrow> el_msg \<Rightarrow> ElectionImpl \<Rightarrow> ob_ret \<times> ElectionImpl" where
  "send_msg E msg e = (send_ret E msg, emit (Send msg) e)"

definition broadcast :: "el_env \<Rightarrow> el_msg \<Rightarrow> ObAddr list \<Rightarrow> ElectionImpl \<Rightarrow> ob_ret \<times> ElectionImpl" where
  "broadcast E msg addrs e = (send_ret E msg, emit (Broadcast msg addrs) e)"

text \<open>On an arbitration server the version is taken from the messages only in builds with
  \<^verbatim>\<open>OB_BUILD_ARBITRATION\<close>; without it the result is 0.\<close>

definition get_ls_biggest_min_cluster_version_ever_seen :: "el_env \<Rightarrow> ElectionImpl \<Rightarrow> u64" where
  "get_ls_biggest_min_cluster_version_ever_seen E e =
     (if arbitration_mode E then 0 else max (min_cluster_version E) (e_version e))"

definition generate_inner_priority_seed :: "el_env \<Rightarrow> nat \<Rightarrow> ElectionImpl \<Rightarrow> u64" where
  "generate_inner_priority_seed E k e =
     (let priority_seed = e_inner_priority_seed e
      in if mono E k < e_downgrade_expire_ts e then priority_seed OR SEED_TEMORARILY_DOWNGRADE_PRIORIY_BIT
         else priority_seed)"

definition is_self_in_memberlist :: "ElectionImpl \<Rightarrow> bool" where
  "is_self_in_memberlist e = (e_self_addr e \<in> set (ml_addr_list (e_member_list e)))"

definition check_leader :: "el_env \<Rightarrow> nat \<Rightarrow> ElectionImpl \<Rightarrow> bool" where
  "check_leader E k e \<longleftrightarrow> mono E k < lle_lease (p_leader_lease_and_epoch e)"

text \<open>\<^verbatim>\<open>is_rhs_message_higher_\<close> is a template over the two message classes that carry a priority; a
  \<open>prio_view\<close> is what it reads of either.\<close>

record prio_view =
  pv_is_valid :: bool
  pv_sender :: ObAddr
  pv_membership_version :: LogConfigVersion
  pv_inner_priority_seed :: u64
  pv_is_buffer_valid :: bool
  pv_priority_buffer :: bytes

definition prepare_req_view :: "ElectionPrepareRequestMsg \<Rightarrow> prio_view" where
  "prepare_req_view m = \<lparr>pv_is_valid = msg_base_is_valid m, pv_sender = m_sender m,
     pv_membership_version = pq_membership_version m, pv_inner_priority_seed = pq_inner_priority_seed m,
     pv_is_buffer_valid = pq_is_buffer_valid m, pv_priority_buffer = pq_priority_buffer m\<rparr>"

definition accept_res_view :: "ElectionAcceptResponseMsg \<Rightarrow> prio_view" where
  "accept_res_view m = \<lparr>pv_is_valid = msg_base_is_valid m, pv_sender = m_sender m,
     pv_membership_version = ar_membership_version m, pv_inner_priority_seed = ar_inner_priority_seed m,
     pv_is_buffer_valid = ar_is_buffer_valid m, pv_priority_buffer = ar_priority_buffer m\<rparr>"

definition is_rhs_message_higher :: "el_env \<Rightarrow> ElectionImpl \<Rightarrow> prio_view \<Rightarrow> prio_view \<Rightarrow> bool \<Rightarrow> bool" where
  "is_rhs_message_higher E e lhs rhs decentralized_voting =
     (if \<not> pv_is_valid rhs then False
      else if \<not> pv_is_valid lhs then True
      else if cv_gt (pv_membership_version lhs) (pv_membership_version rhs) then False
      else if cv_lt (pv_membership_version lhs) (pv_membership_version rhs) then True
      else if pv_inner_priority_seed lhs < pv_inner_priority_seed rhs then False
      else if pv_inner_priority_seed lhs > pv_inner_priority_seed rhs then True
      else if \<not> pv_is_buffer_valid lhs then
        (if pv_is_buffer_valid rhs then True else decentralized_voting \<and> pv_sender rhs < pv_sender lhs)
      else if \<not> pv_is_buffer_valid rhs then False
      else
        let compare_version = get_ls_biggest_min_cluster_version_ever_seen E e
        in case e_priority e of
             None \<Rightarrow> decentralized_voting \<and> pv_sender rhs < pv_sender lhs
           | Some self_priority \<Rightarrow>
               if compare_version = 0 then decentralized_voting \<and> pv_sender rhs < pv_sender lhs
               else if priority_deserialize E self_priority (pv_priority_buffer lhs) \<noteq> OB_SUCCESS then False
               else if priority_deserialize E self_priority (pv_priority_buffer rhs) \<noteq> OB_SUCCESS then False
               else (case priority_compare E self_priority (pv_priority_buffer lhs) (pv_priority_buffer rhs)
                            compare_version decentralized_voting of
                       (ret, compare_result) \<Rightarrow>
                         if ret \<noteq> OB_SUCCESS then False
                         else if compare_result < 0 then True
                         else if compare_result = 0 \<and> decentralized_voting then pv_sender rhs < pv_sender lhs
                         else False))"

end
