(* ===== verification/ElectionProposer.thy ===== *)
theory ElectionProposer
  imports ElectionState
begin

text \<open>
  The proposer of the election, \<^verbatim>\<open>election_proposer.cpp\<close>: it asks for votes (prepare), turns a
  majority of votes into requests for leases (propose), and turns a majority of granted leases into
  the lease of the leader.  A leader renews its lease, gives it up when it expires, and hands the
  leadership over by a message that names the ballot the new leader may take over.
\<close>

section \<open>Ballots, roles and leases\<close>

definition proposer_advance_ballot_number_and_reset_related_states :: "int \<Rightarrow> ElectionImpl \<Rightarrow> ElectionImpl option" where
  "proposer_advance_ballot_number_and_reset_related_states new_ballot_number e =
     (if \<not> new_ballot_number \<ge> p_ballot_number e then None
      else Some (e\<lparr>p_ballot_number := new_ballot_number,
                   p_memberlist_with_states := mls_clear_prepare_and_accept_states (p_memberlist_with_states e),
                   p_switch_source_leader_ballot := INVALID_VALUE,
                   p_switch_source_leader_addr := addr_reset (p_switch_source_leader_addr e)\<rparr>))"

definition leader_revoke_if_lease_expired :: "el_env \<Rightarrow> nat \<Rightarrow> RoleChangeReason \<Rightarrow> ElectionImpl \<Rightarrow> bool \<times> ElectionImpl" where
  "leader_revoke_if_lease_expired E k reason e =
     (if p_role e = LEADER \<and> \<not> check_leader E k e then
        let e = emit (RoleChange LEADER FOLLOWER reason) e
        in (True, e\<lparr>p_role := FOLLOWER,
                    p_memberlist_with_states := mls_clear_prepare_and_accept_states (p_memberlist_with_states e),
                    p_leader_lease_and_epoch := lle_reset (p_leader_lease_and_epoch e)\<rparr>)
      else (False, e))"

definition propose :: "el_env \<Rightarrow> nat \<Rightarrow> ElectionImpl \<Rightarrow> ElectionImpl" where
  "propose E k e =
     (let current_ts = mono E k;
          new_lease_interval = CALCULATE_LEASE_INTERVAL (max_tst E);
          e = (if new_lease_interval \<noteq> p_record_lease_interval e
               then e\<lparr>p_record_lease_interval := new_lease_interval\<rparr> else e);
          accept_req = accept_req_new (e_id e) (e_self_addr e) (p_restart_counter e) (p_prepare_success_ballot e)
            (get_ls_biggest_min_cluster_version_ever_seen E e) current_ts new_lease_interval
            (ml_membership_version (e_member_list e))
      in snd (broadcast E (AcceptReq accept_req) (ml_addr_list (e_member_list e)) e))"

definition leader_takeover_if_lease_valid :: "el_env \<Rightarrow> nat \<Rightarrow> RoleChangeReason \<Rightarrow> ElectionImpl \<Rightarrow> bool \<times> ElectionImpl" where
  "leader_takeover_if_lease_valid E k reason e =
     (if p_role e \<noteq> LEADER \<and> check_leader E k e then
        let e = emit (RoleChange FOLLOWER LEADER reason) e;
            e = e\<lparr>p_highest_priority_cache := hc_reset (p_highest_priority_cache e), p_role := LEADER\<rparr>
        in (True, propose E (k + 1) e)
      else (False, e))"

section \<open>Prepare\<close>

definition prepare :: "el_env \<Rightarrow> nat \<Rightarrow> ObRole \<Rightarrow> ElectionImpl \<Rightarrow> ElectionImpl option" where
  "prepare E k role e =
     (let cur_ts = wall E k
      in if ml_addr_list (e_member_list e) = [] then Some e
         else if \<not> is_self_in_memberlist e then Some e
         else if role = FOLLOWER \<and> cur_ts - p_last_do_prepare_ts e < CALCULATE_MAX_ELECT_COST_TIME (max_tst E) div 2 then Some e
         else do {
           let e = e\<lparr>p_last_do_prepare_ts := cur_ts\<rparr>;
           e \<leftarrow> (if role = FOLLOWER
                 then proposer_advance_ballot_number_and_reset_related_states (p_ballot_number e + 1) e
                 else if role = LEADER then Some e
                 else None);
           let prepare_req = prepare_req_new (e_id e) (e_self_addr e) (p_restart_counter e) (p_ballot_number e)
                 (get_ls_biggest_min_cluster_version_ever_seen E e) (generate_inner_priority_seed E k e)
                 (get_membership_version e);
           (case prepare_req_set E (e_priority e) role prepare_req of
              (ret, prepare_req) \<Rightarrow>
                if ret \<noteq> OB_SUCCESS then Some e
                else Some (snd (broadcast E (PrepareReq prepare_req) (ml_addr_list (e_member_list e)) e)))
         })"

text \<open>\<^verbatim>\<open>on_prepare_request\<close>; the first component of the result is \<^verbatim>\<open>need_register_devote_task\<close>.\<close>

definition proposer_on_prepare_request ::
  "el_env \<Rightarrow> nat \<Rightarrow> ElectionPrepareRequestMsg \<Rightarrow> ElectionImpl \<Rightarrow> (bool \<times> ElectionImpl) option" where
  "proposer_on_prepare_request E k prepare_req e =
     (if m_ballot_number prepare_req \<le> p_ballot_number e then
        if m_ballot_number prepare_req < p_ballot_number e then
          let prepare_res_reject = prepare_res_set_rejected (p_ballot_number e)
                (prepare_res_new (e_self_addr e) (get_ls_biggest_min_cluster_version_ever_seen E e) prepare_req)
          in Some (False, snd (send_msg E (PrepareRes prepare_res_reject) e))
        else Some (False, e)
      else if \<not> is_self_in_memberlist e then Some (False, e)
      else do {
        e \<leftarrow> proposer_advance_ballot_number_and_reset_related_states (m_ballot_number prepare_req) e;
        (if pq_role prepare_req = LEADER then Some (False, e)
         else if pq_role prepare_req \<noteq> FOLLOWER then Some (False, e)
         else if ml_addr_list (e_member_list e) = [] then Some (False, e)
         else
           let prepare_followed_req = prepare_req_new (e_id e) (e_self_addr e) (p_restart_counter e) (p_ballot_number e)
                 (get_ls_biggest_min_cluster_version_ever_seen E e) (generate_inner_priority_seed E k e)
                 (get_membership_version e)
           in case prepare_req_set E (e_priority e) (p_role e) prepare_followed_req of
                (ret, prepare_followed_req) \<Rightarrow>
                  if ret \<noteq> OB_SUCCESS then Some (False, e)
                  else case broadcast E (PrepareReq prepare_followed_req) (ml_addr_list (e_member_list e)) e of
                         (ret, e) \<Rightarrow>
                           if ret \<noteq> OB_SUCCESS then Some (False, e)
                           else Some (True, e\<lparr>p_last_do_prepare_ts := wall E k\<rparr>))
      })"

text \<open>\<^verbatim>\<open>ResponseChecker::check_ballot_and_restart_counter_valid_and_accepted\<close>, a template over the two
  responses; \<open>accepted\<close> is \<^verbatim>\<open>msg.is_accepted()\<close>.\<close>

definition check_ballot_and_restart_counter_valid_and_accepted ::
  "el_env \<Rightarrow> nat \<Rightarrow> 'a ElectionMsgBase_scheme \<Rightarrow> bool \<Rightarrow> ElectionImpl \<Rightarrow> (bool \<times> ElectionImpl) option" where
  "check_ballot_and_restart_counter_valid_and_accepted E k msg accepted e =
     (if m_restart_counter msg \<noteq> p_restart_counter e then
        (if \<not> m_restart_counter msg < p_restart_counter e then None else Some (False, e))
      else if m_ballot_number msg < p_ballot_number e then Some (False, e)
      else if m_ballot_number msg > p_ballot_number e then
        if accepted then None
        else do {
          e \<leftarrow> proposer_advance_ballot_number_and_reset_related_states (m_ballot_number msg) e;
          (if check_leader E k e then do {
             e \<leftarrow> proposer_advance_ballot_number_and_reset_related_states (p_ballot_number e + 1) e;
             e \<leftarrow> prepare E (k + 1) LEADER e;
             Some (False, e)
           } else Some (False, e))
        }
      else if \<not> accepted then Some (False, e)
      else Some (True, e))"

definition proposer_on_prepare_response :: "el_env \<Rightarrow> nat \<Rightarrow> ElectionPrepareResponseMsg \<Rightarrow> ElectionImpl \<Rightarrow> ElectionImpl option" where
  "proposer_on_prepare_response E k prepare_res e = do {
     let res_lease = pr_lease prepare_res;
     (ok, e) \<leftarrow> check_ballot_and_restart_counter_valid_and_accepted E k prepare_res (pr_accepted prepare_res) e;
     (if \<not> ok then Some e
      else if \<not> (lease_is_empty res_lease
                 \<or> l_owner res_lease = e_self_addr e
                 \<or> (l_owner res_lease = p_switch_source_leader_addr e
                    \<and> l_ballot_number res_lease = p_switch_source_leader_ballot e)) then Some e
      else do {
        (ret, mls) \<leftarrow> mls_record_prepare_ok prepare_res (p_memberlist_with_states e);
        let e = e\<lparr>p_memberlist_with_states := mls\<rparr>;
        (if ret \<noteq> OB_SUCCESS then Some e
         else let e = e\<lparr>p_prepare_success_ballot := max (p_ballot_number e) (p_prepare_success_ballot e)\<rparr>
              in Some (propose E (k + 2) e))
      })
   }"

section \<open>Change of the leader\<close>

definition inner_change_leader_to :: "el_env \<Rightarrow> nat \<Rightarrow> ObAddr \<Rightarrow> ElectionImpl \<Rightarrow> ElectionImpl option" where
  "inner_change_leader_to E k dst e = do {
     let switch_source_leader_ballot = p_ballot_number e;
     e \<leftarrow> proposer_advance_ballot_number_and_reset_related_states (p_ballot_number e + 1) e;
     let e = e\<lparr>p_leader_lease_and_epoch := lle_reset (p_leader_lease_and_epoch e)\<rparr>;
     let change_leader_msg = change_leader_new (e_id e) (e_self_addr e) (p_restart_counter e) (p_ballot_number e)
           (get_ls_biggest_min_cluster_version_ever_seen E e) switch_source_leader_ballot (get_membership_version e);
     let e = snd (leader_revoke_if_lease_expired E k ChangeLeaderToRevoke e);
     let change_leader_msg = change_leader_msg\<lparr>m_receiver := dst\<rparr>;
     Some (snd (send_msg E (ChangeLeader change_leader_msg) e))
   }"

definition proposer_change_leader_to :: "el_env \<Rightarrow> nat \<Rightarrow> ObAddr \<Rightarrow> ElectionImpl \<Rightarrow> (ob_ret \<times> ElectionImpl) option" where
  "proposer_change_leader_to E k dest_addr e =
     (let redirect_addr = (if dest_addr \<notin> set (ml_addr_list (e_member_list e)) then e_self_addr e else dest_addr)
      in if \<not> check_leader E k e then Some (OB_NOT_MASTER, e)
         else do {
           e \<leftarrow> inner_change_leader_to E (k + 1) redirect_addr e;
           Some (OB_SUCCESS, e)
         })"

definition prepare_change_leader_to :: "el_env \<Rightarrow> nat \<Rightarrow> ObAddr \<Rightarrow> ElectionImpl \<Rightarrow> (ob_ret \<times> ElectionImpl) option" where
  "prepare_change_leader_to E k dest_addr e =
     (if (case e_priority e of None \<Rightarrow> False | Some priority \<Rightarrow> priority_has_fatal_failure E priority) then
        proposer_change_leader_to E k (m_sender (hc_cached_msg (p_highest_priority_cache e))) e
      else case change_leader_cb E of
             None \<Rightarrow> Some (OB_SUCCESS, e)
           | Some ret \<Rightarrow> Some (ret, emit (PrepareChangeLeader (e_id e) dest_addr) e))"

definition proposer_on_change_leader :: "el_env \<Rightarrow> nat \<Rightarrow> ElectionChangeLeaderMsg \<Rightarrow> ElectionImpl \<Rightarrow> ElectionImpl option" where
  "proposer_on_change_leader E k change_leader_msg e =
     (let accept = (if m_sender change_leader_msg = e_self_addr e
                    then m_ballot_number change_leader_msg = p_ballot_number e
                    else m_ballot_number change_leader_msg > p_ballot_number e)
      in if \<not> accept then Some e
         else if cv_gt (cl_membership_version change_leader_msg) (ml_membership_version (e_member_list e)) then Some e
         else do {
           e \<leftarrow> proposer_advance_ballot_number_and_reset_related_states (m_ballot_number change_leader_msg) e;
           let e = e\<lparr>p_switch_source_leader_ballot := cl_switch_source_leader_ballot change_leader_msg,
                     p_switch_source_leader_addr := m_sender change_leader_msg\<rparr>;
           prepare E k LEADER e
         })"

section \<open>Accept responses\<close>

text \<open>The two halves of \<^verbatim>\<open>on_accept_response\<close>: steps 1 to 4 count the granted lease and extend the
  leader's lease, step 5 looks for a follower with a higher priority.\<close>

definition proposer_count_accept_response ::
  "el_env \<Rightarrow> nat \<Rightarrow> ElectionAcceptResponseMsg \<Rightarrow> ElectionImpl \<Rightarrow> ElectionImpl option" where
  "proposer_count_accept_response E k accept_res e = do {
     (ok, e) \<leftarrow> check_ballot_and_restart_counter_valid_and_accepted E k accept_res (ar_accepted accept_res) e;
     (if \<not> ok then Some e
      else do {
        (ret, mls) \<leftarrow> mls_record_accept_ok accept_res (p_memberlist_with_states e);
        let e = e\<lparr>p_memberlist_with_states := mls\<rparr>;
        (if ret \<noteq> OB_SUCCESS then Some e
         else do {
           new_lease_end \<leftarrow> mls_get_majority_promised_not_vote_ts (p_memberlist_with_states e);
           let e = snd (leader_revoke_if_lease_expired E (k + 2) LeaseExpiredToRevoke e);
           (record_leader_lease_end, exposed_epoch) \<leftarrow> lle_get (p_leader_lease_and_epoch e);
           let e = (if new_lease_end > record_leader_lease_end
                    then e\<lparr>p_leader_lease_and_epoch :=
                           lle_set_lease_and_epoch_if_lease_expired_or_just_set_lease E (k + 3) new_lease_end
                             (p_prepare_success_ballot e) (p_leader_lease_and_epoch e)\<rparr>
                    else e);
           (if p_switch_source_leader_ballot e \<noteq> INVALID_VALUE then
              if p_switch_source_leader_ballot e \<noteq> p_ballot_number e - 1 then Some e
              else (case leader_takeover_if_lease_valid E (k + 5) ChangeLeaderToBeLeader e of
                      (taken, e) \<Rightarrow>
                        Some (if taken then e\<lparr>p_switch_source_leader_ballot := INVALID_VALUE,
                                              p_switch_source_leader_addr := addr_reset (p_switch_source_leader_addr e)\<rparr>
                              else e))
            else Some (snd (leader_takeover_if_lease_valid E (k + 5) DevoteToBeLeader e)))
         })
      })
   }"

definition proposer_compare_priority ::
  "el_env \<Rightarrow> nat \<Rightarrow> ElectionAcceptResponseMsg \<Rightarrow> ElectionImpl \<Rightarrow> ElectionImpl option" where
  "proposer_compare_priority E k accept_res e =
     (if p_role e = LEADER \<and> m_sender accept_res \<noteq> e_self_addr e then
        let mock = accept_res_new (e_self_addr e) (generate_inner_priority_seed E k e) (get_membership_version e)
              (get_ls_biggest_min_cluster_version_ever_seen E e)
              (accept_req_new (e_id e) (e_self_addr e) (p_restart_counter e) (p_ballot_number e)
                 (get_ls_biggest_min_cluster_version_ever_seen E e) 0 (p_record_lease_interval e) (get_membership_version e))
        in case accept_res_set_accepted E (p_ballot_number e) (e_priority e) mock of
             (ret, mock) \<Rightarrow>
               if ret \<noteq> OB_SUCCESS then Some e
               else if is_rhs_message_higher E e (accept_res_view mock) (accept_res_view accept_res) False then
                 let e = e\<lparr>p_highest_priority_cache := hc_check_expired (wall E k) (p_highest_priority_cache e)\<rparr>
                 in if \<not> msg_base_is_valid (hc_cached_msg (p_highest_priority_cache e))
                    then Some (e\<lparr>p_highest_priority_cache := hc_set (wall E (k + 1)) accept_res (p_highest_priority_cache e)\<rparr>)
                    else if is_rhs_message_higher E e (accept_res_view (hc_cached_msg (p_highest_priority_cache e)))
                              (accept_res_view accept_res) True
                    then Some (e\<lparr>p_highest_priority_cache := hc_set (wall E (k + 1)) accept_res (p_highest_priority_cache e)\<rparr>)
                    else if m_sender (hc_cached_msg (p_highest_priority_cache e)) = m_sender accept_res
                    then map_option snd (prepare_change_leader_to E (k + 1)
                           (m_sender (hc_cached_msg (p_highest_priority_cache e))) e)
                    else Some e
               else Some e
      else Some e)"

definition proposer_on_accept_response :: "el_env \<Rightarrow> nat \<Rightarrow> ElectionAcceptResponseMsg \<Rightarrow> ElectionImpl \<Rightarrow> ElectionImpl option" where
  "proposer_on_accept_response E k accept_res e = do {
     e \<leftarrow> proposer_count_accept_response E k accept_res e;
     proposer_compare_priority E (k + 7) accept_res e
   }"

section \<open>Timer tasks and member lists\<close>

text \<open>The task that \<^verbatim>\<open>register_renew_lease_task_\<close> schedules.\<close>

definition renew_lease_task :: "el_env \<Rightarrow> ElectionImpl \<Rightarrow> ElectionImpl" where
  "renew_lease_task E e =
     (if \<not> e_is_running e then e
      else if p_role e = FOLLOWER then e
      else if p_role e \<noteq> LEADER then e
      else case leader_revoke_if_lease_expired E 0 LeaseExpiredToRevoke e of
             (revoked, e) \<Rightarrow>
               if revoked then e
               else if p_prepare_success_ballot e \<noteq> p_ballot_number e then e
               else propose E 1 e)"

text \<open>The task that \<^verbatim>\<open>reschedule_or_register_prepare_task_after_\<close> registers, and that function.\<close>

definition devote_task :: "el_env \<Rightarrow> ElectionImpl \<Rightarrow> ElectionImpl option" where
  "devote_task E e =
     (if check_leader E 0 e then
        (if p_prepare_success_ballot e = p_ballot_number e then Some e else prepare E 1 (p_role e) e)
      else
        let e = (if p_role e = LEADER then e\<lparr>p_role := FOLLOWER\<rparr> else e)
        in prepare E 1 (p_role e) e)"

definition reschedule_or_register_prepare_task_after :: "el_env \<Rightarrow> int \<Rightarrow> ElectionImpl \<Rightarrow> ob_ret \<times> ElectionImpl" where
  "reschedule_or_register_prepare_task_after E delay_us e =
     (if delay_us < 0 then (OB_INVALID_ARGUMENT, e)
      else if p_devote_task_running e then (reschedule_ret E, emit (RescheduleDevote delay_us) e)
      else
        let e = emit (RegisterDevote delay_us) e
        in if reschedule_ret E \<noteq> OB_SUCCESS then (reschedule_ret E, e)
           else (OB_SUCCESS, e\<lparr>p_devote_task_running := True\<rparr>))"

definition proposer_can_set_memberlist :: "el_env \<Rightarrow> nat \<Rightarrow> LogConfigVersion \<Rightarrow> ElectionImpl \<Rightarrow> ob_ret" where
  "proposer_can_set_memberlist E k new_config_version e =
     (if \<not> cv_is_valid new_config_version then OB_INVALID_ARGUMENT
      else if ml_is_valid (e_member_list e) then
        (if cv_lt new_config_version (ml_membership_version (e_member_list e)) then OB_INVALID_ARGUMENT
         else if check_leader E k e then
           (if \<not> mls_is_synced_with_majority (p_memberlist_with_states e) then OB_OP_NOT_ALLOW else OB_SUCCESS)
         else OB_SUCCESS)
      else OB_SUCCESS)"

definition proposer_set_member_list ::
  "el_env \<Rightarrow> nat \<Rightarrow> bool \<Rightarrow> (nat \<Rightarrow> ob_ret) \<Rightarrow> MemberList \<Rightarrow> ElectionImpl \<Rightarrow> (ob_ret \<times> ElectionImpl) option" where
  "proposer_set_member_list E k malloc_ok mem new_member_list e =
     (let ret = proposer_can_set_memberlist E k (ml_membership_version new_member_list) e
      in if ret \<noteq> OB_SUCCESS then Some (ret, e)
         else do {
           let old_list = e_member_list e;
           (ret, mls) \<leftarrow> mls_set_member_list malloc_ok mem new_member_list (p_memberlist_with_states e);
           let e = e\<lparr>p_memberlist_with_states := mls\<rparr>;
           (if ret \<noteq> OB_SUCCESS then Some (ret, e)
            else if ml_addr_list old_list = [] \<and> length (ml_addr_list new_member_list) = 1 then do {
              e \<leftarrow> prepare E (k + 1) FOLLOWER e;
              Some (OB_SUCCESS, e)
            }
            else Some (OB_SUCCESS, e))
         })"

definition proposer_stop :: "el_env \<Rightarrow> ElectionImpl \<Rightarrow> ElectionImpl" where
  "proposer_stop E e =
     (let e = e\<lparr>p_devote_task_running := False\<rparr>;
          e = e\<lparr>p_leader_lease_and_epoch := lle_reset (p_leader_lease_and_epoch e)\<rparr>
      in snd (leader_revoke_if_lease_expired E 0 StopToRevoke e))"

end
