(* ===== verification/ElectionAcceptor.thy ===== *)
theory ElectionAcceptor
  imports ElectionState
begin

text \<open>
  The acceptor of the election, \<^verbatim>\<open>election_acceptor.cpp\<close>: it grants leases and votes.  A vote for a
  follower's request waits for the end of a time window, in which the request with the highest
  priority wins; a leader's request is answered at once.
\<close>

section \<open>Operations\<close>

text \<open>\<^verbatim>\<open>CHECK_SILENCE\<close>: whether the acceptor must still pretend to see nothing.\<close>

definition keeps_silence :: "el_env \<Rightarrow> nat \<Rightarrow> bool" where
  "keeps_silence E k \<longleftrightarrow> init_ts E < 0 \<or> mono E k < init_ts E + MAX_LEASE_TIME"

text \<open>\<^verbatim>\<open>RequestChecker::check_ballot_valid\<close> with the two overloads of \<^verbatim>\<open>create_reject_message_\<close>.\<close>

definition check_prepare_ballot_valid :: "el_env \<Rightarrow> nat \<Rightarrow> ElectionPrepareRequestMsg \<Rightarrow> ElectionImpl \<Rightarrow> bool \<times> ElectionImpl" where
  "check_prepare_ballot_valid E k msg e =
     (if m_ballot_number msg < a_ballot_number e then
        let reject_msg = prepare_res_new (e_self_addr e) (get_ls_biggest_min_cluster_version_ever_seen E e) msg;
            reject_msg = prepare_res_set_rejected (a_ballot_number e) reject_msg
        in (False, snd (send_msg E (PrepareRes reject_msg) e))
      else (True, e))"

definition check_accept_ballot_valid :: "el_env \<Rightarrow> nat \<Rightarrow> ElectionAcceptRequestMsg \<Rightarrow> ElectionImpl \<Rightarrow> bool \<times> ElectionImpl" where
  "check_accept_ballot_valid E k msg e =
     (if m_ballot_number msg < a_ballot_number e then
        let reject_msg = accept_res_new (e_self_addr e) (generate_inner_priority_seed E k e) (get_membership_version e)
              (get_ls_biggest_min_cluster_version_ever_seen E e) msg;
            reject_msg = accept_res_set_rejected (a_ballot_number e) reject_msg
        in (False, snd (send_msg E (AcceptRes reject_msg) e))
      else (True, e))"

definition reset_time_window_states :: "ElectionImpl \<Rightarrow> ElectionImpl" where
  "reset_time_window_states e =
     (if a_is_time_window_opened e
      then e\<lparr>a_is_time_window_opened := False,
             a_highest_priority_prepare_req := msg_base_reset (a_highest_priority_prepare_req e)\<rparr>
      else e)"

definition acceptor_advance_ballot_number_and_reset_related_states :: "int \<Rightarrow> ElectionImpl \<Rightarrow> ElectionImpl" where
  "acceptor_advance_ballot_number_and_reset_related_states new_ballot_number e =
     (if new_ballot_number > a_ballot_number e
      then reset_time_window_states (e\<lparr>a_ballot_number := new_ballot_number, a_ballot_of_time_window := new_ballot_number\<rparr>)
      else e)"

text \<open>The timer task that \<^verbatim>\<open>ElectionAcceptor::start\<close> schedules.  Its clock readings are the three
  tests of the lease and the wall clock.\<close>

definition acceptor_timer_vote :: "el_env \<Rightarrow> nat \<Rightarrow> ElectionImpl \<Rightarrow> ElectionImpl" where
  "acceptor_timer_vote E k e =
     (if a_ballot_of_time_window e = m_ballot_number (a_highest_priority_prepare_req e)
         \<and> a_ballot_of_time_window e > a_ballot_number e then
        let prepare_res_accept = prepare_res_new (e_self_addr e) (get_ls_biggest_min_cluster_version_ever_seen E e)
              (a_highest_priority_prepare_req e);
            e = e\<lparr>a_ballot_number := a_ballot_of_time_window e\<rparr>;
            e = (if lease_is_expired (mono E k) (a_lease e) then e\<lparr>a_lease := lease_reset (a_lease e)\<rparr> else e);
            prepare_res_accept = prepare_res_set_accepted (a_ballot_number e) (a_lease e) prepare_res_accept
        in snd (send_msg E (PrepareRes prepare_res_accept) e)
      else e)"

definition acceptor_timer_task :: "el_env \<Rightarrow> ElectionImpl \<Rightarrow> ElectionImpl" where
  "acceptor_timer_task E e =
     (let lease_valid_state = \<not> lease_is_expired (mono E 0) (a_lease e);
          e = (if a_last_record_lease_valid_state e \<noteq> lease_valid_state \<and> \<not> lease_valid_state
               then e\<lparr>a_lease := lease_reset (a_lease e)\<rparr> else e);
          e = (if a_last_record_lease_owner e \<noteq> l_owner (a_lease e)
               then e\<lparr>a_last_record_lease_owner := l_owner (a_lease e)\<rparr> else e);
          e = (if a_is_time_window_opened e then
                 let can_vote = (a_last_record_lease_valid_state e \<and> \<not> lease_valid_state)
                       \<or> wall E 0 - a_last_time_window_open_ts e \<ge> CALCULATE_TIME_WINDOW_SPAN_TS (max_tst E)
                 in if can_vote then (acceptor_timer_vote E 1 e)\<lparr>a_is_time_window_opened := False\<rparr> else e
               else e)
      in e\<lparr>a_last_record_lease_valid_state := lease_valid_state\<rparr>)"

text \<open>The three parts of \<^verbatim>\<open>on_prepare_request\<close>: the answer to a leader, the opening of a time window
  (its return code tells whether the timer could be set), and the choice of the request that will
  get the vote.\<close>

definition acceptor_vote_for_leader :: "el_env \<Rightarrow> ElectionPrepareRequestMsg \<Rightarrow> ElectionImpl \<Rightarrow> ElectionImpl" where
  "acceptor_vote_for_leader E prepare_req e =
     (if m_ballot_number prepare_req \<le> a_ballot_number e then e
      else
        let e = acceptor_advance_ballot_number_and_reset_related_states (m_ballot_number prepare_req) e;
            prepare_res_accept = prepare_res_new (e_self_addr e) (get_ls_biggest_min_cluster_version_ever_seen E e) prepare_req;
            prepare_res_accept = prepare_res_set_accepted (a_ballot_number e) (a_lease e) prepare_res_accept
        in emit (Send (PrepareRes prepare_res_accept)) e)"

definition acceptor_open_time_window :: "el_env \<Rightarrow> nat \<Rightarrow> ElectionPrepareRequestMsg \<Rightarrow> ElectionImpl \<Rightarrow> ob_ret \<times> ElectionImpl" where
  "acceptor_open_time_window E k prepare_req e =
     (let e = (if a_is_time_window_opened e \<and> m_ballot_number prepare_req > a_ballot_of_time_window e
               then reset_time_window_states e else e)
      in if \<not> a_is_time_window_opened e \<and> m_ballot_number prepare_req > a_ballot_of_time_window e then
           let e = e\<lparr>a_ballot_of_time_window := m_ballot_number prepare_req,
                     a_highest_priority_prepare_req := msg_base_reset (a_highest_priority_prepare_req e)\<rparr>;
               timewindow_span =
                 (if \<not> lease_is_expired (mono E k) (a_lease e)
                  then max (l_lease_end_ts (a_lease e) - mono E (k + 1)) (CALCULATE_TIME_WINDOW_SPAN_TS (max_tst E) div 2)
                  else CALCULATE_TIME_WINDOW_SPAN_TS (max_tst E));
               e = emit (RescheduleWindow timewindow_span) e
           in if reschedule_ret E \<noteq> OB_SUCCESS then (reschedule_ret E, e)
              else (OB_SUCCESS, e\<lparr>a_is_time_window_opened := True, a_last_time_window_open_ts := wall E k\<rparr>)
         else (OB_SUCCESS, e))"

definition acceptor_count_request :: "el_env \<Rightarrow> ElectionPrepareRequestMsg \<Rightarrow> ElectionImpl \<Rightarrow> ElectionImpl" where
  "acceptor_count_request E prepare_req e =
     (if m_ballot_number prepare_req \<noteq> a_ballot_of_time_window e then e
      else if \<not> msg_base_is_valid (a_highest_priority_prepare_req e) then e\<lparr>a_highest_priority_prepare_req := prepare_req\<rparr>
      else if cv_gt (pq_membership_version prepare_req) (pq_membership_version (a_highest_priority_prepare_req e))
        then e\<lparr>a_highest_priority_prepare_req := prepare_req\<rparr>
      else if cv_lt (pq_membership_version prepare_req) (pq_membership_version (a_highest_priority_prepare_req e)) then e
      else if is_rhs_message_higher E e (prepare_req_view (a_highest_priority_prepare_req e)) (prepare_req_view prepare_req) True
        then e\<lparr>a_highest_priority_prepare_req := prepare_req\<rparr>
      else e)"

definition acceptor_on_prepare_request :: "el_env \<Rightarrow> nat \<Rightarrow> ElectionPrepareRequestMsg \<Rightarrow> ElectionImpl \<Rightarrow> ElectionImpl" where
  "acceptor_on_prepare_request E k prepare_req e =
     (if keeps_silence E k then e
      else if \<not> is_member_list_valid e then e
      else if cv_lt (pq_membership_version prepare_req) (get_membership_version e) then e
      else case check_prepare_ballot_valid E (k + 1) prepare_req e of
             (valid, e) \<Rightarrow>
               if \<not> valid then e
               else if pq_role prepare_req = LEADER then acceptor_vote_for_leader E prepare_req e
               else case acceptor_open_time_window E (k + 1) prepare_req e of
                      (ret, e) \<Rightarrow>
                        if ret = OB_SUCCESS \<and> a_is_time_window_opened e then acceptor_count_request E prepare_req e
                        else e)"

text \<open>\<^verbatim>\<open>on_accept_request\<close> also returns the output \<^verbatim>\<open>us_to_expired\<close>, which its caller sets to 0 before
  the call.\<close>

definition acceptor_on_accept_request :: "el_env \<Rightarrow> nat \<Rightarrow> ElectionAcceptRequestMsg \<Rightarrow> ElectionImpl \<Rightarrow> (int \<times> ElectionImpl) option" where
  "acceptor_on_accept_request E k accept_req e =
     (if keeps_silence E k then Some (0, e)
      else case check_accept_ballot_valid E (k + 1) accept_req e of
             (valid, e) \<Rightarrow>
               if \<not> valid then Some (0, e)
               else
                 let e = (if m_ballot_number accept_req > a_ballot_number e
                          then acceptor_advance_ballot_number_and_reset_related_states (m_ballot_number accept_req) e else e)
                 in case lease_update_from (mono E (k + 2)) accept_req (a_lease e) of
                      None \<Rightarrow> None
                    | Some lease \<Rightarrow>
                        let e = e\<lparr>a_lease := lease\<rparr>;
                            us_to_expired = l_lease_end_ts lease - mono E (k + 3);
                            accept_res_accept = accept_res_new (e_self_addr e) (generate_inner_priority_seed E (k + 4) e)
                              (get_membership_version e) (get_ls_biggest_min_cluster_version_ever_seen E e) accept_req
                        in case accept_res_set_accepted E (a_ballot_number e) (e_priority e) accept_res_accept of
                             (ret, accept_res_accept) \<Rightarrow>
                               if ret \<noteq> OB_SUCCESS then Some (us_to_expired, e)
                               else Some (us_to_expired, snd (send_msg E (AcceptRes accept_res_accept) e)))"

end
