(* ===== verification/ElectionImpl.thy ===== *)
theory ElectionImpl
  imports ElectionProposer ElectionAcceptor
begin

text \<open>
  The election object, \<^verbatim>\<open>election_impl.cpp\<close>: the handlers of the five messages, the interface other
  modules call, and the start and stop of the instance.  A handler first notes the sender's cluster
  version, then answers \<^verbatim>\<open>OB_NOT_INIT\<close> or \<^verbatim>\<open>OB_NOT_RUNNING\<close> unless the object is running, and then
  passes the message to proposer and acceptor.
\<close>

section \<open>Start and stop\<close>

definition proposer_init :: "bool \<Rightarrow> int \<Rightarrow> ElectionImpl \<Rightarrow> ob_ret \<times> ElectionImpl" where
  "proposer_init malloc_ok restart_counter e =
     (case mls_init malloc_ok of
        (ret, None) \<Rightarrow> (ret, e)
      | (ret, Some mls) \<Rightarrow> (ret, e\<lparr>p_memberlist_with_states := mls, p_restart_counter := restart_counter\<rparr>))"

text \<open>\<^verbatim>\<open>ElectionProposer::start\<close> registers the devote task three seconds ahead and the renew task;
  \<open>timer_ret\<close> holds the results of the timer, \<open>assign_ret\<close> those of copying the two callbacks.\<close>

definition proposer_start :: "el_env \<Rightarrow> (nat \<Rightarrow> ob_ret) \<Rightarrow> ElectionImpl \<Rightarrow> ob_ret \<times> ElectionImpl" where
  "proposer_start E timer_ret e =
     (case reschedule_or_register_prepare_task_after (E\<lparr>reschedule_ret := timer_ret 0\<rparr>) 3000000 e of
        (ret, e) \<Rightarrow> if ret \<noteq> OB_SUCCESS then (ret, e) else (timer_ret 1, e))"

definition init_and_start ::
  "el_env \<Rightarrow> bool \<Rightarrow> (nat \<Rightarrow> ob_ret) \<Rightarrow> (nat \<Rightarrow> ob_ret) \<Rightarrow> bool \<Rightarrow> int \<Rightarrow> ObAddr \<Rightarrow> u64 \<Rightarrow> int \<Rightarrow> ElectionImpl \<Rightarrow> ob_ret \<times> ElectionImpl" where
  "init_and_start E malloc_ok assign_ret timer_ret args_ok eid self_addr inner_priority_seed restart_counter e =
     (if \<not> args_ok then (OB_INVALID_ARGUMENT, e)
      else if e_is_inited e then (OB_INIT_TWICE, e)
      else case proposer_init malloc_ok restart_counter e of
             (ret, e) \<Rightarrow>
               if ret \<noteq> OB_SUCCESS then (ret, e)
               else if assign_ret 0 \<noteq> OB_SUCCESS then (assign_ret 0, e)
               else if assign_ret 1 \<noteq> OB_SUCCESS then (assign_ret 1, e)
               else
                 let e = e\<lparr>e_id := eid, e_self_addr := self_addr, e_inner_priority_seed := inner_priority_seed\<rparr>
                 in case proposer_start E timer_ret e of
                      (ret, e) \<Rightarrow>
                        if ret \<noteq> OB_SUCCESS then (ret, e)
                        else if timer_ret 2 \<noteq> OB_SUCCESS then (timer_ret 2, e)
                        else (OB_SUCCESS, e\<lparr>e_is_inited := True, e_is_running := True\<rparr>))"

definition election_stop :: "el_env \<Rightarrow> ElectionImpl \<Rightarrow> ElectionImpl" where
  "election_stop E e =
     (let e = e\<lparr>e_priority := None\<rparr>
      in if \<not> e_is_inited e \<or> \<not> e_is_running e then e
         else proposer_stop E (e\<lparr>e_is_running := False\<rparr>))"

section \<open>Interface\<close>

definition election_can_set_memberlist :: "el_env \<Rightarrow> LogConfigVersion \<Rightarrow> ElectionImpl \<Rightarrow> ob_ret" where
  "election_can_set_memberlist E new_config_version e =
     (if \<not> cv_is_valid new_config_version then OB_INVALID_ARGUMENT
      else if \<not> e_is_inited e then OB_NOT_INIT
      else proposer_can_set_memberlist E 0 new_config_version e)"

definition election_set_memberlist ::
  "el_env \<Rightarrow> bool \<Rightarrow> (nat \<Rightarrow> ob_ret) \<Rightarrow> MemberList \<Rightarrow> ElectionImpl \<Rightarrow> (ob_ret \<times> ElectionImpl) option" where
  "election_set_memberlist E malloc_ok mem new_memberlist e =
     (if \<not> ml_is_valid new_memberlist then Some (OB_INVALID_ARGUMENT, e)
      else if \<not> e_is_inited e then Some (OB_NOT_INIT, e)
      else proposer_set_member_list E 0 malloc_ok mem new_memberlist e)"

definition election_change_leader_to :: "el_env \<Rightarrow> ObAddr \<Rightarrow> ElectionImpl \<Rightarrow> (ob_ret \<times> ElectionImpl) option" where
  "election_change_leader_to E dest_addr e =
     (if \<not> addr_is_valid dest_addr then Some (OB_INVALID_ARGUMENT, e)
      else if \<not> e_is_inited e then Some (OB_NOT_INIT, e)
      else proposer_change_leader_to E 0 dest_addr e)"

definition election_set_priority :: "priority_ref option \<Rightarrow> ElectionImpl \<Rightarrow> ob_ret \<times> ElectionImpl" where
  "election_set_priority priority e =
     (if priority = None then (OB_INVALID_ARGUMENT, e)
      else if e_priority e \<noteq> None then (OB_ENTRY_EXIST, e)
      else (OB_SUCCESS, e\<lparr>e_priority := priority\<rparr>))"

definition election_reset_priority :: "ElectionImpl \<Rightarrow> ob_ret \<times> ElectionImpl" where
  "election_reset_priority e =
     (if \<not> e_is_inited e then (OB_NOT_INIT, e) else (OB_SUCCESS, e\<lparr>e_priority := None\<rparr>))"

definition temporarily_downgrade_protocol_priority :: "el_env \<Rightarrow> int \<Rightarrow> ElectionImpl \<Rightarrow> ob_ret \<times> ElectionImpl" where
  "temporarily_downgrade_protocol_priority E time_us e =
     (if \<not> e_is_inited e then (OB_NOT_INIT, e)
      else (OB_SUCCESS, e\<lparr>e_downgrade_expire_ts := mono E 0 + time_us, e_downgrade_interval := time_us\<rparr>))"

definition add_inner_priority_seed_bit :: "u64 \<Rightarrow> ElectionImpl \<Rightarrow> ob_ret \<times> ElectionImpl" where
  "add_inner_priority_seed_bit new_bit e =
     (if \<not> e_is_inited e then (OB_NOT_INIT, e)
      else if e_inner_priority_seed e AND new_bit \<noteq> 0 then (OB_ENTRY_EXIST, e)
      else (OB_SUCCESS, e\<lparr>e_inner_priority_seed := e_inner_priority_seed e OR new_bit\<rparr>))"

text \<open>The test uses \<^verbatim>\<open>|\<close>.\<close>

definition clear_inner_priority_seed_bit :: "u64 \<Rightarrow> ElectionImpl \<Rightarrow> ob_ret \<times> ElectionImpl" where
  "clear_inner_priority_seed_bit old_bit e =
     (if \<not> e_is_inited e then (OB_NOT_INIT, e)
      else if \<not> (e_inner_priority_seed e OR old_bit) \<noteq> 0 then (OB_ENTRY_NOT_EXIST, e)
      else (OB_SUCCESS, e\<lparr>e_inner_priority_seed := e_inner_priority_seed e AND NOT old_bit\<rparr>))"

definition set_inner_priority_seed :: "u64 \<Rightarrow> ElectionImpl \<Rightarrow> ob_ret \<times> ElectionImpl" where
  "set_inner_priority_seed seed e = (OB_SUCCESS, e\<lparr>e_inner_priority_seed := seed\<rparr>)"

text \<open>\<^verbatim>\<open>get_role\<close> and \<^verbatim>\<open>get_current_leader_likely\<close> return the role, the address and the epoch.  The
  latter resets the output address in place, so an address of no leader is the reset of what the caller
  passed or of the lease's owner.\<close>

definition get_role :: "el_env \<Rightarrow> ElectionImpl \<Rightarrow> ObRole \<times> int" where
  "get_role E e = (if check_leader E 0 e then (LEADER, lle_epoch (p_leader_lease_and_epoch e)) else (FOLLOWER, 0))"

definition get_current_leader_likely :: "el_env \<Rightarrow> ObAddr \<Rightarrow> ElectionImpl \<Rightarrow> ObAddr \<times> int" where
  "get_current_leader_likely E addr e =
     (if check_leader E 0 e then (e_self_addr e, lle_epoch (p_leader_lease_and_epoch e))
      else if \<not> lease_is_expired (mono E 1) (a_lease e) then
        (let addr = l_owner (a_lease e)
         in if addr = e_self_addr e \<or> \<not> addr_is_valid addr then (addr_reset addr, 0)
            else (addr, l_ballot_number (a_lease e)))
      else (addr_reset addr, 0))"

section \<open>Messages\<close>

definition handle_message_base :: "u64 \<Rightarrow> ElectionImpl \<Rightarrow> ElectionImpl" where
  "handle_message_base version e = (if e_version e < version then e\<lparr>e_version := version\<rparr> else e)"

definition check_election_init_and_start :: "ElectionImpl \<Rightarrow> ob_ret" where
  "check_election_init_and_start e =
     (if \<not> e_is_inited e then OB_NOT_INIT else if \<not> e_is_running e then OB_NOT_RUNNING else OB_SUCCESS)"

definition handle_prepare_request :: "el_env \<Rightarrow> ElectionPrepareRequestMsg \<Rightarrow> ElectionImpl \<Rightarrow> (ob_ret \<times> ElectionImpl) option" where
  "handle_prepare_request E msg e =
     (let e = handle_message_base (m_version msg) e;
          ret = check_election_init_and_start e
      in if ret \<noteq> OB_SUCCESS then Some (ret, e)
         else do {
           (need_register_devote_task, e) \<leftarrow>
             (if m_sender msg \<noteq> e_self_addr e then proposer_on_prepare_request E 0 msg e else Some (False, e));
           let e = acceptor_on_prepare_request E 1 msg e;
           Some (if need_register_devote_task
                 then reschedule_or_register_prepare_task_after E (CALCULATE_MAX_ELECT_COST_TIME (max_tst E)) e
                 else (OB_SUCCESS, e))
         })"

definition handle_accept_request :: "el_env \<Rightarrow> ElectionAcceptRequestMsg \<Rightarrow> ElectionImpl \<Rightarrow> (ob_ret \<times> ElectionImpl) option" where
  "handle_accept_request E msg e =
     (let e = handle_message_base (m_version msg) e;
          ret = check_election_init_and_start e
      in if ret \<noteq> OB_SUCCESS then Some (ret, e)
         else do {
           e \<leftarrow> (if m_ballot_number msg > p_ballot_number e
                 then proposer_advance_ballot_number_and_reset_related_states (m_ballot_number msg) e else Some e);
           (us_to_expired, e) \<leftarrow> acceptor_on_accept_request E 0 msg e;
           Some (if us_to_expired > 0 then
                   (if us_to_expired - CALCULATE_TRIGGER_ELECT_WATER_MARK (max_tst E) < 0 then (OB_SUCCESS, e)
                    else reschedule_or_register_prepare_task_after E
                           (us_to_expired - CALCULATE_TRIGGER_ELECT_WATER_MARK (max_tst E)) e)
                 else (OB_SUCCESS, e))
         })"

definition handle_prepare_response :: "el_env \<Rightarrow> ElectionPrepareResponseMsg \<Rightarrow> ElectionImpl \<Rightarrow> (ob_ret \<times> ElectionImpl) option" where
  "handle_prepare_response E msg e =
     (let e = handle_message_base (m_version msg) e;
          ret = check_election_init_and_start e
      in if ret \<noteq> OB_SUCCESS then Some (ret, e)
         else map_option (Pair OB_SUCCESS) (proposer_on_prepare_response E 0 msg e))"

definition handle_accept_response :: "el_env \<Rightarrow> ElectionAcceptResponseMsg \<Rightarrow> ElectionImpl \<Rightarrow> (ob_ret \<times> ElectionImpl) option" where
  "handle_accept_response E msg e =
     (let e = handle_message_base (m_version msg) e;
          ret = check_election_init_and_start e
      in if ret \<noteq> OB_SUCCESS then Some (ret, e)
         else map_option (Pair OB_SUCCESS) (proposer_on_accept_response E 0 msg e))"

definition handle_change_leader :: "el_env \<Rightarrow> ElectionChangeLeaderMsg \<Rightarrow> ElectionImpl \<Rightarrow> (ob_ret \<times> ElectionImpl) option" where
  "handle_change_leader E msg e =
     (let e = handle_message_base (m_version msg) e;
          ret = check_election_init_and_start e
      in if ret \<noteq> OB_SUCCESS then Some (ret, e)
         else map_option (Pair OB_SUCCESS) (proposer_on_change_leader E 0 msg e))"

fun handle_message :: "el_env \<Rightarrow> el_msg \<Rightarrow> ElectionImpl \<Rightarrow> (ob_ret \<times> ElectionImpl) option" where
  "handle_message E (PrepareReq m) e = handle_prepare_request E m e"
| "handle_message E (PrepareRes m) e = handle_prepare_response E m e"
| "handle_message E (AcceptReq m) e = handle_accept_request E m e"
| "handle_message E (AcceptRes m) e = handle_accept_response E m e"
| "handle_message E (ChangeLeader m) e = handle_change_leader E m e"

end
