(* ===== verification/ElectionNet.thy ===== *)
theory ElectionNet
  imports ElectionImpl
begin

text \<open>
  A cluster of election instances.  Every replica runs one \<^verbatim>\<open>ElectionImpl\<close>; the replicas share
  nothing but messages.  A replica's activations (message handlers, timer tasks, calls of the
  interface) are serialised by its lock; activations of different replicas overlap freely, because
  every replica has its own progress in real time.

  \<^item> An activation takes a span of real time.  The local monotonic clock runs at the rate of real
    time with an offset of its own; the readings of the activation lie in its span and do not decrease.
  \<^item> Messages get on the way when the activation ends.  The network may lose, delay, duplicate and
    reorder them: the messages sent so far form a set that only grows, and any of them may be
    delivered at any later time, any number of times, or never.  A message whose send reports an error
    may be delivered all the same.
  \<^item> The membership is fixed: a replica has no member list at first and receives the one of the
    configuration at any time.  Replicas do not restart.
\<close>

record el_config =
  cf_members :: MemberList
  cf_off :: "ObAddr \<Rightarrow> int"  \<comment> \<open>local monotonic clock minus real time\<close>
  cf_restart_counter :: "ObAddr \<Rightarrow> int"

record net_state =
  ns_node :: "ObAddr \<Rightarrow> ElectionImpl"
  ns_time :: "ObAddr \<Rightarrow> int"
  ns_msgs :: "(int \<times> el_msg) set"

datatype el_act =
    Deliver el_msg
  | AcceptorTimer
  | RenewTask
  | DevoteTask
  | ApiSetMemberlist bool "nat \<Rightarrow> ob_ret"
  | ApiChangeLeaderTo ObAddr
  | ApiSetPriority "priority_ref option"
  | ApiResetPriority
  | ApiDowngrade int
  | ApiAddSeedBit u64
  | ApiClearSeedBit u64
  | ApiSetSeed u64
  | ApiStop

fun run_act :: "el_config \<Rightarrow> el_env \<Rightarrow> el_act \<Rightarrow> ElectionImpl \<Rightarrow> ElectionImpl option" where
  "run_act C E (Deliver m) e = map_option snd (handle_message E m e)"
| "run_act C E AcceptorTimer e = Some (acceptor_timer_task E e)"
| "run_act C E RenewTask e = Some (renew_lease_task E e)"
| "run_act C E DevoteTask e = devote_task E e"
| "run_act C E (ApiSetMemberlist malloc_ok mem) e = map_option snd (election_set_memberlist E malloc_ok mem (cf_members C) e)"
| "run_act C E (ApiChangeLeaderTo dst) e = map_option snd (election_change_leader_to E dst e)"
| "run_act C E (ApiSetPriority p) e = Some (snd (election_set_priority p e))"
| "run_act C E ApiResetPriority e = Some (snd (election_reset_priority e))"
| "run_act C E (ApiDowngrade t) e = Some (snd (temporarily_downgrade_protocol_priority E t e))"
| "run_act C E (ApiAddSeedBit b) e = Some (snd (add_inner_priority_seed_bit b e))"
| "run_act C E (ApiClearSeedBit b) e = Some (snd (clear_inner_priority_seed_bit b e))"
| "run_act C E (ApiSetSeed b) e = Some (snd (set_inner_priority_seed b e))"
| "run_act C E ApiStop e = Some (election_stop E e)"

fun out_msgs :: "el_out \<Rightarrow> el_msg list" where
  "out_msgs (Send m) = [m]"
| "out_msgs (Broadcast m addrs) = map (\<lambda>a. el_msg_set_receiver a m) addrs"
| "out_msgs _ = []"

definition sent_msgs :: "ElectionImpl \<Rightarrow> el_msg list" where
  "sent_msgs e = concat (map out_msgs (e_out e))"

text \<open>What a replica can do between the real times \<open>t0\<close> and \<open>t1\<close>.\<close>

definition act_enabled :: "el_config \<Rightarrow> net_state \<Rightarrow> ObAddr \<Rightarrow> int \<Rightarrow> int \<Rightarrow> el_env \<Rightarrow> el_act \<Rightarrow> bool" where
  "act_enabled C s r t0 t1 E a \<longleftrightarrow>
     addr_is_valid r \<and> ns_time s r \<le> t0 \<and> t0 \<le> t1
     \<and> (\<forall>k. t0 + cf_off C r \<le> mono E k \<and> mono E k \<le> t1 + cf_off C r \<and> mono E k \<le> mono E (k + 1))
     \<and> (case a of Deliver m \<Rightarrow> el_msg_receiver m = r \<and> (\<exists>\<tau> \<le> t0. (\<tau>, m) \<in> ns_msgs s) | _ \<Rightarrow> True)"

definition net_after :: "net_state \<Rightarrow> ObAddr \<Rightarrow> int \<Rightarrow> ElectionImpl \<Rightarrow> net_state" where
  "net_after s r t1 e = \<lparr>ns_node = (ns_node s)(r := e), ns_time = (ns_time s)(r := t1),
     ns_msgs = ns_msgs s \<union> {t1} \<times> set (sent_msgs e)\<rparr>"

inductive net_step :: "el_config \<Rightarrow> net_state \<Rightarrow> net_state \<Rightarrow> bool" for C where
  act: "act_enabled C s r t0 t1 E a \<Longrightarrow> run_act C E a ((ns_node s r)\<lparr>e_out := []\<rparr>) = Some e
        \<Longrightarrow> net_step C s (net_after s r t1 e)"
| wait: "ns_time s r \<le> t \<Longrightarrow> net_step C s (s\<lparr>ns_time := (ns_time s)(r := t)\<rparr>)"

text \<open>Initially every replica has just been started by \<^verbatim>\<open>init_and_start\<close> at its own address.\<close>

definition node_started :: "el_config \<Rightarrow> ObAddr \<Rightarrow> ElectionImpl \<Rightarrow> bool" where
  "node_started C r e \<longleftrightarrow>
     (\<exists>E malloc_ok assign_ret timer_ret eid seed g h.
        init_and_start E malloc_ok assign_ret timer_ret True eid r seed (cf_restart_counter C r) (election_new g h)
          = (OB_SUCCESS, e))"

definition net_initial :: "el_config \<Rightarrow> net_state \<Rightarrow> bool" where
  "net_initial C s \<longleftrightarrow> (\<forall>r. node_started C r (ns_node s r)) \<and> (\<forall>r. 0 \<le> ns_time s r + cf_off C r) \<and> ns_msgs s = {}"

inductive net_reach :: "el_config \<Rightarrow> net_state \<Rightarrow> bool" for C where
  initial: "net_initial C s \<Longrightarrow> net_reach C s"
| step: "net_reach C s \<Longrightarrow> net_step C s s' \<Longrightarrow> net_reach C s'"

definition config_ok :: "el_config \<Rightarrow> bool" where
  "config_ok C \<longleftrightarrow> ml_is_valid (cf_members C) \<and> distinct (ml_addr_list (cf_members C))
     \<and> length (ml_addr_list (cf_members C)) \<le> ml_get_replica_num (cf_members C)"

text \<open>A replica is the leader at the real time it has reached when \<^verbatim>\<open>check_leader\<close> says so for the
  reading its clock then has.\<close>

definition is_leader_now :: "el_config \<Rightarrow> net_state \<Rightarrow> ObAddr \<Rightarrow> bool" where
  "is_leader_now C s r \<longleftrightarrow> (\<exists>E. mono E 0 = ns_time s r + cf_off C r \<and> check_leader E 0 (ns_node s r))"

end
