(* ===== verification/ElectionInv.thy ===== *)
theory ElectionInv
  imports ElectionNet
begin

text \<open>
  The invariant of the cluster.  It speaks of the part of a replica's state that decides who may
  lead (\<open>el_core\<close>) and of the messages sent so far, which record the history: an accepted prepare
  response is a vote, an accepted accept response a granted lease, an accept request the proof that
  its sender won the ballot, a change-leader message that its sender gave a ballot up.
\<close>

section \<open>The abstract state\<close>

record el_core =
  c_self :: ObAddr
  c_rc :: int
  c_role :: ObRole
  c_pb :: int
  c_mls :: PImpl
  c_psb :: int
  c_end :: int  \<comment> \<open>end of the leader's lease\<close>
  c_epoch :: int
  c_seq :: int
  c_sslb :: int
  c_ssla :: ObAddr
  c_ab :: int
  c_lease :: Lease
  c_hp :: ElectionPrepareRequestMsg

definition core :: "ElectionImpl \<Rightarrow> el_core" where
  "core e = \<lparr>c_self = e_self_addr e, c_rc = p_restart_counter e, c_role = p_role e,
     c_pb = p_ballot_number e, c_mls = p_memberlist_with_states e, c_psb = p_prepare_success_ballot e,
     c_end = lle_lease (p_leader_lease_and_epoch e),
     c_epoch = lle_epoch (p_leader_lease_and_epoch e), c_seq = lle_seq (p_leader_lease_and_epoch e),
     c_sslb = p_switch_source_leader_ballot e, c_ssla = p_switch_source_leader_addr e,
     c_ab = a_ballot_number e, c_lease = a_lease e, c_hp = a_highest_priority_prepare_req e\<rparr>"

record gstate =
  g_core :: "ObAddr \<Rightarrow> el_core"
  g_time :: "ObAddr \<Rightarrow> int"
  g_msgs :: "(int \<times> el_msg) set"

section \<open>Votes, grants, requests\<close>

definition vote :: "(int \<times> el_msg) set \<Rightarrow> ObAddr \<Rightarrow> ObAddr \<Rightarrow> int \<Rightarrow> Lease \<Rightarrow> int \<Rightarrow> bool" where
  "vote N a p b l \<tau> \<longleftrightarrow> (\<exists>m. (\<tau>, PrepareRes m) \<in> N \<and> pr_accepted m \<and> m_sender m = a \<and> m_receiver m = p
     \<and> m_ballot_number m = b \<and> pr_lease m = l)"

text \<open>\<open>x\<close> is the end of the granted lease on the clock of the proposer \<open>o\<close>.\<close>

definition grant :: "(int \<times> el_msg) set \<Rightarrow> ObAddr \<Rightarrow> ObAddr \<Rightarrow> int \<Rightarrow> int \<Rightarrow> int \<Rightarrow> bool" where
  "grant N a p b x \<tau> \<longleftrightarrow> (\<exists>m. (\<tau>, AcceptRes m) \<in> N \<and> ar_accepted m \<and> m_sender m = a \<and> m_receiver m = p
     \<and> m_ballot_number m = b \<and> x = ar_lease_started_ts_on_proposer m + ar_lease_interval m)"

definition areq :: "(int \<times> el_msg) set \<Rightarrow> ObAddr \<Rightarrow> int \<Rightarrow> int \<Rightarrow> bool" where
  "areq N p b \<sigma> \<longleftrightarrow> (\<exists>m. (\<sigma>, AcceptReq m) \<in> N \<and> m_sender m = p \<and> m_ballot_number m = b)"

definition preq :: "(int \<times> el_msg) set \<Rightarrow> ObAddr \<Rightarrow> int \<Rightarrow> bool" where
  "preq N p b \<longleftrightarrow> (\<exists>\<tau> m. (\<tau>, PrepareReq m) \<in> N \<and> m_sender m = p \<and> m_ballot_number m = b)"

definition chg :: "(int \<times> el_msg) set \<Rightarrow> ObAddr \<Rightarrow> int \<Rightarrow> bool" where
  "chg N p b \<longleftrightarrow> (\<exists>\<tau> m. (\<tau>, ChangeLeader m) \<in> N \<and> m_sender m = p \<and> cl_switch_source_leader_ballot m = b)"

abbreviation members :: "el_config \<Rightarrow> ObAddr list" where
  "members C \<equiv> ml_addr_list (cf_members C)"

definition majority :: "el_config \<Rightarrow> ObAddr set \<Rightarrow> bool" where
  "majority C Q \<longleftrightarrow> Q \<subseteq> set (members C) \<and> ml_get_replica_num (cf_members C) div 2 + 1 \<le> card Q"

definition ok_lease :: "(int \<times> el_msg) set \<Rightarrow> ObAddr \<Rightarrow> Lease \<Rightarrow> bool" where
  "ok_lease N p l \<longleftrightarrow> lease_is_empty l \<or> l_owner l = p \<or> chg N (l_owner l) (l_ballot_number l)"

definition won :: "el_config \<Rightarrow> (int \<times> el_msg) set \<Rightarrow> ObAddr \<Rightarrow> int \<Rightarrow> int \<Rightarrow> bool" where
  "won C N p b \<sigma> \<longleftrightarrow> (\<exists>Q. majority C Q \<and> (\<forall>a \<in> Q. \<exists>l \<tau>. vote N a p b l \<tau> \<and> \<tau> \<le> \<sigma> \<and> ok_lease N p l))"

definition backed :: "el_config \<Rightarrow> (int \<times> el_msg) set \<Rightarrow> ObAddr \<Rightarrow> int \<Rightarrow> int \<Rightarrow> bool" where
  "backed C N p b x \<longleftrightarrow> (\<exists>Q. majority C Q \<and> (\<forall>a \<in> Q. \<exists>y \<tau>. grant N a p b y \<tau> \<and> x \<le> y))"

section \<open>The invariant\<close>

text \<open>What holds of every message, given the current states.\<close>

definition prep_req_ok :: "el_config \<Rightarrow> gstate \<Rightarrow> int \<Rightarrow> ElectionPrepareRequestMsg \<Rightarrow> bool" where
  "prep_req_ok C s \<tau> m \<longleftrightarrow> \<tau> \<le> g_time s (m_sender m) \<and> m_restart_counter m = cf_restart_counter C (m_sender m)
     \<and> m_ballot_number m \<le> c_pb (g_core s (m_sender m))"

definition prep_res_ok :: "el_config \<Rightarrow> gstate \<Rightarrow> int \<Rightarrow> ElectionPrepareResponseMsg \<Rightarrow> bool" where
  "prep_res_ok C s \<tau> m \<longleftrightarrow> \<tau> \<le> g_time s (m_sender m) \<and> m_restart_counter m = cf_restart_counter C (m_receiver m)
     \<and> (pr_accepted m \<longrightarrow> 0 \<le> m_ballot_number m \<and> m_ballot_number m \<le> c_ab (g_core s (m_sender m))
          \<and> preq (g_msgs s) (m_receiver m) (m_ballot_number m)
          \<and> l_ballot_number (pr_lease m) < m_ballot_number m
          \<and> (\<not> lease_is_empty (pr_lease m) \<longrightarrow>
               (\<exists>\<sigma> \<le> \<tau>. areq (g_msgs s) (l_owner (pr_lease m)) (l_ballot_number (pr_lease m)) \<sigma>)))"

definition acc_req_ok :: "el_config \<Rightarrow> gstate \<Rightarrow> int \<Rightarrow> ElectionAcceptRequestMsg \<Rightarrow> bool" where
  "acc_req_ok C s \<tau> m \<longleftrightarrow> addr_is_valid (m_sender m) \<and> \<tau> \<le> g_time s (m_sender m)
     \<and> m_restart_counter m = cf_restart_counter C (m_sender m)
     \<and> 0 \<le> m_ballot_number m \<and> m_ballot_number m \<le> c_psb (g_core s (m_sender m))
     \<and> aq_lease_start_ts_on_proposer m \<le> \<tau> + cf_off C (m_sender m)
     \<and> won C (g_msgs s) (m_sender m) (m_ballot_number m) \<tau>"

definition acc_res_ok :: "el_config \<Rightarrow> gstate \<Rightarrow> int \<Rightarrow> ElectionAcceptResponseMsg \<Rightarrow> bool" where
  "acc_res_ok C s \<tau> m \<longleftrightarrow> \<tau> \<le> g_time s (m_sender m) \<and> m_restart_counter m = cf_restart_counter C (m_receiver m)
     \<and> (ar_accepted m \<longrightarrow>
          (\<exists>\<sigma> \<le> \<tau>. areq (g_msgs s) (m_receiver m) (m_ballot_number m) \<sigma>)
          \<and> m_ballot_number m \<le> l_ballot_number (c_lease (g_core s (m_sender m)))
          \<and> ((let x = ar_lease_started_ts_on_proposer m + ar_lease_interval m - cf_off C (m_receiver m);
                  l = c_lease (g_core s (m_sender m))
              in (\<not> lease_is_empty l \<and> x \<le> l_lease_end_ts l - cf_off C (m_sender m)) \<or> x < g_time s (m_sender m))))"

definition chg_ok :: "gstate \<Rightarrow> ElectionChangeLeaderMsg \<Rightarrow> bool" where
  "chg_ok s m \<longleftrightarrow> cl_switch_source_leader_ballot m < c_pb (g_core s (m_sender m))"

fun msg_ok :: "el_config \<Rightarrow> gstate \<Rightarrow> int \<Rightarrow> el_msg \<Rightarrow> bool" where
  "msg_ok C s \<tau> (PrepareReq m) = prep_req_ok C s \<tau> m"
| "msg_ok C s \<tau> (PrepareRes m) = prep_res_ok C s \<tau> m"
| "msg_ok C s \<tau> (AcceptReq m) = acc_req_ok C s \<tau> m"
| "msg_ok C s \<tau> (AcceptRes m) = acc_res_ok C s \<tau> m"
| "msg_ok C s \<tau> (ChangeLeader m) = chg_ok s m"

text \<open>An acceptor votes once per ballot, and its vote reports every lease it granted before that
  may still run.\<close>

definition votes_unique :: "(int \<times> el_msg) set \<Rightarrow> bool" where
  "votes_unique N \<longleftrightarrow> (\<forall>a p p' b l l' \<tau> \<tau>'. vote N a p b l \<tau> \<longrightarrow> vote N a p' b l' \<tau>' \<longrightarrow> p = p')"

definition votes_report :: "el_config \<Rightarrow> (int \<times> el_msg) set \<Rightarrow> bool" where
  "votes_report C N \<longleftrightarrow> (\<forall>a p b l \<tau> o' b' x \<tau>'. vote N a p b l \<tau> \<longrightarrow> grant N a o' b' x \<tau>' \<longrightarrow> b' < b \<longrightarrow>
     x - cf_off C o' < \<tau>
     \<or> (\<not> lease_is_empty l \<and> b' \<le> l_ballot_number l \<and> x - cf_off C o' \<le> l_lease_end_ts l - cf_off C a))"

text \<open>What holds of the state of every replica.\<close>

definition mls_ok :: "el_config \<Rightarrow> gstate \<Rightarrow> ObAddr \<Rightarrow> el_core \<Rightarrow> bool" where
  "mls_ok C s r c \<longleftrightarrow>
     mls_wf (c_mls c) \<and> (member_list (c_mls c) = ml_new \<or> member_list (c_mls c) = cf_members C)
     \<and> (\<forall>i < length (prepare_ok (c_mls c)). prepare_ok (c_mls c) ! i \<longrightarrow>
          i < length (members C) \<and> (\<exists>l \<tau>. vote (g_msgs s) (members C ! i) r (c_pb c) l \<tau> \<and> \<tau> \<le> g_time s r \<and> ok_lease (g_msgs s) r l))
     \<and> (\<forall>i < length (accept_ok_promise_not_vote_before_local_ts (c_mls c)).
          accept_ok_promise_not_vote_before_local_ts (c_mls c) ! i \<noteq> 0 \<longrightarrow>
          i < length (members C)
          \<and> (\<exists>\<tau>. grant (g_msgs s) (members C ! i) r (c_pb c) (accept_ok_promise_not_vote_before_local_ts (c_mls c) ! i) \<tau>))"

definition proposer_ok :: "el_config \<Rightarrow> gstate \<Rightarrow> ObAddr \<Rightarrow> el_core \<Rightarrow> bool" where
  "proposer_ok C s r c \<longleftrightarrow>
     c_self c = r \<and> c_rc c = cf_restart_counter C r \<and> c_psb c \<le> c_pb c \<and> c_seq c mod 2 \<noteq> 0
     \<and> (c_role c = FOLLOWER \<or> c_role c = LEADER \<and> 0 \<le> c_psb c)
     \<and> (0 \<le> c_psb c \<longrightarrow> won C (g_msgs s) r (c_psb c) (g_time s r))
     \<and> (0 < c_end c \<longrightarrow> 0 \<le> c_epoch c) \<and> (0 \<le> c_epoch c \<longrightarrow> won C (g_msgs s) r (c_epoch c) (g_time s r))
     \<and> (0 < c_end c \<longrightarrow> (\<exists>b. backed C (g_msgs s) r b (c_end c) \<and> b \<le> c_pb c \<and> (\<forall>B. chg (g_msgs s) r B \<longrightarrow> B < b)))
     \<and> (c_sslb c \<noteq> INVALID_VALUE \<longrightarrow> chg (g_msgs s) (c_ssla c) (c_sslb c))"

definition acceptor_ok :: "el_config \<Rightarrow> gstate \<Rightarrow> ObAddr \<Rightarrow> el_core \<Rightarrow> bool" where
  "acceptor_ok C s r c \<longleftrightarrow>
     -1 \<le> c_ab c \<and> l_ballot_number (c_lease c) \<le> c_ab c
     \<and> (\<not> lease_is_empty (c_lease c) \<longrightarrow>
          (\<exists>\<sigma> \<le> g_time s r. areq (g_msgs s) (l_owner (c_lease c)) (l_ballot_number (c_lease c)) \<sigma>))
     \<and> (m_ballot_number (c_hp c) \<noteq> INVALID_VALUE \<longrightarrow> (\<exists>\<tau>. (\<tau>, PrepareReq (c_hp c)) \<in> g_msgs s))"

definition einv :: "el_config \<Rightarrow> gstate \<Rightarrow> bool" where
  "einv C s \<longleftrightarrow>
     (\<forall>\<tau> m. (\<tau>, m) \<in> g_msgs s \<longrightarrow> msg_ok C s \<tau> m) \<and> votes_unique (g_msgs s) \<and> votes_report C (g_msgs s)
     \<and> (\<forall>r. mls_ok C s r (g_core s r) \<and> proposer_ok C s r (g_core s r) \<and> acceptor_ok C s r (g_core s r))
     \<and> (\<forall>r. 0 \<le> g_time s r + cf_off C r)"

section \<open>At most one leader\<close>

lemma majority_meets:
  assumes "config_ok C" "majority C Q" "majority C Q'"
  obtains a where "a \<in> Q" "a \<in> Q'"
proof (cases "Q \<inter> Q' = {}")
  case True
  let ?n = "ml_get_replica_num (cf_members C)"
  have sub: "Q \<subseteq> set (members C)" "Q' \<subseteq> set (members C)" using assms(2,3) by (auto simp: majority_def)
  then have fin: "finite Q" "finite Q'" using finite_subset by blast+
  have "card Q + card Q' = card (Q \<union> Q')" using True fin by (simp add: card_Un_disjoint)
  also have "\<dots> \<le> card (set (members C))" using sub by (intro card_mono) auto
  also have "\<dots> \<le> length (members C)" by (rule card_length)
  also have "\<dots> \<le> ?n" using assms(1) by (simp add: config_ok_def)
  finally have "card Q + card Q' \<le> ?n" .
  moreover have "?n div 2 + 1 \<le> card Q" "?n div 2 + 1 \<le> card Q'" using assms(2,3) by (simp_all add: majority_def)
  ultimately have False by linarith
  then show ?thesis ..
qed (use that in blast)

lemma won_unique:
  assumes "config_ok C" "votes_unique N" "won C N p b \<sigma>" "won C N p' b \<sigma>'"
  shows "p = p'"
proof -
  obtain Q where Q: "majority C Q" "\<forall>a \<in> Q. \<exists>l \<tau>. vote N a p b l \<tau>" using assms(3) unfolding won_def by blast
  obtain Q' where Q': "majority C Q'" "\<forall>a \<in> Q'. \<exists>l \<tau>. vote N a p' b l \<tau>" using assms(4) unfolding won_def by blast
  obtain a where "a \<in> Q" "a \<in> Q'" using majority_meets [OF assms(1) Q(1) Q'(1)] .
  then show ?thesis using Q(2) Q'(2) assms(2) unfolding votes_unique_def by blast
qed

lemma einv_msgs: "einv C s \<Longrightarrow> (\<tau>, m) \<in> g_msgs s \<Longrightarrow> msg_ok C s \<tau> m"
  by (simp add: einv_def)

lemma einv_areq:
  "einv C s \<Longrightarrow> areq (g_msgs s) p b \<sigma> \<Longrightarrow>
   won C (g_msgs s) p b \<sigma> \<and> 0 \<le> b \<and> b \<le> c_psb (g_core s p) \<and> \<sigma> \<le> g_time s p \<and> addr_is_valid p"
  unfolding areq_def using einv_msgs [of C s \<sigma> "AcceptReq m" for m] by (fastforce simp: acc_req_ok_def)

lemma einv_vote:
  assumes "einv C s" "vote (g_msgs s) a p b l \<tau>"
  shows "0 \<le> b" "b \<le> c_ab (g_core s a)" "\<tau> \<le> g_time s a" "l_ballot_number l < b" "preq (g_msgs s) p b"
    "\<not> lease_is_empty l \<Longrightarrow> \<exists>\<sigma> \<le> \<tau>. areq (g_msgs s) (l_owner l) (l_ballot_number l) \<sigma>"
proof -
  obtain m where m: "(\<tau>, PrepareRes m) \<in> g_msgs s" "pr_accepted m" "m_sender m = a" "m_receiver m = p"
      "m_ballot_number m = b" "pr_lease m = l"
    using assms(2) unfolding vote_def by blast
  have "prep_res_ok C s \<tau> m" using einv_msgs [OF assms(1) m(1)] by simp
  then show "0 \<le> b" "b \<le> c_ab (g_core s a)" "\<tau> \<le> g_time s a" "l_ballot_number l < b" "preq (g_msgs s) p b"
    "\<not> lease_is_empty l \<Longrightarrow> \<exists>\<sigma> \<le> \<tau>. areq (g_msgs s) (l_owner l) (l_ballot_number l) \<sigma>"
    using m by (simp_all add: prep_res_ok_def)
qed

lemma einv_grant:
  assumes "einv C s" "grant (g_msgs s) a p b x \<tau>"
  shows "\<exists>\<sigma> \<le> \<tau>. areq (g_msgs s) p b \<sigma>" "b \<le> l_ballot_number (c_lease (g_core s a))"
proof -
  obtain m where m: "(\<tau>, AcceptRes m) \<in> g_msgs s" "ar_accepted m" "m_sender m = a" "m_receiver m = p" "m_ballot_number m = b"
    using assms(2) unfolding grant_def by blast
  have "acc_res_ok C s \<tau> m" using einv_msgs [OF assms(1) m(1)] by simp
  then show "\<exists>\<sigma> \<le> \<tau>. areq (g_msgs s) p b \<sigma>" "b \<le> l_ballot_number (c_lease (g_core s a))"
    using m by (auto simp: acc_res_ok_def)
qed

text \<open>A lease backed at a ballot below a ballot that another replica has won ended before that
  replica asked for leases, unless its owner gave it up.\<close>

lemma backed_ends:
  assumes "config_ok C" "einv C s"
    and "backed C (g_msgs s) p1 b1 x" "areq (g_msgs s) p2 b2 \<sigma>" "b1 < b2" "p1 \<noteq> p2"
  shows "x - cf_off C p1 < \<sigma> \<or> (\<exists>B \<ge> b1. chg (g_msgs s) p1 B)"
  using assms(4-6)
proof (induction "nat b2" arbitrary: b2 p2 \<sigma> rule: less_induct)
  case less
  let ?N = "g_msgs s"
  have uniq: "votes_unique ?N" and report: "votes_report C ?N" using assms(2) by (simp_all add: einv_def)
  obtain Q1 where Q1: "majority C Q1" "\<And>a. a \<in> Q1 \<Longrightarrow> \<exists>y \<tau>. grant ?N a p1 b1 y \<tau> \<and> x \<le> y"
    using assms(3) unfolding backed_def by blast
  have "won C ?N p2 b2 \<sigma>" using einv_areq [OF assms(2) less.prems(1)] by blast
  then obtain Q2 where Q2: "majority C Q2" "\<And>a. a \<in> Q2 \<Longrightarrow> \<exists>l \<tau>. vote ?N a p2 b2 l \<tau> \<and> \<tau> \<le> \<sigma> \<and> ok_lease ?N p2 l"
    unfolding won_def by blast
  obtain a where a: "a \<in> Q1" "a \<in> Q2" using majority_meets [OF assms(1) Q1(1) Q2(1)] .
  obtain y \<tau> where g: "grant ?N a p1 b1 y \<tau>" "x \<le> y" using Q1(2) [OF a(1)] by blast
  obtain l \<tau>' where v: "vote ?N a p2 b2 l \<tau>'" "\<tau>' \<le> \<sigma>" "ok_lease ?N p2 l" using Q2(2) [OF a(2)] by blast
  note v_props = einv_vote [OF assms(2) v(1)]
  consider "y - cf_off C p1 < \<tau>'" | "\<not> lease_is_empty l" "b1 \<le> l_ballot_number l"
    using report v(1) g(1) less.prems(2) unfolding votes_report_def by blast
  then show ?case
  proof cases
    case 1
    then show ?thesis using g(2) v(2) by simp
  next
    case 2
    obtain \<rho> where \<rho>: "\<rho> \<le> \<tau>'" "areq ?N (l_owner l) (l_ballot_number l) \<rho>" using v_props(6) 2(1) by blast
    have chg: "l_owner l = p2 \<or> chg ?N (l_owner l) (l_ballot_number l)" using v(3) 2(1) by (simp add: ok_lease_def)
    show ?thesis
    proof (cases "l_owner l = p1")
      case True
      then show ?thesis using chg less.prems(3) 2(2) by blast
    next
      case False
      have "l_ballot_number l \<noteq> b1"
      proof
        assume eq: "l_ballot_number l = b1"
        obtain \<sigma>' where "areq ?N p1 b1 \<sigma>'" using einv_grant(1) [OF assms(2) g(1)] by blast
        then have "won C ?N p1 b1 \<sigma>'" using einv_areq [OF assms(2)] by blast
        moreover have "won C ?N (l_owner l) b1 \<rho>" using einv_areq [OF assms(2) \<rho>(2)] eq by blast
        ultimately show False using won_unique [OF assms(1) uniq] False by blast
      qed
      then have lt: "b1 < l_ballot_number l" using 2(2) by simp
      have "nat (l_ballot_number l) < nat b2" using v_props(4) einv_areq [OF assms(2) \<rho>(2)] by simp
      from less.hyps [OF this \<rho>(2) lt] False show ?thesis using \<rho>(1) v(2) by force
    qed
  qed
qed

lemma einv_one_leader:
  assumes C: "config_ok C" and I: "einv C s" and t: "g_time s p = t" "g_time s q = t"
    and p: "t + cf_off C p < c_end (g_core s p)" and q: "t + cf_off C q < c_end (g_core s q)"
  shows "p = q"
proof (rule ccontr)
  assume neq: "p \<noteq> q"
  let ?N = "g_msgs s"
  have backing: "\<exists>b \<sigma>. backed C ?N r b (c_end (g_core s r)) \<and> areq ?N r b \<sigma> \<and> \<sigma> \<le> t \<and> (\<forall>B. chg ?N r B \<longrightarrow> B < b)"
    if r: "t + cf_off C r < c_end (g_core s r)" "g_time s r = t" for r
  proof -
    have "0 \<le> t + cf_off C r" using I r(2) unfolding einv_def by force
    then have "0 < c_end (g_core s r)" using r(1) by simp
    moreover have "proposer_ok C s r (g_core s r)" using I by (simp add: einv_def)
    ultimately obtain b where b: "backed C ?N r b (c_end (g_core s r))" "\<forall>B. chg ?N r B \<longrightarrow> B < b"
      unfolding proposer_ok_def by blast
    then obtain Q where Q: "majority C Q" "\<And>a. a \<in> Q \<Longrightarrow> \<exists>y \<tau>. grant ?N a r b y \<tau>" unfolding backed_def by blast
    obtain a where "a \<in> Q" using majority_meets [OF C Q(1) Q(1)] .
    then obtain \<sigma> where "areq ?N r b \<sigma>" using Q(2) einv_grant(1) [OF I] by blast
    then show ?thesis using b einv_areq [OF I] r(2) by blast
  qed
  obtain b1 \<sigma>1 where 1: "backed C ?N p b1 (c_end (g_core s p))" "areq ?N p b1 \<sigma>1" "\<sigma>1 \<le> t" "\<forall>B. chg ?N p B \<longrightarrow> B < b1"
    using backing [OF p t(1)] by blast
  obtain b2 \<sigma>2 where 2: "backed C ?N q b2 (c_end (g_core s q))" "areq ?N q b2 \<sigma>2" "\<sigma>2 \<le> t" "\<forall>B. chg ?N q B \<longrightarrow> B < b2"
    using backing [OF q t(2)] by blast
  have "b1 \<noteq> b2"
  proof
    assume eq: "b1 = b2"
    have "won C ?N p b1 \<sigma>1" "won C ?N q b2 \<sigma>2" using einv_areq [OF I] 1(2) 2(2) by blast+
    then show False using won_unique [OF C, of ?N p b1 \<sigma>1 q \<sigma>2] I neq eq by (simp add: einv_def)
  qed
  then consider "b1 < b2" | "b2 < b1" by linarith
  then show False
  proof cases
    case 1
    from backed_ends [OF C I \<open>backed C ?N p b1 (c_end (g_core s p))\<close> 2(2) this neq]
    show False using p 2(3) \<open>\<forall>B. chg ?N p B \<longrightarrow> B < b1\<close> by force
  next
    case c: 2
    from backed_ends [OF C I \<open>backed C ?N q b2 (c_end (g_core s q))\<close> \<open>areq ?N p b1 \<sigma>1\<close> c] neq
    show False using q \<open>\<sigma>1 \<le> t\<close> \<open>\<forall>B. chg ?N q B \<longrightarrow> B < b2\<close> by force
  qed
qed

section \<open>Growth of the history\<close>

lemma history_mono:
  assumes "N \<subseteq> N'"
  shows "vote N a p b l \<tau> \<Longrightarrow> vote N' a p b l \<tau>" "grant N a p b x \<tau> \<Longrightarrow> grant N' a p b x \<tau>"
    "areq N p b \<tau> \<Longrightarrow> areq N' p b \<tau>" "preq N p b \<Longrightarrow> preq N' p b" "chg N p b \<Longrightarrow> chg N' p b"
  using assms unfolding vote_def grant_def areq_def preq_def chg_def by blast+

lemma ok_lease_mono: "N \<subseteq> N' \<Longrightarrow> ok_lease N p l \<Longrightarrow> ok_lease N' p l"
  unfolding ok_lease_def using history_mono(5) by blast

lemma won_mono: "N \<subseteq> N' \<Longrightarrow> \<sigma> \<le> \<sigma>' \<Longrightarrow> won C N p b \<sigma> \<Longrightarrow> won C N' p b \<sigma>'"
  unfolding won_def using history_mono(1) ok_lease_mono by (meson order_trans)

lemma backed_mono: "N \<subseteq> N' \<Longrightarrow> backed C N p b x \<Longrightarrow> backed C N' p b x"
  unfolding backed_def using history_mono(2) by meson

text \<open>A state follows another one: replicas and history have moved on.\<close>

definition core_le :: "el_config \<Rightarrow> gstate \<Rightarrow> ObAddr \<Rightarrow> el_core \<Rightarrow> el_core \<Rightarrow> bool" where
  "core_le C s r c c' \<longleftrightarrow> c_pb c \<le> c_pb c' \<and> c_psb c \<le> c_psb c' \<and> c_ab c \<le> c_ab c'
     \<and> l_ballot_number (c_lease c) \<le> l_ballot_number (c_lease c')
     \<and> (\<not> lease_is_empty (c_lease c) \<longrightarrow>
          (\<not> lease_is_empty (c_lease c') \<and> l_lease_end_ts (c_lease c) \<le> l_lease_end_ts (c_lease c'))
          \<or> l_lease_end_ts (c_lease c) - cf_off C r < g_time s r)"

lemma core_le_refl [simp]: "core_le C s r c c"
  by (simp add: core_le_def)

lemma msg_ok_mono:
  assumes "msg_ok C s \<tau> m" "g_msgs s \<subseteq> g_msgs s'" "\<And>r. g_time s r \<le> g_time s' r"
    "\<And>r. core_le C s' r (g_core s r) (g_core s' r)"
  shows "msg_ok C s' \<tau> m"
proof (cases m)
  case (PrepareReq q)
  then show ?thesis
    using assms(1) assms(3,4) [of "m_sender q"] by (auto simp: prep_req_ok_def core_le_def)
next
  case (PrepareRes q)
  then show ?thesis
    using assms(1) assms(3,4) [of "m_sender q"] history_mono [OF assms(2)]
    by (fastforce simp: prep_res_ok_def core_le_def)
next
  case (AcceptReq q)
  then show ?thesis
    using assms(1) assms(3,4) [of "m_sender q"] won_mono [OF assms(2) order_refl]
    by (auto simp: acc_req_ok_def core_le_def)
next
  case (ChangeLeader q)
  then show ?thesis
    using assms(1) assms(4) [of "m_sender q"] by (auto simp: chg_ok_def core_le_def)
next
  case (AcceptRes q)
  let ?a = "m_sender q"
  let ?x = "ar_lease_started_ts_on_proposer q + ar_lease_interval q - cf_off C (m_receiver q)"
  let ?l = "c_lease (g_core s ?a)" and ?l' = "c_lease (g_core s' ?a)"
  have ok: "acc_res_ok C s \<tau> q" using assms(1) AcceptRes by simp
  have le: "core_le C s' ?a (g_core s ?a) (g_core s' ?a)" "g_time s ?a \<le> g_time s' ?a" using assms(3,4) by blast+
  have "(\<not> lease_is_empty ?l' \<and> ?x \<le> l_lease_end_ts ?l' - cf_off C ?a) \<or> ?x < g_time s' ?a"
    if "(\<not> lease_is_empty ?l \<and> ?x \<le> l_lease_end_ts ?l - cf_off C ?a) \<or> ?x < g_time s ?a"
    using that le unfolding core_le_def by force
  then show ?thesis
    using ok le history_mono(3) [OF assms(2)] unfolding AcceptRes msg_ok.simps acc_res_ok_def Let_def core_le_def
    by (meson order_trans)
qed

lemma mls_ok_mono:
  "mls_ok C s r c \<Longrightarrow> g_msgs s \<subseteq> g_msgs s' \<Longrightarrow> g_time s r \<le> g_time s' r \<Longrightarrow> mls_ok C s' r c"
  unfolding mls_ok_def using history_mono [of "g_msgs s" "g_msgs s'"] ok_lease_mono [of "g_msgs s" "g_msgs s'"]
  by (meson order_trans)

lemma acceptor_ok_mono:
  "acceptor_ok C s r c \<Longrightarrow> g_msgs s \<subseteq> g_msgs s' \<Longrightarrow> g_time s r \<le> g_time s' r \<Longrightarrow> acceptor_ok C s' r c"
  unfolding acceptor_ok_def using history_mono(3) [of "g_msgs s" "g_msgs s'"] by (meson order_trans subsetD)

lemma proposer_ok_mono:
  assumes "proposer_ok C s r c" "g_msgs s \<subseteq> g_msgs s'" "g_time s r \<le> g_time s' r"
    "0 < c_end c \<Longrightarrow> \<forall>B. chg (g_msgs s') r B \<longrightarrow> chg (g_msgs s) r B"
  shows "proposer_ok C s' r c"
  using assms(1,4) won_mono [OF assms(2,3), of C r "c_psb c"] won_mono [OF assms(2,3), of C r "c_epoch c"] backed_mono [OF assms(2), of C r]
    history_mono(5) [OF assms(2)]
  unfolding proposer_ok_def by meson

section \<open>Steps that keep the invariant\<close>

abbreviation with_core :: "gstate \<Rightarrow> ObAddr \<Rightarrow> el_core \<Rightarrow> gstate" where
  "with_core s r c \<equiv> s\<lparr>g_core := (g_core s)(r := c)\<rparr>"

abbreviation with_msg :: "gstate \<Rightarrow> int \<Rightarrow> el_msg \<Rightarrow> gstate" where
  "with_msg s \<tau> m \<equiv> s\<lparr>g_msgs := insert (\<tau>, m) (g_msgs s)\<rparr>"

lemma einv_core:
  assumes "einv C s" "core_le C s r (g_core s r) c" "mls_ok C s r c" "proposer_ok C s r c" "acceptor_ok C s r c"
  shows "einv C (with_core s r c)"
proof -
  let ?s = "with_core s r c"
  have "msg_ok C ?s \<tau> m" if "(\<tau>, m) \<in> g_msgs s" for \<tau> m
  proof (rule msg_ok_mono [OF einv_msgs [OF assms(1) that]])
    show "core_le C ?s x (g_core s x) (g_core ?s x)" for x
      using assms(2) by (simp add: core_le_def)
  qed simp_all
  moreover have "mls_ok C ?s x d = mls_ok C s x d" "proposer_ok C ?s x d = proposer_ok C s x d"
    "acceptor_ok C ?s x d = acceptor_ok C s x d" for x d
    by (simp_all add: mls_ok_def proposer_ok_def acceptor_ok_def)
  ultimately show ?thesis
    using assms unfolding einv_def by simp
qed

lemma einv_time:
  assumes "einv C s" "g_time s r \<le> t"
  shows "einv C (s\<lparr>g_time := (g_time s)(r := t)\<rparr>)"
proof -
  let ?s = "s\<lparr>g_time := (g_time s)(r := t)\<rparr>"
  have le: "g_time s x \<le> g_time ?s x" for x using assms(2) by simp
  have "msg_ok C ?s \<tau> m" if "(\<tau>, m) \<in> g_msgs s" for \<tau> m
    by (rule msg_ok_mono [OF einv_msgs [OF assms(1) that]]) (use le in \<open>simp_all add: core_le_def\<close>)
  moreover have "mls_ok C ?s x (g_core s x)" "proposer_ok C ?s x (g_core s x)" "acceptor_ok C ?s x (g_core s x)" for x
    using assms(1) mls_ok_mono [of C s x _ ?s] proposer_ok_mono [of C s x _ ?s] acceptor_ok_mono [of C s x _ ?s] le [of x]
    unfolding einv_def by (simp_all del: fun_upd_apply)
  moreover have "0 \<le> g_time ?s x + cf_off C x" for x
    using assms(1) le [of x] unfolding einv_def by (metis add_mono_thms_linordered_semiring(3) order_trans)
  ultimately show ?thesis using assms(1) unfolding einv_def by simp
qed

lemma einv_msg:
  assumes "einv C s" "msg_ok C s \<tau> m"
    and "votes_unique (insert (\<tau>, m) (g_msgs s))" "votes_report C (insert (\<tau>, m) (g_msgs s))"
    and "\<And>q. m = ChangeLeader q \<Longrightarrow> \<not> 0 < c_end (g_core s (m_sender q))"
  shows "einv C (with_msg s \<tau> m)"
proof -
  let ?s = "with_msg s \<tau> m"
  have sub: "g_msgs s \<subseteq> g_msgs ?s" by auto
  have "msg_ok C ?s \<tau>' m'" if "(\<tau>', m') \<in> g_msgs ?s" for \<tau>' m'
    by (rule msg_ok_mono [OF _ sub]) (use that assms(2) einv_msgs [OF assms(1)] in \<open>auto simp: core_le_def\<close>)
  moreover have "mls_ok C ?s x (g_core s x)" "acceptor_ok C ?s x (g_core s x)" for x
    using assms(1) mls_ok_mono [OF _ sub, of C x] acceptor_ok_mono [OF _ sub, of C x]
    unfolding einv_def by simp_all
  moreover have "proposer_ok C ?s x (g_core s x)" for x
  proof (rule proposer_ok_mono [OF _ sub])
    show "proposer_ok C s x (g_core s x)" using assms(1) by (simp add: einv_def)
    show "\<forall>B. chg (g_msgs ?s) x B \<longrightarrow> chg (g_msgs s) x B" if "0 < c_end (g_core s x)"
      using assms(5) that unfolding chg_def by auto
  qed simp
  ultimately show ?thesis using assms(1,3,4) unfolding einv_def by simp
qed

text \<open>Messages that are neither a vote nor a grant.\<close>

fun quiet_msg :: "el_msg \<Rightarrow> bool" where
  "quiet_msg (PrepareRes m) = (\<not> pr_accepted m)"
| "quiet_msg (AcceptRes m) = (\<not> ar_accepted m)"
| "quiet_msg _ = True"

lemma quiet_msg_history:
  assumes "quiet_msg m"
  shows "vote (insert (\<tau>, m) N) = vote N" "grant (insert (\<tau>, m) N) = grant N"
  using assms by (intro ext; cases m; auto simp: vote_def grant_def)+

lemma einv_quiet_msg:
  assumes "einv C s" "quiet_msg m" "msg_ok C s \<tau> m" "\<And>q. m = ChangeLeader q \<Longrightarrow> \<not> 0 < c_end (g_core s (m_sender q))"
  shows "einv C (with_msg s \<tau> m)"
proof (rule einv_msg [OF assms(1,3) _ _ assms(4)])
  show "votes_unique (insert (\<tau>, m) (g_msgs s))"
    using assms(1) unfolding votes_unique_def quiet_msg_history [OF assms(2)] by (simp add: einv_def votes_unique_def)
  show "votes_report C (insert (\<tau>, m) (g_msgs s))"
    using assms(1) unfolding votes_report_def quiet_msg_history [OF assms(2)] by (simp add: einv_def votes_report_def)
qed

lemma einv_acceptor: "einv C s \<Longrightarrow> acceptor_ok C s r (g_core s r)"
  and einv_proposer: "einv C s \<Longrightarrow> proposer_ok C s r (g_core s r)"
  and einv_mls: "einv C s \<Longrightarrow> mls_ok C s r (g_core s r)"
  by (simp_all add: einv_def)

lemma einv_grant_covered:
  assumes "einv C s" "grant (g_msgs s) a p b x \<tau>"
  shows "(\<not> lease_is_empty (c_lease (g_core s a)) \<and> x - cf_off C p \<le> l_lease_end_ts (c_lease (g_core s a)) - cf_off C a)
    \<or> x - cf_off C p < g_time s a"
proof -
  obtain m where m: "(\<tau>, AcceptRes m) \<in> g_msgs s" "ar_accepted m" "m_sender m = a" "m_receiver m = p"
      "x = ar_lease_started_ts_on_proposer m + ar_lease_interval m"
    using assms(2) unfolding grant_def by blast
  have "acc_res_ok C s \<tau> m" using einv_msgs [OF assms(1) m(1)] by simp
  then show ?thesis using m unfolding acc_res_ok_def Let_def by simp
qed

lemma einv_vote_msg:
  assumes I: "einv C s" and b: "c_ab (g_core s r) < b"
    and m: "pr_accepted m" "m_sender m = r" "m_ballot_number m = b" "pr_lease m = c_lease (g_core s r)"
      "m_restart_counter m = cf_restart_counter C (m_receiver m)" "preq (g_msgs s) (m_receiver m) b"
  shows "einv C (with_msg (with_core s r ((g_core s r)\<lparr>c_ab := b\<rparr>)) (g_time s r) (PrepareRes m))"
proof -
  let ?c = "g_core s r" and ?N = "g_msgs s"
  let ?s = "with_core s r (?c\<lparr>c_ab := b\<rparr>)"
  let ?N' = "insert (g_time s r, PrepareRes m) ?N"
  have acc: "-1 \<le> c_ab ?c" "l_ballot_number (c_lease ?c) \<le> c_ab ?c"
    "\<not> lease_is_empty (c_lease ?c) \<Longrightarrow> \<exists>\<sigma> \<le> g_time s r. areq ?N (l_owner (c_lease ?c)) (l_ballot_number (c_lease ?c)) \<sigma>"
    using einv_acceptor [OF I, of r] by (simp_all add: acceptor_ok_def)
  have I': "einv C ?s"
    using einv_mls [OF I, of r] einv_proposer [OF I, of r] einv_acceptor [OF I, of r] b
    by (intro einv_core [OF I]) (simp_all add: core_le_def mls_ok_def proposer_ok_def acceptor_ok_def)
  have new: "vote ?N' a p b' l \<tau> \<longleftrightarrow> vote ?N a p b' l \<tau> \<or> (a, p, b', l, \<tau>) = (r, m_receiver m, b, c_lease ?c, g_time s r)" for a p b' l \<tau>
    using m by (auto simp: vote_def)
  have grants: "grant ?N' = grant ?N" by (intro ext) (simp add: grant_def)
  have old: "b' \<noteq> b" if "vote ?N r p b' l \<tau>" for p b' l \<tau>
    using einv_vote(2) [OF I that] b by simp
  show ?thesis
  proof (rule einv_msg [OF I'])
    show "msg_ok C ?s (g_time s r) (PrepareRes m)"
      using m acc b by (simp add: prep_res_ok_def)
    have "votes_unique ?N'"
      using I old unfolding votes_unique_def new einv_def by blast
    then show "votes_unique (insert (g_time s r, PrepareRes m) (g_msgs ?s))" by simp
    have "votes_report C ?N'"
      unfolding votes_report_def new grants
    proof (intro allI impI, elim disjE)
      fix a p b1 l \<tau> o' b' x \<tau>'
      assume g: "grant ?N a o' b' x \<tau>'" and lt: "b' < b1"
      {
        assume "vote ?N a p b1 l \<tau>"
        then show "x - cf_off C o' < \<tau>
            \<or> \<not> lease_is_empty l \<and> b' \<le> l_ballot_number l \<and> x - cf_off C o' \<le> l_lease_end_ts l - cf_off C a"
          using I g lt unfolding einv_def votes_report_def by blast
      next
        assume "(a, p, b1, l, \<tau>) = (r, m_receiver m, b, c_lease ?c, g_time s r)"
        then show "x - cf_off C o' < \<tau>
            \<or> \<not> lease_is_empty l \<and> b' \<le> l_ballot_number l \<and> x - cf_off C o' \<le> l_lease_end_ts l - cf_off C a"
          using einv_grant_covered [OF I g] einv_grant(2) [OF I g] by auto
      }
    qed
    then show "votes_report C (insert (g_time s r, PrepareRes m) (g_msgs ?s))" by simp
  qed simp
qed

lemma einv_grant_msg:
  assumes I: "einv C s"
    and m: "ar_accepted m" "m_sender m = r" "m_ballot_number m = c_ab (g_core s r)"
      "c_ab (g_core s r) = l_ballot_number (c_lease (g_core s r))" "m_restart_counter m = cf_restart_counter C (m_receiver m)"
    and req: "areq (g_msgs s) (m_receiver m) (m_ballot_number m) \<sigma>" "\<sigma> \<le> g_time s r"
    and cover: "\<not> lease_is_empty (c_lease (g_core s r))"
      "ar_lease_started_ts_on_proposer m + ar_lease_interval m - cf_off C (m_receiver m)
        \<le> l_lease_end_ts (c_lease (g_core s r)) - cf_off C r"
  shows "einv C (with_msg s (g_time s r) (AcceptRes m))"
proof (rule einv_msg [OF I])
  let ?N = "g_msgs s"
  let ?N' = "insert (g_time s r, AcceptRes m) ?N"
  have votes: "vote ?N' = vote ?N" by (intro ext) (simp add: vote_def)
  show "msg_ok C s (g_time s r) (AcceptRes m)"
    using m req cover by (auto simp: acc_res_ok_def)
  show "votes_unique ?N'" using I unfolding votes_unique_def votes by (simp add: einv_def votes_unique_def)
  have new: "grant ?N' a p b x \<tau> \<Longrightarrow> grant ?N a p b x \<tau> \<or> a = r \<and> b = c_ab (g_core s r)" for a p b x \<tau>
    using m by (auto simp: grant_def)
  show "votes_report C ?N'"
    unfolding votes_report_def votes
  proof (intro allI impI)
    fix a p b l \<tau> o' b' x \<tau>'
    assume v: "vote ?N a p b l \<tau>" and g: "grant ?N' a o' b' x \<tau>'" and lt: "b' < b"
    have "\<not> (a = r \<and> b' = c_ab (g_core s r))" using einv_vote(2) [OF I v] lt by auto
    then have "grant ?N a o' b' x \<tau>'" using new [OF g] by blast
    then show "x - cf_off C o' < \<tau>
        \<or> \<not> lease_is_empty l \<and> b' \<le> l_ballot_number l \<and> x - cf_off C o' \<le> l_lease_end_ts l - cf_off C a"
      using I v lt unfolding einv_def votes_report_def by blast
  qed
qed simp

end
