(* ===== verification/ElectionOps.thy ===== *)
theory ElectionOps
  imports ElectionInv
begin

text \<open>
  The operations of the election keep the invariant of the cluster.  While a replica \<open>r\<close> is active,
  the cluster is looked at as it will be when the activation ends at time \<open>t\<close> with the state \<open>e\<close>
  reached so far and the messages sent so far on their way: \<open>ginv\<close> is the invariant of that state.
  Every operation keeps \<open>ginv\<close>, and none of them fails an assertion.
\<close>

definition gcur :: "net_state \<Rightarrow> ObAddr \<Rightarrow> int \<Rightarrow> ElectionImpl \<Rightarrow> gstate" where
  "gcur s r t e = \<lparr>g_core = (\<lambda>x. core (ns_node s x))(r := core e), g_time = (ns_time s)(r := t),
     g_msgs = ns_msgs s \<union> {t} \<times> set (sent_msgs e)\<rparr>"

definition ginv :: "el_config \<Rightarrow> net_state \<Rightarrow> ObAddr \<Rightarrow> int \<Rightarrow> ElectionImpl \<Rightarrow> bool" where
  "ginv C s r t e \<longleftrightarrow> einv C (gcur s r t e)"

definition env_in :: "el_config \<Rightarrow> ObAddr \<Rightarrow> int \<Rightarrow> int \<Rightarrow> el_env \<Rightarrow> bool" where
  "env_in C r t0 t E \<longleftrightarrow> 0 \<le> t0 + cf_off C r \<and> t0 \<le> t \<and> addr_is_valid r
     \<and> (\<forall>k. t0 + cf_off C r \<le> mono E k \<and> mono E k \<le> t + cf_off C r)"

lemma env_inD:
  "env_in C r t0 t E \<Longrightarrow> mono E k \<le> t + cf_off C r" "env_in C r t0 t E \<Longrightarrow> t0 + cf_off C r \<le> mono E k"
  "env_in C r t0 t E \<Longrightarrow> addr_is_valid r" "env_in C r t0 t E \<Longrightarrow> t0 \<le> t"
  "env_in C r t0 t E \<Longrightarrow> 0 \<le> mono E k"
  by (simp_all add: env_in_def) (metis order_trans)

section \<open>Generic steps\<close>

lemma core_sel [simp]:
  "c_self (core e) = e_self_addr e" "c_rc (core e) = p_restart_counter e" "c_role (core e) = p_role e"
  "c_pb (core e) = p_ballot_number e" "c_mls (core e) = p_memberlist_with_states e"
  "c_psb (core e) = p_prepare_success_ballot e" "c_end (core e) = lle_lease (p_leader_lease_and_epoch e)"
  "c_epoch (core e) = lle_epoch (p_leader_lease_and_epoch e)" "c_seq (core e) = lle_seq (p_leader_lease_and_epoch e)"
  "c_sslb (core e) = p_switch_source_leader_ballot e" "c_ssla (core e) = p_switch_source_leader_addr e"
  "c_ab (core e) = a_ballot_number e" "c_lease (core e) = a_lease e" "c_hp (core e) = a_highest_priority_prepare_req e"
  by (simp_all add: core_def)

lemma gcur_sel [simp]:
  "g_core (gcur s r t e) r = core e" "g_time (gcur s r t e) r = t"
  "g_msgs (gcur s r t e) = ns_msgs s \<union> {t} \<times> set (sent_msgs e)"
  by (simp_all add: gcur_def)

lemma sent_msgs_emit [simp]:
  "sent_msgs (emit x e) = sent_msgs e @ out_msgs x" "core (emit x e) = core e"
  by (simp_all add: sent_msgs_def emit_def core_def)

lemma gcur_same: "core e' = core e \<Longrightarrow> sent_msgs e' = sent_msgs e \<Longrightarrow> gcur s r t e' = gcur s r t e"
  by (simp add: gcur_def)

lemma gcur_core: "sent_msgs e' = sent_msgs e \<Longrightarrow> gcur s r t e' = with_core (gcur s r t e) r (core e')"
  by (simp add: gcur_def)

lemma sent_msgs_cong: "e_out e' = e_out e \<Longrightarrow> sent_msgs e' = sent_msgs e"
  by (simp add: sent_msgs_def)

lemma ginv_same: "ginv C s r t e \<Longrightarrow> core e' = core e \<Longrightarrow> sent_msgs e' = sent_msgs e \<Longrightarrow> ginv C s r t e'"
  unfolding ginv_def using gcur_same [of e' e s r t] by simp

lemma ginv_emit: "ginv C s r t e \<Longrightarrow> out_msgs x = [] \<Longrightarrow> ginv C s r t (emit x e)"
  by (erule ginv_same) simp_all

lemma ginv_core:
  assumes "ginv C s r t e" "sent_msgs e' = sent_msgs e"
    and "core_le C (gcur s r t e) r (core e) (core e')" "mls_ok C (gcur s r t e) r (core e')"
      "proposer_ok C (gcur s r t e) r (core e')" "acceptor_ok C (gcur s r t e) r (core e')"
  shows "ginv C s r t e'"
  using assms unfolding ginv_def gcur_core [OF assms(2)] by (intro einv_core) simp_all

lemma ginv_parts:
  assumes "ginv C s r t e"
  shows "mls_ok C (gcur s r t e) r (core e)" "proposer_ok C (gcur s r t e) r (core e)" "acceptor_ok C (gcur s r t e) r (core e)"
  using einv_mls [OF assms [unfolded ginv_def], of r] einv_proposer [OF assms [unfolded ginv_def], of r]
    einv_acceptor [OF assms [unfolded ginv_def], of r] by simp_all

lemma gcur_send: "gcur s r t (emit (Send m) e) = with_msg (gcur s r t e) t m"
  by (simp add: gcur_def)

lemma ginv_send:
  assumes "ginv C s r t e" "quiet_msg m" "msg_ok C (gcur s r t e) t m"
    "\<And>q. m = ChangeLeader q \<Longrightarrow> \<not> 0 < c_end (g_core (gcur s r t e) (m_sender q))"
  shows "ginv C s r t (emit (Send m) e)"
  using einv_quiet_msg [OF assms(1) [unfolded ginv_def] assms(2-)] by (simp add: ginv_def gcur_send)

text \<open>A broadcast is a series of sends.\<close>

lemma ginv_broadcast:
  assumes "ginv C s r t e"
    and "\<And>e' a. ginv C s r t e' \<Longrightarrow> core e' = core e \<Longrightarrow> ginv C s r t (emit (Send (el_msg_set_receiver a m)) e')"
  shows "ginv C s r t (emit (Broadcast m addrs) e)"
proof (induction addrs rule: rev_induct)
  case Nil
  show ?case by (rule ginv_emit [OF assms(1)]) simp
next
  case (snoc a addrs)
  have "ginv C s r t (emit (Send (el_msg_set_receiver a m)) (emit (Broadcast m addrs) e))"
    by (rule assms(2) [OF snoc]) simp
  then show ?case by (rule ginv_same) simp_all
qed

lemma delivered: "(\<tau>, m) \<in> ns_msgs s \<Longrightarrow> ginv C s r t e \<Longrightarrow> msg_ok C (gcur s r t e) \<tau> m"
  unfolding ginv_def by (erule einv_msgs) simp

section \<open>The acceptor\<close>

lemma ginv_hp_reset:
  assumes "ginv C s r t e" "core e' = (core e)\<lparr>c_hp := msg_base_reset q\<rparr>" "sent_msgs e' = sent_msgs e"
  shows "ginv C s r t e'"
  using ginv_parts [OF assms(1)]
  by (intro ginv_core [OF assms(1,3)])
    (simp_all add: assms(2) core_le_def mls_ok_def proposer_ok_def acceptor_ok_def msg_base_reset_def)

lemma ginv_hp_set:
  assumes "ginv C s r t e" "(\<tau>, PrepareReq q) \<in> ns_msgs s"
  shows "ginv C s r t (e\<lparr>a_highest_priority_prepare_req := q\<rparr>)"
proof (rule ginv_core [OF assms(1)])
  let ?e = "e\<lparr>a_highest_priority_prepare_req := q\<rparr>"
  show "sent_msgs ?e = sent_msgs e" by (rule sent_msgs_cong) simp
  show "core_le C (gcur s r t e) r (core e) (core ?e)" by (simp add: core_le_def)
  show "mls_ok C (gcur s r t e) r (core ?e)" "proposer_ok C (gcur s r t e) r (core ?e)"
    using ginv_parts [OF assms(1)] by (simp_all add: mls_ok_def proposer_ok_def)
  show "acceptor_ok C (gcur s r t e) r (core ?e)"
    using ginv_parts(3) [OF assms(1)] assms(2) by (auto simp: acceptor_ok_def)
qed

lemma ginv_lease_reset:
  assumes "ginv C s r t e" "env_in C r t0 t E" "lease_is_expired (mono E k) (a_lease e)"
  shows "ginv C s r t (e\<lparr>a_lease := lease_reset (a_lease e)\<rparr>)"
proof (rule ginv_core [OF assms(1)])
  let ?e = "e\<lparr>a_lease := lease_reset (a_lease e)\<rparr>"
  show "sent_msgs ?e = sent_msgs e" by (rule sent_msgs_cong) simp
  have "l_lease_end_ts (a_lease e) < t + cf_off C r"
    using assms(3) env_inD(1) [OF assms(2), of k] by (simp add: lease_is_expired_def)
  then show "core_le C (gcur s r t e) r (core e) (core ?e)" by (simp add: core_le_def lease_reset_def)
  show "mls_ok C (gcur s r t e) r (core ?e)" "proposer_ok C (gcur s r t e) r (core ?e)" "acceptor_ok C (gcur s r t e) r (core ?e)"
    using ginv_parts [OF assms(1)]
    by (simp_all add: mls_ok_def proposer_ok_def acceptor_ok_def lease_reset_def lease_is_empty_def)
qed

lemma ginv_reset_time_window:
  assumes "ginv C s r t e"
  shows "ginv C s r t (reset_time_window_states e)"
proof (cases "a_is_time_window_opened e")
  case True
  then show ?thesis
    unfolding reset_time_window_states_def
    by (simp, intro ginv_hp_reset [OF assms]) (simp_all add: core_def sent_msgs_def)
qed (simp add: reset_time_window_states_def assms)

lemma ginv_acceptor_advance:
  assumes "ginv C s r t e"
  shows "ginv C s r t (acceptor_advance_ballot_number_and_reset_related_states b e)"
proof (cases "b > a_ballot_number e")
  case True
  let ?e = "e\<lparr>a_ballot_number := b, a_ballot_of_time_window := b\<rparr>"
  have "ginv C s r t ?e"
    using ginv_parts [OF assms] True
    by (intro ginv_core [OF assms sent_msgs_cong])
      (simp_all add: core_le_def mls_ok_def proposer_ok_def acceptor_ok_def)
  then show ?thesis
    using True by (simp add: acceptor_advance_ballot_number_and_reset_related_states_def ginv_reset_time_window)
qed (simp add: acceptor_advance_ballot_number_and_reset_related_states_def assms)

lemma ginv_vote:
  assumes "ginv C s r t e" "core e' = (core e)\<lparr>c_ab := b\<rparr>" "sent_msgs e' = sent_msgs e" "a_ballot_number e < b"
    and "pr_accepted m" "m_sender m = r" "m_ballot_number m = b" "pr_lease m = a_lease e"
    and "(\<tau>, PrepareReq q) \<in> g_msgs (gcur s r t e)" "m_receiver m = m_sender q" "m_restart_counter m = m_restart_counter q"
      "m_ballot_number q = b"
  shows "ginv C s r t (emit (Send (PrepareRes m)) e')"
proof -
  let ?s = "gcur s r t e"
  have "prep_req_ok C ?s \<tau> q" using einv_msgs [OF assms(1) [unfolded ginv_def] assms(9)] by simp
  then have rc: "m_restart_counter m = cf_restart_counter C (m_receiver m)" using assms(10,11) by (simp add: prep_req_ok_def)
  have pq: "preq (g_msgs ?s) (m_receiver m) b" unfolding preq_def using assms(9,10,12) by metis
  have "einv C (with_msg (with_core ?s r ((g_core ?s r)\<lparr>c_ab := b\<rparr>)) (g_time ?s r) (PrepareRes m))"
    by (rule einv_vote_msg [OF assms(1) [unfolded ginv_def]]) (use assms rc pq in simp_all)
  then show ?thesis
    unfolding ginv_def gcur_send gcur_core [OF assms(3)] assms(2) gcur_sel .
qed

lemma ginv_facts:
  assumes "ginv C s r t e"
  shows "e_self_addr e = r" "p_restart_counter e = cf_restart_counter C r" "-1 \<le> a_ballot_number e"
    "l_ballot_number (a_lease e) \<le> a_ballot_number e" "p_prepare_success_ballot e \<le> p_ballot_number e"
    "mls_wf (p_memberlist_with_states e)"
  using ginv_parts [OF assms] by (simp_all add: proposer_ok_def acceptor_ok_def mls_ok_def)

lemma ginv_vote_for_leader:
  assumes "ginv C s r t e" "(\<tau>, PrepareReq q) \<in> ns_msgs s"
  shows "ginv C s r t (acceptor_vote_for_leader E q e)"
proof (cases "m_ballot_number q \<le> a_ballot_number e")
  case False
  let ?e0 = "reset_time_window_states e"
  let ?e1 = "acceptor_advance_ballot_number_and_reset_related_states (m_ballot_number q) e"
  have eq: "core ?e1 = (core ?e0)\<lparr>c_ab := m_ballot_number q\<rparr>" "sent_msgs ?e1 = sent_msgs ?e0"
    "a_ballot_number ?e1 = m_ballot_number q" "a_lease ?e1 = a_lease ?e0" "e_self_addr ?e1 = e_self_addr e"
    "a_ballot_number ?e0 = a_ballot_number e"
    using False
    by (simp_all add: acceptor_advance_ballot_number_and_reset_related_states_def reset_time_window_states_def core_def sent_msgs_def)
  have self: "e_self_addr ?e1 = r" using ginv_facts(1) [OF assms(1)] eq by simp
  show ?thesis
    using False unfolding acceptor_vote_for_leader_def Let_def
    by (simp, intro ginv_vote [OF ginv_reset_time_window [OF assms(1)] eq(1,2), where q = q and \<tau> = \<tau>])
      (use assms(2) False eq self in \<open>simp_all add: prepare_res_set_accepted_def prepare_res_new_def\<close>)
qed (simp add: acceptor_vote_for_leader_def assms)

lemma ginv_open_time_window:
  assumes "ginv C s r t e" "acceptor_open_time_window E k q e = (ret, e')"
  shows "ginv C s r t e'"
proof -
  let ?e1 = "if a_is_time_window_opened e \<and> m_ballot_number q > a_ballot_of_time_window e
               then reset_time_window_states e else e"
  have g1: "ginv C s r t ?e1" using assms(1) ginv_reset_time_window by simp
  let ?e2 = "?e1\<lparr>a_ballot_of_time_window := m_ballot_number q,
                 a_highest_priority_prepare_req := msg_base_reset (a_highest_priority_prepare_req ?e1)\<rparr>"
  have g2: "ginv C s r t ?e2" by (rule ginv_hp_reset [OF g1]) (simp_all add: core_def sent_msgs_def)
  then have g3: "ginv C s r t (emit x ?e2)" if "out_msgs x = []" for x using ginv_emit that by blast
  have g4: "ginv C s r t ((emit x ?e2)\<lparr>a_is_time_window_opened := True, a_last_time_window_open_ts := w\<rparr>)"
    if "out_msgs x = []" for x w
    by (rule ginv_same [OF g3 [OF that]]) (simp_all add: core_def sent_msgs_def)
  show ?thesis
    using assms(2) g1 g3 g4 unfolding acceptor_open_time_window_def Let_def
    by (cases "\<not> a_is_time_window_opened ?e1 \<and> m_ballot_number q > a_ballot_of_time_window ?e1"; cases "reschedule_ret E = OB_SUCCESS")
      (auto simp del: if_split)
qed

lemma ginv_count_request:
  "ginv C s r t e \<Longrightarrow> (\<tau>, PrepareReq q) \<in> ns_msgs s \<Longrightarrow> ginv C s r t (acceptor_count_request E q e)"
  unfolding acceptor_count_request_def by (simp add: ginv_hp_set)

lemma ginv_prepare_reject:
  assumes "ginv C s r t e" "(\<tau>, PrepareReq q) \<in> ns_msgs s"
  shows "ginv C s r t (emit (Send (PrepareRes (prepare_res_set_rejected b (prepare_res_new (e_self_addr e) v q)))) e)"
proof -
  have "prep_req_ok C (gcur s r t e) \<tau> q" using delivered [OF assms(2,1)] by simp
  then show ?thesis
    using ginv_facts(1) [OF assms(1)]
    by (intro ginv_send [OF assms(1)])
      (simp_all add: prepare_res_set_rejected_def prepare_res_new_def prep_res_ok_def prep_req_ok_def)
qed

lemma ginv_acceptor_on_prepare_request:
  assumes "ginv C s r t e" "(\<tau>, PrepareReq q) \<in> ns_msgs s"
  shows "ginv C s r t (acceptor_on_prepare_request E k q e)"
proof -
  have reject: "ginv C s r t e'" if "check_prepare_ballot_valid E (k + 1) q e = (False, e')" for e'
    using that ginv_prepare_reject [OF assms]
    by (auto simp: check_prepare_ballot_valid_def Let_def send_msg_def split: if_splits)
  have pass: "e' = e" if "check_prepare_ballot_valid E (k + 1) q e = (True, e')" for e'
    using that by (auto simp: check_prepare_ballot_valid_def Let_def split: if_splits)
  obtain ok e1 where c: "check_prepare_ballot_valid E (k + 1) q e = (ok, e1)" by fastforce
  obtain ret e2 where w: "acceptor_open_time_window E (k + 1) q e = (ret, e2)" by fastforce
  have "ginv C s r t e2" by (rule ginv_open_time_window [OF assms(1) w])
  then have "ginv C s r t (acceptor_count_request E q e2)" using ginv_count_request assms(2) by blast
  with \<open>ginv C s r t e2\<close> show ?thesis
    using assms(1) reject pass c w ginv_vote_for_leader [OF assms]
    unfolding acceptor_on_prepare_request_def by (cases ok) auto
qed

lemma ginv_timer_vote:
  assumes "ginv C s r t e" "env_in C r t0 t E"
  shows "ginv C s r t (acceptor_timer_vote E k e)"
proof (cases "a_ballot_of_time_window e = m_ballot_number (a_highest_priority_prepare_req e)
         \<and> a_ballot_of_time_window e > a_ballot_number e")
  case True
  let ?q = "a_highest_priority_prepare_req e"
  let ?b = "a_ballot_of_time_window e"
  let ?e0 = "if lease_is_expired (mono E k) (a_lease e) then e\<lparr>a_lease := lease_reset (a_lease e)\<rparr> else e"
  let ?e1 = "e\<lparr>a_ballot_number := ?b\<rparr>"
  let ?e2 = "if lease_is_expired (mono E k) (a_lease ?e1) then ?e1\<lparr>a_lease := lease_reset (a_lease ?e1)\<rparr> else ?e1"
  have g0: "ginv C s r t ?e0" using assms ginv_lease_reset by simp
  have eq: "core ?e2 = (core ?e0)\<lparr>c_ab := ?b\<rparr>" "sent_msgs ?e2 = sent_msgs ?e0"
    "a_ballot_number ?e2 = ?b" "a_lease ?e2 = a_lease ?e0" "a_ballot_number ?e0 = a_ballot_number e"
    by (simp_all add: core_def sent_msgs_def)
  have self: "e_self_addr e = r" using ginv_facts(1) [OF assms(1)] .
  have "m_ballot_number ?q \<noteq> INVALID_VALUE"
    using True ginv_facts(3) [OF assms(1)] by (simp add: INVALID_VALUE_def)
  then obtain \<tau> where "(\<tau>, PrepareReq ?q) \<in> g_msgs (gcur s r t e)"
    using ginv_parts(3) [OF assms(1)] unfolding acceptor_ok_def core_sel by blast
  then have \<tau>: "(\<tau>, PrepareReq ?q) \<in> g_msgs (gcur s r t ?e0)" by (simp add: sent_msgs_def)
  have "ginv C s r t (emit (Send (PrepareRes (prepare_res_set_accepted (a_ballot_number ?e2) (a_lease ?e2)
      (prepare_res_new (e_self_addr e) (get_ls_biggest_min_cluster_version_ever_seen E e) ?q)))) ?e2)"
    by (rule ginv_vote [OF g0 eq(1,2) _ _ _ _ _ \<tau>])
      (use True eq self in \<open>simp_all add: prepare_res_set_accepted_def prepare_res_new_def\<close>)
  then show ?thesis using True unfolding acceptor_timer_vote_def Let_def send_msg_def by simp
qed (auto simp: acceptor_timer_vote_def assms)

lemma ginv_timer_task:
  assumes "ginv C s r t e" "env_in C r t0 t E"
  shows "ginv C s r t (acceptor_timer_task E e)"
proof -
  define v where "v = (\<not> lease_is_expired (mono E 0) (a_lease e))"
  define e1 where "e1 = (if a_last_record_lease_valid_state e \<noteq> v \<and> \<not> v then e\<lparr>a_lease := lease_reset (a_lease e)\<rparr> else e)"
  define e2 where "e2 = (if a_last_record_lease_owner e1 \<noteq> l_owner (a_lease e1)
      then e1\<lparr>a_last_record_lease_owner := l_owner (a_lease e1)\<rparr> else e1)"
  define can where "can = ((a_last_record_lease_valid_state e2 \<and> \<not> v)
      \<or> wall E 0 - a_last_time_window_open_ts e2 \<ge> CALCULATE_TIME_WINDOW_SPAN_TS (max_tst E))"
  define e3 where "e3 = (if a_is_time_window_opened e2
      then if can then (acceptor_timer_vote E 1 e2)\<lparr>a_is_time_window_opened := False\<rparr> else e2 else e2)"
  have "ginv C s r t e1" using assms ginv_lease_reset unfolding e1_def v_def by auto
  then have g2: "ginv C s r t e2" unfolding e2_def
    by (rule ginv_same) (simp_all add: core_def sent_msgs_def)
  have "ginv C s r t ((acceptor_timer_vote E 1 e2)\<lparr>a_is_time_window_opened := False\<rparr>)"
    by (rule ginv_same [OF ginv_timer_vote [OF g2 assms(2)]]) (simp_all add: core_def sent_msgs_def)
  then have g3: "ginv C s r t e3" using g2 unfolding e3_def by simp
  have "acceptor_timer_task E e = e3\<lparr>a_last_record_lease_valid_state := v\<rparr>"
    unfolding acceptor_timer_task_def Let_def e3_def can_def e2_def e1_def v_def by simp
  then show ?thesis using ginv_same [OF g3] by (simp add: core_def sent_msgs_def)
qed

lemma ginv_accept_reject:
  assumes "ginv C s r t e" "(\<tau>, AcceptReq q) \<in> ns_msgs s"
  shows "ginv C s r t (emit (Send (AcceptRes (accept_res_set_rejected b (accept_res_new (e_self_addr e) seed mv v q)))) e)"
proof -
  have "acc_req_ok C (gcur s r t e) \<tau> q" using delivered [OF assms(2,1)] by simp
  then show ?thesis
    using ginv_facts(1) [OF assms(1)]
    by (intro ginv_send [OF assms(1)])
      (simp_all add: accept_res_set_rejected_def accept_res_new_def acc_res_ok_def acc_req_ok_def)
qed

lemma accept_res_set_accepted_fields:
  "accept_res_set_accepted E b prio m = (ret, m') \<Longrightarrow>
   ar_accepted m' \<and> m_sender m' = m_sender m \<and> m_receiver m' = m_receiver m \<and> m_ballot_number m' = b
   \<and> m_restart_counter m' = m_restart_counter m \<and> ar_lease_interval m' = ar_lease_interval m
   \<and> ar_lease_started_ts_on_proposer m' = ar_lease_started_ts_on_proposer m"
  by (auto simp: accept_res_set_accepted_def Let_def split: option.splits prod.splits if_splits)

lemma acceptor_advance_max:
  assumes "a_ballot_number e \<le> b"
  defines "e' \<equiv> if b > a_ballot_number e then acceptor_advance_ballot_number_and_reset_related_states b e else e"
  shows "a_ballot_number e' = b" "a_lease e' = a_lease e"
  using assms(1) unfolding e'_def
  by (auto simp: acceptor_advance_ballot_number_and_reset_related_states_def reset_time_window_states_def)

lemma lease_update_from_fields:
  "lease_update_from ts q l0 = Some l \<Longrightarrow>
   l_owner l = m_sender q \<and> l_ballot_number l = m_ballot_number q \<and> l_ballot_number l0 \<le> m_ballot_number q
   \<and> l_lease_end_ts l = max (l_lease_end_ts l0) (ts + aq_lease_interval q)"
  by (auto simp: lease_update_from_def Let_def split: if_splits)

lemma ginv_lease_update:
  assumes "ginv C s r t e" "env_in C r t0 t E" "(\<tau>, AcceptReq q) \<in> ns_msgs s" "\<tau> \<le> t0" "a_ballot_number e = m_ballot_number q"
    and "lease_update_from (mono E k) q (a_lease e) = Some l"
  shows "ginv C s r t (e\<lparr>a_lease := l\<rparr>)"
proof (rule ginv_core [OF assms(1)])
  let ?e = "e\<lparr>a_lease := l\<rparr>"
  have l: "l_owner l = m_sender q" "l_ballot_number l = m_ballot_number q" "l_ballot_number (a_lease e) \<le> m_ballot_number q"
    "l_lease_end_ts (a_lease e) \<le> l_lease_end_ts l"
    using lease_update_from_fields [OF assms(6)] by simp_all
  have "acc_req_ok C (gcur s r t e) \<tau> q" using delivered [OF assms(3,1)] by simp
  then have ne: "\<not> lease_is_empty l" using l by (simp add: acc_req_ok_def lease_is_empty_def)
  have req: "\<exists>\<sigma> \<le> t. areq (g_msgs (gcur s r t e)) (l_owner l) (l_ballot_number l) \<sigma>"
    using assms(3,4) env_inD(4) [OF assms(2)] l unfolding areq_def by (intro exI [of _ \<tau>]) auto
  show "sent_msgs ?e = sent_msgs e" by (rule sent_msgs_cong) simp
  show "core_le C (gcur s r t e) r (core e) (core ?e)" using l ne by (simp add: core_le_def)
  show "mls_ok C (gcur s r t e) r (core ?e)" "proposer_ok C (gcur s r t e) r (core ?e)"
    using ginv_parts [OF assms(1)] by (simp_all add: mls_ok_def proposer_ok_def)
  show "acceptor_ok C (gcur s r t e) r (core ?e)"
    using ginv_parts(3) [OF assms(1)] l(2) assms(5) req unfolding acceptor_ok_def by simp
qed

lemma ginv_grant:
  assumes "ginv C s r t e" "env_in C r t0 t E" "(\<tau>, AcceptReq q) \<in> ns_msgs s" "\<tau> \<le> t0" "a_ballot_number e = m_ballot_number q"
    and l: "lease_update_from (mono E k) q l0 = Some (a_lease e)"
    and m: "accept_res_set_accepted E (a_ballot_number e) prio (accept_res_new (e_self_addr e) seed mv v q) = (ret, m)"
  shows "ginv C s r t (emit (Send (AcceptRes m)) e)"
proof -
  let ?s = "gcur s r t e"
  have f: "ar_accepted m" "m_sender m = r" "m_receiver m = m_sender q" "m_ballot_number m = a_ballot_number e"
    "m_restart_counter m = m_restart_counter q" "ar_lease_interval m = aq_lease_interval q"
    "ar_lease_started_ts_on_proposer m = aq_lease_start_ts_on_proposer q"
    using accept_res_set_accepted_fields [OF m] ginv_facts(1) [OF assms(1)] by (simp_all add: accept_res_new_def)
  have q: "addr_is_valid (m_sender q)" "m_restart_counter q = cf_restart_counter C (m_sender q)"
    "aq_lease_start_ts_on_proposer q \<le> \<tau> + cf_off C (m_sender q)"
    using delivered [OF assms(3,1)] by (simp_all add: acc_req_ok_def)
  have lf: "l_owner (a_lease e) = m_sender q" "l_ballot_number (a_lease e) = m_ballot_number q"
    "mono E k + aq_lease_interval q \<le> l_lease_end_ts (a_lease e)"
    using lease_update_from_fields [OF l] by simp_all
  have "einv C (with_msg ?s (g_time ?s r) (AcceptRes m))"
  proof (rule einv_grant_msg [OF assms(1) [unfolded ginv_def], where \<sigma> = \<tau>])
    show "areq (g_msgs ?s) (m_receiver m) (m_ballot_number m) \<tau>"
      using assms(3,5) f unfolding areq_def by (intro exI [of _ q]) simp
    show "\<not> lease_is_empty (c_lease (g_core ?s r))" using q(1) lf(1) by (simp add: lease_is_empty_def)
    show "ar_lease_started_ts_on_proposer m + ar_lease_interval m - cf_off C (m_receiver m)
        \<le> l_lease_end_ts (c_lease (g_core ?s r)) - cf_off C r"
      using q(3) lf(3) f assms(4) env_inD(2) [OF assms(2), of k] by simp
  qed (use f q lf assms(4,5) env_inD(4) [OF assms(2)] in simp_all)
  then show ?thesis by (simp add: ginv_def gcur_send)
qed

lemma ginv_acceptor_on_accept_request:
  assumes "ginv C s r t e" "env_in C r t0 t E" "(\<tau>, AcceptReq q) \<in> ns_msgs s" "\<tau> \<le> t0"
  shows "\<exists>u e'. acceptor_on_accept_request E k q e = Some (u, e') \<and> ginv C s r t e'"
proof -
  consider (silent) "keeps_silence E k" | (old) "\<not> keeps_silence E k" "m_ballot_number q < a_ballot_number e"
    | (take) "\<not> keeps_silence E k" "a_ballot_number e \<le> m_ballot_number q" by linarith
  then show ?thesis
  proof cases
    case silent
    then show ?thesis using assms(1) by (simp add: acceptor_on_accept_request_def)
  next
    case old
    then show ?thesis
      using ginv_accept_reject [OF assms(1,3)]
      by (simp add: acceptor_on_accept_request_def check_accept_ballot_valid_def Let_def send_msg_def)
  next
    case take
    define e1 where "e1 = (if m_ballot_number q > a_ballot_number e
      then acceptor_advance_ballot_number_and_reset_related_states (m_ballot_number q) e else e)"
    have g1: "ginv C s r t e1" using assms(1) ginv_acceptor_advance unfolding e1_def by simp
    have b1: "a_ballot_number e1 = m_ballot_number q" "a_lease e1 = a_lease e"
      unfolding e1_def using acceptor_advance_max [OF take(2)] by simp_all
    have "l_ballot_number (a_lease e1) \<le> m_ballot_number q" using ginv_facts(4) [OF g1] b1 by simp
    then obtain l where l: "lease_update_from (mono E (k + 2)) q (a_lease e1) = Some l"
      by (simp add: lease_update_from_def Let_def)
    define e2 where "e2 = e1\<lparr>a_lease := l\<rparr>"
    have g2: "ginv C s r t e2" unfolding e2_def by (rule ginv_lease_update [OF g1 assms(2-4) b1(1) l])
    obtain ret m where m: "accept_res_set_accepted E (a_ballot_number e2) (e_priority e2) (accept_res_new (e_self_addr e2)
        (generate_inner_priority_seed E (k + 4) e2) (get_membership_version e2)
        (get_ls_biggest_min_cluster_version_ever_seen E e2) q) = (ret, m)" by fastforce
    have b2: "a_ballot_number e2 = m_ballot_number q" "a_lease e2 = l" using b1 by (simp_all add: e2_def)
    have g3: "ginv C s r t (emit (Send (AcceptRes m)) e2)"
      by (rule ginv_grant [OF g2 assms(2-4) b2(1) _ m]) (use l b2 in simp)
    have chk: "check_accept_ballot_valid E (k + 1) q e = (True, e)"
      using take(2) by (simp add: check_accept_ballot_valid_def)
    have "acceptor_on_accept_request E k q e =
        Some (l_lease_end_ts l - mono E (k + 3), if ret \<noteq> OB_SUCCESS then e2 else emit (Send (AcceptRes m)) e2)"
      using take(1) m unfolding acceptor_on_accept_request_def chk prod.case Let_def e1_def [symmetric] l e2_def
      by (simp add: send_msg_def)
    then show ?thesis using g2 g3 by simp
  qed
qed

end
