(* ===== verification/ElectionOps2.thy ===== *)
theory ElectionOps2
  imports ElectionOps
begin

text \<open>
  The operations of the proposer keep the invariant of the cluster, and none of them fails an
  assertion.
\<close>

lemma Ex_bool [simp]: "Ex Not" "\<exists>b. \<not> b" "\<exists>b. b"
  by blast+

section \<open>Ballots, roles and leases\<close>

lemma mls_ok_cleared:
  assumes "mls_ok C s r c" "c_mls c' = mls_clear_prepare_and_accept_states (c_mls c)"
  shows "mls_ok C s r c'"
  using assms unfolding mls_ok_def
  by (simp add: mls_clear_prepare_and_accept_states_def mls_init_array_def mls_wf_def)

lemma ginv_chg: "ginv C s r t e \<Longrightarrow> chg (g_msgs (gcur s r t e)) r B \<Longrightarrow> B < p_ballot_number e"
  unfolding ginv_def chg_def using einv_msgs [of C "gcur s r t e" \<tau> "ChangeLeader m" for \<tau> m]
  by (fastforce simp: chg_ok_def)

lemma ginv_proposer_advance:
  assumes "ginv C s r t e" "p_ballot_number e \<le> b"
  shows "\<exists>e'. proposer_advance_ballot_number_and_reset_related_states b e = Some e' \<and> ginv C s r t e'
    \<and> p_ballot_number e' = b \<and> p_prepare_success_ballot e' = p_prepare_success_ballot e
    \<and> p_leader_lease_and_epoch e' = p_leader_lease_and_epoch e \<and> p_role e' = p_role e
    \<and> e_member_list e' = e_member_list e"
proof -
  let ?e = "e\<lparr>p_ballot_number := b,
     p_memberlist_with_states := mls_clear_prepare_and_accept_states (p_memberlist_with_states e),
     p_switch_source_leader_ballot := INVALID_VALUE,
     p_switch_source_leader_addr := addr_reset (p_switch_source_leader_addr e)\<rparr>"
  note parts = ginv_parts [OF assms(1)]
  have "ginv C s r t ?e"
  proof (rule ginv_core [OF assms(1)])
    show "sent_msgs ?e = sent_msgs e" by (rule sent_msgs_cong) simp
    show "core_le C (gcur s r t e) r (core e) (core ?e)" using assms(2) by (simp add: core_le_def)
    show "mls_ok C (gcur s r t e) r (core ?e)" by (rule mls_ok_cleared [OF parts(1)]) simp
    show "acceptor_ok C (gcur s r t e) r (core ?e)" using parts(3) by (simp add: acceptor_ok_def)
    show "proposer_ok C (gcur s r t e) r (core ?e)"
      using parts(2) assms(2) unfolding proposer_ok_def core_sel by (auto intro: order_trans)
  qed
  then show ?thesis
    using assms(2)
    by (simp add: proposer_advance_ballot_number_and_reset_related_states_def mls_clear_prepare_and_accept_states_def)
qed

lemma ginv_lle_reset:
  assumes "ginv C s r t e"
  shows "ginv C s r t (e\<lparr>p_leader_lease_and_epoch := lle_reset (p_leader_lease_and_epoch e)\<rparr>)"
  using ginv_parts [OF assms]
  by (intro ginv_core [OF assms sent_msgs_cong])
    (simp_all add: core_le_def mls_ok_def proposer_ok_def acceptor_ok_def lle_reset_def INVALID_VALUE_def)

lemma ginv_step_down:
  assumes "ginv C s r t e"
  shows "ginv C s r t (e\<lparr>p_role := FOLLOWER,
     p_memberlist_with_states := mls_clear_prepare_and_accept_states (p_memberlist_with_states e),
     p_leader_lease_and_epoch := lle_reset (p_leader_lease_and_epoch e)\<rparr>)" (is "ginv C s r t ?e")
proof (rule ginv_core [OF assms])
  note parts = ginv_parts [OF assms]
  show "sent_msgs ?e = sent_msgs e" by (rule sent_msgs_cong) simp
  show "core_le C (gcur s r t e) r (core e) (core ?e)" by (simp add: core_le_def)
  show "mls_ok C (gcur s r t e) r (core ?e)" by (rule mls_ok_cleared [OF parts(1)]) simp
  show "acceptor_ok C (gcur s r t e) r (core ?e)" using parts(3) by (simp add: acceptor_ok_def)
  show "proposer_ok C (gcur s r t e) r (core ?e)"
    using parts(2) by (simp add: proposer_ok_def lle_reset_def INVALID_VALUE_def)
qed

lemma emit_fields [simp]:
  "p_role (emit x e) = p_role e" "p_ballot_number (emit x e) = p_ballot_number e"
  "p_memberlist_with_states (emit x e) = p_memberlist_with_states e"
  "p_prepare_success_ballot (emit x e) = p_prepare_success_ballot e"
  "p_leader_lease_and_epoch (emit x e) = p_leader_lease_and_epoch e"
  "p_switch_source_leader_ballot (emit x e) = p_switch_source_leader_ballot e"
  "p_switch_source_leader_addr (emit x e) = p_switch_source_leader_addr e"
  by (simp_all add: emit_def)

lemma ginv_revoke:
  assumes "ginv C s r t e"
  shows "ginv C s r t (snd (leader_revoke_if_lease_expired E k reason e))"
proof -
  have "ginv C s r t (emit (RoleChange LEADER FOLLOWER reason) e)" by (rule ginv_emit [OF assms]) simp
  from ginv_step_down [OF this] show ?thesis
    using assms by (simp add: leader_revoke_if_lease_expired_def Let_def)
qed

lemma revoke_fields:
  "p_ballot_number (snd (leader_revoke_if_lease_expired E k reason e)) = p_ballot_number e"
  "p_prepare_success_ballot (snd (leader_revoke_if_lease_expired E k reason e)) = p_prepare_success_ballot e"
  "sent_msgs (snd (leader_revoke_if_lease_expired E k reason e)) = sent_msgs e"
  "lle_lease (p_leader_lease_and_epoch (snd (leader_revoke_if_lease_expired E k reason e)))
     \<in> {lle_lease (p_leader_lease_and_epoch e), -1}"
  by (simp_all add: leader_revoke_if_lease_expired_def Let_def sent_msgs_def emit_def lle_reset_def INVALID_VALUE_def)

lemma ginv_propose:
  assumes "ginv C s r t e" "env_in C r t0 t E" "0 \<le> p_prepare_success_ballot e"
  shows "ginv C s r t (propose E k e)"
proof -
  define e1 where "e1 = (if CALCULATE_LEASE_INTERVAL (max_tst E) \<noteq> p_record_lease_interval e
    then e\<lparr>p_record_lease_interval := CALCULATE_LEASE_INTERVAL (max_tst E)\<rparr> else e)"
  have g1: "ginv C s r t e1" "core e1 = core e"
    by (rule ginv_same [OF assms(1)]) (simp_all add: e1_def core_def sent_msgs_def)
  define q where "q = accept_req_new (e_id e1) (e_self_addr e1) (p_restart_counter e1) (p_prepare_success_ballot e1)
    (get_ls_biggest_min_cluster_version_ever_seen E e1) (mono E k) (CALCULATE_LEASE_INTERVAL (max_tst E))
    (ml_membership_version (e_member_list e1))"
  have "ginv C s r t (emit (Broadcast (AcceptReq q) (ml_addr_list (e_member_list e1))) e1)"
  proof (rule ginv_broadcast [OF g1(1)])
    fix e' a assume g: "ginv C s r t e'" and c: "core e' = core e1"
    have same: "e_self_addr e' = e_self_addr e1" "p_restart_counter e' = p_restart_counter e1"
      "p_prepare_success_ballot e' = p_prepare_success_ballot e1"
      using c by (metis core_sel)+
    have psb: "0 \<le> p_prepare_success_ballot e1" using g1(2) assms(3) by (metis core_sel(6))
    have "won C (g_msgs (gcur s r t e')) r (p_prepare_success_ballot e1) t"
      using ginv_parts(2) [OF g] psb same unfolding proposer_ok_def by simp
    then show "ginv C s r t (emit (Send (el_msg_set_receiver a (AcceptReq q))) e')"
      using ginv_facts(1,2) [OF g] same psb env_inD(1) [OF assms(2), of k] env_inD(3) [OF assms(2)]
      by (intro ginv_send [OF g]) (simp_all add: q_def accept_req_new_def acc_req_ok_def)
  qed
  then show ?thesis
    unfolding propose_def Let_def e1_def [symmetric] q_def by (simp add: broadcast_def)
qed

lemma ginv_become_leader:
  assumes "ginv C s r t e" "0 \<le> p_prepare_success_ballot e"
  shows "ginv C s r t (e\<lparr>p_highest_priority_cache := c, p_role := LEADER\<rparr>)"
  using ginv_parts [OF assms(1)] assms(2)
  by (intro ginv_core [OF assms(1) sent_msgs_cong])
    (simp_all add: core_le_def mls_ok_def proposer_ok_def acceptor_ok_def)

lemma ginv_takeover:
  assumes "ginv C s r t e" "env_in C r t0 t E" "0 \<le> p_prepare_success_ballot e"
  shows "ginv C s r t (snd (leader_takeover_if_lease_valid E k reason e))"
proof -
  let ?e = "emit (RoleChange FOLLOWER LEADER reason) e"
  have "ginv C s r t ?e" by (rule ginv_emit [OF assms(1)]) simp
  then have "ginv C s r t (?e\<lparr>p_highest_priority_cache := hc_reset (p_highest_priority_cache ?e), p_role := LEADER\<rparr>)"
    using assms(3) by (intro ginv_become_leader) simp_all
  then have "ginv C s r t (propose E (k + 1) (?e\<lparr>p_highest_priority_cache := hc_reset (p_highest_priority_cache ?e), p_role := LEADER\<rparr>))"
    using assms(2,3) by (intro ginv_propose) simp_all
  then show ?thesis using assms(1) by (simp add: leader_takeover_if_lease_valid_def Let_def)
qed

section \<open>Prepare\<close>

lemma ginv_send_prepare:
  assumes "ginv C s r t e" "prepare_req_set E prio role (prepare_req_new i (e_self_addr e) (p_restart_counter e)
      (p_ballot_number e) v seed mv) = (ret, q)"
  shows "ginv C s r t (emit (Broadcast (PrepareReq q) addrs) e)"
proof (rule ginv_broadcast [OF assms(1)])
  fix e' a assume g: "ginv C s r t e'" and c: "core e' = core e"
  have q: "m_sender q = e_self_addr e" "m_restart_counter q = p_restart_counter e" "m_ballot_number q = p_ballot_number e"
    using assms(2) by (auto simp: prepare_req_set_def prepare_req_new_def Let_def split: option.splits prod.splits if_splits)
  have same: "e_self_addr e' = e_self_addr e" "p_restart_counter e' = p_restart_counter e" "p_ballot_number e' = p_ballot_number e"
    using c by (metis core_sel)+
  show "ginv C s r t (emit (Send (el_msg_set_receiver a (PrepareReq q))) e')"
    using ginv_facts(1,2) [OF g] q same by (intro ginv_send [OF g]) (simp_all add: prep_req_ok_def)
qed

lemma ginv_prepare:
  assumes "ginv C s r t e" "role = FOLLOWER \<or> role = LEADER"
  shows "\<exists>e'. prepare E k role e = Some e' \<and> ginv C s r t e'"
proof (cases "ml_addr_list (e_member_list e) = [] \<or> \<not> is_self_in_memberlist e
    \<or> role = FOLLOWER \<and> wall E k - p_last_do_prepare_ts e < CALCULATE_MAX_ELECT_COST_TIME (max_tst E) div 2")
  case True
  then show ?thesis using assms(1) by (auto simp: prepare_def Let_def)
next
  case False
  let ?e1 = "e\<lparr>p_last_do_prepare_ts := wall E k\<rparr>"
  have g1: "ginv C s r t ?e1" by (rule ginv_same [OF assms(1)]) (simp_all add: core_def sent_msgs_def)
  obtain e2 where e2: "(if role = FOLLOWER then proposer_advance_ballot_number_and_reset_related_states (p_ballot_number ?e1 + 1) ?e1
      else if role = LEADER then Some ?e1 else None) = Some e2" and g2: "ginv C s r t e2"
    using ginv_proposer_advance [OF g1, of "p_ballot_number ?e1 + 1"] g1 assms(2) by auto
  obtain ret q where q: "prepare_req_set E (e_priority e2) role (prepare_req_new (e_id e2) (e_self_addr e2) (p_restart_counter e2)
      (p_ballot_number e2) (get_ls_biggest_min_cluster_version_ever_seen E e2) (generate_inner_priority_seed E k e2)
      (get_membership_version e2)) = (ret, q)" by fastforce
  have "prepare E k role e = Some (if ret \<noteq> OB_SUCCESS then e2 else emit (Broadcast (PrepareReq q) (ml_addr_list (e_member_list e2))) e2)"
    using False e2 q unfolding prepare_def Let_def by (simp add: broadcast_def) blast
  then show ?thesis using g2 ginv_send_prepare [OF g2 q] by simp
qed

lemma ginv_proposer_on_prepare_request:
  assumes "ginv C s r t e" "(\<tau>, PrepareReq q) \<in> ns_msgs s"
  shows "\<exists>b e'. proposer_on_prepare_request E k q e = Some (b, e') \<and> ginv C s r t e'"
proof -
  consider (old) "m_ballot_number q < p_ballot_number e" | (same) "m_ballot_number q = p_ballot_number e"
    | (out) "m_ballot_number q > p_ballot_number e" "\<not> is_self_in_memberlist e"
    | (bigger) "m_ballot_number q > p_ballot_number e" "is_self_in_memberlist e" by linarith
  then show ?thesis
  proof cases
    case old
    then show ?thesis
      using ginv_prepare_reject [OF assms] by (simp add: proposer_on_prepare_request_def Let_def send_msg_def)
  next
    case same
    then show ?thesis using assms(1) by (simp add: proposer_on_prepare_request_def)
  next
    case out
    then show ?thesis using assms(1) by (simp add: proposer_on_prepare_request_def)
  next
    case bigger
    obtain e1 where e1: "proposer_advance_ballot_number_and_reset_related_states (m_ballot_number q) e = Some e1" "ginv C s r t e1"
      using ginv_proposer_advance [OF assms(1), of "m_ballot_number q"] bigger by auto
    obtain ret q' where q': "prepare_req_set E (e_priority e1) (p_role e1) (prepare_req_new (e_id e1) (e_self_addr e1)
        (p_restart_counter e1) (p_ballot_number e1) (get_ls_biggest_min_cluster_version_ever_seen E e1)
        (generate_inner_priority_seed E k e1) (get_membership_version e1)) = (ret, q')" by fastforce
    let ?e2 = "emit (Broadcast (PrepareReq q') (ml_addr_list (e_member_list e1))) e1"
    have g2: "ginv C s r t ?e2" by (rule ginv_send_prepare [OF e1(2) q'])
    have g3: "ginv C s r t (?e2\<lparr>p_last_do_prepare_ts := w\<rparr>)" for w
      by (rule ginv_same [OF g2]) (simp_all add: core_def sent_msgs_def)
    show ?thesis
      using bigger e1 q' g2 g3 unfolding proposer_on_prepare_request_def
      by (simp add: Let_def broadcast_def)
  qed
qed

lemma ginv_check_response:
  fixes m :: "'a ElectionMsgBase_scheme"
  assumes "ginv C s r t e" "m_restart_counter m = p_restart_counter e" "accepted \<Longrightarrow> m_ballot_number m \<le> p_ballot_number e"
  shows "\<exists>ok e'. check_ballot_and_restart_counter_valid_and_accepted E k m accepted e = Some (ok, e') \<and> ginv C s r t e'
    \<and> (ok \<longrightarrow> e' = e \<and> accepted \<and> m_ballot_number m = p_ballot_number e)"
proof (cases "m_ballot_number m > p_ballot_number e")
  case True
  then have na: "\<not> accepted" using assms(3) by auto
  obtain e1 where e1: "proposer_advance_ballot_number_and_reset_related_states (m_ballot_number m) e = Some e1" "ginv C s r t e1"
    using ginv_proposer_advance [OF assms(1), of "m_ballot_number m"] True by auto
  obtain e2 where e2: "proposer_advance_ballot_number_and_reset_related_states (p_ballot_number e1 + 1) e1 = Some e2" "ginv C s r t e2"
    using ginv_proposer_advance [OF e1(2), of "p_ballot_number e1 + 1"] by auto
  obtain e3 where e3: "prepare E (k + 1) LEADER e2 = Some e3" "ginv C s r t e3"
    using ginv_prepare [OF e2(2)] by blast
  show ?thesis
    using True na e1 e2 e3 assms(2)
    by (simp add: check_ballot_and_restart_counter_valid_and_accepted_def)
qed (use assms in \<open>auto simp: check_ballot_and_restart_counter_valid_and_accepted_def\<close>)

section \<open>Votes and grants that are counted\<close>

lemma record_prepare_ok_cases:
  assumes "mls_record_prepare_ok m p = Some (ret, p')"
  shows "p' = p \<and> ret \<noteq> OB_SUCCESS \<or>
    (\<exists>i. i < length (ml_addr_list (member_list p)) \<and> ml_addr_list (member_list p) ! i = m_sender m
       \<and> p' = p\<lparr>prepare_ok := (prepare_ok p)[i := True]\<rparr>
       \<and> (ret = OB_SUCCESS \<longrightarrow> count_if (prepare_ok p') (\<lambda>v. v) = ml_get_replica_num (member_list p) div 2 + 1))"
proof (cases "mls_get_server_idx_in_memberlist (m_sender m) p")
  case None
  then show ?thesis using assms by (auto simp: mls_record_prepare_ok_def)
next
  case (Some i)
  then show ?thesis
    using assms mls_get_server_idx_Some [OF Some]
    by (intro disjI2 exI [of _ i]) (auto simp: mls_record_prepare_ok_def Let_def split: if_splits)
qed

lemma record_accept_ok_cases:
  assumes "mls_record_accept_ok m p = Some (ret, p')"
  shows "p' = p \<and> ret \<noteq> OB_SUCCESS \<or>
    (\<exists>i. i < length (ml_addr_list (member_list p)) \<and> ml_addr_list (member_list p) ! i = m_sender m
       \<and> member_list p' = member_list p \<and> prepare_ok p' = prepare_ok p
       \<and> accept_ok_promise_not_vote_before_local_ts p' = (accept_ok_promise_not_vote_before_local_ts p)[i :=
           max (accept_ok_promise_not_vote_before_local_ts p ! i) (ar_lease_started_ts_on_proposer m + ar_lease_interval m)])"
proof (cases "mls_get_server_idx_in_memberlist (m_sender m) p")
  case None
  then show ?thesis using assms by (auto simp: mls_record_accept_ok_def)
next
  case (Some i)
  then show ?thesis
    using assms mls_get_server_idx_Some [OF Some]
    by (intro disjI2 exI [of _ i]) (auto simp: mls_record_accept_ok_def Let_def split: if_splits)
qed

text \<open>The members at marked positions of the list.\<close>

lemma marked_majority:
  assumes "config_ok C" "length xs = ml_get_replica_num (cf_members C)"
    and "count_if xs f \<ge> ml_get_replica_num (cf_members C) div 2 + 1"
    and "\<And>i. i < length xs \<Longrightarrow> f (xs ! i) \<Longrightarrow> i < length (members C)"
  shows "majority C ((\<lambda>i. members C ! i) ` {i. i < length xs \<and> f (xs ! i)})" (is "majority C (?g ` ?I)")
proof -
  have sub: "i < length (members C)" if "i \<in> ?I" for i using that assms(4) by simp
  then have "inj_on ?g ?I" using assms(1) unfolding config_ok_def inj_on_def by (simp add: nth_eq_iff_index_eq)
  then have "card (?g ` ?I) = count_if xs f" by (simp add: card_image count_if_card)
  moreover have "?g ` ?I \<subseteq> set (members C)" using sub by auto
  ultimately show ?thesis using assms(3) by (simp add: majority_def)
qed

lemma mls_ok_members:
  assumes "mls_ok C s r c" "i < length (ml_addr_list (member_list (c_mls c)))"
  shows "member_list (c_mls c) = cf_members C"
  using assms by (auto simp: mls_ok_def ml_new_def)

lemma ginv_new_mls:
  assumes "ginv C s r t e" "mls_ok C (gcur s r t e) r ((core e)\<lparr>c_mls := mls\<rparr>)"
  shows "ginv C s r t (e\<lparr>p_memberlist_with_states := mls\<rparr>)"
proof (rule ginv_core [OF assms(1)])
  let ?e = "e\<lparr>p_memberlist_with_states := mls\<rparr>"
  have c: "core ?e = (core e)\<lparr>c_mls := mls\<rparr>" by (simp add: core_def)
  show "sent_msgs ?e = sent_msgs e" by (rule sent_msgs_cong) simp
  show "core_le C (gcur s r t e) r (core e) (core ?e)" by (simp add: core_le_def)
  show "mls_ok C (gcur s r t e) r (core ?e)" using assms(2) unfolding c .
  show "proposer_ok C (gcur s r t e) r (core ?e)" "acceptor_ok C (gcur s r t e) r (core ?e)"
    using ginv_parts [OF assms(1)] by (simp_all add: proposer_ok_def acceptor_ok_def)
qed

lemma ginv_record_prepare:
  assumes C: "config_ok C" and g: "ginv C s r t e" and m: "(\<tau>, PrepareRes m) \<in> ns_msgs s" "\<tau> \<le> t"
    and acc: "pr_accepted m" "m_receiver m = r" "m_ballot_number m = p_ballot_number e"
      "ok_lease (g_msgs (gcur s r t e)) r (pr_lease m)"
    and rec: "mls_record_prepare_ok m (p_memberlist_with_states e) = Some (ret, mls)"
  shows "ginv C s r t (e\<lparr>p_memberlist_with_states := mls\<rparr>)"
    and "ret = OB_SUCCESS \<Longrightarrow> won C (g_msgs (gcur s r t e)) r (p_ballot_number e) t"
proof -
  let ?N = "g_msgs (gcur s r t e)" and ?p = "p_memberlist_with_states e"
  note ok = ginv_parts(1) [OF g]
  have vote: "vote ?N (m_sender m) r (p_ballot_number e) (pr_lease m) \<tau>"
    using m(1) acc(1-3) unfolding vote_def by (intro exI [of _ m]) simp
  have wf: "mls_wf mls" using mls_record_prepare_ok_wf [OF ginv_facts(6) [OF g], of m] rec by auto
  have old: "i < length (members C) \<and> (\<exists>l \<tau>. vote ?N (members C ! i) r (p_ballot_number e) l \<tau> \<and> \<tau> \<le> t \<and> ok_lease ?N r l)"
    if "i < length (prepare_ok ?p)" "prepare_ok ?p ! i" for i
    using ok that unfolding mls_ok_def by (auto simp del: gcur_sel(3))
  from record_prepare_ok_cases [OF rec]
  have "mls_ok C (gcur s r t e) r ((core e)\<lparr>c_mls := mls\<rparr>)
    \<and> (ret = OB_SUCCESS \<longrightarrow> won C ?N r (p_ballot_number e) t)"
  proof (elim disjE exE conjE)
    assume "mls = ?p" "ret \<noteq> OB_SUCCESS"
    then show ?thesis using ok by (simp add: mls_ok_def)
  next
    fix i
    assume i: "i < length (ml_addr_list (member_list ?p))" "ml_addr_list (member_list ?p) ! i = m_sender m"
      and mls: "mls = ?p\<lparr>prepare_ok := (prepare_ok ?p)[i := True]\<rparr>"
      and cnt: "ret = OB_SUCCESS \<longrightarrow> count_if (prepare_ok mls) (\<lambda>v. v) = ml_get_replica_num (member_list ?p) div 2 + 1"
    have mem: "member_list ?p = cf_members C" using mls_ok_members [OF ok, of i] i by simp
    have all: "j < length (members C) \<and> (\<exists>l \<tau>. vote ?N (members C ! j) r (p_ballot_number e) l \<tau> \<and> \<tau> \<le> t \<and> ok_lease ?N r l)"
      if "j < length (prepare_ok mls)" "prepare_ok mls ! j" for j
    proof (cases "j = i")
      case True
      then show ?thesis using i mem vote m(2) acc(4) by auto
    next
      case False
      then show ?thesis using old [of j] that mls by simp
    qed
    have "mls_ok C (gcur s r t e) r ((core e)\<lparr>c_mls := mls\<rparr>)"
      using ok wf all mem mls unfolding mls_ok_def by (auto simp del: gcur_sel(3))
    moreover have "won C ?N r (p_ballot_number e) t" if "ret = OB_SUCCESS"
    proof -
      have "length (prepare_ok mls) = ml_get_replica_num (cf_members C)" using wf mem mls by (simp add: mls_wf_def)
      then have "majority C ((\<lambda>i. members C ! i) ` {i. i < length (prepare_ok mls) \<and> prepare_ok mls ! i})"
        using marked_majority [OF C, of "prepare_ok mls" "\<lambda>v. v"] cnt that mem all by simp
      then show ?thesis unfolding won_def using all by blast
    qed
    ultimately show ?thesis by blast
  qed
  then show "ginv C s r t (e\<lparr>p_memberlist_with_states := mls\<rparr>)"
    and "ret = OB_SUCCESS \<Longrightarrow> won C ?N r (p_ballot_number e) t"
    using ginv_new_mls [OF g] by blast+
qed

lemma ginv_record_accept:
  assumes C: "config_ok C" and g: "ginv C s r t e" and m: "(\<tau>, AcceptRes m) \<in> ns_msgs s"
    and acc: "ar_accepted m" "m_receiver m = r" "m_ballot_number m = p_ballot_number e"
    and rec: "mls_record_accept_ok m (p_memberlist_with_states e) = Some (ret, mls)"
  shows "ginv C s r t (e\<lparr>p_memberlist_with_states := mls\<rparr>)"
    and "ret = OB_SUCCESS \<Longrightarrow> \<exists>v. mls_get_majority_promised_not_vote_ts mls = Some v
      \<and> (0 < v \<longrightarrow> backed C (g_msgs (gcur s r t e)) r (p_ballot_number e) v)"
proof -
  let ?N = "g_msgs (gcur s r t e)" and ?p = "p_memberlist_with_states e"
  let ?b = "p_ballot_number e"
  let ?ts = "accept_ok_promise_not_vote_before_local_ts"
  note ok = ginv_parts(1) [OF g]
  have grant: "grant ?N (m_sender m) r ?b (ar_lease_started_ts_on_proposer m + ar_lease_interval m) \<tau>"
    using m acc unfolding grant_def by (intro exI [of _ m]) simp
  have wf: "mls_wf mls" using mls_record_accept_ok_wf [OF ginv_facts(6) [OF g], of m] rec by auto
  have old: "i < length (members C) \<and> (\<exists>\<tau>. grant ?N (members C ! i) r ?b (?ts ?p ! i) \<tau>)"
    if "i < length (?ts ?p)" "?ts ?p ! i \<noteq> 0" for i
    using ok that unfolding mls_ok_def by (auto simp del: gcur_sel(3))
  from record_accept_ok_cases [OF rec]
  have "mls_ok C (gcur s r t e) r ((core e)\<lparr>c_mls := mls\<rparr>)
    \<and> (ret = OB_SUCCESS \<longrightarrow> (\<exists>v. mls_get_majority_promised_not_vote_ts mls = Some v \<and> (0 < v \<longrightarrow> backed C ?N r ?b v)))"
  proof (elim disjE exE conjE)
    assume "mls = ?p" "ret \<noteq> OB_SUCCESS"
    then show ?thesis using ok by (simp add: mls_ok_def)
  next
    fix i
    assume i: "i < length (ml_addr_list (member_list ?p))" "ml_addr_list (member_list ?p) ! i = m_sender m"
      and mls: "member_list mls = member_list ?p" "prepare_ok mls = prepare_ok ?p"
        "?ts mls = (?ts ?p)[i := max (?ts ?p ! i) (ar_lease_started_ts_on_proposer m + ar_lease_interval m)]"
    have mem: "member_list ?p = cf_members C" using mls_ok_members [OF ok, of i] i by simp
    have all: "j < length (members C) \<and> (\<exists>\<tau>. grant ?N (members C ! j) r ?b (?ts mls ! j) \<tau>)"
      if j: "j < length (?ts mls)" "?ts mls ! j \<noteq> 0" for j
    proof (cases "j = i")
      case True
      then have "?ts mls ! j = ?ts ?p ! i \<or> ?ts mls ! j = ar_lease_started_ts_on_proposer m + ar_lease_interval m"
        using j mls by (auto simp: max_def)
      then show ?thesis
      proof
        assume "?ts mls ! j = ?ts ?p ! i"
        then show ?thesis using old [of i] j mls True by simp
      next
        assume "?ts mls ! j = ar_lease_started_ts_on_proposer m + ar_lease_interval m"
        then show ?thesis using grant i mem True by auto
      qed
    next
      case False
      then show ?thesis using old [of j] j mls by simp
    qed
    have "mls_ok C (gcur s r t e) r ((core e)\<lparr>c_mls := mls\<rparr>)"
      using ok wf all mem mls(1,2) unfolding mls_ok_def by (auto simp del: gcur_sel(3))
    moreover have "\<exists>v. mls_get_majority_promised_not_vote_ts mls = Some v \<and> (0 < v \<longrightarrow> backed C ?N r ?b v)"
    proof -
      have len: "length (?ts mls) = ml_get_replica_num (cf_members C)" using wf mem mls(1) by (simp add: mls_wf_def)
      moreover have "length (members C) \<le> ml_get_replica_num (cf_members C)" using C by (simp add: config_ok_def)
      ultimately have "?ts mls \<noteq> []" using i mem by auto
      then obtain v where v: "get_sorted_majority_one_desc (?ts mls) = Some v"
        "count_if (?ts mls) (\<lambda>x. v \<le> x) \<ge> length (?ts mls) div 2 + 1"
        using get_sorted_majority_one_desc_props by metis
      have "backed C ?N r ?b v" if "0 < v"
      proof -
        have nz: "j < length (members C) \<and> (\<exists>\<tau>. grant ?N (members C ! j) r ?b (?ts mls ! j) \<tau>)"
          if "j < length (?ts mls)" "v \<le> ?ts mls ! j" for j
          using all [of j] that \<open>0 < v\<close> by simp
        have "majority C ((\<lambda>i. members C ! i) ` {i. i < length (?ts mls) \<and> v \<le> ?ts mls ! i})"
          using marked_majority [OF C len, of "\<lambda>x. v \<le> x"] v(2) nz len by simp
        then show ?thesis unfolding backed_def using nz by blast
      qed
      then show ?thesis using v(1) by (simp add: mls_get_majority_promised_not_vote_ts_def)
    qed
    ultimately show ?thesis by blast
  qed
  then show "ginv C s r t (e\<lparr>p_memberlist_with_states := mls\<rparr>)"
    and "ret = OB_SUCCESS \<Longrightarrow> \<exists>v. mls_get_majority_promised_not_vote_ts mls = Some v \<and> (0 < v \<longrightarrow> backed C ?N r ?b v)"
    using ginv_new_mls [OF g] by blast+
qed

section \<open>Handlers\<close>

lemma prepare_res_delivered:
  assumes "ginv C s r t e" "(\<tau>, PrepareRes m) \<in> ns_msgs s" "m_receiver m = r"
  shows "m_restart_counter m = p_restart_counter e" "pr_accepted m \<Longrightarrow> m_ballot_number m \<le> p_ballot_number e"
proof -
  let ?s = "gcur s r t e"
  have ok: "prep_res_ok C ?s \<tau> m" using delivered [OF assms(2,1)] by simp
  then show "m_restart_counter m = p_restart_counter e" using ginv_facts(2) [OF assms(1)] assms(3) by (simp add: prep_res_ok_def)
  assume "pr_accepted m"
  then obtain \<sigma> q where q: "(\<sigma>, PrepareReq q) \<in> g_msgs ?s" "m_sender q = r" "m_ballot_number q = m_ballot_number m"
    using ok assms(3) unfolding prep_res_ok_def preq_def by blast
  have "prep_req_ok C ?s \<sigma> q" using einv_msgs [OF assms(1) [unfolded ginv_def] q(1)] by simp
  then show "m_ballot_number m \<le> p_ballot_number e" using q by (simp add: prep_req_ok_def)
qed

lemma accept_res_delivered:
  assumes "ginv C s r t e" "(\<tau>, AcceptRes m) \<in> ns_msgs s" "m_receiver m = r"
  shows "m_restart_counter m = p_restart_counter e"
    "ar_accepted m \<Longrightarrow> 0 \<le> m_ballot_number m \<and> m_ballot_number m \<le> p_prepare_success_ballot e"
proof -
  let ?s = "gcur s r t e"
  have ok: "acc_res_ok C ?s \<tau> m" using delivered [OF assms(2,1)] by simp
  then show "m_restart_counter m = p_restart_counter e" using ginv_facts(2) [OF assms(1)] assms(3) by (simp add: acc_res_ok_def)
  assume "ar_accepted m"
  then obtain \<sigma> where "areq (g_msgs ?s) r (m_ballot_number m) \<sigma>"
    using ok assms(3) unfolding acc_res_ok_def by blast
  then show "0 \<le> m_ballot_number m \<and> m_ballot_number m \<le> p_prepare_success_ballot e"
    using einv_areq [OF assms(1) [unfolded ginv_def], of r] by fastforce
qed

text \<open>The lease a vote reports passes the proposer's test only if it can do no harm.\<close>

lemma ginv_ok_lease:
  assumes g: "ginv C s r t e" and m: "(\<tau>, PrepareRes m) \<in> ns_msgs s" "pr_accepted m"
    and test: "lease_is_empty (pr_lease m) \<or> l_owner (pr_lease m) = e_self_addr e
      \<or> l_owner (pr_lease m) = p_switch_source_leader_addr e \<and> l_ballot_number (pr_lease m) = p_switch_source_leader_ballot e"
  shows "ok_lease (g_msgs (gcur s r t e)) r (pr_lease m)"
proof (cases "lease_is_empty (pr_lease m) \<or> l_owner (pr_lease m) = r")
  case False
  let ?s = "gcur s r t e"
  have sw: "l_owner (pr_lease m) = p_switch_source_leader_addr e" "l_ballot_number (pr_lease m) = p_switch_source_leader_ballot e"
    using False test ginv_facts(1) [OF g] by auto
  have "prep_res_ok C ?s \<tau> m" using delivered [OF m(1) g] by simp
  then obtain \<sigma> where "areq (g_msgs ?s) (l_owner (pr_lease m)) (l_ballot_number (pr_lease m)) \<sigma>"
    using False m(2) unfolding prep_res_ok_def by blast
  then have "0 \<le> l_ballot_number (pr_lease m)" using einv_areq [OF g [unfolded ginv_def]] by blast
  then have "p_switch_source_leader_ballot e \<noteq> INVALID_VALUE" using sw by (simp add: INVALID_VALUE_def)
  then have "chg (g_msgs ?s) (p_switch_source_leader_addr e) (p_switch_source_leader_ballot e)"
    using ginv_parts(2) [OF g] unfolding proposer_ok_def core_sel by blast
  then show ?thesis using sw by (simp add: ok_lease_def del: gcur_sel(3))
qed (auto simp: ok_lease_def)

lemma ginv_win:
  assumes "ginv C s r t e" "won C (g_msgs (gcur s r t e)) r (p_ballot_number e) t"
  shows "ginv C s r t (e\<lparr>p_prepare_success_ballot := max (p_ballot_number e) (p_prepare_success_ballot e)\<rparr>)"
proof (rule ginv_core [OF assms(1)])
  let ?e = "e\<lparr>p_prepare_success_ballot := max (p_ballot_number e) (p_prepare_success_ballot e)\<rparr>"
  have psb: "max (p_ballot_number e) (p_prepare_success_ballot e) = p_ballot_number e"
    using ginv_facts(5) [OF assms(1)] by simp
  note parts = ginv_parts [OF assms(1)]
  show "sent_msgs ?e = sent_msgs e" by (rule sent_msgs_cong) simp
  show "core_le C (gcur s r t e) r (core e) (core ?e)" by (simp add: core_le_def)
  show "mls_ok C (gcur s r t e) r (core ?e)" "acceptor_ok C (gcur s r t e) r (core ?e)"
    using parts by (simp_all add: mls_ok_def acceptor_ok_def)
  show "proposer_ok C (gcur s r t e) r (core ?e)"
    using parts(2) assms(2) psb unfolding proposer_ok_def by (auto simp del: gcur_sel(3))
qed

lemma won_nonneg:
  assumes "config_ok C" "einv C s" "won C (g_msgs s) p b \<sigma>"
  shows "0 \<le> b"
proof -
  obtain Q where Q: "majority C Q" "\<And>a. a \<in> Q \<Longrightarrow> \<exists>l \<tau>. vote (g_msgs s) a p b l \<tau>" using assms(3) unfolding won_def by blast
  obtain a where "a \<in> Q" using majority_meets [OF assms(1) Q(1) Q(1)] .
  then show ?thesis using Q(2) einv_vote(1) [OF assms(2)] by blast
qed

lemma ginv_proposer_on_prepare_response:
  assumes C: "config_ok C" and g: "ginv C s r t e" and env: "env_in C r t0 t E"
    and m: "(\<tau>, PrepareRes m) \<in> ns_msgs s" "\<tau> \<le> t" "m_receiver m = r"
  shows "\<exists>e'. proposer_on_prepare_response E k m e = Some e' \<and> ginv C s r t e'"
proof -
  obtain ok e1 where c: "check_ballot_and_restart_counter_valid_and_accepted E k m (pr_accepted m) e = Some (ok, e1)"
    "ginv C s r t e1" "ok \<longrightarrow> e1 = e \<and> pr_accepted m \<and> m_ballot_number m = p_ballot_number e"
    using ginv_check_response [OF g prepare_res_delivered [OF g m(1,3)]] by blast
  let ?test = "lease_is_empty (pr_lease m) \<or> l_owner (pr_lease m) = e_self_addr e1
      \<or> l_owner (pr_lease m) = p_switch_source_leader_addr e1 \<and> l_ballot_number (pr_lease m) = p_switch_source_leader_ballot e1"
  show ?thesis
  proof (cases "ok \<and> ?test")
    case False
    then have "proposer_on_prepare_response E k m e = Some e1"
      using c(1) unfolding proposer_on_prepare_response_def by (auto simp: Let_def)
    then show ?thesis using c(2) by blast
  next
    case True
    then have e1: "e1 = e" "pr_accepted m" "m_ballot_number m = p_ballot_number e" using c(3) by auto
    obtain ret mls where rec: "mls_record_prepare_ok m (p_memberlist_with_states e) = Some (ret, mls)"
      using mls_record_prepare_ok_wf [OF ginv_facts(6) [OF g]] by blast
    have lease: "ok_lease (g_msgs (gcur s r t e)) r (pr_lease m)"
      using ginv_ok_lease [OF g m(1) e1(2)] True e1(1) by blast
    note rp = ginv_record_prepare [OF C g m(1,2) e1(2) m(3) e1(3) lease rec]
    let ?e2 = "e\<lparr>p_memberlist_with_states := mls\<rparr>"
    have res: "proposer_on_prepare_response E k m e = Some (if ret \<noteq> OB_SUCCESS then ?e2
        else propose E (k + 2) (?e2\<lparr>p_prepare_success_ballot := max (p_ballot_number ?e2) (p_prepare_success_ballot ?e2)\<rparr>))"
      using c(1) True rec e1 unfolding proposer_on_prepare_response_def by (auto simp: Let_def)
    show ?thesis
    proof (cases "ret = OB_SUCCESS")
      case True
      have same: "g_msgs (gcur s r t ?e2) = g_msgs (gcur s r t e)" by (simp add: sent_msgs_def)
      have won: "won C (g_msgs (gcur s r t ?e2)) r (p_ballot_number ?e2) t" unfolding same using rp(2) [OF True] by simp
      have "0 \<le> p_ballot_number e" using won_nonneg [OF C g [unfolded ginv_def] rp(2) [OF True]] .
      then show ?thesis
        unfolding res using True ginv_propose [OF ginv_win [OF rp(1) won] env, of "k + 2"] by simp
    qed (use res rp(1) in simp)
  qed
qed

end
