(* ===== verification/ElectionOps3.thy ===== *)
theory ElectionOps3
  imports ElectionOps2
begin

text \<open>
  The rest of the proposer, the handlers and the interface of the election object: a whole
  activation keeps the invariant of the cluster and returns.
\<close>

section \<open>The leader's lease\<close>

lemma ginv_new_lease:
  assumes g: "ginv C s r t e" and "lle_seq l = lle_seq (p_leader_lease_and_epoch e) + 2"
    and epoch: "0 < lle_lease l \<Longrightarrow> 0 \<le> lle_epoch l"
      "lle_epoch l = lle_epoch (p_leader_lease_and_epoch e) \<or> lle_epoch l = p_prepare_success_ballot e"
    and bkd: "0 < lle_lease l \<Longrightarrow> backed C (g_msgs (gcur s r t e)) r (p_ballot_number e) (lle_lease l)"
  shows "ginv C s r t (e\<lparr>p_leader_lease_and_epoch := l\<rparr>)"
proof (rule ginv_core [OF g])
  let ?e = "e\<lparr>p_leader_lease_and_epoch := l\<rparr>"
  note parts = ginv_parts [OF g]
  show "sent_msgs ?e = sent_msgs e" by (rule sent_msgs_cong) simp
  show "core_le C (gcur s r t e) r (core e) (core ?e)" by (simp add: core_le_def)
  show "mls_ok C (gcur s r t e) r (core ?e)" "acceptor_ok C (gcur s r t e) r (core ?e)"
    using parts by (simp_all add: mls_ok_def acceptor_ok_def)
  have "\<forall>B. chg (g_msgs (gcur s r t e)) r B \<longrightarrow> B < p_ballot_number e" using ginv_chg [OF g] by blast
  then show "proposer_ok C (gcur s r t e) r (core ?e)"
    using parts(2) assms(2) epoch bkd unfolding proposer_ok_def by (auto simp del: gcur_sel(3))
qed

lemma lle_set_fields:
  "lle_lease (lle_set_lease_and_epoch_if_lease_expired_or_just_set_lease E k x b l) = x"
  "lle_seq (lle_set_lease_and_epoch_if_lease_expired_or_just_set_lease E k x b l) = lle_seq l + 2"
  "lle_epoch (lle_set_lease_and_epoch_if_lease_expired_or_just_set_lease E k x b l) \<in> {lle_epoch l, b}"
  "mono E k < lle_lease l \<or> lle_epoch (lle_set_lease_and_epoch_if_lease_expired_or_just_set_lease E k x b l) = b"
  by (simp_all add: lle_set_lease_and_epoch_if_lease_expired_or_just_set_lease_def Let_def)

lemma ginv_lle_get:
  assumes "ginv C s r t e"
  shows "lle_get (p_leader_lease_and_epoch e) = Some (lle_lease (p_leader_lease_and_epoch e), lle_epoch (p_leader_lease_and_epoch e))"
proof -
  have "lle_seq (p_leader_lease_and_epoch e) mod 2 \<noteq> 0"
    using ginv_parts(2) [OF assms] unfolding proposer_ok_def core_sel by (elim conjE)
  then show ?thesis by (simp add: lle_get_def)
qed

lemma ginv_set_lease:
  assumes g: "ginv C s r t e" and env: "env_in C r t0 t E" and psb: "0 \<le> p_prepare_success_ballot e"
    and x: "0 < x \<Longrightarrow> backed C (g_msgs (gcur s r t e)) r (p_ballot_number e) x"
  shows "ginv C s r t (e\<lparr>p_leader_lease_and_epoch := lle_set_lease_and_epoch_if_lease_expired_or_just_set_lease E k x
      (p_prepare_success_ballot e) (p_leader_lease_and_epoch e)\<rparr>)"
proof (rule ginv_new_lease [OF g lle_set_fields(2)])
  let ?l = "p_leader_lease_and_epoch e"
  let ?l' = "lle_set_lease_and_epoch_if_lease_expired_or_just_set_lease E k x (p_prepare_success_ballot e) ?l"
  have "0 \<le> lle_epoch ?l" if "mono E k < lle_lease ?l"
    using ginv_parts(2) [OF g] env_inD(5) [OF env, of k] that unfolding proposer_ok_def core_sel by (elim conjE) linarith
  then show "0 \<le> lle_epoch ?l'"
    using psb lle_set_fields(3) [of E k x "p_prepare_success_ballot e" ?l] lle_set_fields(4) [of E k ?l x "p_prepare_success_ballot e"] by auto
  show "lle_epoch ?l' = lle_epoch ?l \<or> lle_epoch ?l' = p_prepare_success_ballot e"
    using lle_set_fields(3) [of E k x "p_prepare_success_ballot e" ?l] by simp
  show "0 < lle_lease ?l' \<Longrightarrow> backed C (g_msgs (gcur s r t e)) r (p_ballot_number e) (lle_lease ?l')"
    unfolding lle_set_fields(1) by (rule x)
qed

lemma ginv_forget_source:
  assumes "ginv C s r t e"
  shows "ginv C s r t (e\<lparr>p_switch_source_leader_ballot := INVALID_VALUE, p_switch_source_leader_addr := a\<rparr>)"
  using ginv_parts [OF assms]
  by (intro ginv_core [OF assms sent_msgs_cong])
    (simp_all add: core_le_def mls_ok_def proposer_ok_def acceptor_ok_def)

section \<open>Accept responses\<close>

text \<open>What \<^verbatim>\<open>on_accept_response\<close> does once a majority has granted leases up to \<open>x\<close>.\<close>

definition count_tail :: "el_env \<Rightarrow> nat \<Rightarrow> int \<Rightarrow> ElectionImpl \<Rightarrow> ElectionImpl" where
  "count_tail E k x e =
     (let e = snd (leader_revoke_if_lease_expired E (k + 2) LeaseExpiredToRevoke e);
          e = (if x > lle_lease (p_leader_lease_and_epoch e)
               then e\<lparr>p_leader_lease_and_epoch :=
                      lle_set_lease_and_epoch_if_lease_expired_or_just_set_lease E (k + 3) x
                        (p_prepare_success_ballot e) (p_leader_lease_and_epoch e)\<rparr>
               else e)
      in if p_switch_source_leader_ballot e \<noteq> INVALID_VALUE then
           if p_switch_source_leader_ballot e \<noteq> p_ballot_number e - 1 then e
           else (case leader_takeover_if_lease_valid E (k + 5) ChangeLeaderToBeLeader e of
                   (taken, e) \<Rightarrow>
                     (if taken then e\<lparr>p_switch_source_leader_ballot := INVALID_VALUE,
                                      p_switch_source_leader_addr := addr_reset (p_switch_source_leader_addr e)\<rparr>
                      else e))
         else snd (leader_takeover_if_lease_valid E (k + 5) DevoteToBeLeader e))"

lemma ginv_count_tail:
  assumes g: "ginv C s r t e" and env: "env_in C r t0 t E" and psb: "0 \<le> p_prepare_success_ballot e"
    and x: "0 < x \<Longrightarrow> backed C (g_msgs (gcur s r t e)) r (p_ballot_number e) x"
  shows "ginv C s r t (count_tail E k x e)"
proof -
  define e1 where "e1 = snd (leader_revoke_if_lease_expired E (k + 2) LeaseExpiredToRevoke e)"
  have g1: "ginv C s r t e1" unfolding e1_def by (rule ginv_revoke [OF g])
  have same: "p_ballot_number e1 = p_ballot_number e" "p_prepare_success_ballot e1 = p_prepare_success_ballot e"
    "g_msgs (gcur s r t e1) = g_msgs (gcur s r t e)"
    unfolding e1_def by (simp_all add: revoke_fields)
  define e2 where "e2 = (if x > lle_lease (p_leader_lease_and_epoch e1)
    then e1\<lparr>p_leader_lease_and_epoch := lle_set_lease_and_epoch_if_lease_expired_or_just_set_lease E (k + 3) x
      (p_prepare_success_ballot e1) (p_leader_lease_and_epoch e1)\<rparr> else e1)"
  have g2: "ginv C s r t e2"
    unfolding e2_def using g1 ginv_set_lease [OF g1 env, of x "k + 3"] x psb unfolding same by simp
  have psb2: "0 \<le> p_prepare_success_ballot e2" using psb same(2) by (simp add: e2_def)
  obtain taken e3 where take: "leader_takeover_if_lease_valid E (k + 5) ChangeLeaderToBeLeader e2 = (taken, e3)" by fastforce
  have g3: "ginv C s r t e3" using ginv_takeover [OF g2 env psb2, of "k + 5" ChangeLeaderToBeLeader] take by simp
  show ?thesis
    unfolding count_tail_def e1_def [symmetric] Let_def e2_def [symmetric]
    using g2 g3 take ginv_takeover [OF g2 env psb2] ginv_forget_source [OF g3] by simp
qed

lemma ginv_proposer_count_accept_response:
  assumes C: "config_ok C" and g: "ginv C s r t e" and env: "env_in C r t0 t E"
    and m: "(\<tau>, AcceptRes m) \<in> ns_msgs s" "m_receiver m = r"
  shows "\<exists>e'. proposer_count_accept_response E k m e = Some e' \<and> ginv C s r t e'"
proof -
  note del = accept_res_delivered [OF g m]
  have le: "ar_accepted m \<Longrightarrow> m_ballot_number m \<le> p_ballot_number e" using del(2) ginv_facts(5) [OF g] by fastforce
  obtain ok e1 where c: "check_ballot_and_restart_counter_valid_and_accepted E k m (ar_accepted m) e = Some (ok, e1)"
    "ginv C s r t e1" "ok \<longrightarrow> e1 = e \<and> ar_accepted m \<and> m_ballot_number m = p_ballot_number e"
    using ginv_check_response [OF g del(1) le] by blast
  show ?thesis
  proof (cases ok)
    case False
    then have "proposer_count_accept_response E k m e = Some e1"
      using c(1) unfolding proposer_count_accept_response_def by simp
    then show ?thesis using c(2) by blast
  next
    case True
    then have e1: "e1 = e" "ar_accepted m" "m_ballot_number m = p_ballot_number e" using c(3) by auto
    obtain ret mls where rec: "mls_record_accept_ok m (p_memberlist_with_states e) = Some (ret, mls)"
      using mls_record_accept_ok_wf [OF ginv_facts(6) [OF g]] by blast
    note ra = ginv_record_accept [OF C g m(1) e1(2) m(2) e1(3) rec]
    let ?e2 = "e\<lparr>p_memberlist_with_states := mls\<rparr>"
    show ?thesis
    proof (cases "ret = OB_SUCCESS")
      case False
      then have "proposer_count_accept_response E k m e = Some ?e2"
        using c(1) True rec e1(1) unfolding proposer_count_accept_response_def by simp
      then show ?thesis using ra(1) by blast
    next
      case succ: True
      obtain x where x: "mls_get_majority_promised_not_vote_ts mls = Some x"
        "0 < x \<longrightarrow> backed C (g_msgs (gcur s r t e)) r (p_ballot_number e) x"
        using ra(2) [OF succ] by blast
      have same: "g_msgs (gcur s r t ?e2) = g_msgs (gcur s r t e)" by (simp add: sent_msgs_def)
      have psb: "0 \<le> p_prepare_success_ballot ?e2" using del(2) [OF e1(2)] by simp
      have "ginv C s r t (count_tail E k x ?e2)"
        by (rule ginv_count_tail [OF ra(1) env psb]) (use x(2) in \<open>simp add: same del: gcur_sel\<close>)
      moreover have "proposer_count_accept_response E k m e = Some (count_tail E k x ?e2)"
      proof -
        have get: "lle_get (p_leader_lease_and_epoch e3)
            = Some (lle_lease (p_leader_lease_and_epoch e3), lle_epoch (p_leader_lease_and_epoch e3))"
          if "e3 = snd (leader_revoke_if_lease_expired E (k + 2) LeaseExpiredToRevoke ?e2)" for e3
          unfolding that by (rule ginv_lle_get [OF ginv_revoke [OF ra(1)]])
        show ?thesis
          using c(1) True rec e1(1) succ x(1) get [OF refl]
          unfolding proposer_count_accept_response_def count_tail_def
          by (simp add: Let_def split: prod.splits)
      qed
      ultimately show ?thesis by blast
    qed
  qed
qed

section \<open>Change of the leader\<close>

lemma ginv_inner_change_leader_to:
  assumes "ginv C s r t e"
  shows "\<exists>e'. inner_change_leader_to E k dst e = Some e' \<and> ginv C s r t e'"
proof -
  obtain e1 where e1: "proposer_advance_ballot_number_and_reset_related_states (p_ballot_number e + 1) e = Some e1"
    "ginv C s r t e1" "p_ballot_number e1 = p_ballot_number e + 1"
    using ginv_proposer_advance [OF assms, of "p_ballot_number e + 1"] by auto
  define e2 where "e2 = e1\<lparr>p_leader_lease_and_epoch := lle_reset (p_leader_lease_and_epoch e1)\<rparr>"
  have g2: "ginv C s r t e2" unfolding e2_def by (rule ginv_lle_reset [OF e1(2)])
  define e3 where "e3 = snd (leader_revoke_if_lease_expired E k ChangeLeaderToRevoke e2)"
  have g3: "ginv C s r t e3" unfolding e3_def by (rule ginv_revoke [OF g2])
  define q where "q = (change_leader_new (e_id e2) (e_self_addr e2) (p_restart_counter e2) (p_ballot_number e2)
    (get_ls_biggest_min_cluster_version_ever_seen E e2) (p_ballot_number e) (get_membership_version e2))\<lparr>m_receiver := dst\<rparr>"
  have q: "m_sender q = r" "cl_switch_source_leader_ballot q = p_ballot_number e"
    using ginv_facts(1) [OF g2] by (simp_all add: q_def change_leader_new_def)
  have pb: "p_ballot_number e3 = p_ballot_number e + 1" by (simp add: e3_def revoke_fields e2_def e1(3))
  have "lle_lease (p_leader_lease_and_epoch e3) = -1"
    using revoke_fields(4) [of E k ChangeLeaderToRevoke e2] by (simp add: e3_def e2_def lle_reset_def INVALID_VALUE_def)
  then have "ginv C s r t (emit (Send (ChangeLeader q)) e3)"
    using q pb by (intro ginv_send [OF g3]) (simp_all add: chg_ok_def)
  moreover have "inner_change_leader_to E k dst e = Some (emit (Send (ChangeLeader q)) e3)"
    using e1(1) by (simp add: inner_change_leader_to_def e3_def q_def e2_def send_msg_def Let_def)
  ultimately show ?thesis by blast
qed

lemma ginv_proposer_change_leader_to:
  assumes "ginv C s r t e"
  shows "\<exists>ret e'. proposer_change_leader_to E k dst e = Some (ret, e') \<and> ginv C s r t e'"
proof (cases "check_leader E k e")
  case True
  obtain e' where "inner_change_leader_to E (k + 1)
      (if dst \<notin> set (ml_addr_list (e_member_list e)) then e_self_addr e else dst) e = Some e'" "ginv C s r t e'"
    using ginv_inner_change_leader_to [OF assms] by blast
  then show ?thesis using True by (simp add: proposer_change_leader_to_def Let_def)
qed (use assms in \<open>simp add: proposer_change_leader_to_def Let_def\<close>)

lemma ginv_prepare_change_leader_to:
  assumes "ginv C s r t e"
  shows "\<exists>ret e'. prepare_change_leader_to E k dst e = Some (ret, e') \<and> ginv C s r t e'"
proof (cases "case e_priority e of None \<Rightarrow> False | Some priority \<Rightarrow> priority_has_fatal_failure E priority")
  case True
  then show ?thesis using ginv_proposer_change_leader_to [OF assms] by (simp add: prepare_change_leader_to_def)
next
  case False
  have "ginv C s r t (emit (PrepareChangeLeader (e_id e) dst) e)" by (rule ginv_emit [OF assms]) simp
  then show ?thesis using False assms by (simp add: prepare_change_leader_to_def split: option.split)
qed

lemma ginv_take_source:
  assumes "ginv C s r t e" "(\<tau>, ChangeLeader m) \<in> ns_msgs s"
  shows "ginv C s r t (e\<lparr>p_switch_source_leader_ballot := cl_switch_source_leader_ballot m,
      p_switch_source_leader_addr := m_sender m\<rparr>)" (is "ginv C s r t ?e")
proof (rule ginv_core [OF assms(1)])
  note parts = ginv_parts [OF assms(1)]
  have chg: "chg (g_msgs (gcur s r t e)) (m_sender m) (cl_switch_source_leader_ballot m)"
    using assms(2) unfolding chg_def by auto
  show "sent_msgs ?e = sent_msgs e" by (rule sent_msgs_cong) simp
  show "core_le C (gcur s r t e) r (core e) (core ?e)" by (simp add: core_le_def)
  show "mls_ok C (gcur s r t e) r (core ?e)" "acceptor_ok C (gcur s r t e) r (core ?e)"
    using parts by (simp_all add: mls_ok_def acceptor_ok_def)
  show "proposer_ok C (gcur s r t e) r (core ?e)"
    using parts(2) chg unfolding proposer_ok_def by (simp del: gcur_sel(3))
qed

lemma ginv_proposer_on_change_leader:
  assumes "ginv C s r t e" "(\<tau>, ChangeLeader m) \<in> ns_msgs s"
  shows "\<exists>e'. proposer_on_change_leader E k m e = Some e' \<and> ginv C s r t e'"
proof (cases "(if m_sender m = e_self_addr e then m_ballot_number m = p_ballot_number e
      else m_ballot_number m > p_ballot_number e) \<and> \<not> cv_gt (cl_membership_version m) (ml_membership_version (e_member_list e))")
  case True
  then have "p_ballot_number e \<le> m_ballot_number m" by (auto split: if_splits)
  then obtain e1 where e1: "proposer_advance_ballot_number_and_reset_related_states (m_ballot_number m) e = Some e1"
    "ginv C s r t e1" using ginv_proposer_advance [OF assms(1)] by blast
  obtain e2 where "prepare E k LEADER (e1\<lparr>p_switch_source_leader_ballot := cl_switch_source_leader_ballot m,
      p_switch_source_leader_addr := m_sender m\<rparr>) = Some e2" "ginv C s r t e2"
    using ginv_prepare [OF ginv_take_source [OF e1(2) assms(2)]] by blast
  then show ?thesis using True e1(1) unfolding proposer_on_change_leader_def Let_def by simp
next
  case False
  then have "proposer_on_change_leader E k m e = Some e" unfolding proposer_on_change_leader_def Let_def by auto
  then show ?thesis using assms(1) by blast
qed

lemma ginv_cache:
  assumes "ginv C s r t e"
  shows "ginv C s r t (e\<lparr>p_highest_priority_cache := c\<rparr>)"
  by (rule ginv_same [OF assms]) (simp_all add: core_def sent_msgs_def)

lemma ginv_proposer_compare_priority:
  assumes "ginv C s r t e"
  shows "\<exists>e'. proposer_compare_priority E k m e = Some e' \<and> ginv C s r t e'"
proof -
  have "\<exists>e'. map_option snd (prepare_change_leader_to E (k + 1) d (e\<lparr>p_highest_priority_cache := c\<rparr>)) = Some e' \<and> ginv C s r t e'" for c d
    using ginv_prepare_change_leader_to [OF ginv_cache [OF assms, of c], of E "k + 1" d] by fastforce
  then show ?thesis
    using assms ginv_cache [OF assms]
    unfolding proposer_compare_priority_def by (simp add: Let_def split: prod.split)
qed

lemma ginv_proposer_on_accept_response:
  assumes "config_ok C" "ginv C s r t e" "env_in C r t0 t E" "(\<tau>, AcceptRes m) \<in> ns_msgs s" "m_receiver m = r"
  shows "\<exists>e'. proposer_on_accept_response E k m e = Some e' \<and> ginv C s r t e'"
proof -
  obtain e1 where e1: "proposer_count_accept_response E k m e = Some e1" "ginv C s r t e1"
    using ginv_proposer_count_accept_response [OF assms] by blast
  then show ?thesis using ginv_proposer_compare_priority [OF e1(2)] by (simp add: proposer_on_accept_response_def)
qed

section \<open>Timer tasks\<close>

lemma ginv_renew_lease_task:
  assumes g: "ginv C s r t e" and env: "env_in C r t0 t E"
  shows "ginv C s r t (renew_lease_task E e)"
proof (cases "e_is_running e \<and> p_role e = LEADER")
  case True
  obtain revoked e1 where rv: "leader_revoke_if_lease_expired E 0 LeaseExpiredToRevoke e = (revoked, e1)" by fastforce
  have g1: "ginv C s r t e1" using ginv_revoke [OF g, of E 0 LeaseExpiredToRevoke] rv by simp
  have "0 \<le> p_prepare_success_ballot e" using ginv_parts(2) [OF g] True unfolding proposer_ok_def by auto
  then have "0 \<le> p_prepare_success_ballot e1" using revoke_fields(2) [of E 0 LeaseExpiredToRevoke e] rv by simp
  from ginv_propose [OF g1 env this] show ?thesis using True rv g1 by (simp add: renew_lease_task_def)
next
  case False
  then show ?thesis using g by (auto simp: renew_lease_task_def)
qed

lemma ginv_role: "ginv C s r t e \<Longrightarrow> p_role e = FOLLOWER \<or> p_role e = LEADER"
  using ginv_parts(2) unfolding proposer_ok_def by fastforce

lemma ginv_follow:
  assumes "ginv C s r t e"
  shows "ginv C s r t (e\<lparr>p_role := FOLLOWER\<rparr>)"
  using ginv_parts [OF assms]
  by (intro ginv_core [OF assms sent_msgs_cong])
    (simp_all add: core_le_def mls_ok_def proposer_ok_def acceptor_ok_def)

lemma ginv_devote_task:
  assumes "ginv C s r t e"
  shows "\<exists>e'. devote_task E e = Some e' \<and> ginv C s r t e'"
proof -
  let ?e = "if p_role e = LEADER then e\<lparr>p_role := FOLLOWER\<rparr> else e"
  have "ginv C s r t ?e" using assms ginv_follow by simp
  from ginv_prepare [OF this ginv_role [OF this], of E 1] ginv_prepare [OF assms ginv_role [OF assms], of E 1]
  show ?thesis using assms by (auto simp: devote_task_def Let_def)
qed

lemma ginv_reschedule:
  assumes "ginv C s r t e"
  shows "ginv C s r t (snd (reschedule_or_register_prepare_task_after E d e))"
proof -
  have 1: "ginv C s r t (emit (RescheduleDevote d) e)" by (rule ginv_emit [OF assms]) simp
  have 2: "ginv C s r t (emit (RegisterDevote d) e)" by (rule ginv_emit [OF assms]) simp
  have "ginv C s r t ((emit (RegisterDevote d) e)\<lparr>p_devote_task_running := True\<rparr>)"
    by (rule ginv_same [OF 2]) (simp_all add: core_def sent_msgs_def)
  then show ?thesis using assms 1 2 by (simp add: reschedule_or_register_prepare_task_after_def Let_def)
qed

section \<open>Member lists, start and stop\<close>

lemma set_member_list_fixed:
  assumes C: "config_ok C" and ok: "mls_ok C s r c"
  shows "\<exists>ret mls. mls_set_member_list malloc_ok mem (cf_members C) (c_mls c) = Some (ret, mls)
    \<and> mls_ok C s r (c\<lparr>c_mls := mls\<rparr>)"
proof (cases "member_list (c_mls c) = cf_members C")
  case True
  have "(member_list (c_mls c))\<lparr>ml_membership_version := ml_membership_version (cf_members C)\<rparr> = member_list (c_mls c)"
    unfolding True by (intro MemberList.equality) simp_all
  then have "mls_set_member_list malloc_ok mem (cf_members C) (c_mls c) = Some (OB_SUCCESS, c_mls c)"
    using True by (simp add: mls_set_member_list_def)
  then show ?thesis using ok by (simp add: mls_ok_def)
next
  case False
  let ?n = "ml_get_replica_num (cf_members C)"
  let ?new = "\<lparr>member_list = cf_members C, prepare_ok = mls_init_array ?n False,
    accept_ok_promise_not_vote_before_local_ts = mls_init_array ?n 0,
    follower_renew_lease_success_membership_version = mls_init_array ?n cv_new\<rparr>"
  have old: "ml_addr_list (member_list (c_mls c)) = []" using False ok by (auto simp: mls_ok_def ml_new_def)
  have ne: "ml_addr_list (cf_members C) \<noteq> []" and le: "length (members C) \<le> ?n"
    using C by (auto simp: config_ok_def ml_is_valid_def)
  have "mls_copy_states (c_mls c) ?new = Some ?new" using old by (simp add: mls_copy_states_def)
  then have "\<exists>ret mls. mls_set_member_list malloc_ok mem (cf_members C) (c_mls c) = Some (ret, mls) \<and> (mls = c_mls c \<or> mls = ?new)"
    using old ne by (simp add: mls_set_member_list_def Let_def)
  moreover have "mls_ok C s r (c\<lparr>c_mls := c_mls c\<rparr>)" using ok by (simp add: mls_ok_def)
  moreover have "mls_ok C s r (c\<lparr>c_mls := ?new\<rparr>)"
    using le by (simp add: mls_ok_def mls_wf_def mls_init_array_def)
  ultimately show ?thesis by blast
qed

lemma ginv_proposer_set_member_list:
  assumes C: "config_ok C" and g: "ginv C s r t e"
  shows "\<exists>ret e'. proposer_set_member_list E k malloc_ok mem (cf_members C) e = Some (ret, e') \<and> ginv C s r t e'"
proof -
  obtain ret mls where s: "mls_set_member_list malloc_ok mem (cf_members C) (p_memberlist_with_states e) = Some (ret, mls)"
    "mls_ok C (gcur s r t e) r ((core e)\<lparr>c_mls := mls\<rparr>)"
    using set_member_list_fixed [OF C ginv_parts(1) [OF g]] unfolding core_sel by blast
  have g1: "ginv C s r t (e\<lparr>p_memberlist_with_states := mls\<rparr>)" by (rule ginv_new_mls [OF g s(2)])
  obtain e2 where e2: "prepare E (k + 1) FOLLOWER (e\<lparr>p_memberlist_with_states := mls\<rparr>) = Some e2" "ginv C s r t e2"
    using ginv_prepare [OF g1] by blast
  show ?thesis using g s(1) g1 e2 by (simp add: proposer_set_member_list_def Let_def)
qed

lemma ginv_election_stop:
  assumes "ginv C s r t e"
  shows "ginv C s r t (election_stop E e)"
proof -
  let ?e1 = "e\<lparr>e_priority := None\<rparr>"
  let ?e2 = "(e\<lparr>e_priority := None, e_is_running := False\<rparr>)\<lparr>p_devote_task_running := False\<rparr>"
  have g1: "ginv C s r t ?e1" by (rule ginv_same [OF assms]) (simp_all add: core_def sent_msgs_def)
  have "ginv C s r t ?e2" by (rule ginv_same [OF assms]) (simp_all add: core_def sent_msgs_def)
  from ginv_revoke [OF ginv_lle_reset [OF this], of E 0 StopToRevoke]
  show ?thesis using g1 by (simp add: election_stop_def proposer_stop_def Let_def)
qed

section \<open>Messages\<close>

lemma ginv_handle_message_base:
  assumes "ginv C s r t e"
  shows "ginv C s r t (handle_message_base v e)"
  by (rule ginv_same [OF assms]) (simp_all add: handle_message_base_def core_def sent_msgs_def)

lemma ginv_handle_prepare_request:
  assumes "ginv C s r t e" "(\<tau>, PrepareReq m) \<in> ns_msgs s"
  shows "\<exists>ret e'. handle_prepare_request E m e = Some (ret, e') \<and> ginv C s r t e'"
proof -
  define e1 where "e1 = handle_message_base (m_version m) e"
  have g1: "ginv C s r t e1" unfolding e1_def by (rule ginv_handle_message_base [OF assms(1)])
  obtain b e2 where e2: "(if m_sender m \<noteq> e_self_addr e1 then proposer_on_prepare_request E 0 m e1 else Some (False, e1)) = Some (b, e2)"
    "ginv C s r t e2"
    using ginv_proposer_on_prepare_request [OF g1 assms(2), of E 0] g1 by (cases "m_sender m \<noteq> e_self_addr e1") auto
  have g3: "ginv C s r t (acceptor_on_prepare_request E 1 m e2)" by (rule ginv_acceptor_on_prepare_request [OF e2(2) assms(2)])
  obtain ret4 e4 where e4: "reschedule_or_register_prepare_task_after E (CALCULATE_MAX_ELECT_COST_TIME (max_tst E))
      (acceptor_on_prepare_request E 1 m e2) = (ret4, e4)" by fastforce
  have "\<exists>ret e'. handle_prepare_request E m e = Some (ret, e') \<and> (e' = e1 \<or> e' = acceptor_on_prepare_request E 1 m e2 \<or> e' = e4)"
    unfolding handle_prepare_request_def Let_def e1_def [symmetric] e2(1) using e4 by (cases b) auto
  then show ?thesis using g1 g3 ginv_reschedule [OF g3] e4 by (metis snd_conv)
qed

lemma ginv_handle_accept_request:
  assumes "ginv C s r t e" "env_in C r t0 t E" "(\<tau>, AcceptReq m) \<in> ns_msgs s" "\<tau> \<le> t0"
  shows "\<exists>ret e'. handle_accept_request E m e = Some (ret, e') \<and> ginv C s r t e'"
proof -
  define e1 where "e1 = handle_message_base (m_version m) e"
  have g1: "ginv C s r t e1" unfolding e1_def by (rule ginv_handle_message_base [OF assms(1)])
  obtain e2 where e2: "(if m_ballot_number m > p_ballot_number e1
      then proposer_advance_ballot_number_and_reset_related_states (m_ballot_number m) e1 else Some e1) = Some e2" "ginv C s r t e2"
    using ginv_proposer_advance [OF g1, of "m_ballot_number m"] g1 by (cases "m_ballot_number m > p_ballot_number e1") auto
  obtain u e3 where e3: "acceptor_on_accept_request E 0 m e2 = Some (u, e3)" "ginv C s r t e3"
    using ginv_acceptor_on_accept_request [OF e2(2) assms(2-4)] by blast
  obtain ret4 e4 where e4: "reschedule_or_register_prepare_task_after E (u - CALCULATE_TRIGGER_ELECT_WATER_MARK (max_tst E)) e3
      = (ret4, e4)" by fastforce
  have "\<exists>ret e'. handle_accept_request E m e = Some (ret, e') \<and> (e' = e1 \<or> e' = e3 \<or> e' = e4)"
    unfolding handle_accept_request_def Let_def e1_def [symmetric] e2(1) using e3(1) e4 by auto
  then show ?thesis using g1 e3(2) ginv_reschedule [OF e3(2)] e4 by (metis snd_conv)
qed

lemma ginv_handle_responses:
  assumes C: "config_ok C" and g: "ginv C s r t e" and env: "env_in C r t0 t E" and "\<tau> \<le> t0"
  shows "(\<tau>, PrepareRes m1) \<in> ns_msgs s \<Longrightarrow> m_receiver m1 = r \<Longrightarrow>
      \<exists>ret e'. handle_prepare_response E m1 e = Some (ret, e') \<and> ginv C s r t e'"
    "(\<tau>, AcceptRes m2) \<in> ns_msgs s \<Longrightarrow> m_receiver m2 = r \<Longrightarrow>
      \<exists>ret e'. handle_accept_response E m2 e = Some (ret, e') \<and> ginv C s r t e'"
    "(\<tau>, ChangeLeader m3) \<in> ns_msgs s \<Longrightarrow> \<exists>ret e'. handle_change_leader E m3 e = Some (ret, e') \<and> ginv C s r t e'"
proof -
  have g1: "ginv C s r t (handle_message_base v e)" for v by (rule ginv_handle_message_base [OF g])
  have le: "\<tau> \<le> t" using assms(4) env_inD(4) [OF env] by simp
  show "\<exists>ret e'. handle_prepare_response E m1 e = Some (ret, e') \<and> ginv C s r t e'"
    if "(\<tau>, PrepareRes m1) \<in> ns_msgs s" "m_receiver m1 = r"
    using g1 ginv_proposer_on_prepare_response [OF C g1 env that(1) le that(2)]
    by (fastforce simp: handle_prepare_response_def Let_def)
  show "\<exists>ret e'. handle_accept_response E m2 e = Some (ret, e') \<and> ginv C s r t e'"
    if "(\<tau>, AcceptRes m2) \<in> ns_msgs s" "m_receiver m2 = r"
    using g1 ginv_proposer_on_accept_response [OF C g1 env that]
    by (fastforce simp: handle_accept_response_def Let_def)
  show "\<exists>ret e'. handle_change_leader E m3 e = Some (ret, e') \<and> ginv C s r t e'"
    if "(\<tau>, ChangeLeader m3) \<in> ns_msgs s"
    using g1 ginv_proposer_on_change_leader [OF g1 that]
    by (fastforce simp: handle_change_leader_def Let_def)
qed

section \<open>Activations\<close>

lemma ginv_handle_message:
  assumes C: "config_ok C" and g: "ginv C s r t e" and env: "env_in C r t0 t E"
    and m: "(\<tau>, m) \<in> ns_msgs s" "\<tau> \<le> t0" "el_msg_receiver m = r"
  shows "\<exists>ret e'. handle_message E m e = Some (ret, e') \<and> ginv C s r t e'"
proof (cases m)
  case (PrepareReq q)
  then show ?thesis using ginv_handle_prepare_request [OF g] m by simp
next
  case (PrepareRes q)
  then show ?thesis using ginv_handle_responses(1) [OF C g env m(2)] m by simp
next
  case (AcceptReq q)
  then show ?thesis using ginv_handle_accept_request [OF g env] m by simp
next
  case (AcceptRes q)
  then show ?thesis using ginv_handle_responses(2) [OF C g env m(2)] m by simp
next
  case (ChangeLeader q)
  then show ?thesis using ginv_handle_responses(3) [OF C g env m(2)] m by simp
qed

text \<open>Interface calls that touch nothing of the protocol.\<close>

lemma api_same:
  "core (snd (election_set_priority p e)) = core e" "sent_msgs (snd (election_set_priority p e)) = sent_msgs e"
  "core (snd (election_reset_priority e)) = core e" "sent_msgs (snd (election_reset_priority e)) = sent_msgs e"
  "core (snd (temporarily_downgrade_protocol_priority E d e)) = core e"
  "sent_msgs (snd (temporarily_downgrade_protocol_priority E d e)) = sent_msgs e"
  "core (snd (add_inner_priority_seed_bit b e)) = core e" "sent_msgs (snd (add_inner_priority_seed_bit b e)) = sent_msgs e"
  "core (snd (clear_inner_priority_seed_bit b e)) = core e" "sent_msgs (snd (clear_inner_priority_seed_bit b e)) = sent_msgs e"
  "core (snd (set_inner_priority_seed b e)) = core e" "sent_msgs (snd (set_inner_priority_seed b e)) = sent_msgs e"
  by (simp_all add: election_set_priority_def election_reset_priority_def temporarily_downgrade_protocol_priority_def
      add_inner_priority_seed_bit_def clear_inner_priority_seed_bit_def set_inner_priority_seed_def core_def sent_msgs_def)

lemma ginv_run_act:
  assumes C: "config_ok C" and g: "ginv C s r t1 e" and act: "act_enabled C s r t0 t1 E a"
    and pos: "0 \<le> ns_time s r + cf_off C r"
  shows "\<exists>e'. run_act C E a e = Some e' \<and> ginv C s r t1 e'"
proof -
  have env: "env_in C r t0 t1 E" using act pos by (auto simp: act_enabled_def env_in_def)
  show ?thesis
  proof (cases a)
    case (Deliver m)
    then obtain \<tau> where "\<tau> \<le> t0" "(\<tau>, m) \<in> ns_msgs s" "el_msg_receiver m = r" using act by (auto simp: act_enabled_def)
    from ginv_handle_message [OF C g env this(2,1,3)] show ?thesis using Deliver by fastforce
  next
    case (ApiSetMemberlist malloc_ok mem)
    have "\<exists>ret e'. election_set_memberlist E malloc_ok mem (cf_members C) e = Some (ret, e') \<and> ginv C s r t1 e'"
      using ginv_proposer_set_member_list [OF C g, of E 0 malloc_ok mem] g by (simp add: election_set_memberlist_def)
    then show ?thesis using ApiSetMemberlist by fastforce
  next
    case (ApiChangeLeaderTo dst)
    have "\<exists>ret e'. election_change_leader_to E dst e = Some (ret, e') \<and> ginv C s r t1 e'"
      using ginv_proposer_change_leader_to [OF g, of E 0 dst] g by (simp add: election_change_leader_to_def)
    then show ?thesis using ApiChangeLeaderTo by fastforce
  next
    case AcceptorTimer
    then show ?thesis using ginv_timer_task [OF g env] by simp
  next
    case RenewTask
    then show ?thesis using ginv_renew_lease_task [OF g env] by simp
  next
    case DevoteTask
    then show ?thesis using ginv_devote_task [OF g] by simp
  next
    case ApiStop
    then show ?thesis using ginv_election_stop [OF g] by simp
  qed (simp_all add: ginv_same [OF g api_same(1,2)] ginv_same [OF g api_same(3,4)] ginv_same [OF g api_same(5,6)]
        ginv_same [OF g api_same(7,8)] ginv_same [OF g api_same(9,10)] ginv_same [OF g api_same(11,12)])
qed

end
