(* ===== verification/ElectionRun.thy ===== *)
theory ElectionRun
  imports ElectionNet
begin

text \<open>
  An election that succeeds: runs of the cluster are executed, and what the execution computes is a
  reachable state.
\<close>

section \<open>Executing a schedule\<close>

text \<open>An entry of a schedule is a replica, the real time at which it acts, and either the index of a
  message to be delivered or another activation.\<close>

definition run_env :: "int \<Rightarrow> el_env" where
  "run_env clock = \<lparr>mono = \<lambda>_. clock, wall = \<lambda>_. clock, max_tst = 1000000, init_ts = 0, send_ret = \<lambda>_. OB_SUCCESS,
     reschedule_ret = OB_SUCCESS, change_leader_cb = None, min_cluster_version = 1, arbitration_mode = False,
     priority_serialize = \<lambda>_. (OB_SUCCESS, []), priority_deserialize = \<lambda>_ _. OB_SUCCESS,
     priority_compare = \<lambda>_ _ _ _ _. (OB_SUCCESS, 0), priority_has_fatal_failure = \<lambda>_. False\<rparr>"

type_synonym run_state = "(ObAddr \<Rightarrow> ElectionImpl) \<times> (ObAddr \<Rightarrow> int) \<times> (int \<times> el_msg) list"

fun is_delivery :: "el_act \<Rightarrow> bool" where
  "is_delivery (Deliver m) = True"
| "is_delivery a = False"

fun entry_act :: "ObAddr \<Rightarrow> int \<Rightarrow> nat + el_act \<Rightarrow> (int \<times> el_msg) list \<Rightarrow> el_act option" where
  "entry_act r t (Inl i) msgs =
     (if i < length msgs \<and> el_msg_receiver (snd (msgs ! i)) = r \<and> fst (msgs ! i) \<le> t then Some (Deliver (snd (msgs ! i))) else None)"
| "entry_act r t (Inr a) msgs = (if is_delivery a then None else Some a)"

fun run_entry :: "el_config \<Rightarrow> ObAddr \<times> int \<times> (nat + el_act) \<Rightarrow> run_state \<Rightarrow> run_state option" where
  "run_entry C (r, t, x) (node, time, msgs) =
     (if addr_is_valid r \<and> time r \<le> t then
        (case entry_act r t x msgs of
           None \<Rightarrow> None
         | Some a \<Rightarrow>
             map_option (\<lambda>e. (node(r := e), time(r := t), msgs @ map (Pair t) (sent_msgs e)))
               (run_act C (run_env (t + cf_off C r)) a ((node r)\<lparr>e_out := []\<rparr>)))
      else None)"

fun run_schedule :: "el_config \<Rightarrow> (ObAddr \<times> int \<times> (nat + el_act)) list \<Rightarrow> run_state \<Rightarrow> run_state option" where
  "run_schedule C [] st = Some st"
| "run_schedule C (x # xs) st = (case run_entry C x st of None \<Rightarrow> None | Some st \<Rightarrow> run_schedule C xs st)"

definition run_abs :: "run_state \<Rightarrow> net_state" where
  "run_abs st = (case st of (node, time, msgs) \<Rightarrow> \<lparr>ns_node = node, ns_time = time, ns_msgs = set msgs\<rparr>)"

lemma entry_act_delivers:
  assumes "entry_act r t x msgs = Some (Deliver m)"
  shows "el_msg_receiver m = r \<and> (\<exists>\<tau> \<le> t. (\<tau>, m) \<in> set msgs)"
proof (cases x)
  case (Inl i)
  then have i: "i < length msgs" "fst (msgs ! i) \<le> t" "snd (msgs ! i) = m" "el_msg_receiver (snd (msgs ! i)) = r"
    using assms by (simp_all split: if_splits)
  have "(fst (msgs ! i), snd (msgs ! i)) \<in> set msgs" unfolding prod.collapse by (rule nth_mem [OF i(1)])
  then show ?thesis using i(2-4) unfolding i(3) by (intro conjI exI [of _ "fst (msgs ! i)"])
next
  case (Inr a)
  then show ?thesis using assms by (simp split: if_splits)
qed

lemma run_entry_step:
  assumes "run_entry C x st = Some st'"
  shows "net_step C (run_abs st) (run_abs st')"
proof -
  obtain r t y node time msgs where x: "x = (r, t, y)" "st = (node, time, msgs)" by (metis prod_cases3)
  let ?E = "run_env (t + cf_off C r)"
  have r: "addr_is_valid r" "time r \<le> t" using assms by (simp_all add: x split: if_splits)
  obtain a where a: "entry_act r t y msgs = Some a" using assms by (auto simp: x split: if_splits option.splits)
  obtain e where e: "run_act C ?E a ((node r)\<lparr>e_out := []\<rparr>) = Some e"
    and st: "st' = (node(r := e), time(r := t), msgs @ map (Pair t) (sent_msgs e))"
    using assms r a by (auto simp: x)
  have "act_enabled C (run_abs st) r t t ?E a"
    using r a entry_act_delivers [of r t y msgs] by (auto simp: act_enabled_def run_abs_def x(2) run_env_def split: el_act.split)
  from net_step.act [OF this] e
  have "net_step C (run_abs st) (net_after (run_abs st) r t e)" by (simp add: run_abs_def x(2))
  moreover have "net_after (run_abs st) r t e = run_abs st'"
    unfolding st x(2) by (auto simp: net_after_def run_abs_def)
  ultimately show ?thesis by simp
qed

lemma run_schedule_reach:
  "run_schedule C xs st = Some st' \<Longrightarrow> net_reach C (run_abs st) \<Longrightarrow> net_reach C (run_abs st')"
proof (induction xs arbitrary: st)
  case (Cons x xs)
  then obtain st1 where st1: "run_entry C x st = Some st1" "run_schedule C xs st1 = Some st'"
    by (cases "run_entry C x st") simp_all
  have "net_reach C (run_abs st1)" by (rule net_reach.step [OF Cons.prems(2) run_entry_step [OF st1(1)]])
  with st1(2) show ?case by (rule Cons.IH)
qed simp

section \<open>A cluster of three\<close>

abbreviation "A1 \<equiv> IPV4 1 80"
abbreviation "A2 \<equiv> IPV4 2 80"
abbreviation "A3 \<equiv> IPV4 3 80"

definition three :: el_config where
  "three = \<lparr>cf_members = \<lparr>ml_addr_list = [A1, A2, A3], ml_membership_version = \<lparr>cv_proposal_id = 1, cv_config_seq = 1\<rparr>, ml_replica_num = 3\<rparr>,
     cf_off = \<lambda>r. if r = A2 then 5000000 else 0, cf_restart_counter = \<lambda>_. 1\<rparr>"

definition three_node :: "ObAddr \<Rightarrow> ElectionImpl" where
  "three_node r = snd (init_and_start (run_env 0) True (\<lambda>_. OB_SUCCESS) (\<lambda>_. OB_SUCCESS) True 1001 r DEFAULT_SEED 1 (election_new 0 0))"

definition three_start :: run_state where
  "three_start = (three_node, \<lambda>_. 0, [])"

definition three_schedule :: "(ObAddr \<times> int \<times> (nat + el_act)) list" where
  "three_schedule =
     [(A1, 20000000, Inr (ApiSetMemberlist True (\<lambda>_. OB_SUCCESS))), (A2, 20000000, Inr (ApiSetMemberlist True (\<lambda>_. OB_SUCCESS))),
      (A1, 20000000, Inr DevoteTask), (A1, 20000010, Inl 0), (A2, 20000010, Inl 1),
      (A1, 23000000, Inr AcceptorTimer), (A2, 23000000, Inr AcceptorTimer),
      (A1, 23000010, Inl 6), (A1, 23000010, Inl 7), (A1, 23000020, Inl 8), (A2, 23000020, Inl 9),
      (A1, 23000030, Inl 11), (A1, 23000030, Inl 12), (A2, 23000030, Inr AcceptorTimer)]"

lemma three_elects:
  "case run_schedule three three_schedule three_start of None \<Rightarrow> False
   | Some (node, time, msgs) \<Rightarrow> time A1 = 23000030 \<and> time A2 = 23000030
       \<and> lle_lease (p_leader_lease_and_epoch (node A1)) = 27000010 \<and> lle_epoch (p_leader_lease_and_epoch (node A1)) = 0"
  by code_simp

lemma three_ok: "config_ok three"
  by (simp add: config_ok_def three_def ml_is_valid_def ml_get_replica_num_def cv_is_valid_def INVALID_PROPOSAL_ID_def word_less_nat_alt word_sle_eq)

lemma three_starts: "net_reach three (run_abs three_start)"
proof (rule net_reach.initial)
  have "node_started three r (three_node r)" for r
    unfolding node_started_def
    by (intro exI [of _ "run_env 0"] exI [of _ True] exI [of _ "\<lambda>_. OB_SUCCESS"] exI [of _ 1001] exI [of _ DEFAULT_SEED] exI [of _ 0])
      (simp add: three_node_def three_def init_and_start_def proposer_init_def mls_init_def proposer_start_def
        reschedule_or_register_prepare_task_after_def emit_def election_new_def Let_def run_env_def)
  then show "net_initial three (run_abs three_start)"
    by (simp add: net_initial_def run_abs_def three_start_def three_def)
qed

text \<open>The replica \<open>A1\<close> becomes the leader, its lease runs for four seconds from the request it sent.\<close>

lemma three_leader:
  "\<exists>s. net_reach three s \<and> ns_time s A1 = 23000030 \<and> ns_time s A2 = 23000030
     \<and> lle_lease (p_leader_lease_and_epoch (ns_node s A1)) = 27000010 \<and> lle_epoch (p_leader_lease_and_epoch (ns_node s A1)) = 0"
proof -
  obtain node time msgs where r: "run_schedule three three_schedule three_start = Some (node, time, msgs)"
    and v: "time A1 = 23000030" "time A2 = 23000030" "lle_lease (p_leader_lease_and_epoch (node A1)) = 27000010"
      "lle_epoch (p_leader_lease_and_epoch (node A1)) = 0"
    using three_elects by (auto split: option.splits)
  have "net_reach three (run_abs (node, time, msgs))" by (rule run_schedule_reach [OF r three_starts])
  then show ?thesis using v by (intro exI [of _ "run_abs (node, time, msgs)"]) (simp add: run_abs_def)
qed

end
