(* ===== verification/ElectionSafe.thy ===== *)
theory ElectionSafe
  imports ElectionOps3 ElectionRun
begin

text \<open>
  The election elects one leader at a time: every reachable state of the cluster satisfies the
  invariant, no activation fails an assertion on the way, and no two replicas hold the leader's lease
  at the same real time.
\<close>

section \<open>Every reachable state satisfies the invariant\<close>

definition gabs :: "net_state \<Rightarrow> gstate" where
  "gabs s = \<lparr>g_core = \<lambda>r. core (ns_node s r), g_time = ns_time s, g_msgs = ns_msgs s\<rparr>"

lemma gabs_after: "gabs (net_after s r t e) = gcur s r t e"
  by (simp add: gabs_def net_after_def gcur_def fun_eq_iff)

lemma node_started_core:
  assumes "node_started C r e"
  shows "core e = \<lparr>c_self = r, c_rc = cf_restart_counter C r, c_role = FOLLOWER, c_pb = -1, c_mls = mls_new,
     c_psb = -1, c_end = -1, c_epoch = -1, c_seq = -1, c_sslb = -1, c_ssla = addr_new, c_ab = -1, c_lease = lease_new,
     c_hp = prepare_req_default\<rparr>"
  using assms
  by (auto simp: node_started_def init_and_start_def proposer_init_def mls_init_def proposer_start_def
      reschedule_or_register_prepare_task_after_def emit_def election_new_def core_def lle_new_def INVALID_VALUE_def Let_def
      split: if_splits)

lemma einv_initial:
  assumes "net_initial C s"
  shows "einv C (gabs s)"
proof -
  have "core (ns_node s r) = \<lparr>c_self = r, c_rc = cf_restart_counter C r, c_role = FOLLOWER, c_pb = -1, c_mls = mls_new,
     c_psb = -1, c_end = -1, c_epoch = -1, c_seq = -1, c_sslb = -1, c_ssla = addr_new, c_ab = -1, c_lease = lease_new,
     c_hp = prepare_req_default\<rparr>" for r
    using assms node_started_core unfolding net_initial_def by blast
  then show ?thesis
    using assms
    by (simp add: einv_def gabs_def net_initial_def votes_unique_def votes_report_def vote_def mls_ok_def proposer_ok_def
        acceptor_ok_def mls_new_def mls_wf_def ml_new_def ml_get_replica_num_def INVALID_VALUE_def lease_new_def
        lease_is_empty_def prepare_req_default_def)
qed

lemma einv_clock: "einv C (gabs s) \<Longrightarrow> 0 \<le> ns_time s r + cf_off C r"
  by (simp add: einv_def gabs_def)

lemma ginv_start:
  assumes "einv C (gabs s)" "ns_time s r \<le> t"
  shows "ginv C s r t ((ns_node s r)\<lparr>e_out := []\<rparr>)"
proof -
  have "gcur s r t ((ns_node s r)\<lparr>e_out := []\<rparr>) = (gabs s)\<lparr>g_time := (g_time (gabs s))(r := t)\<rparr>"
    by (simp add: gcur_def gabs_def sent_msgs_def core_def fun_eq_iff)
  then show ?thesis using einv_time [OF assms(1), of r t] assms(2) by (simp add: ginv_def gabs_def)
qed

lemma einv_step:
  assumes "config_ok C" "net_step C s s'" "einv C (gabs s)"
  shows "einv C (gabs s')"
  using assms(2)
proof cases
  case (act r t0 t1 E a e)
  have "ns_time s r \<le> t1" using act(2) by (auto simp: act_enabled_def)
  from ginv_run_act [OF assms(1) ginv_start [OF assms(3) this] act(2) einv_clock [OF assms(3)]] act(1,3)
  show ?thesis by (simp add: ginv_def gabs_after)
next
  case (wait r t)
  then have "gabs s' = (gabs s)\<lparr>g_time := (g_time (gabs s))(r := t)\<rparr>" by (simp add: gabs_def)
  then show ?thesis using einv_time [OF assms(3), of r t] wait(2) by (simp add: gabs_def)
qed

lemma net_reach_einv: "net_reach C s \<Longrightarrow> config_ok C \<Longrightarrow> einv C (gabs s)"
  by (induction rule: net_reach.induct) (blast intro: einv_initial einv_step)+

lemma is_leader_now_end: "is_leader_now C s r \<longleftrightarrow> ns_time s r + cf_off C r < c_end (g_core (gabs s) r)"
proof
  let ?E = "(undefined :: el_env)\<lparr>mono := \<lambda>_. ns_time s r + cf_off C r\<rparr>"
  assume "ns_time s r + cf_off C r < c_end (g_core (gabs s) r)"
  then have "check_leader ?E 0 (ns_node s r)" by (simp add: check_leader_def gabs_def)
  then show "is_leader_now C s r" unfolding is_leader_now_def by (intro exI [of _ ?E]) simp
qed (auto simp: is_leader_now_def check_leader_def gabs_def)

lemma net_steps_msgs: "(net_step C)\<^sup>*\<^sup>* s s' \<Longrightarrow> ns_msgs s \<subseteq> ns_msgs s'"
  by (induction rule: rtranclp_induct) (auto simp: net_after_def elim!: net_step.cases)

lemma net_steps_reach: "(net_step C)\<^sup>*\<^sup>* s s' \<Longrightarrow> net_reach C s \<Longrightarrow> net_reach C s'"
  by (induction rule: rtranclp_induct) (blast intro: net_reach.step)+

text \<open>A leader's epoch is a ballot that it has won.\<close>

lemma leader_epoch_won:
  assumes "config_ok C" "net_reach C s" "mono E 0 = ns_time s r + cf_off C r" "get_role E (ns_node s r) = (LEADER, b)"
  shows "won C (ns_msgs s) r b (ns_time s r)"
proof -
  have I: "einv C (gabs s)" by (rule net_reach_einv [OF assms(2,1)])
  have "proposer_ok C (gabs s) r (core (ns_node s r))" using einv_proposer [OF I, of r] by (simp add: gabs_def)
  moreover have "0 < lle_lease (p_leader_lease_and_epoch (ns_node s r))" "b = lle_epoch (p_leader_lease_and_epoch (ns_node s r))"
    using assms(3,4) einv_clock [OF I, of r] by (auto simp: get_role_def check_leader_def split: if_splits)
  ultimately show ?thesis by (simp add: proposer_ok_def gabs_def)
qed

section \<open>Properties\<close>

text \<open>C1. At most one leader: in every state a cluster can reach, whatever the network loses, delays,
  duplicates or reorders, whatever the offsets of the clocks, and whatever calls of the interface and
  timer tasks run in between, no two replicas that have reached the same real time both hold the
  leader's lease.\<close>

theorem election_one_leader:
  assumes "config_ok C" "net_reach C s" "ns_time s p = ns_time s q" "is_leader_now C s p" "is_leader_now C s q"
  shows "p = q"
  using einv_one_leader [OF assms(1) net_reach_einv [OF assms(2,1)], of p "ns_time s q" q] assms(3-5)
  unfolding is_leader_now_end by (simp add: gabs_def)

theorem election_one_leader_witness:
  "\<exists>s. net_reach three s \<and> is_leader_now three s A1 \<and> \<not> is_leader_now three s A2"
proof -
  obtain s where s: "net_reach three s" "ns_time s A1 = ns_time s A2" "ns_time s A1 = 23000030"
    "lle_lease (p_leader_lease_and_epoch (ns_node s A1)) = 27000010"
    using three_leader by auto
  have "is_leader_now three s A1" unfolding is_leader_now_end using s(3,4) by (simp add: gabs_def three_def)
  moreover have "\<not> is_leader_now three s A2"
    using election_one_leader [OF three_ok s(1,2) \<open>is_leader_now three s A1\<close>] by auto
  ultimately show ?thesis using s(1) by blast
qed

text \<open>C2. An epoch belongs to one leader for ever: when \<^verbatim>\<open>get_role\<close> reports a replica as leader with an
  epoch, no other replica is ever reported as leader with this epoch, now or in any later state, even
  long after the first has lost its lease.\<close>

theorem election_epoch_identifies_leader:
  assumes "config_ok C" "net_reach C s" "(net_step C)\<^sup>*\<^sup>* s s'"
    and "mono E 0 = ns_time s p + cf_off C p" "get_role E (ns_node s p) = (LEADER, b)"
    and "mono E' 0 = ns_time s' q + cf_off C q" "get_role E' (ns_node s' q) = (LEADER, b)"
  shows "p = q"
proof -
  have r': "net_reach C s'" by (rule net_steps_reach [OF assms(3,2)])
  have "won C (ns_msgs s') p b (ns_time s p)"
    using leader_epoch_won [OF assms(1,2,4,5)] won_mono [OF net_steps_msgs [OF assms(3)] order_refl] by blast
  moreover have "votes_unique (ns_msgs s')" using net_reach_einv [OF r' assms(1)] by (simp add: einv_def gabs_def)
  ultimately show ?thesis using won_unique [OF assms(1)] leader_epoch_won [OF assms(1) r' assms(6,7)] by blast
qed

theorem election_epoch_identifies_leader_witness:
  "\<exists>s. net_reach three s \<and> get_role (run_env 23000030) (ns_node s A1) = (LEADER, 0)
     \<and> get_role (run_env 28000030) (ns_node s A2) \<noteq> (LEADER, 0)"
proof -
  obtain s where s: "net_reach three s" "ns_time s A1 = 23000030" "ns_time s A2 = 23000030"
    "lle_lease (p_leader_lease_and_epoch (ns_node s A1)) = 27000010" "lle_epoch (p_leader_lease_and_epoch (ns_node s A1)) = 0"
    using three_leader by auto
  have e: "mono (run_env 23000030) 0 = ns_time s A1 + cf_off three A1" "mono (run_env 28000030) 0 = ns_time s A2 + cf_off three A2"
    using s(2,3) by (simp_all add: run_env_def three_def)
  have l: "get_role (run_env 23000030) (ns_node s A1) = (LEADER, 0)"
    using s(4,5) by (simp add: get_role_def check_leader_def run_env_def)
  have "get_role (run_env 28000030) (ns_node s A2) \<noteq> (LEADER, 0)"
    using election_epoch_identifies_leader [OF three_ok s(1) rtranclp.rtrancl_refl e(1) l e(2)] by auto
  then show ?thesis using s(1) l by blast
qed

text \<open>C3. No activation aborts: in every reachable state, every message handler, timer task and call of
  the interface that can run returns; no assertion fails, no role is unexpected, the reader of the
  leader's lease finds a stable value, and no array is accessed outside its bounds.\<close>

theorem election_no_abort:
  assumes "config_ok C" "net_reach C s" "act_enabled C s r t0 t1 E a"
  shows "\<exists>e. run_act C E a ((ns_node s r)\<lparr>e_out := []\<rparr>) = Some e"
proof -
  have I: "einv C (gabs s)" by (rule net_reach_einv [OF assms(2,1)])
  have "ns_time s r \<le> t1" using assms(3) by (auto simp: act_enabled_def)
  from ginv_run_act [OF assms(1) ginv_start [OF I this] assms(3) einv_clock [OF I]] show ?thesis by blast
qed

theorem election_no_abort_witness:
  "\<exists>s e. net_reach three s \<and> run_act three (run_env 24000000) DevoteTask ((ns_node s A1)\<lparr>e_out := []\<rparr>) = Some e"
proof -
  obtain s where s: "net_reach three s" "ns_time s A1 = 23000030" using three_leader by auto
  have "act_enabled three s A1 24000000 24000000 (run_env 24000000) DevoteTask"
    using s(2) by (simp add: act_enabled_def run_env_def three_def addr_is_valid_def)
  from election_no_abort [OF three_ok s(1) this] show ?thesis using s(1) by blast
qed

text \<open>C30. The state of every replica stays well formed: the arrays of its member states have one cell
  for every replica and every position of the address list is inside them; the role is leader or
  follower; the ballot of the last successful prepare phase is not ahead of the ballot; the acceptor's
  lease is not ahead of the acceptor's ballot; and the sequence number of the leader's lease is odd, so
  that readers do not wait.\<close>

theorem election_states_well_formed:
  assumes "config_ok C" "net_reach C s"
  shows "mls_wf (p_memberlist_with_states (ns_node s r)) \<and> p_role (ns_node s r) \<in> {LEADER, FOLLOWER}
    \<and> p_prepare_success_ballot (ns_node s r) \<le> p_ballot_number (ns_node s r)
    \<and> l_ballot_number (a_lease (ns_node s r)) \<le> a_ballot_number (ns_node s r)
    \<and> lle_get (p_leader_lease_and_epoch (ns_node s r)) \<noteq> None \<and> e_self_addr (ns_node s r) = r"
proof -
  have I: "einv C (gabs s)" by (rule net_reach_einv [OF assms(2,1)])
  have "proposer_ok C (gabs s) r (core (ns_node s r))" "mls_ok C (gabs s) r (core (ns_node s r))"
    "acceptor_ok C (gabs s) r (core (ns_node s r))"
    using einv_proposer [OF I, of r] einv_mls [OF I, of r] einv_acceptor [OF I, of r] by (simp_all add: gabs_def)
  then show ?thesis by (auto simp: proposer_ok_def mls_ok_def acceptor_ok_def lle_get_def)
qed

theorem election_states_well_formed_witness:
  "\<exists>s. net_reach three s \<and> mls_wf (p_memberlist_with_states (ns_node s A1)) \<and> p_role (ns_node s A1) \<in> {LEADER, FOLLOWER}"
proof -
  obtain s where "net_reach three s" using three_leader by auto
  with election_states_well_formed [OF three_ok this, of A1] show ?thesis by auto
qed

end
