(* ===== verification/LeaseSeqLock.thy ===== *)
theory LeaseSeqLock
  imports ElectionRun
begin

text \<open>
  The sequence lock around the leader's lease and epoch, \<^verbatim>\<open>LeaderLeaseAndEpoch\<close> in
  \<^verbatim>\<open>election_proposer.h\<close>.  \<^verbatim>\<open>check_leader\<close> reads lease and epoch without the lock of the election,
  while a thread that holds the lock may be writing them.  Here the accesses to \<^verbatim>\<open>seq_\<close>, \<^verbatim>\<open>lease_\<close> and
  \<^verbatim>\<open>epoch_\<close> are single steps in program order (the barriers keep it), one writer and any number of
  readers interleave, and the atomic operations \<open>lle_get\<close>, \<open>lle_reset\<close> and
  \<open>lle_set_lease_and_epoch_if_lease_expired_or_just_set_lease\<close>, which the model of the election uses,
  are shown to be what the lock implements.
\<close>

section \<open>The writer\<close>

text \<open>Where the writer is, with its local variables: the arguments \<open>lease\<close> and \<open>epoch\<close>, the value
  \<open>old\<close> and the clock readings so far.\<close>

datatype lle_writer =
    WIdle
  | WSetBegun int int
  | WSetOld int int int
  | WSetValid int int int int  \<comment> \<open>first reading before the old lease's end\<close>
  | WSetChecked int int int int  \<comment> \<open>second reading done, first reading kept\<close>
  | WSetExpired int int int
  | WSetExpiredLease int int int
  | WSetDone int int int int
  | WResetBegun
  | WResetLease
  | WResetDone

text \<open>One access of the writer; \<open>clock\<close> is what \<^verbatim>\<open>get_monotonic_ts\<close> returns if the step reads it.\<close>

fun lle_write_step :: "int \<Rightarrow> lle_writer \<Rightarrow> LeaderLeaseAndEpoch \<Rightarrow> lle_writer \<times> LeaderLeaseAndEpoch" where
  "lle_write_step clock WIdle m = (WIdle, m)"
| "lle_write_step clock (WSetBegun lease epoch) m = (WSetOld lease epoch (lle_lease m), m)"
| "lle_write_step clock (WSetOld lease epoch old) m =
     (if clock < old then (WSetValid lease epoch old clock, m\<lparr>lle_lease := lease\<rparr>)
      else (WSetExpired lease epoch clock, m))"
| "lle_write_step clock (WSetValid lease epoch old c1) m =
     (if clock \<ge> old then (WSetChecked lease epoch c1 clock, m) else (WSetDone lease epoch c1 clock, m))"
| "lle_write_step clock (WSetChecked lease epoch c1 c2) m = (WSetDone lease epoch c1 c2, m\<lparr>lle_epoch := epoch\<rparr>)"
| "lle_write_step clock (WSetExpired lease epoch c1) m = (WSetExpiredLease lease epoch c1, m\<lparr>lle_lease := lease\<rparr>)"
| "lle_write_step clock (WSetExpiredLease lease epoch c1) m = (WSetDone lease epoch c1 c1, m\<lparr>lle_epoch := epoch\<rparr>)"
| "lle_write_step clock (WSetDone lease epoch c1 c2) m = (WIdle, m\<lparr>lle_seq := lle_seq m + 1\<rparr>)"
| "lle_write_step clock WResetBegun m = (WResetLease, m\<lparr>lle_lease := INVALID_VALUE\<rparr>)"
| "lle_write_step clock WResetLease m = (WResetDone, m\<lparr>lle_epoch := INVALID_VALUE\<rparr>)"
| "lle_write_step clock WResetDone m = (WIdle, m\<lparr>lle_seq := lle_seq m + 1\<rparr>)"

section \<open>The readers\<close>

datatype lle_reader =
    RIdle
  | RStart
  | RSeq int  \<comment> \<open>\<open>seq\<close> read and odd\<close>
  | RLease int int
  | RCheck int "(int \<times> int) option"  \<comment> \<open>\<open>None\<close>: \<open>seq\<close> was even and nothing was read\<close>
  | RDone int int

fun lle_read_step :: "lle_reader \<Rightarrow> LeaderLeaseAndEpoch \<Rightarrow> lle_reader" where
  "lle_read_step RIdle m = RIdle"
| "lle_read_step RStart m = (if lle_seq m mod 2 \<noteq> 0 then RSeq (lle_seq m) else RCheck (lle_seq m) None)"
| "lle_read_step (RSeq s) m = RLease s (lle_lease m)"
| "lle_read_step (RLease s l) m = RCheck s (Some (l, lle_epoch m))"
| "lle_read_step (RCheck s v) m =
     (case v of None \<Rightarrow> RStart | Some (l, e) \<Rightarrow> if s \<noteq> lle_seq m then RStart else RDone l e)"
| "lle_read_step (RDone l e) m = RDone l e"

section \<open>Interleavings\<close>

text \<open>\<open>sq_atomic\<close> is the object that the atomic operations act on: it changes when a writer's last step
  makes its write visible.\<close>

record sq_state =
  sq_mem :: LeaderLeaseAndEpoch
  sq_writer :: lle_writer
  sq_readers :: "nat \<Rightarrow> lle_reader"
  sq_atomic :: LeaderLeaseAndEpoch

definition clocks :: "el_env \<Rightarrow> int \<Rightarrow> int \<Rightarrow> el_env" where
  "clocks E c1 c2 = E\<lparr>mono := \<lambda>k. if k = 0 then c1 else c2\<rparr>"

fun atomic_effect :: "el_env \<Rightarrow> lle_writer \<Rightarrow> LeaderLeaseAndEpoch \<Rightarrow> LeaderLeaseAndEpoch" where
  "atomic_effect E (WSetDone lease epoch c1 c2) a =
     lle_set_lease_and_epoch_if_lease_expired_or_just_set_lease (clocks E c1 c2) 0 lease epoch a"
| "atomic_effect E WResetDone a = lle_reset a"
| "atomic_effect E w a = a"

inductive sq_step :: "el_env \<Rightarrow> sq_state \<Rightarrow> sq_state \<Rightarrow> bool" for E where
  begin_set: "sq_writer s = WIdle \<Longrightarrow>
    sq_step E s (s\<lparr>sq_mem := (sq_mem s)\<lparr>lle_seq := lle_seq (sq_mem s) + 1\<rparr>, sq_writer := WSetBegun lease epoch\<rparr>)"
| begin_reset: "sq_writer s = WIdle \<Longrightarrow>
    sq_step E s (s\<lparr>sq_mem := (sq_mem s)\<lparr>lle_seq := lle_seq (sq_mem s) + 1\<rparr>, sq_writer := WResetBegun\<rparr>)"
| writes_word: "sq_writer s \<noteq> WIdle \<Longrightarrow> lle_write_step clock (sq_writer s) (sq_mem s) = (w, m) \<Longrightarrow>
    sq_step E s (s\<lparr>sq_mem := m, sq_writer := w, sq_atomic := atomic_effect E (sq_writer s) (sq_atomic s)\<rparr>)"
| begin_get: "sq_readers s r \<in> {RIdle, RDone l e} \<Longrightarrow> sq_step E s (s\<lparr>sq_readers := (sq_readers s)(r := RStart)\<rparr>)"
| read: "sq_step E s (s\<lparr>sq_readers := (sq_readers s)(r := lle_read_step (sq_readers s r) (sq_mem s))\<rparr>)"

definition sq_initial :: "sq_state \<Rightarrow> bool" where
  "sq_initial s \<longleftrightarrow> sq_mem s = lle_new \<and> sq_atomic s = lle_new \<and> sq_writer s = WIdle \<and> (\<forall>r. sq_readers s r = RIdle)"

inductive sq_reach :: "el_env \<Rightarrow> sq_state \<Rightarrow> bool" for E where
  initial: "sq_initial s \<Longrightarrow> sq_reach E s"
| step: "sq_reach E s \<Longrightarrow> sq_step E s s' \<Longrightarrow> sq_reach E s'"

section \<open>Invariant\<close>

text \<open>What the memory holds while a write is under way, relative to the atomic object.\<close>

fun writer_ok :: "el_env \<Rightarrow> lle_writer \<Rightarrow> LeaderLeaseAndEpoch \<Rightarrow> LeaderLeaseAndEpoch \<Rightarrow> bool" where
  "writer_ok E WIdle m a \<longleftrightarrow> m = a"
| "writer_ok E (WSetBegun l e) m a \<longleftrightarrow> m = a\<lparr>lle_seq := lle_seq a + 1\<rparr>"
| "writer_ok E (WSetOld l e old) m a \<longleftrightarrow> m = a\<lparr>lle_seq := lle_seq a + 1\<rparr> \<and> old = lle_lease a"
| "writer_ok E (WSetValid l e old c1) m a \<longleftrightarrow> m = a\<lparr>lle_seq := lle_seq a + 1, lle_lease := l\<rparr> \<and> old = lle_lease a \<and> c1 < old"
| "writer_ok E (WSetChecked l e c1 c2) m a \<longleftrightarrow> m = a\<lparr>lle_seq := lle_seq a + 1, lle_lease := l\<rparr> \<and> c1 < lle_lease a \<and> lle_lease a \<le> c2"
| "writer_ok E (WSetExpired l e c1) m a \<longleftrightarrow> m = a\<lparr>lle_seq := lle_seq a + 1\<rparr> \<and> lle_lease a \<le> c1"
| "writer_ok E (WSetExpiredLease l e c1) m a \<longleftrightarrow> m = a\<lparr>lle_seq := lle_seq a + 1, lle_lease := l\<rparr> \<and> lle_lease a \<le> c1"
| "writer_ok E (WSetDone l e c1 c2) m a \<longleftrightarrow> lle_seq m = lle_seq a + 1 \<and>
     m\<lparr>lle_seq := lle_seq m + 1\<rparr> = lle_set_lease_and_epoch_if_lease_expired_or_just_set_lease (clocks E c1 c2) 0 l e a"
| "writer_ok E WResetBegun m a \<longleftrightarrow> m = a\<lparr>lle_seq := lle_seq a + 1\<rparr>"
| "writer_ok E WResetLease m a \<longleftrightarrow> m = a\<lparr>lle_seq := lle_seq a + 1, lle_lease := INVALID_VALUE\<rparr>"
| "writer_ok E WResetDone m a \<longleftrightarrow> m = a\<lparr>lle_seq := lle_seq a + 1, lle_lease := INVALID_VALUE, lle_epoch := INVALID_VALUE\<rparr>"

fun reader_ok :: "lle_reader \<Rightarrow> LeaderLeaseAndEpoch \<Rightarrow> bool" where
  "reader_ok (RSeq s) m \<longleftrightarrow> odd s \<and> s \<le> lle_seq m"
| "reader_ok (RLease s l) m \<longleftrightarrow> odd s \<and> s \<le> lle_seq m \<and> (s = lle_seq m \<longrightarrow> l = lle_lease m)"
| "reader_ok (RCheck s (Some (l, e))) m \<longleftrightarrow> odd s \<and> s \<le> lle_seq m \<and> (s = lle_seq m \<longrightarrow> l = lle_lease m \<and> e = lle_epoch m)"
| "reader_ok r m \<longleftrightarrow> True"

definition sq_inv :: "el_env \<Rightarrow> sq_state \<Rightarrow> bool" where
  "sq_inv E s \<longleftrightarrow> writer_ok E (sq_writer s) (sq_mem s) (sq_atomic s) \<and> odd (lle_seq (sq_atomic s))
     \<and> (\<forall>r. reader_ok (sq_readers s r) (sq_mem s))"

lemma writer_ok_seq: "writer_ok E w m a \<Longrightarrow> lle_seq m = (if w = WIdle then lle_seq a else lle_seq a + 1)"
  by (cases w) auto

lemma writer_ok_step:
  assumes "writer_ok E w m a" "w \<noteq> WIdle" "lle_write_step clock w m = (w', m')"
  shows "writer_ok E w' m' (atomic_effect E w a)"
  using assms
  by (cases w)
    (auto simp: lle_set_lease_and_epoch_if_lease_expired_or_just_set_lease_def lle_reset_def clocks_def Let_def split: if_splits)

lemma atomic_effect_odd: "odd (lle_seq a) \<Longrightarrow> odd (lle_seq (atomic_effect E w a))"
  by (cases w) (simp_all add: lle_set_lease_and_epoch_if_lease_expired_or_just_set_lease_def lle_reset_def Let_def)

lemma lle_write_step_seq: "lle_write_step clock w m = (w', m') \<Longrightarrow> lle_seq m \<le> lle_seq m'"
  by (cases w) (auto split: if_splits)

text \<open>A reader that saw an odd number is not disturbed by a memory with an even or a larger number.\<close>

lemma reader_ok_write:
  assumes "reader_ok r m" "lle_seq m \<le> lle_seq m'" "even (lle_seq m) \<or> lle_seq m < lle_seq m'"
  shows "reader_ok r m'"
  using assms by (cases "(r, m)" rule: reader_ok.cases) auto

lemma sq_inv_step:
  assumes "sq_step E s s'" "sq_inv E s"
  shows "sq_inv E s'"
  using assms(1)
proof cases
  case (begin_set lease epoch)
  then show ?thesis
    using assms(2) reader_ok_write [of _ "sq_mem s" "(sq_mem s)\<lparr>lle_seq := lle_seq (sq_mem s) + 1\<rparr>"] by (auto simp: sq_inv_def)
next
  case begin_reset
  then show ?thesis
    using assms(2) reader_ok_write [of _ "sq_mem s" "(sq_mem s)\<lparr>lle_seq := lle_seq (sq_mem s) + 1\<rparr>"] by (auto simp: sq_inv_def)
next
  case (writes_word clock w m)
  have "even (lle_seq (sq_mem s))" using assms(2) writes_word(2) writer_ok_seq by (auto simp: sq_inv_def)
  then have "reader_ok (sq_readers s r) m" for r
    using assms(2) reader_ok_write lle_write_step_seq [OF writes_word(3)] by (auto simp: sq_inv_def)
  then show ?thesis
    using assms(2) writes_word writer_ok_step atomic_effect_odd by (auto simp: sq_inv_def)
next
  case (begin_get r l e)
  then show ?thesis using assms(2) by (auto simp: sq_inv_def)
next
  case (read r)
  have "reader_ok (lle_read_step x m) m" if "reader_ok x m" for x m
    using that by (cases "(x, m)" rule: reader_ok.cases) auto
  then show ?thesis using assms(2) read by (auto simp: sq_inv_def)
qed

lemma sq_reach_inv: "sq_reach E s \<Longrightarrow> sq_inv E s"
proof (induction rule: sq_reach.induct)
  case (initial s)
  then show ?case by (simp add: sq_initial_def sq_inv_def lle_new_def INVALID_VALUE_def)
qed (rule sq_inv_step)

section \<open>A run\<close>

datatype sq_event = EvSet int int | EvReset | EvWrite int | EvGet nat | EvRead nat

fun sq_event_step :: "el_env \<Rightarrow> sq_event \<Rightarrow> sq_state \<Rightarrow> sq_state option" where
  "sq_event_step E (EvSet lease epoch) s =
     (if sq_writer s = WIdle
      then Some (s\<lparr>sq_mem := (sq_mem s)\<lparr>lle_seq := lle_seq (sq_mem s) + 1\<rparr>, sq_writer := WSetBegun lease epoch\<rparr>) else None)"
| "sq_event_step E EvReset s =
     (if sq_writer s = WIdle
      then Some (s\<lparr>sq_mem := (sq_mem s)\<lparr>lle_seq := lle_seq (sq_mem s) + 1\<rparr>, sq_writer := WResetBegun\<rparr>) else None)"
| "sq_event_step E (EvWrite clock) s =
     (if sq_writer s = WIdle then None
      else case lle_write_step clock (sq_writer s) (sq_mem s) of
             (w, m) \<Rightarrow> Some (s\<lparr>sq_mem := m, sq_writer := w, sq_atomic := atomic_effect E (sq_writer s) (sq_atomic s)\<rparr>))"
| "sq_event_step E (EvGet r) s =
     (if sq_readers s r = RIdle then Some (s\<lparr>sq_readers := (sq_readers s)(r := RStart)\<rparr>) else None)"
| "sq_event_step E (EvRead r) s = Some (s\<lparr>sq_readers := (sq_readers s)(r := lle_read_step (sq_readers s r) (sq_mem s))\<rparr>)"

fun sq_run :: "el_env \<Rightarrow> sq_event list \<Rightarrow> sq_state \<Rightarrow> sq_state option" where
  "sq_run E [] s = Some s"
| "sq_run E (x # xs) s = Option.bind (sq_event_step E x s) (sq_run E xs)"

lemma sq_event_step_step: "sq_event_step E x s = Some s' \<Longrightarrow> sq_step E s s'"
  by (cases x) (auto split: if_splits prod.splits intro: sq_step.intros)

lemma sq_run_reach: "sq_run E xs s = Some s' \<Longrightarrow> sq_reach E s \<Longrightarrow> sq_reach E s'"
proof (induction xs arbitrary: s)
  case (Cons x xs)
  then obtain s1 where s1: "sq_event_step E x s = Some s1" "sq_run E xs s1 = Some s'"
    by (cases "sq_event_step E x s") simp_all
  have "sq_reach E s1" by (rule sq_reach.step [OF Cons.prems(2) sq_event_step_step [OF s1(1)]])
  with s1(2) show ?case by (rule Cons.IH)
qed simp

text \<open>A reader that starts before a write of lease 100 and epoch 3 begins, reads the old lease, sees the
  number change and reads again.\<close>

definition sq_start :: sq_state where
  "sq_start = \<lparr>sq_mem = lle_new, sq_writer = WIdle, sq_readers = \<lambda>_. RIdle, sq_atomic = lle_new\<rparr>"

definition sq_events :: "sq_event list" where
  "sq_events = [EvGet 0, EvRead 0, EvRead 0, EvSet 100 3, EvWrite 5, EvWrite 5, EvWrite 5, EvRead 0, EvWrite 5, EvWrite 5,
     EvRead 0, EvRead 0, EvRead 0, EvRead 0]"

lemma sq_run_events:
  "\<exists>s. sq_run (run_env 0) sq_events sq_start = Some s \<and> sq_readers s 0 = RCheck 1 (Some (100, 3)) \<and> lle_seq (sq_mem s) = 1"
  by (simp add: sq_events_def sq_start_def lle_new_def INVALID_VALUE_def)

section \<open>Properties\<close>

text \<open>C11. The sequence lock makes reads and writes of the leader's lease and epoch atomic: when no write
  is under way the memory is the atomic object, on which every write acts in one step when it ends;
  and whenever the loop of \<^verbatim>\<open>get\<close> ends, the pair it returns is the one that the atomic object holds at
  that moment, never a new lease with an old epoch or the reverse.\<close>

theorem lease_seq_lock_atomic:
  assumes "sq_reach E s"
  shows "(sq_writer s = WIdle \<longrightarrow> sq_mem s = sq_atomic s)
    \<and> (lle_read_step (sq_readers s r) (sq_mem s) = RDone l e \<and> (\<nexists>l e. sq_readers s r = RDone l e)
       \<longrightarrow> lle_get (sq_atomic s) = Some (l, e))"
proof -
  note inv = sq_reach_inv [OF assms]
  have "lle_get (sq_atomic s) = Some (l, e)"
    if d: "lle_read_step (sq_readers s r) (sq_mem s) = RDone l e" "\<nexists>l e. sq_readers s r = RDone l e"
  proof -
    obtain q where q: "sq_readers s r = RCheck q (Some (l, e))" "q = lle_seq (sq_mem s)"
      using d by (cases "sq_readers s r") (auto split: if_splits option.splits)
    have "reader_ok (sq_readers s r) (sq_mem s)" using inv by (simp add: sq_inv_def)
    then have v: "odd (lle_seq (sq_mem s))" "l = lle_lease (sq_mem s)" "e = lle_epoch (sq_mem s)" using q by simp_all
    have "sq_writer s = WIdle" 
      using writer_ok_seq [of E "sq_writer s" "sq_mem s" "sq_atomic s"] inv v(1) by (auto simp: sq_inv_def split: if_splits)
    then have "sq_mem s = sq_atomic s" using inv by (simp add: sq_inv_def)
    then show ?thesis using v by (auto simp: lle_get_def odd_iff_mod_2_eq_one)
  qed
  then show ?thesis using inv by (auto simp: sq_inv_def)
qed

theorem lease_seq_lock_atomic_witness:
  "\<exists>s. sq_reach (run_env 0) s \<and> lle_get (sq_atomic s) = Some (100, 3)"
proof -
  obtain s where s: "sq_run (run_env 0) sq_events sq_start = Some s" "sq_readers s 0 = RCheck 1 (Some (100, 3))"
    "lle_seq (sq_mem s) = 1" using sq_run_events by blast
  have r: "sq_reach (run_env 0) s"
    by (rule sq_run_reach [OF s(1)]) (rule sq_reach.initial, simp add: sq_initial_def sq_start_def)
  with lease_seq_lock_atomic [OF r, of 0 100 3] s(2,3) show ?thesis by auto
qed

end
