(* ===== verification/MemberLists.thy ===== *)
theory MemberLists
  imports NetAddr
begin

text \<open>
  Members and member lists: \<^verbatim>\<open>common/ob_member.h\<close>, \<^verbatim>\<open>common/ob_member_list.ipp\<close> at its only capacity
  \<^verbatim>\<open>OB_MAX_MEMBER_NUMBER\<close>, and \<^verbatim>\<open>palf/log_simple_member_list.cpp\<close>.  A list is an array of seven cells with
  the number of cells in use; the loops over the cells are recursions and folds on the array.  An access
  outside the array does not happen as long as the number in use is at most seven, which the invariants
  \<open>mlb_wf\<close> and \<open>sml_wf\<close> state and every operation keeps.

  The locale \<open>server_list\<close> is what the users of both classes rely on: a duplicate-free list of servers
  with insertion, removal and lookup.
\<close>

section \<open>Members\<close>

definition OB_INVALID_TIMESTAMP :: int where "OB_INVALID_TIMESTAMP = -1"
definition OB_MAX_MEMBER_NUMBER :: nat where "OB_MAX_MEMBER_NUMBER = 7"

record ObMember =
  m_server :: ObAddr
  m_timestamp :: int
  m_flag :: u64

definition member_new :: ObMember where
  "member_new = \<lparr>m_server = addr_new, m_timestamp = OB_INVALID_TIMESTAMP, m_flag = 0\<rparr>"

definition member_of :: "ObAddr \<Rightarrow> int \<Rightarrow> ObMember" where
  "member_of server timestamp = \<lparr>m_server = server, m_timestamp = timestamp, m_flag = 0\<rparr>"

definition member_reset :: "ObMember \<Rightarrow> ObMember" where
  "member_reset m = \<lparr>m_server = addr_reset (m_server m), m_timestamp = OB_INVALID_TIMESTAMP, m_flag = 0\<rparr>"

definition member_is_valid :: "ObMember \<Rightarrow> bool" where
  "member_is_valid m = addr_is_valid (m_server m)"

definition member_lt :: "ObMember \<Rightarrow> ObMember \<Rightarrow> bool" where
  "member_lt a b = (m_server a < m_server b)"

definition member_is_migrating :: "ObMember \<Rightarrow> bool" where
  "member_is_migrating m \<longleftrightarrow> drop_bit 1 (m_flag m) AND 1 \<noteq> 0"

definition member_set_migrating :: "ObMember \<Rightarrow> ObMember" where
  "member_set_migrating m = m\<lparr>m_flag := m_flag m OR push_bit 1 1\<rparr>"

definition member_reset_migrating :: "ObMember \<Rightarrow> ObMember" where
  "member_reset_migrating m = m\<lparr>m_flag := m_flag m AND NOT (push_bit 1 1)\<rparr>"

definition member_is_columnstore :: "ObMember \<Rightarrow> bool" where
  "member_is_columnstore m \<longleftrightarrow> drop_bit 0 (m_flag m) AND 1 \<noteq> 0"

definition member_set_columnstore :: "ObMember \<Rightarrow> ObMember" where
  "member_set_columnstore m = m\<lparr>m_flag := m_flag m OR push_bit 0 1\<rparr>"

definition member_reset_columnstore :: "ObMember \<Rightarrow> ObMember" where
  "member_reset_columnstore m = m\<lparr>m_flag := m_flag m AND NOT (push_bit 0 1)\<rparr>"

section \<open>Loops over an array\<close>

text \<open>The first cell in use that satisfies a test.\<close>

fun first_index :: "('a \<Rightarrow> bool) \<Rightarrow> nat \<Rightarrow> 'a list \<Rightarrow> nat option" where
  "first_index f i [] = None"
| "first_index f i (x # xs) = (if f x then Some i else first_index f (i + 1) xs)"

text \<open>\<^verbatim>\<open>for (i = n; i > dst; --i) a[i] = a[i - 1]\<close> and \<^verbatim>\<open>for (i = index; i < n - 1; ++i) a[i] = a[i + 1]\<close>.\<close>

definition shift_up :: "nat \<Rightarrow> nat \<Rightarrow> 'a list \<Rightarrow> 'a list" where
  "shift_up n dst a = fold (\<lambda>i a. a[i := a ! (i - 1)]) (rev [dst + 1..<n + 1]) a"

definition shift_down :: "nat \<Rightarrow> nat \<Rightarrow> 'a list \<Rightarrow> 'a list" where
  "shift_down n index a = fold (\<lambda>i a. a[i := a ! (i + 1)]) [index..<n - 1] a"

lemma first_index_Some:
  "first_index f k xs = Some i \<longleftrightarrow> k \<le> i \<and> i < k + length xs \<and> f (xs ! (i - k)) \<and> (\<forall>j < i - k. \<not> f (xs ! j))"
proof (induction xs arbitrary: k)
  case (Cons x xs)
  show ?case
  proof (cases "f x")
    case True
    then show ?thesis by (cases "i = k") (auto intro!: exI [of _ 0])
  next
    case False
    then have "first_index f k (x # xs) = first_index f (k + 1) xs" by simp
    also have "\<dots> = Some i \<longleftrightarrow> k + 1 \<le> i \<and> i < k + 1 + length xs \<and> f (xs ! (i - (k + 1))) \<and> (\<forall>j < i - (k + 1). \<not> f (xs ! j))"
      by (rule Cons.IH)
    also have "\<dots> \<longleftrightarrow> k \<le> i \<and> i < k + length (x # xs) \<and> f ((x # xs) ! (i - k)) \<and> (\<forall>j < i - k. \<not> f ((x # xs) ! j))"
      (is "?l \<longleftrightarrow> ?r")
    proof (cases "i \<le> k")
      case True
      then show ?thesis using False by auto
    next
      case gt: False
      then obtain d where d: "i = Suc (k + d)" using less_imp_Suc_add [of k i] by auto
      have "(\<forall>j < Suc d. \<not> f ((x # xs) ! j)) \<longleftrightarrow> (\<forall>j < d. \<not> f (xs ! j))"
        using False by (auto simp: less_Suc_eq_0_disj)
      then show ?thesis using d by simp
    qed
    finally show ?thesis .
  qed
qed simp

lemma first_index_None: "first_index f k xs = None \<longleftrightarrow> (\<forall>x \<in> set xs. \<not> f x)"
  by (induction xs arbitrary: k) auto

lemma length_shift_up [simp]: "length (shift_up n dst a) = length a"
proof -
  have "length (fold (\<lambda>i a. a[i := a ! (i - 1)]) is a) = length a" for "is"
    by (induction "is" arbitrary: a) simp_all
  then show ?thesis by (simp add: shift_up_def)
qed

lemma length_shift_down [simp]: "length (shift_down n k a) = length a"
proof -
  have "length (fold (\<lambda>i a. a[i := a ! (i + 1)]) is a) = length a" for "is"
    by (induction "is" arbitrary: a) simp_all
  then show ?thesis by (simp add: shift_down_def)
qed

lemma nth_shift_up:
  assumes "n < length a" "j < length a"
  shows "shift_up n dst a ! j = (if dst < j \<and> j \<le> n then a ! (j - 1) else a ! j)"
  using assms
proof (induction "n - dst" arbitrary: n a)
  case 0
  then show ?case by (auto simp: shift_up_def)
next
  case (Suc d)
  then have lt: "dst < n" by simp
  then obtain n' where n': "n = Suc n'" "dst \<le> n'" by (cases n) auto
  have e: "rev [dst + 1..<n + 1] = n # rev [dst + 1..<n' + 1]" using n' by simp
  have "shift_up n dst a = shift_up n' dst (a[n := a ! (n - 1)])"
    unfolding shift_up_def e by simp
  moreover have "shift_up n' dst (a[n := a ! (n - 1)]) ! j
      = (if dst < j \<and> j \<le> n' then a[n := a ! (n - 1)] ! (j - 1) else a[n := a ! (n - 1)] ! j)"
    using Suc.prems Suc.hyps(2) n' by (intro Suc.hyps(1)) auto
  ultimately show ?case using n' Suc.prems by (auto simp: nth_list_update)
qed

lemma nth_shift_down:
  assumes "n \<le> length a" "j < length a"
  shows "shift_down n k a ! j = (if k \<le> j \<and> j < n - 1 then a ! (j + 1) else a ! j)"
  using assms
proof (induction "n - 1 - k" arbitrary: k a)
  case 0
  then show ?case by (auto simp: shift_down_def)
next
  case (Suc d)
  then have lt: "k < n - 1" by simp
  have "shift_down n k a = shift_down n (k + 1) (a[k := a ! (k + 1)])"
    using lt by (simp add: shift_down_def upt_conv_Cons)
  moreover have "shift_down n (k + 1) (a[k := a ! (k + 1)]) ! j
      = (if k + 1 \<le> j \<and> j < n - 1 then a[k := a ! (k + 1)] ! (j + 1) else a[k := a ! (k + 1)] ! j)"
    using Suc.prems Suc.hyps(2) by (intro Suc.hyps(1)) auto
  ultimately show ?case using lt Suc.prems by (auto simp: nth_list_update)
qed

lemma insert_at_cells:
  assumes "n < length a" "dst \<le> n"
  shows "take (n + 1) ((shift_up n dst a)[dst := x]) = take dst (take n a) @ x # drop dst (take n a)"
proof (rule nth_equalityI)
  fix j assume j: "j < length (take (n + 1) ((shift_up n dst a)[dst := x]))"
  show "take (n + 1) ((shift_up n dst a)[dst := x]) ! j = (take dst (take n a) @ x # drop dst (take n a)) ! j"
  proof (cases "j \<le> dst")
    case True
    then show ?thesis using assms j by (auto simp: nth_shift_up nth_append nth_list_update)
  next
    case False
    then obtain d where "j = Suc (dst + d)" using less_imp_Suc_add [of dst j] by auto
    then show ?thesis using assms j by (auto simp: nth_shift_up nth_append nth_list_update)
  qed
qed (use assms in auto)

lemma remove_at_cells:
  assumes "n \<le> length a" "k < n"
  shows "take (n - 1) ((shift_down n k a)[n - 1 := x]) = take k (take n a) @ drop (k + 1) (take n a)"
proof (rule nth_equalityI)
  fix j assume "j < length (take (n - 1) ((shift_down n k a)[n - 1 := x]))"
  then show "take (n - 1) ((shift_down n k a)[n - 1 := x]) ! j = (take k (take n a) @ drop (k + 1) (take n a)) ! j"
    using assms by (auto simp: nth_shift_down nth_append nth_list_update)
qed (use assms in auto)

section \<open>Member lists\<close>

record ObMemberList =
  mlb_number :: nat
  mlb_cells :: "ObMember list"

definition mlb_new :: ObMemberList where
  "mlb_new = \<lparr>mlb_number = 0, mlb_cells = replicate OB_MAX_MEMBER_NUMBER member_new\<rparr>"

definition mlb_reset :: "ObMemberList \<Rightarrow> ObMemberList" where
  "mlb_reset l = \<lparr>mlb_number = 0, mlb_cells = map member_reset (mlb_cells l)\<rparr>"

definition mlb_members :: "ObMemberList \<Rightarrow> ObMember list" where
  "mlb_members l = take (mlb_number l) (mlb_cells l)"

definition mlb_is_valid :: "ObMemberList \<Rightarrow> bool" where
  "mlb_is_valid l \<longleftrightarrow> mlb_number l > 0"

text \<open>The loop of \<^verbatim>\<open>add_member\<close>: \<open>None\<close> when the server is present, otherwise the cell for the member,
  with \<open>n\<close> for ``no larger member yet''.\<close>

fun add_member_loop :: "ObMember \<Rightarrow> nat \<Rightarrow> nat \<Rightarrow> nat \<Rightarrow> ObMember list \<Rightarrow> nat option" where
  "add_member_loop member n i dst_idx [] = Some dst_idx"
| "add_member_loop member n i dst_idx (x # xs) =
     (if m_server x = m_server member then None
      else if n = dst_idx \<and> member_lt member x then add_member_loop member n (i + 1) i xs
      else add_member_loop member n (i + 1) dst_idx xs)"

definition mlb_add_member :: "ObMember \<Rightarrow> ObMemberList \<Rightarrow> ob_ret \<times> ObMemberList" where
  "mlb_add_member member l =
     (let n = mlb_number l
      in if \<not> member_is_valid member then (OB_INVALID_ARGUMENT, l)
         else if n \<ge> OB_MAX_MEMBER_NUMBER then (OB_SIZE_OVERFLOW, l)
         else case add_member_loop member n 0 n (mlb_members l) of
                None \<Rightarrow> (OB_ENTRY_EXIST, l)
              | Some dst_idx \<Rightarrow>
                  (let cells = (if dst_idx < n then shift_up n dst_idx (mlb_cells l) else mlb_cells l)
                   in (OB_SUCCESS, \<lparr>mlb_number = n + 1, mlb_cells = cells[dst_idx := member]\<rparr>)))"

definition mlb_add_server :: "ObAddr \<Rightarrow> ObMemberList \<Rightarrow> ob_ret \<times> ObMemberList" where
  "mlb_add_server server l = mlb_add_member (member_of server OB_INVALID_TIMESTAMP) l"

definition mlb_remove_at :: "nat \<Rightarrow> ObMemberList \<Rightarrow> ObMemberList" where
  "mlb_remove_at index l =
     (let n = mlb_number l; cells = shift_down n index (mlb_cells l)
      in \<lparr>mlb_number = n - 1, mlb_cells = cells[n - 1 := member_reset (cells ! (n - 1))]\<rparr>)"

text \<open>The loop of \<^verbatim>\<open>remove_member\<close> ends at the member or at its server with other data.\<close>

fun remove_member_loop :: "ObMember \<Rightarrow> nat \<Rightarrow> ObMember list \<Rightarrow> ob_ret + nat" where
  "remove_member_loop member i [] = Inl OB_ENTRY_NOT_EXIST"
| "remove_member_loop member i (x # xs) =
     (if x = member then Inr i
      else if m_server x = m_server member then Inl OB_ITEM_NOT_MATCH
      else remove_member_loop member (i + 1) xs)"

definition mlb_remove_member :: "ObMember \<Rightarrow> ObMemberList \<Rightarrow> ob_ret \<times> ObMemberList" where
  "mlb_remove_member member l =
     (if \<not> member_is_valid member then (OB_INVALID_ARGUMENT, l)
      else if mlb_number l \<le> 0 then (OB_ENTRY_NOT_EXIST, l)
      else case remove_member_loop member 0 (mlb_members l) of
             Inl ret \<Rightarrow> (ret, l)
           | Inr index \<Rightarrow> (OB_SUCCESS, mlb_remove_at index l))"

definition mlb_remove_server :: "ObAddr \<Rightarrow> ObMemberList \<Rightarrow> ob_ret \<times> ObMemberList" where
  "mlb_remove_server server l =
     (if \<not> addr_is_valid server then (OB_INVALID_ARGUMENT, l)
      else if mlb_number l \<le> 0 then (OB_ENTRY_NOT_EXIST, l)
      else case first_index (\<lambda>m. m_server m = server) 0 (mlb_members l) of
             None \<Rightarrow> (OB_ENTRY_NOT_EXIST, l)
           | Some index \<Rightarrow> (OB_SUCCESS, mlb_remove_at index l))"

definition mlb_get_member_number :: "ObMemberList \<Rightarrow> nat" where
  "mlb_get_member_number l = mlb_number l"

definition mlb_is_empty :: "ObMemberList \<Rightarrow> bool" where
  "mlb_is_empty l \<longleftrightarrow> 0 = mlb_number l"

definition mlb_get_member_by_index :: "int \<Rightarrow> ObMemberList \<Rightarrow> ob_ret + ObMember" where
  "mlb_get_member_by_index index l =
     (if index < 0 \<or> index \<ge> int (mlb_number l) then Inl OB_SIZE_OVERFLOW else Inr (mlb_cells l ! nat index))"

definition mlb_get_server_by_index :: "int \<Rightarrow> ObMemberList \<Rightarrow> ob_ret + ObAddr" where
  "mlb_get_server_by_index index l =
     (if index < 0 \<or> index \<ge> int (mlb_number l) then Inl OB_SIZE_OVERFLOW else Inr (m_server (mlb_cells l ! nat index)))"

definition mlb_get_member_by_addr :: "ObAddr \<Rightarrow> ObMemberList \<Rightarrow> ob_ret + ObMember" where
  "mlb_get_member_by_addr server l =
     (if \<not> addr_is_valid server then Inl OB_INVALID_ARGUMENT
      else case first_index (\<lambda>m. m_server m = server) 0 (mlb_members l) of
             None \<Rightarrow> Inl OB_ENTRY_NOT_EXIST
           | Some i \<Rightarrow> Inr (mlb_cells l ! i))"

text \<open>The result of \<^verbatim>\<open>get_addr_array\<close> when the array can grow.\<close>

definition mlb_get_addr_array :: "ObMemberList \<Rightarrow> ObAddr list" where
  "mlb_get_addr_array l = map m_server (mlb_members l)"

definition mlb_contains :: "ObAddr \<Rightarrow> ObMemberList \<Rightarrow> bool" where
  "mlb_contains server l = (first_index (\<lambda>m. m_server m = server) 0 (mlb_members l) \<noteq> None)"

definition mlb_contains_member :: "ObMember \<Rightarrow> ObMemberList \<Rightarrow> bool" where
  "mlb_contains_member member l = (first_index (\<lambda>m. m = member) 0 (mlb_members l) \<noteq> None)"

definition mlb_deep_copy :: "ObMemberList \<Rightarrow> ObMemberList \<Rightarrow> ObMemberList" where
  "mlb_deep_copy member_list l =
     (let n = mlb_number member_list
      in \<lparr>mlb_number = n,
          mlb_cells = fold (\<lambda>i cells. cells[i := mlb_cells member_list ! i]) [0..<n] (mlb_cells (mlb_reset l))\<rparr>)"

definition mlb_member_addr_equal :: "ObMemberList \<Rightarrow> ObMemberList \<Rightarrow> bool" where
  "mlb_member_addr_equal member_list l =
     (if mlb_number l \<noteq> mlb_get_member_number member_list then False
      else \<forall>m \<in> set (mlb_members l). mlb_contains (m_server m) member_list)"

definition mlb_truncate :: "int \<Rightarrow> ObMemberList \<Rightarrow> ob_ret \<times> ObMemberList" where
  "mlb_truncate count l =
     (if count \<le> 0 then (OB_INVALID_ARGUMENT, l)
      else if int (mlb_number l) \<le> count then (OB_SUCCESS, l)
      else (OB_SUCCESS, \<lparr>mlb_number = nat count,
              mlb_cells = fold (\<lambda>i cells. cells[i := member_reset (cells ! i)]) [nat count..<mlb_number l] (mlb_cells l)\<rparr>))"

section \<open>Simple member lists\<close>

record LogSimpleMemberList =
  sml_count :: nat
  sml_cells :: "ObAddr list"

definition sml_reset :: "LogSimpleMemberList \<Rightarrow> LogSimpleMemberList" where
  "sml_reset l = \<lparr>sml_count = 0, sml_cells = map addr_reset (sml_cells l)\<rparr>"

definition sml_new :: LogSimpleMemberList where
  "sml_new = sml_reset \<lparr>sml_count = 0, sml_cells = replicate OB_MAX_MEMBER_NUMBER addr_new\<rparr>"

definition sml_servers :: "LogSimpleMemberList \<Rightarrow> ObAddr list" where
  "sml_servers l = take (sml_count l) (sml_cells l)"

definition sml_contains :: "ObAddr \<Rightarrow> LogSimpleMemberList \<Rightarrow> bool" where
  "sml_contains server l = (first_index (\<lambda>x. x = server) 0 (sml_servers l) \<noteq> None)"

definition sml_add_server :: "ObAddr \<Rightarrow> LogSimpleMemberList \<Rightarrow> ob_ret \<times> LogSimpleMemberList" where
  "sml_add_server server l =
     (let found = fold (\<lambda>x found. if x = server then True else found) (sml_servers l) False
      in if \<not> found then
           (if sml_count l \<ge> OB_MAX_MEMBER_NUMBER then (OB_ERROR_OUT_OF_RANGE, l)
            else (OB_SUCCESS, \<lparr>sml_count = sml_count l + 1, sml_cells = (sml_cells l)[sml_count l := server]\<rparr>))
         else (OB_SUCCESS, l))"

definition sml_remove_server :: "ObAddr \<Rightarrow> LogSimpleMemberList \<Rightarrow> ob_ret \<times> LogSimpleMemberList" where
  "sml_remove_server server l =
     (if \<not> addr_is_valid server then (OB_INVALID_ARGUMENT, l)
      else if sml_count l \<le> 0 then (OB_ENTRY_NOT_EXIST, l)
      else case first_index (\<lambda>x. x = server) 0 (sml_servers l) of
             None \<Rightarrow> (OB_ENTRY_NOT_EXIST, l)
           | Some index \<Rightarrow>
               (let n = sml_count l; cells = shift_down n index (sml_cells l)
                in (OB_SUCCESS, \<lparr>sml_count = n - 1, sml_cells = cells[n - 1 := addr_reset (cells ! (n - 1))]\<rparr>)))"

text \<open>The two copies go through the other class's \<^verbatim>\<open>add_server\<close>, one server after the other until one fails.\<close>

fun sml_copy_loop :: "ObMemberList \<Rightarrow> int list \<Rightarrow> LogSimpleMemberList \<Rightarrow> ob_ret \<times> LogSimpleMemberList" where
  "sml_copy_loop member_list [] l = (OB_SUCCESS, l)"
| "sml_copy_loop member_list (i # is) l =
     (case mlb_get_server_by_index i member_list of
        Inl ret \<Rightarrow> (ret, l)
      | Inr server \<Rightarrow>
          (case sml_add_server server l of
             (ret, l) \<Rightarrow> if ret \<noteq> OB_SUCCESS then (ret, l) else sml_copy_loop member_list is l))"

definition sml_deep_copy :: "ObMemberList \<Rightarrow> LogSimpleMemberList \<Rightarrow> ob_ret \<times> LogSimpleMemberList" where
  "sml_deep_copy member_list l =
     (case sml_copy_loop member_list [0..int (mlb_get_member_number member_list) - 1] (sml_reset l) of
        (ret, l) \<Rightarrow>
          if ret = OB_SUCCESS \<and> sml_count l \<noteq> mlb_get_member_number member_list then (OB_ERR_UNEXPECTED, l) else (ret, l))"

fun sml_copy_to_loop :: "ObAddr list \<Rightarrow> ObMemberList \<Rightarrow> ob_ret \<times> ObMemberList" where
  "sml_copy_to_loop [] member_list = (OB_SUCCESS, member_list)"
| "sml_copy_to_loop (server # servers) member_list =
     (case mlb_add_server server member_list of
        (ret, member_list) \<Rightarrow> if ret \<noteq> OB_SUCCESS then (ret, member_list) else sml_copy_to_loop servers member_list)"

definition sml_deep_copy_to :: "LogSimpleMemberList \<Rightarrow> ObMemberList \<Rightarrow> ob_ret \<times> ObMemberList" where
  "sml_deep_copy_to l member_list =
     (case sml_copy_to_loop (sml_servers l) (mlb_reset member_list) of
        (ret, member_list) \<Rightarrow>
          if ret = OB_SUCCESS \<and> sml_count l \<noteq> mlb_get_member_number member_list then (OB_ERR_UNEXPECTED, member_list)
          else (ret, member_list))"

section \<open>Invariants\<close>

definition mlb_wf :: "ObMemberList \<Rightarrow> bool" where
  "mlb_wf l \<longleftrightarrow> length (mlb_cells l) = OB_MAX_MEMBER_NUMBER \<and> mlb_number l \<le> OB_MAX_MEMBER_NUMBER
     \<and> sorted_wrt (<) (map m_server (mlb_members l)) \<and> (\<forall>m \<in> set (mlb_members l). member_is_valid m)"

definition sml_wf :: "LogSimpleMemberList \<Rightarrow> bool" where
  "sml_wf l \<longleftrightarrow> length (sml_cells l) = OB_MAX_MEMBER_NUMBER \<and> sml_count l \<le> OB_MAX_MEMBER_NUMBER \<and> distinct (sml_servers l)"

lemma mlb_wf_length: "mlb_wf l \<Longrightarrow> length (mlb_members l) = mlb_number l"
  by (simp add: mlb_wf_def mlb_members_def)

lemma sml_wf_length: "sml_wf l \<Longrightarrow> length (sml_servers l) = sml_count l"
  by (simp add: sml_wf_def sml_servers_def)

lemma mlb_wf_distinct: "mlb_wf l \<Longrightarrow> distinct (map m_server (mlb_members l))"
  by (simp add: mlb_wf_def strict_sorted_iff)

lemma add_member_loop_None: "add_member_loop m n i dst xs = None \<longleftrightarrow> m_server m \<in> m_server ` set xs"
  by (induction xs arbitrary: i dst) auto

lemma add_member_loop_found: "dst \<noteq> n \<Longrightarrow> m_server m \<notin> m_server ` set xs \<Longrightarrow> add_member_loop m n i dst xs = Some dst"
  by (induction xs arbitrary: i) auto

lemma add_member_loop_Some:
  "i + length xs = n \<Longrightarrow> m_server m \<notin> m_server ` set xs
   \<Longrightarrow> add_member_loop m n i n xs = Some (i + length (takeWhile (\<lambda>x. \<not> member_lt m x) xs))"
  by (induction xs arbitrary: i) (auto simp: add_member_loop_found)

lemma insert_sorted:
  assumes "sorted_wrt (<) (map m_server xs)" "m_server m \<notin> m_server ` set xs"
  shows "sorted_wrt (<) (map m_server (takeWhile (\<lambda>x. \<not> member_lt m x) xs @ m # dropWhile (\<lambda>x. \<not> member_lt m x) xs))"
  using assms
proof (induction xs)
  case (Cons x xs)
  then show ?case by (auto simp: member_lt_def dest: set_takeWhileD dest!: set_dropWhileD)
qed simp

lemma mlb_add_member_SUCCESS:
  assumes "mlb_wf l" "mlb_add_member m l = (OB_SUCCESS, l')"
  shows "mlb_wf l' \<and> m_server m \<notin> m_server ` set (mlb_members l)
    \<and> mlb_members l' = takeWhile (\<lambda>x. \<not> member_lt m x) (mlb_members l) @ m # dropWhile (\<lambda>x. \<not> member_lt m x) (mlb_members l)"
proof -
  define xs where "xs = mlb_members l"
  define n where "n = mlb_number l"
  define k where "k = length (takeWhile (\<lambda>x. \<not> member_lt m x) xs)"
  have "add_member_loop m n 0 n xs \<noteq> None"
    using assms(2) by (auto simp: mlb_add_member_def Let_def xs_def n_def split: if_splits option.splits)
  then have v: "member_is_valid m" "n < OB_MAX_MEMBER_NUMBER" "m_server m \<notin> m_server ` set xs"
    using assms(2) by (auto simp only: add_member_loop_None mlb_add_member_def Let_def n_def split: if_splits)
  have len: "length xs = n" "length (mlb_cells l) = OB_MAX_MEMBER_NUMBER"
    using assms(1) mlb_wf_length by (auto simp: xs_def n_def mlb_wf_def)
  have k: "k \<le> n" using len(1) by (simp add: k_def length_takeWhile_le flip: len(1))
  have loop: "add_member_loop m n 0 n xs = Some k"
    using add_member_loop_Some [of 0 xs n m] len(1) v(3) by (simp add: k_def)
  have l': "l' = \<lparr>mlb_number = n + 1, mlb_cells = (shift_up n k (mlb_cells l))[k := m]\<rparr>"
    using assms(2) loop v k
    by (cases "k = n") (auto simp: mlb_add_member_def Let_def xs_def n_def shift_up_def split: if_splits)
  have "mlb_members l' = take (n + 1) ((shift_up n k (mlb_cells l))[k := m])" by (simp add: mlb_members_def l')
  also have "\<dots> = take k xs @ m # drop k xs"
    unfolding xs_def mlb_members_def n_def [symmetric] using len(2) v(2) k by (intro insert_at_cells) simp_all
  finally have "mlb_members l' = take k xs @ m # drop k xs" .
  then have mem: "mlb_members l' = takeWhile (\<lambda>x. \<not> member_lt m x) xs @ m # dropWhile (\<lambda>x. \<not> member_lt m x) xs"
    by (simp add: k_def flip: dropWhile_eq_drop takeWhile_eq_take)
  have "sorted_wrt (<) (map m_server (mlb_members l'))"
    unfolding mem by (rule insert_sorted) (use assms(1) v(3) in \<open>auto simp: mlb_wf_def xs_def\<close>)
  moreover have "\<forall>x \<in> set (mlb_members l'). member_is_valid x"
    using assms(1) v(1) by (auto simp: mem mlb_wf_def xs_def dest: set_takeWhileD set_dropWhileD)
  ultimately have "mlb_wf l'" using len v(2) by (simp add: mlb_wf_def l')
  then show ?thesis using mem v(3) by (simp add: xs_def)
qed

lemma mlb_remove_at:
  assumes "mlb_wf l" "k < mlb_number l"
  shows "mlb_wf (mlb_remove_at k l) \<and> mlb_members (mlb_remove_at k l) = take k (mlb_members l) @ drop (k + 1) (mlb_members l)"
proof -
  have mem: "mlb_members (mlb_remove_at k l) = take k (mlb_members l) @ drop (k + 1) (mlb_members l)"
    unfolding mlb_remove_at_def mlb_members_def Let_def ObMemberList.simps
    by (rule remove_at_cells) (use assms in \<open>simp_all add: mlb_wf_def\<close>)
  have "mlb_members l = take k (mlb_members l) @ mlb_members l ! k # drop (k + 1) (mlb_members l)"
    using assms mlb_wf_length by (metis Suc_eq_plus1 id_take_nth_drop)
  then have "sorted_wrt (<) (map m_server (take k (mlb_members l) @ mlb_members l ! k # drop (k + 1) (mlb_members l)))"
    using assms(1) by (simp add: mlb_wf_def)
  then have "sorted_wrt (<) (map m_server (mlb_members (mlb_remove_at k l)))"
    by (auto simp: mem sorted_wrt_append)
  then show ?thesis
    using assms mem by (auto simp: mlb_wf_def mlb_remove_at_def Let_def dest: in_set_takeD in_set_dropD)
qed

section \<open>What users of a list of servers rely on\<close>

text \<open>Adding servers one after the other stops at the first failure.\<close>

fun add_servers :: "(ObAddr \<Rightarrow> 'l \<Rightarrow> ob_ret \<times> 'l) \<Rightarrow> ObAddr list \<Rightarrow> 'l \<Rightarrow> ob_ret \<times> 'l" where
  "add_servers add [] l = (OB_SUCCESS, l)"
| "add_servers add (s # ss) l = (case add s l of (ret, l) \<Rightarrow> if ret \<noteq> OB_SUCCESS then (ret, l) else add_servers add ss l)"

locale server_list =
  fixes servers :: "'l \<Rightarrow> ObAddr list"
    and wf :: "'l \<Rightarrow> bool"
    and add :: "ObAddr \<Rightarrow> 'l \<Rightarrow> ob_ret \<times> 'l"
    and remove :: "ObAddr \<Rightarrow> 'l \<Rightarrow> ob_ret \<times> 'l"
    and has :: "ObAddr \<Rightarrow> 'l \<Rightarrow> bool"
  assumes wf_servers: "wf l \<Longrightarrow> distinct (servers l) \<and> length (servers l) \<le> OB_MAX_MEMBER_NUMBER"
    and add_success: "wf l \<Longrightarrow> add s l = (OB_SUCCESS, l') \<Longrightarrow> wf l' \<and> set (servers l') = insert s (set (servers l))"
    and add_failure: "wf l \<Longrightarrow> add s l = (ret, l') \<Longrightarrow> ret \<noteq> OB_SUCCESS \<Longrightarrow> l' = l"
    and add_room: "wf l \<Longrightarrow> addr_is_valid s \<Longrightarrow> s \<notin> set (servers l) \<Longrightarrow> length (servers l) < OB_MAX_MEMBER_NUMBER
      \<Longrightarrow> fst (add s l) = OB_SUCCESS"
    and remove_success: "wf l \<Longrightarrow> remove s l = (OB_SUCCESS, l') \<Longrightarrow> wf l' \<and> s \<in> set (servers l) \<and> set (servers l') = set (servers l) - {s}"
    and remove_failure: "wf l \<Longrightarrow> remove s l = (ret, l') \<Longrightarrow> ret \<noteq> OB_SUCCESS \<Longrightarrow> l' = l"
    and remove_present: "wf l \<Longrightarrow> addr_is_valid s \<Longrightarrow> s \<in> set (servers l) \<Longrightarrow> fst (remove s l) = OB_SUCCESS"
    and has_iff: "wf l \<Longrightarrow> has s l \<longleftrightarrow> s \<in> set (servers l)"
begin

lemma length_servers: "wf l \<Longrightarrow> length (servers l) = card (set (servers l))"
  using wf_servers distinct_card by fastforce

lemma add_new_length:
  assumes "wf l" "add s l = (OB_SUCCESS, l')" "s \<notin> set (servers l)"
  shows "length (servers l') = length (servers l) + 1"
  using add_success [OF assms(1,2)] assms(1,3) by (simp add: length_servers)

lemma remove_length:
  assumes "wf l" "remove s l = (OB_SUCCESS, l')"
  shows "length (servers l') = length (servers l) - 1"
  using remove_success [OF assms] assms(1) by (simp add: length_servers)

lemma add_servers_success:
  assumes "wf l" "distinct ss" "\<forall>s \<in> set ss. addr_is_valid s \<and> s \<notin> set (servers l)"
    "length (servers l) + length ss \<le> OB_MAX_MEMBER_NUMBER"
  obtains l' where "add_servers add ss l = (OB_SUCCESS, l')" "wf l'" "set (servers l') = set (servers l) \<union> set ss"
    "length (servers l') = length (servers l) + length ss"
  using assms
proof (induction ss arbitrary: l thesis)
  case (Cons s ss)
  have "fst (add s l) = OB_SUCCESS" by (rule add_room) (use Cons.prems in auto)
  then obtain l1 where l1: "add s l = (OB_SUCCESS, l1)" by (cases "add s l") auto
  have w1: "wf l1" "set (servers l1) = insert s (set (servers l))" using add_success [OF Cons.prems(2) l1] by auto
  have n1: "length (servers l1) = length (servers l) + 1" by (rule add_new_length [OF Cons.prems(2) l1]) (use Cons.prems in simp)
  obtain l2 where l2: "add_servers add ss l1 = (OB_SUCCESS, l2)" "wf l2" "set (servers l2) = set (servers l1) \<union> set ss"
    "length (servers l2) = length (servers l1) + length ss"
    by (rule Cons.IH [OF _ w1(1)]) (use Cons.prems w1(2) n1 in auto)
  show thesis by (rule Cons.prems(1) [of l2]) (use l1 l2 w1 n1 in auto)
qed auto

end

lemma set_remove_nth:
  assumes "distinct xs" "k < length xs"
  shows "set (take k xs @ drop (k + 1) xs) = set xs - {xs ! k}" "distinct (take k xs @ drop (k + 1) xs)"
proof -
  have e: "xs = take k xs @ xs ! k # drop (k + 1) xs" using assms(2) by (metis Suc_eq_plus1 id_take_nth_drop)
  then have d: "distinct (take k xs @ xs ! k # drop (k + 1) xs)" using assms(1) by simp
  then show "distinct (take k xs @ drop (k + 1) xs)" by auto
  have "set xs = set (take k xs @ xs ! k # drop (k + 1) xs)" using e by simp
  then show "set (take k xs @ drop (k + 1) xs) = set xs - {xs ! k}" using d by auto
qed

lemma mlb_remove_server_SUCCESS:
  assumes "mlb_wf l" "mlb_remove_server s l = (OB_SUCCESS, l')"
  shows "mlb_wf l' \<and> s \<in> m_server ` set (mlb_members l)
    \<and> set (mlb_members l') = {m \<in> set (mlb_members l). m_server m \<noteq> s}"
proof -
  obtain k where k: "first_index (\<lambda>m. m_server m = s) 0 (mlb_members l) = Some k" "l' = mlb_remove_at k l"
    using assms(2) by (auto simp: mlb_remove_server_def split: if_splits option.splits)
  have i: "k < mlb_number l" "m_server (mlb_members l ! k) = s"
    using k(1) mlb_wf_length [OF assms(1)] by (auto simp: first_index_Some)
  note r = mlb_remove_at [OF assms(1) i(1)]
  have d: "distinct (mlb_members l)" "inj_on m_server (set (mlb_members l))"
    using mlb_wf_distinct [OF assms(1)] by (auto simp: distinct_map)
  have "mlb_members l ! k \<in> set (mlb_members l)" using i(1) mlb_wf_length [OF assms(1)] by simp
  moreover have "set (mlb_members l') = set (mlb_members l) - {mlb_members l ! k}"
    using set_remove_nth(1) [OF d(1)] i(1) r k(2) mlb_wf_length [OF assms(1)] by simp
  ultimately show ?thesis using r k(2) i(2) d(2) by (auto simp: inj_on_def)
qed

lemma mlb_servers_set: "set (mlb_get_addr_array l) = m_server ` set (mlb_members l)"
  by (simp add: mlb_get_addr_array_def)

interpretation mlb: server_list mlb_get_addr_array mlb_wf mlb_add_server mlb_remove_server mlb_contains
proof
  fix l l' :: ObMemberList and s ret
  assume w: "mlb_wf l"
  show "distinct (mlb_get_addr_array l) \<and> length (mlb_get_addr_array l) \<le> OB_MAX_MEMBER_NUMBER"
    using mlb_wf_distinct [OF w] mlb_wf_length [OF w] w by (simp add: mlb_get_addr_array_def mlb_wf_def)
  show "mlb_wf l' \<and> set (mlb_get_addr_array l') = insert s (set (mlb_get_addr_array l))"
    if "mlb_add_server s l = (OB_SUCCESS, l')"
  proof -
    let ?m = "member_of s OB_INVALID_TIMESTAMP" and ?P = "\<lambda>x. \<not> member_lt (member_of s OB_INVALID_TIMESTAMP) x"
    have a: "mlb_wf l'" "mlb_members l' = takeWhile ?P (mlb_members l) @ ?m # dropWhile ?P (mlb_members l)"
      using mlb_add_member_SUCCESS [OF w] that by (auto simp: mlb_add_server_def)
    have "set (mlb_members l') = insert ?m (set (takeWhile ?P (mlb_members l) @ dropWhile ?P (mlb_members l)))"
      using a(2) by (simp only: set_append set_simps Un_insert_right)
    then show ?thesis using a(1) by (simp add: mlb_servers_set member_of_def)
  qed
  show "l' = l" if "mlb_add_server s l = (ret, l')" "ret \<noteq> OB_SUCCESS"
    using that by (auto simp: mlb_add_server_def mlb_add_member_def Let_def split: if_splits option.splits)
  show "fst (mlb_add_server s l) = OB_SUCCESS"
    if "addr_is_valid s" "s \<notin> set (mlb_get_addr_array l)" "length (mlb_get_addr_array l) < OB_MAX_MEMBER_NUMBER"
    using that mlb_wf_length [OF w]
    by (auto simp: mlb_add_server_def mlb_add_member_def Let_def mlb_get_addr_array_def member_is_valid_def member_of_def
        add_member_loop_None split: option.splits)
  show "mlb_wf l' \<and> s \<in> set (mlb_get_addr_array l) \<and> set (mlb_get_addr_array l') = set (mlb_get_addr_array l) - {s}"
    if "mlb_remove_server s l = (OB_SUCCESS, l')"
    using mlb_remove_server_SUCCESS [OF w that] by (auto simp: mlb_servers_set)
  show "l' = l" if "mlb_remove_server s l = (ret, l')" "ret \<noteq> OB_SUCCESS"
    using that by (auto simp: mlb_remove_server_def split: if_splits option.splits)
  show "fst (mlb_remove_server s l) = OB_SUCCESS" if "addr_is_valid s" "s \<in> set (mlb_get_addr_array l)"
  proof -
    have "first_index (\<lambda>m. m_server m = s) 0 (mlb_members l) \<noteq> None" "mlb_members l \<noteq> []"
      using that(2) by (auto simp: first_index_None mlb_servers_set)
    moreover have "0 < mlb_number l" using \<open>mlb_members l \<noteq> []\<close> mlb_wf_length [OF w] by (metis length_greater_0_conv)
    ultimately show ?thesis using that(1) by (auto simp: mlb_remove_server_def)
  qed
  show "mlb_contains s l \<longleftrightarrow> s \<in> set (mlb_get_addr_array l)"
    by (auto simp: mlb_contains_def first_index_None mlb_servers_set simp del: not_None_eq)
qed

lemma fold_found: "fold (\<lambda>x found. if x = s then True else found) xs b \<longleftrightarrow> b \<or> s \<in> set xs"
  by (induction xs arbitrary: b) auto

lemma sml_add_server_new:
  assumes "sml_wf l" "s \<notin> set (sml_servers l)" "sml_count l < OB_MAX_MEMBER_NUMBER"
  shows "sml_add_server s l = (OB_SUCCESS, \<lparr>sml_count = sml_count l + 1, sml_cells = (sml_cells l)[sml_count l := s]\<rparr>)"
    and "sml_servers \<lparr>sml_count = sml_count l + 1, sml_cells = (sml_cells l)[sml_count l := s]\<rparr> = sml_servers l @ [s]"
    and "sml_wf \<lparr>sml_count = sml_count l + 1, sml_cells = (sml_cells l)[sml_count l := s]\<rparr>"
proof -
  show "sml_add_server s l = (OB_SUCCESS, \<lparr>sml_count = sml_count l + 1, sml_cells = (sml_cells l)[sml_count l := s]\<rparr>)"
    using assms by (simp add: sml_add_server_def fold_found)
  show m: "sml_servers \<lparr>sml_count = sml_count l + 1, sml_cells = (sml_cells l)[sml_count l := s]\<rparr> = sml_servers l @ [s]"
    using assms(1,3) by (simp add: sml_servers_def sml_wf_def take_Suc_conv_app_nth)
  show "sml_wf \<lparr>sml_count = sml_count l + 1, sml_cells = (sml_cells l)[sml_count l := s]\<rparr>"
    unfolding sml_wf_def m using assms by (simp add: sml_wf_def)
qed

interpretation sml: server_list sml_servers sml_wf sml_add_server sml_remove_server sml_contains
proof
  fix l l' :: LogSimpleMemberList and s ret
  assume w: "sml_wf l"
  show "distinct (sml_servers l) \<and> length (sml_servers l) \<le> OB_MAX_MEMBER_NUMBER"
    using sml_wf_length [OF w] w by (simp add: sml_wf_def)
  show "sml_wf l' \<and> set (sml_servers l') = insert s (set (sml_servers l))" if a: "sml_add_server s l = (OB_SUCCESS, l')"
  proof (cases "s \<in> set (sml_servers l)")
    case True
    then show ?thesis using a w by (auto simp: sml_add_server_def fold_found)
  next
    case False
    then have "sml_count l < OB_MAX_MEMBER_NUMBER" using a by (auto simp: sml_add_server_def fold_found split: if_splits)
    then show ?thesis using sml_add_server_new [OF w False] a by auto
  qed
  show "l' = l" if "sml_add_server s l = (ret, l')" "ret \<noteq> OB_SUCCESS"
    using that by (auto simp: sml_add_server_def Let_def split: if_splits)
  show "fst (sml_add_server s l) = OB_SUCCESS"
    if "addr_is_valid s" "s \<notin> set (sml_servers l)" "length (sml_servers l) < OB_MAX_MEMBER_NUMBER"
    using that sml_add_server_new(1) [OF w] sml_wf_length [OF w] by simp
  show "sml_wf l' \<and> s \<in> set (sml_servers l) \<and> set (sml_servers l') = set (sml_servers l) - {s}"
    if r: "sml_remove_server s l = (OB_SUCCESS, l')"
  proof -
    obtain k where k: "first_index (\<lambda>x. x = s) 0 (sml_servers l) = Some k"
      using r by (auto simp: sml_remove_server_def split: if_splits option.splits)
    have i: "k < sml_count l" "sml_servers l ! k = s" using k sml_wf_length [OF w] by (auto simp: first_index_Some)
    define c where "c = (shift_down (sml_count l) k (sml_cells l))[sml_count l - 1 := addr_reset (shift_down (sml_count l) k (sml_cells l) ! (sml_count l - 1))]"
    have l': "l' = \<lparr>sml_count = sml_count l - 1, sml_cells = c\<rparr>"
      using r k by (simp add: sml_remove_server_def Let_def c_def split: if_splits)
    have "sml_servers l' = take k (sml_servers l) @ drop (k + 1) (sml_servers l)"
      unfolding sml_servers_def l' LogSimpleMemberList.simps c_def
      by (rule remove_at_cells) (use w i in \<open>simp_all add: sml_wf_def\<close>)
    then show ?thesis
      using set_remove_nth [of "sml_servers l" k] w i sml_wf_length [OF w] by (auto simp: sml_wf_def l' c_def)
  qed
  show "l' = l" if "sml_remove_server s l = (ret, l')" "ret \<noteq> OB_SUCCESS"
    using that by (auto simp: sml_remove_server_def Let_def split: if_splits option.splits)
  show "fst (sml_remove_server s l) = OB_SUCCESS" if "addr_is_valid s" "s \<in> set (sml_servers l)"
  proof -
    have "first_index (\<lambda>x. x = s) 0 (sml_servers l) \<noteq> None" "sml_servers l \<noteq> []"
      using that(2) by (auto simp: first_index_None)
    moreover have "0 < sml_count l" using \<open>sml_servers l \<noteq> []\<close> sml_wf_length [OF w] by (metis length_greater_0_conv)
    ultimately show ?thesis using that(1) by (auto simp: sml_remove_server_def Let_def)
  qed
  show "sml_contains s l \<longleftrightarrow> s \<in> set (sml_servers l)"
    by (auto simp: sml_contains_def first_index_None simp del: not_None_eq)
qed

section \<open>Copies\<close>

lemma sml_copy_to_loop_eq: "sml_copy_to_loop ss ml = add_servers mlb_add_server ss ml"
  by (induction ss arbitrary: ml) (auto split: prod.splits)

lemma mlb_reset_wf: "length (mlb_cells l) = OB_MAX_MEMBER_NUMBER \<Longrightarrow> mlb_wf (mlb_reset l) \<and> mlb_members (mlb_reset l) = []"
  by (simp add: mlb_wf_def mlb_reset_def mlb_members_def)

lemma sml_reset_wf: "length (sml_cells l) = OB_MAX_MEMBER_NUMBER \<Longrightarrow> sml_wf (sml_reset l) \<and> sml_servers (sml_reset l) = []"
  by (simp add: sml_wf_def sml_reset_def sml_servers_def)

lemma mlb_get_server_by_index_nth:
  assumes "mlb_wf ml" "i < mlb_number ml"
  shows "mlb_get_server_by_index (int i) ml = Inr (mlb_get_addr_array ml ! i)"
  using assms by (simp add: mlb_get_server_by_index_def mlb_get_addr_array_def mlb_members_def mlb_wf_def)

lemma sml_copy_loop_servers:
  assumes "mlb_wf ml" "sml_wf l" "i \<le> mlb_number ml" "sml_servers l = take i (mlb_get_addr_array ml)"
  shows "\<exists>l'. sml_copy_loop ml [int i..int (mlb_number ml) - 1] l = (OB_SUCCESS, l') \<and> sml_wf l'
    \<and> sml_servers l' = mlb_get_addr_array ml"
  using assms(2-4)
proof (induction "mlb_number ml - i" arbitrary: i l)
  case 0
  then have "i = mlb_number ml" by simp
  then show ?case using 0 mlb_wf_length [OF assms(1)] by (simp add: mlb_get_addr_array_def)
next
  case (Suc d)
  let ?ss = "mlb_get_addr_array ml"
  let ?l1 = "\<lparr>sml_count = sml_count l + 1, sml_cells = (sml_cells l)[sml_count l := ?ss ! i]\<rparr>"
  have lt: "i < mlb_number ml" using Suc.hyps(2) by simp
  have len: "length ?ss = mlb_number ml" using mlb_wf_length [OF assms(1)] by (simp add: mlb_get_addr_array_def)
  have u: "[int i..int (mlb_number ml) - 1] = int i # [int (i + 1)..int (mlb_number ml) - 1]"
    using lt by (simp add: upto_rec1 add.commute)
  have n: "?ss ! i \<notin> set (sml_servers l)"
    using Suc.prems(3) mlb.wf_servers [OF assms(1)] len lt by (auto simp: in_set_conv_nth distinct_conv_nth)
  have c: "sml_count l = i" using Suc.prems(1,3) len lt sml_wf_length by fastforce
  then have c7: "sml_count l < OB_MAX_MEMBER_NUMBER" using lt assms(1) by (simp add: mlb_wf_def)
  note a = sml_add_server_new [OF Suc.prems(1) n c7]
  have "\<exists>l'. sml_copy_loop ml [int (i + 1)..int (mlb_number ml) - 1] ?l1 = (OB_SUCCESS, l') \<and> sml_wf l' \<and> sml_servers l' = ?ss"
    by (rule Suc.hyps(1)) (use Suc.hyps(2) Suc.prems(3) a(2,3) lt len in \<open>simp_all add: take_Suc_conv_app_nth\<close>)
  then show ?case unfolding u by (simp add: mlb_get_server_by_index_nth [OF assms(1) lt] a(1))
qed

section \<open>Properties\<close>

text \<open>A member list as a set of members: a partial function from servers to members with at most seven
  entries.\<close>

definition mlb_abs :: "ObMemberList \<Rightarrow> ObAddr \<Rightarrow> ObMember option" where
  "mlb_abs l = map_of (map (\<lambda>m. (m_server m, m)) (mlb_members l))"

definition spec_add_member :: "ObMember \<Rightarrow> (ObAddr \<Rightarrow> ObMember option) \<Rightarrow> ob_ret \<times> (ObAddr \<Rightarrow> ObMember option)" where
  "spec_add_member m A =
     (if \<not> addr_is_valid (m_server m) then (OB_INVALID_ARGUMENT, A)
      else if card (dom A) \<ge> 7 then (OB_SIZE_OVERFLOW, A)
      else if m_server m \<in> dom A then (OB_ENTRY_EXIST, A)
      else (OB_SUCCESS, A(m_server m := Some m)))"

definition spec_remove_member :: "ObMember \<Rightarrow> (ObAddr \<Rightarrow> ObMember option) \<Rightarrow> ob_ret \<times> (ObAddr \<Rightarrow> ObMember option)" where
  "spec_remove_member m A =
     (if \<not> addr_is_valid (m_server m) then (OB_INVALID_ARGUMENT, A)
      else case A (m_server m) of
             None \<Rightarrow> (OB_ENTRY_NOT_EXIST, A)
           | Some m' \<Rightarrow> if m' = m then (OB_SUCCESS, A(m_server m := None)) else (OB_ITEM_NOT_MATCH, A))"

definition spec_remove_server :: "ObAddr \<Rightarrow> (ObAddr \<Rightarrow> ObMember option) \<Rightarrow> ob_ret \<times> (ObAddr \<Rightarrow> ObMember option)" where
  "spec_remove_server s A =
     (if \<not> addr_is_valid s then (OB_INVALID_ARGUMENT, A)
      else if A s = None then (OB_ENTRY_NOT_EXIST, A)
      else (OB_SUCCESS, A(s := None)))"

definition abs_result :: "ob_ret \<times> ObMemberList \<Rightarrow> ob_ret \<times> (ObAddr \<Rightarrow> ObMember option)" where
  "abs_result r = (fst r, mlb_abs (snd r))"

lemma mlb_abs_Some: "mlb_wf l \<Longrightarrow> mlb_abs l s = Some m \<longleftrightarrow> m \<in> set (mlb_members l) \<and> m_server m = s"
  using mlb_wf_distinct [of l] unfolding mlb_abs_def
  by (subst map_of_eq_Some_iff) (auto simp: comp_def)

lemma mlb_abs_None: "mlb_abs l s = None \<longleftrightarrow> s \<notin> m_server ` set (mlb_members l)"
  by (force simp: mlb_abs_def map_of_eq_None_iff)

lemma mlb_abs_dom: "dom (mlb_abs l) = m_server ` set (mlb_members l)"
  unfolding dom_def by (simp add: mlb_abs_None flip: not_None_eq)

lemma mlb_abs_card: "mlb_wf l \<Longrightarrow> card (dom (mlb_abs l)) = mlb_number l"
  using mlb.length_servers [of l] mlb_wf_length [of l] by (simp add: mlb_abs_dom mlb_get_addr_array_def)

lemma mlb_servers_card: "mlb_wf l \<Longrightarrow> card (m_server ` set (mlb_members l)) = mlb_number l"
  using mlb_abs_card by (simp add: mlb_abs_dom)

lemma mlb_abs_eqI:
  assumes "mlb_wf l" "\<And>s m. A s = Some m \<longleftrightarrow> m \<in> set (mlb_members l) \<and> m_server m = s"
  shows "mlb_abs l = A"
proof
  fix s
  show "mlb_abs l s = A s"
    using mlb_abs_Some [OF assms(1), of s] assms(2) [of s] by (metis not_None_eq)
qed

lemma mlb_members_ne: "mlb_wf l \<Longrightarrow> mlb_number l = 0 \<longleftrightarrow> mlb_members l = []"
  using mlb_wf_length [of l] by auto

lemma mlb_add_member_refines:
  assumes "mlb_wf l"
  shows "mlb_wf (snd (mlb_add_member m l)) \<and> abs_result (mlb_add_member m l) = spec_add_member m (mlb_abs l)"
proof (cases "fst (mlb_add_member m l) = OB_SUCCESS")
  case True
  let ?P = "\<lambda>x. \<not> member_lt m x"
  obtain l' where l': "mlb_add_member m l = (OB_SUCCESS, l')" using True by (cases "mlb_add_member m l") auto
  have a: "mlb_wf l'" "m_server m \<notin> m_server ` set (mlb_members l)"
    "mlb_members l' = takeWhile ?P (mlb_members l) @ m # dropWhile ?P (mlb_members l)"
    using mlb_add_member_SUCCESS [OF assms l'] by auto
  have "set (mlb_members l') = insert m (set (takeWhile ?P (mlb_members l) @ dropWhile ?P (mlb_members l)))"
    using a(3) by (simp only: set_append set_simps Un_insert_right)
  moreover have "m_server x \<noteq> m_server m" if "x \<in> set (mlb_members l)" for x using a(2) that by (metis imageI)
  ultimately have "mlb_abs l' = (mlb_abs l)(m_server m := Some m)"
    by (intro mlb_abs_eqI [OF a(1)]) (auto simp: mlb_abs_Some [OF assms])
  moreover have "addr_is_valid (m_server m)" "mlb_number l < 7"
    using l' by (auto simp: mlb_add_member_def Let_def member_is_valid_def OB_MAX_MEMBER_NUMBER_def split: if_splits)
  ultimately show ?thesis
    using l' a(1,2) by (simp add: abs_result_def spec_add_member_def mlb_abs_dom mlb_servers_card [OF assms])
next
  case False
  then show ?thesis
    using assms
    by (auto simp: mlb_add_member_def Let_def member_is_valid_def OB_MAX_MEMBER_NUMBER_def abs_result_def spec_add_member_def
        mlb_abs_dom mlb_servers_card [OF assms] add_member_loop_None split: if_splits option.splits)
qed

lemma remove_member_loop_Inr:
  "remove_member_loop m k xs = Inr i \<Longrightarrow> first_index (\<lambda>x. m_server x = m_server m) k xs = Some i \<and> xs ! (i - k) = m"
proof (induction xs arbitrary: k)
  case (Cons x xs)
  show ?case
  proof (cases "m_server x = m_server m")
    case False
    then have r: "remove_member_loop m (k + 1) xs = Inr i" using Cons.prems by (auto split: if_splits)
    then have "i \<ge> k + 1" using Cons.IH [OF r] by (simp add: first_index_Some)
    then have "i - k = Suc (i - (k + 1))" by simp
    then show ?thesis using Cons.IH [OF r] False by simp
  qed (use Cons.prems in \<open>auto split: if_splits\<close>)
qed simp

lemma remove_member_loop_Inl:
  "remove_member_loop m k xs = Inl ret \<Longrightarrow>
     ret = OB_ENTRY_NOT_EXIST \<and> m_server m \<notin> m_server ` set xs
     \<or> ret = OB_ITEM_NOT_MATCH \<and> (\<exists>x \<in> set xs. m_server x = m_server m \<and> x \<noteq> m)"
  by (induction xs arbitrary: k) (auto split: if_splits)

lemma mlb_remove_server_refines:
  assumes "mlb_wf l"
  shows "mlb_wf (snd (mlb_remove_server s l)) \<and> abs_result (mlb_remove_server s l) = spec_remove_server s (mlb_abs l)"
proof (cases "fst (mlb_remove_server s l) = OB_SUCCESS")
  case True
  then obtain l' where l': "mlb_remove_server s l = (OB_SUCCESS, l')" by (cases "mlb_remove_server s l") auto
  note r = mlb_remove_server_SUCCESS [OF assms l']
  then have "mlb_abs l' = (mlb_abs l)(s := None)"
    by (intro mlb_abs_eqI) (auto simp: mlb_abs_Some [OF assms])
  moreover have "addr_is_valid s" using l' by (auto simp: mlb_remove_server_def split: if_splits)
  ultimately show ?thesis using l' r by (simp add: abs_result_def spec_remove_server_def mlb_abs_None)
next
  case False
  then show ?thesis
    using assms mlb_members_ne [OF assms]
    by (auto simp: mlb_remove_server_def abs_result_def spec_remove_server_def mlb_abs_None first_index_None
        split: if_splits option.splits)
qed

lemma mlb_remove_member_server:
  assumes "remove_member_loop m 0 (mlb_members l) = Inr i" "member_is_valid m" "mlb_number l > 0"
  shows "mlb_remove_member m l = mlb_remove_server (m_server m) l"
  using assms remove_member_loop_Inr [OF assms(1)]
  by (simp add: mlb_remove_member_def mlb_remove_server_def member_is_valid_def)

lemma mlb_remove_member_refines:
  assumes "mlb_wf l"
  shows "mlb_wf (snd (mlb_remove_member m l)) \<and> abs_result (mlb_remove_member m l) = spec_remove_member m (mlb_abs l)"
proof (cases "remove_member_loop m 0 (mlb_members l)")
  case (Inr i)
  have f: "first_index (\<lambda>x. m_server x = m_server m) 0 (mlb_members l) = Some i" "mlb_members l ! i = m"
    using remove_member_loop_Inr [OF Inr] by auto
  then have "m \<in> set (mlb_members l)" by (auto simp: first_index_Some)
  then have m: "mlb_abs l (m_server m) = Some m" "member_is_valid m" "mlb_number l > 0"
    using assms mlb_members_ne [OF assms] by (auto simp: mlb_abs_Some mlb_wf_def)
  have "mlb_remove_member m l = mlb_remove_server (m_server m) l" by (rule mlb_remove_member_server [OF Inr m(2,3)])
  moreover have "spec_remove_member m (mlb_abs l) = spec_remove_server (m_server m) (mlb_abs l)"
    using m(1) by (simp add: spec_remove_member_def spec_remove_server_def)
  ultimately show ?thesis using mlb_remove_server_refines [OF assms] by simp
next
  case (Inl ret)
  have "(\<exists>x \<in> set (mlb_members l). m_server x = m_server m \<and> x \<noteq> m) \<Longrightarrow> \<exists>x. mlb_abs l (m_server m) = Some x \<and> x \<noteq> m"
    using mlb_abs_Some [OF assms] by auto
  moreover have "m_server m \<notin> m_server ` set (mlb_members l) \<Longrightarrow> mlb_abs l (m_server m) = None" by (simp add: mlb_abs_None)
  ultimately show ?thesis
    using remove_member_loop_Inl [OF Inl] Inl assms mlb_members_ne [OF assms]
    by (fastforce simp: mlb_remove_member_def abs_result_def spec_remove_member_def member_is_valid_def)
qed

text \<open>A simple member list as a set of servers.\<close>

definition spec_sml_add :: "ObAddr \<Rightarrow> ObAddr set \<Rightarrow> ob_ret \<times> ObAddr set" where
  "spec_sml_add s A =
     (if s \<in> A then (OB_SUCCESS, A) else if card A \<ge> 7 then (OB_ERROR_OUT_OF_RANGE, A) else (OB_SUCCESS, insert s A))"

definition spec_sml_remove :: "ObAddr \<Rightarrow> ObAddr set \<Rightarrow> ob_ret \<times> ObAddr set" where
  "spec_sml_remove s A =
     (if \<not> addr_is_valid s then (OB_INVALID_ARGUMENT, A)
      else if s \<notin> A then (OB_ENTRY_NOT_EXIST, A)
      else (OB_SUCCESS, A - {s}))"

definition sml_abs_result :: "ob_ret \<times> LogSimpleMemberList \<Rightarrow> ob_ret \<times> ObAddr set" where
  "sml_abs_result r = (fst r, set (sml_servers (snd r)))"

lemma sml_add_server_refines:
  assumes "sml_wf l"
  shows "sml_wf (snd (sml_add_server s l))
    \<and> sml_abs_result (sml_add_server s l) = spec_sml_add s (set (sml_servers l))"
proof -
  have n: "card (set (sml_servers l)) = sml_count l"
    using sml.length_servers [OF assms] sml_wf_length [OF assms] by simp
  consider "s \<in> set (sml_servers l)" | "s \<notin> set (sml_servers l)" "sml_count l \<ge> OB_MAX_MEMBER_NUMBER"
    | "s \<notin> set (sml_servers l)" "sml_count l < OB_MAX_MEMBER_NUMBER" by linarith
  then show ?thesis
    by cases (use assms n sml_add_server_new [OF assms, of s] in
      \<open>auto simp: sml_abs_result_def spec_sml_add_def sml_add_server_def fold_found OB_MAX_MEMBER_NUMBER_def\<close>)
qed

lemma sml_remove_server_refines:
  assumes "sml_wf l"
  shows "sml_wf (snd (sml_remove_server s l))
    \<and> sml_abs_result (sml_remove_server s l) = spec_sml_remove s (set (sml_servers l))"
proof -
  obtain ret l' where r: "sml_remove_server s l = (ret, l')" by (cases "sml_remove_server s l")
  show ?thesis
  proof (cases "addr_is_valid s \<and> s \<in> set (sml_servers l)")
    case True
    then have "ret = OB_SUCCESS" using sml.remove_present [OF assms, of s] r by simp
    then show ?thesis using sml.remove_success [OF assms, of s l'] r True by (simp add: sml_abs_result_def spec_sml_remove_def)
  next
    case False
    then have "sml_remove_server s l = (if addr_is_valid s then OB_ENTRY_NOT_EXIST else OB_INVALID_ARGUMENT, l)"
      using first_index_None [of "\<lambda>x. x = s" 0 "sml_servers l"] by (auto simp: sml_remove_server_def)
    with False assms show ?thesis by (auto simp: sml_abs_result_def spec_sml_remove_def)
  qed
qed

text \<open>C35. Both list classes implement sets of at most seven servers.  Starting from a well-formed
  \<^verbatim>\<open>ObMemberList\<close> (sorted by address, without duplicates), \<^verbatim>\<open>add_member\<close>, \<^verbatim>\<open>remove_member\<close> and
  \<^verbatim>\<open>remove_server\<close> leave a well-formed list, have the effect of the same operation on the set, and return
  the same code on every branch, errors included; \<^verbatim>\<open>contains\<close> and \<^verbatim>\<open>get_member_by_addr\<close> look up that set.
  The same holds of \<^verbatim>\<open>add_server\<close>, \<^verbatim>\<open>remove_server\<close> and \<^verbatim>\<open>contains\<close> of a well-formed \<^verbatim>\<open>LogSimpleMemberList\<close> (in
  insertion order, without duplicates), where adding a server twice is no error.\<close>

theorem member_list_refines_set:
  assumes "mlb_wf l" and "sml_wf l'"
  shows "mlb_wf (snd (mlb_add_member m l)) \<and> abs_result (mlb_add_member m l) = spec_add_member m (mlb_abs l)
    \<and> mlb_wf (snd (mlb_remove_member m l)) \<and> abs_result (mlb_remove_member m l) = spec_remove_member m (mlb_abs l)
    \<and> mlb_wf (snd (mlb_remove_server s l)) \<and> abs_result (mlb_remove_server s l) = spec_remove_server s (mlb_abs l)
    \<and> (mlb_contains s l \<longleftrightarrow> s \<in> dom (mlb_abs l))
    \<and> mlb_get_member_by_addr s l =
        (if \<not> addr_is_valid s then Inl OB_INVALID_ARGUMENT
         else case mlb_abs l s of None \<Rightarrow> Inl OB_ENTRY_NOT_EXIST | Some m \<Rightarrow> Inr m)
    \<and> sml_wf (snd (sml_add_server s l')) \<and> sml_abs_result (sml_add_server s l') = spec_sml_add s (set (sml_servers l'))
    \<and> sml_wf (snd (sml_remove_server s l')) \<and> sml_abs_result (sml_remove_server s l') = spec_sml_remove s (set (sml_servers l'))
    \<and> (sml_contains s l' \<longleftrightarrow> s \<in> set (sml_servers l'))"
proof -
  have "mlb_contains s l \<longleftrightarrow> s \<in> dom (mlb_abs l)"
    using mlb.has_iff [OF assms(1)] by (simp add: mlb_abs_dom mlb_servers_set)
  moreover have "mlb_get_member_by_addr s l =
      (if \<not> addr_is_valid s then Inl OB_INVALID_ARGUMENT
       else case mlb_abs l s of None \<Rightarrow> Inl OB_ENTRY_NOT_EXIST | Some m \<Rightarrow> Inr m)"
  proof (cases "first_index (\<lambda>m. m_server m = s) 0 (mlb_members l)")
    case None
    then have "mlb_abs l s = None" by (auto simp: first_index_None mlb_abs_None)
    with None show ?thesis by (simp add: mlb_get_member_by_addr_def)
  next
    case (Some i)
    then have i: "i < length (mlb_members l)" "m_server (mlb_members l ! i) = s" by (auto simp: first_index_Some)
    then have "mlb_abs l s = Some (mlb_members l ! i)" by (simp add: mlb_abs_Some [OF assms(1)])
    moreover have "mlb_members l ! i = mlb_cells l ! i" using i(1) by (simp add: mlb_members_def)
    ultimately show ?thesis using Some by (simp add: mlb_get_member_by_addr_def)
  qed
  ultimately show ?thesis
    using mlb_add_member_refines [OF assms(1)] mlb_remove_member_refines [OF assms(1)] mlb_remove_server_refines [OF assms(1)]
      sml_add_server_refines [OF assms(2)] sml_remove_server_refines [OF assms(2)] sml.has_iff [OF assms(2)] by blast
qed

lemma mlb_new_wf: "mlb_wf mlb_new"
  by (simp add: mlb_wf_def mlb_new_def mlb_members_def)

definition mlb_example :: ObMemberList where
  "mlb_example = snd (mlb_add_member (member_of (IPV4 2 2882) 5) (snd (mlb_add_member (member_of (IPV4 9 2882) 5) mlb_new)))"

definition sml_example :: LogSimpleMemberList where
  "sml_example = snd (sml_add_server (IPV4 2 2882) (snd (sml_add_server (IPV4 9 2882) sml_new)))"

lemma sml_example_wf: "sml_wf sml_example" "sml_servers sml_example = [IPV4 9 2882, IPV4 2 2882]"
proof -
  have "sml_wf sml_new" by code_simp
  then show "sml_wf sml_example"
    unfolding sml_example_def by (intro conjunct1 [OF sml_add_server_refines])
  show "sml_servers sml_example = [IPV4 9 2882, IPV4 2 2882]" by code_simp
qed

theorem member_list_refines_set_witness:
  "mlb_wf mlb_example \<and> fst (abs_result (mlb_remove_member (member_of (IPV4 2 2882) 6) mlb_example)) = OB_ITEM_NOT_MATCH
   \<and> fst (abs_result (mlb_remove_server (IPV4 2 2882) mlb_example)) = OB_SUCCESS
   \<and> sml_wf sml_example \<and> sml_abs_result (sml_remove_server (IPV4 2 2882) sml_example) = (OB_SUCCESS, {IPV4 9 2882})
   \<and> sml_abs_result (sml_add_server (IPV4 2 2882) sml_example) = (OB_SUCCESS, {IPV4 2 2882, IPV4 9 2882})"
proof -
  have w: "mlb_wf mlb_example"
    unfolding mlb_example_def by (intro conjunct1 [OF mlb_add_member_refines] mlb_new_wf)
  have "mlb_members mlb_example = [member_of (IPV4 2 2882) 5, member_of (IPV4 9 2882) 5]" by code_simp
  then have a: "mlb_abs mlb_example (IPV4 2 2882) = Some (member_of (IPV4 2 2882) 5)"
    by (simp add: mlb_abs_def member_of_def)
  have "addr_is_valid (IPV4 2 2882)" by code_simp
  then show ?thesis
    using member_list_refines_set [OF w sml_example_wf(1), of "member_of (IPV4 2 2882) 6" "IPV4 2 2882"] w a sml_example_wf
    by (auto simp: spec_remove_member_def spec_remove_server_def member_of_def spec_sml_remove_def spec_sml_add_def)
qed

text \<open>Copying between the two classes keeps the servers: \<^verbatim>\<open>LogSimpleMemberList::deep_copy\<close> of a
  well-formed member list succeeds with the same servers in the same order, and \<^verbatim>\<open>deep_copy_to\<close> of a list
  of valid servers succeeds with the same servers in address order, so that a copy there and back gives the
  original servers.\<close>

theorem member_list_copies_roundtrip:
  assumes "mlb_wf ml" "length (sml_cells l) = OB_MAX_MEMBER_NUMBER" "length (mlb_cells ml0) = OB_MAX_MEMBER_NUMBER"
  shows "\<exists>l' ml'. sml_deep_copy ml l = (OB_SUCCESS, l') \<and> sml_wf l' \<and> sml_servers l' = mlb_get_addr_array ml
    \<and> sml_deep_copy_to l' ml0 = (OB_SUCCESS, ml') \<and> mlb_wf ml' \<and> mlb_get_addr_array ml' = mlb_get_addr_array ml"
proof -
  let ?ss = "mlb_get_addr_array ml"
  have r: "sml_wf (sml_reset l)" "sml_servers (sml_reset l) = []" using sml_reset_wf [OF assms(2)] by auto
  obtain l' where l': "sml_copy_loop ml [0..int (mlb_number ml) - 1] (sml_reset l) = (OB_SUCCESS, l')" "sml_wf l'" "sml_servers l' = ?ss"
    using sml_copy_loop_servers [OF assms(1) r(1), of 0] r(2) by auto
  have n: "sml_count l' = mlb_number ml" "length ?ss = mlb_number ml"
    using sml_wf_length [OF l'(2)] l'(3) mlb_wf_length [OF assms(1)] by (simp_all add: mlb_get_addr_array_def)
  have m: "mlb_wf (mlb_reset ml0)" "mlb_get_addr_array (mlb_reset ml0) = []"
    using mlb_reset_wf [OF assms(3)] by (auto simp: mlb_get_addr_array_def)
  have v: "\<forall>s \<in> set ?ss. addr_is_valid s" using assms(1) by (auto simp: mlb_wf_def mlb_servers_set member_is_valid_def)
  obtain ml' where ml': "add_servers mlb_add_server ?ss (mlb_reset ml0) = (OB_SUCCESS, ml')" "mlb_wf ml'"
    "set (mlb_get_addr_array ml') = set ?ss" "length (mlb_get_addr_array ml') = length ?ss"
    by (rule mlb.add_servers_success [OF m(1), of ?ss]) (use mlb.wf_servers [OF assms(1)] v m(2) in auto)
  have "mlb_get_addr_array ml' = ?ss"
    by (rule strict_sorted_equal) (use ml'(2,3) assms(1) in \<open>auto simp: mlb_wf_def mlb_get_addr_array_def\<close>)
  moreover have "mlb_number ml' = mlb_number ml"
    using ml'(4) n(2) mlb_wf_length [OF ml'(2)] by (simp add: mlb_get_addr_array_def)
  ultimately show ?thesis
    using l' ml' n by (simp add: sml_deep_copy_def sml_deep_copy_to_def sml_copy_to_loop_eq mlb_get_member_number_def)
qed

theorem member_list_copies_roundtrip_witness:
  "\<exists>l' ml'. sml_deep_copy mlb_example sml_new = (OB_SUCCESS, l') \<and> sml_servers l' = [IPV4 2 2882, IPV4 9 2882]
    \<and> sml_deep_copy_to l' mlb_new = (OB_SUCCESS, ml') \<and> mlb_get_addr_array ml' = [IPV4 2 2882, IPV4 9 2882]"
proof -
  have w: "mlb_wf mlb_example"
    unfolding mlb_example_def by (intro conjunct1 [OF mlb_add_member_refines] mlb_new_wf)
  have "mlb_get_addr_array mlb_example = [IPV4 2 2882, IPV4 9 2882]" by code_simp
  then show ?thesis
    using member_list_copies_roundtrip [OF w, of sml_new mlb_new] by (auto simp: sml_new_def sml_reset_def mlb_new_def)
qed

end
