(* ===== verification/LinearHashMap.thy ===== *)
theory LinearHashMap
  imports PalfPrelude
begin

text \<open>
  The linear hash map \<^verbatim>\<open>ObLinearHashMap\<close> of \<^verbatim>\<open>lib/hash/ob_linear_hash_map.h\<close>, in which the sliding window keeps
  what the members have acknowledged.  The map grows by splitting one bucket and shrinks by uniting two, while
  other threads look up, insert, erase and change entries under the locks of single buckets.

  A bucket is its flags, its level and the list of its entries, the first of which is stored in the bucket
  itself.  The directory of segments is an array of buckets; \<open>seg_idx\<close> and \<open>seg_bkt_idx\<close> are its two-level
  index, which is injective.  Level and split position stay far below the 8 and 56 bits they have in the word
  \<^verbatim>\<open>Lp_\<close> and are natural numbers, as are hash values; the hash function is an argument.

  The first section is what the map promises its users; the theory \<open>LinearHashConc\<close> shows that the implementation keeps
  the promise when operations, splits and unions interleave.
\<close>

section \<open>The map as users see it\<close>

definition hm_get :: "'k \<Rightarrow> ('k \<Rightarrow> 'v option) \<Rightarrow> ob_ret + 'v" where
  "hm_get key m = (case m key of None \<Rightarrow> Inl OB_ENTRY_NOT_EXIST | Some v \<Rightarrow> Inr v)"

definition hm_insert :: "bool \<Rightarrow> 'k \<Rightarrow> 'v \<Rightarrow> ('k \<Rightarrow> 'v option) \<Rightarrow> ob_ret \<times> ('k \<Rightarrow> 'v option)" where
  "hm_insert node_ok key v m =
     (if m key \<noteq> None then (OB_ENTRY_EXIST, m)
      else if \<not> node_ok then (OB_ALLOCATE_MEMORY_FAILED, m)
      else (OB_SUCCESS, m(key := Some v)))"

definition hm_erase :: "'k \<Rightarrow> ('k \<Rightarrow> 'v option) \<Rightarrow> ob_ret \<times> ('k \<Rightarrow> 'v option)" where
  "hm_erase key m = (if m key = None then (OB_ENTRY_NOT_EXIST, m) else (OB_SUCCESS, m(key := None)))"

definition hm_operate :: "('v \<Rightarrow> bool \<times> 'v) \<Rightarrow> 'k \<Rightarrow> ('k \<Rightarrow> 'v option) \<Rightarrow> ob_ret \<times> ('k \<Rightarrow> 'v option)" where
  "hm_operate fn key m =
     (case m key of None \<Rightarrow> (OB_ENTRY_NOT_EXIST, m)
      | Some v \<Rightarrow> (case fn v of (ok, v') \<Rightarrow> (if ok then OB_SUCCESS else OB_EAGAIN, m(key := Some v'))))"

definition hm_erase_if :: "('v \<Rightarrow> bool \<times> 'v) \<Rightarrow> 'k \<Rightarrow> ('k \<Rightarrow> 'v option) \<Rightarrow> ob_ret \<times> ('k \<Rightarrow> 'v option)" where
  "hm_erase_if fn key m =
     (case m key of None \<Rightarrow> (OB_ENTRY_NOT_EXIST, m)
      | Some v \<Rightarrow> (case fn v of (ok, v') \<Rightarrow> if ok then (OB_SUCCESS, m(key := None)) else (OB_EAGAIN, m(key := Some v'))))"

definition hm_insert_or_operate :: "bool \<Rightarrow> 'k \<Rightarrow> 'v \<Rightarrow> ('v \<Rightarrow> bool \<times> 'v) \<Rightarrow> ('k \<Rightarrow> 'v option) \<Rightarrow> ob_ret \<times> ('k \<Rightarrow> 'v option)" where
  "hm_insert_or_operate node_ok key v fn m = (if m key = None then hm_insert node_ok key v m else hm_operate fn key m)"

definition hm_insert_or_update :: "bool \<Rightarrow> 'k \<Rightarrow> 'v \<Rightarrow> ('k \<Rightarrow> 'v option) \<Rightarrow> ob_ret \<times> ('k \<Rightarrow> 'v option)" where
  "hm_insert_or_update node_ok key v m =
     (if m key = None \<and> \<not> node_ok then (OB_ALLOCATE_MEMORY_FAILED, m) else (OB_SUCCESS, m(key := Some v)))"

datatype ('k, 'v) lh_op =
    OpGet 'k
  | OpInsert 'k 'v
  | OpErase 'k
  | OpOperate 'k "'v \<Rightarrow> bool \<times> 'v"
  | OpEraseIf 'k "'v \<Rightarrow> bool \<times> 'v"
  | OpInsertOrOperate 'k 'v "'v \<Rightarrow> bool \<times> 'v"
  | OpInsertOrUpdate 'k 'v

fun op_key :: "('k, 'v) lh_op \<Rightarrow> 'k" where
  "op_key (OpGet k) = k"
| "op_key (OpInsert k v) = k"
| "op_key (OpErase k) = k"
| "op_key (OpOperate k fn) = k"
| "op_key (OpEraseIf k fn) = k"
| "op_key (OpInsertOrOperate k v fn) = k"
| "op_key (OpInsertOrUpdate k v) = k"

text \<open>An operation with its return code, the value a lookup returns, and the new map.\<close>

fun hm_apply :: "bool \<Rightarrow> ('k, 'v) lh_op \<Rightarrow> ('k \<Rightarrow> 'v option) \<Rightarrow> (ob_ret \<times> 'v option) \<times> ('k \<Rightarrow> 'v option)" where
  "hm_apply node_ok (OpGet k) m = (case hm_get k m of Inl ret \<Rightarrow> ((ret, None), m) | Inr v \<Rightarrow> ((OB_SUCCESS, Some v), m))"
| "hm_apply node_ok (OpInsert k v) m = (case hm_insert node_ok k v m of (ret, m) \<Rightarrow> ((ret, None), m))"
| "hm_apply node_ok (OpErase k) m = (case hm_erase k m of (ret, m) \<Rightarrow> ((ret, None), m))"
| "hm_apply node_ok (OpOperate k fn) m = (case hm_operate fn k m of (ret, m) \<Rightarrow> ((ret, None), m))"
| "hm_apply node_ok (OpEraseIf k fn) m = (case hm_erase_if fn k m of (ret, m) \<Rightarrow> ((ret, None), m))"
| "hm_apply node_ok (OpInsertOrOperate k v fn) m = (case hm_insert_or_operate node_ok k v fn m of (ret, m) \<Rightarrow> ((ret, None), m))"
| "hm_apply node_ok (OpInsertOrUpdate k v) m = (case hm_insert_or_update node_ok k v m of (ret, m) \<Rightarrow> ((ret, None), m))"

section \<open>Buckets\<close>

record ('k, 'v) Bucket =
  bkt_active :: bool
  bkt_lock :: bool
  bkt_L :: nat
  bkt_nodes :: "('k \<times> 'v) list"

fun chain_get :: "'k \<Rightarrow> ('k \<times> 'v) list \<Rightarrow> ob_ret \<times> 'v option" where
  "chain_get key [] = (OB_ENTRY_NOT_EXIST, None)"
| "chain_get key (n # ns) = (if fst n = key then (OB_SUCCESS, Some (snd n)) else chain_get key ns)"

fun chain_has :: "'k \<Rightarrow> ('k \<times> 'v) list \<Rightarrow> bool" where
  "chain_has key [] = False"
| "chain_has key (n # ns) = (if fst n = key then True else chain_has key ns)"

fun chain_erase :: "'k \<Rightarrow> ('k \<times> 'v) list \<Rightarrow> ob_ret \<times> ('k \<times> 'v) list" where
  "chain_erase key [] = (OB_ENTRY_NOT_EXIST, [])"
| "chain_erase key (n # ns) =
     (if fst n = key then (OB_SUCCESS, ns) else case chain_erase key ns of (ret, ns) \<Rightarrow> (ret, n # ns))"

fun chain_operate :: "('v \<Rightarrow> bool \<times> 'v) \<Rightarrow> 'k \<Rightarrow> ('k \<times> 'v) list \<Rightarrow> ob_ret \<times> ('k \<times> 'v) list" where
  "chain_operate fn key [] = (OB_ENTRY_NOT_EXIST, [])"
| "chain_operate fn key (n # ns) =
     (if fst n = key then (case fn (snd n) of (ok, v) \<Rightarrow> (if ok then OB_SUCCESS else OB_EAGAIN, (fst n, v) # ns))
      else case chain_operate fn key ns of (ret, ns) \<Rightarrow> (ret, n # ns))"

fun chain_erase_if :: "('v \<Rightarrow> bool \<times> 'v) \<Rightarrow> 'k \<Rightarrow> ('k \<times> 'v) list \<Rightarrow> ob_ret \<times> ('k \<times> 'v) list" where
  "chain_erase_if fn key [] = (OB_ENTRY_NOT_EXIST, [])"
| "chain_erase_if fn key (n # ns) =
     (if fst n = key
      then (case fn (snd n) of (ok, v) \<Rightarrow> if ok then (OB_SUCCESS, ns) else (OB_EAGAIN, (fst n, v) # ns))
      else case chain_erase_if fn key ns of (ret, ns) \<Rightarrow> (ret, n # ns))"

text \<open>The flag tells that the key was found.\<close>

fun chain_update :: "'k \<Rightarrow> 'v \<Rightarrow> ('k \<times> 'v) list \<Rightarrow> bool \<times> ('k \<times> 'v) list" where
  "chain_update key v [] = (False, [])"
| "chain_update key v (n # ns) =
     (if fst n = key then (True, (fst n, v) # ns) else case chain_update key v ns of (update, ns) \<Rightarrow> (update, n # ns))"

text \<open>A new entry goes into an empty bucket or, in a new node, behind the entry that is stored in the bucket.\<close>

definition bkt_add_node :: "bool \<Rightarrow> 'k \<Rightarrow> 'v \<Rightarrow> ('k \<times> 'v) \<Rightarrow> ('k \<times> 'v) list \<Rightarrow> ob_ret \<times> ('k \<times> 'v) list" where
  "bkt_add_node alloc_ok key v n rest =
     (if \<not> alloc_ok then (OB_ALLOCATE_MEMORY_FAILED, n # rest) else (OB_SUCCESS, n # (key, v) # rest))"

definition bkt_insert :: "bool \<Rightarrow> 'k \<Rightarrow> 'v \<Rightarrow> ('k \<times> 'v) list \<Rightarrow> ob_ret \<times> ('k \<times> 'v) list" where
  "bkt_insert alloc_ok key v ns =
     (case ns of
        [] \<Rightarrow> (OB_SUCCESS, [(key, v)])
      | n # rest \<Rightarrow>
          if chain_has key ns then (OB_ENTRY_EXIST, ns)
          else bkt_add_node alloc_ok key v n rest)"

definition bkt_insert_or_operate :: "bool \<Rightarrow> 'k \<Rightarrow> 'v \<Rightarrow> ('v \<Rightarrow> bool \<times> 'v) \<Rightarrow> ('k \<times> 'v) list \<Rightarrow> ob_ret \<times> ('k \<times> 'v) list" where
  "bkt_insert_or_operate alloc_ok key v fn ns =
     (case ns of
        [] \<Rightarrow> (OB_SUCCESS, [(key, v)])
      | n # rest \<Rightarrow> if chain_has key ns then chain_operate fn key ns else bkt_add_node alloc_ok key v n rest)"

definition bkt_insert_or_update :: "bool \<Rightarrow> 'k \<Rightarrow> 'v \<Rightarrow> ('k \<times> 'v) list \<Rightarrow> ob_ret \<times> ('k \<times> 'v) list" where
  "bkt_insert_or_update alloc_ok key v ns =
     (case ns of
        [] \<Rightarrow> (OB_SUCCESS, [(key, v)])
      | n # rest \<Rightarrow>
          (case chain_update key v ns of
             (update, ns) \<Rightarrow> if update then (OB_SUCCESS, ns) else bkt_add_node alloc_ok key v n rest))"

fun bkt_apply :: "bool \<Rightarrow> ('k, 'v) lh_op \<Rightarrow> ('k \<times> 'v) list \<Rightarrow> (ob_ret \<times> 'v option) \<times> ('k \<times> 'v) list" where
  "bkt_apply alloc_ok (OpGet k) ns = (chain_get k ns, ns)"
| "bkt_apply alloc_ok (OpInsert k v) ns = (case bkt_insert alloc_ok k v ns of (ret, ns) \<Rightarrow> ((ret, None), ns))"
| "bkt_apply alloc_ok (OpErase k) ns = (case chain_erase k ns of (ret, ns) \<Rightarrow> ((ret, None), ns))"
| "bkt_apply alloc_ok (OpOperate k fn) ns = (case chain_operate fn k ns of (ret, ns) \<Rightarrow> ((ret, None), ns))"
| "bkt_apply alloc_ok (OpEraseIf k fn) ns = (case chain_erase_if fn k ns of (ret, ns) \<Rightarrow> ((ret, None), ns))"
| "bkt_apply alloc_ok (OpInsertOrOperate k v fn) ns = (case bkt_insert_or_operate alloc_ok k v fn ns of (ret, ns) \<Rightarrow> ((ret, None), ns))"
| "bkt_apply alloc_ok (OpInsertOrUpdate k v) ns = (case bkt_insert_or_update alloc_ok k v ns of (ret, ns) \<Rightarrow> ((ret, None), ns))"

text \<open>The loop of \<^verbatim>\<open>split_expand_d_seg_bkts_\<close> takes the nodes behind the first entry one by one and puts each in front
  of one of two lists; the first entry then stays or moves, and a bucket without one takes the first node of
  its list.\<close>

fun split_loop :: "('k \<Rightarrow> bool) \<Rightarrow> ('k \<times> 'v) list \<Rightarrow> ('k \<times> 'v) list \<Rightarrow> ('k \<times> 'v) list \<Rightarrow> ('k \<times> 'v) list \<times> ('k \<times> 'v) list" where
  "split_loop stays [] n0 n1 = (n0, n1)"
| "split_loop stays (c # cs) n0 n1 =
     (if stays (fst c) then split_loop stays cs (c # n0) n1 else split_loop stays cs n0 (c # n1))"

definition split_nodes :: "('k \<Rightarrow> bool) \<Rightarrow> ('k \<times> 'v) list \<Rightarrow> ('k \<times> 'v) list \<times> ('k \<times> 'v) list" where
  "split_nodes stays ns =
     (case ns of
        [] \<Rightarrow> ([], [])
      | n # rest \<Rightarrow>
          (case split_loop stays rest [] [] of
             (n0, n1) \<Rightarrow> if stays (fst n) then (n # n0, n1) else (n0, n # n1)))"

text \<open>\<^verbatim>\<open>unite_shrink_d_seg_bkts_\<close>: \<open>None\<close> when the node for the source's first entry cannot be allocated.\<close>

definition unite_nodes :: "bool \<Rightarrow> ('k \<times> 'v) list \<Rightarrow> ('k \<times> 'v) list \<Rightarrow> ('k \<times> 'v) list option" where
  "unite_nodes alloc_ok src dst =
     (if src \<noteq> [] \<and> dst \<noteq> [] \<and> \<not> alloc_ok then None
      else case src of
             [] \<Rightarrow> Some dst
           | _ # _ \<Rightarrow> (case dst of [] \<Rightarrow> Some src | d # ds \<Rightarrow> Some (d # src @ ds)))"

section \<open>The array of buckets\<close>

record seg_sizes =
  m_seg_bkt_n :: nat
  m_seg_n_lmt :: nat
  s_seg_bkt_n :: nat

definition m_seg_bkt_n_lmt :: "seg_sizes \<Rightarrow> nat" where
  "m_seg_bkt_n_lmt z = m_seg_n_lmt z * m_seg_bkt_n z"

definition seg_idx :: "seg_sizes \<Rightarrow> nat \<Rightarrow> nat" where
  "seg_idx z i =
     (if i < m_seg_bkt_n_lmt z then i div m_seg_bkt_n z
      else m_seg_n_lmt z + (i - m_seg_bkt_n_lmt z) div s_seg_bkt_n z)"

definition seg_bkt_idx :: "seg_sizes \<Rightarrow> nat \<Rightarrow> nat" where
  "seg_bkt_idx z i =
     (if i < m_seg_bkt_n_lmt z then i mod m_seg_bkt_n z else (i - m_seg_bkt_n_lmt z) mod s_seg_bkt_n z)"

lemma seg_index_inj:
  assumes "seg_idx z i = seg_idx z j" "seg_bkt_idx z i = seg_bkt_idx z j"
  shows "i = j"
proof -
  have lt: "i div m_seg_bkt_n z < m_seg_n_lmt z" if "i < m_seg_bkt_n_lmt z" for i
    using that unfolding m_seg_bkt_n_lmt_def by (rule less_mult_imp_div_less)
  have eq: "a = b" if "a div d = b div d" "a mod d = b mod d" for a b d :: nat
  proof -
    have "a = a div d * d + a mod d" by (rule div_mult_mod_eq [symmetric])
    also have "\<dots> = b div d * d + b mod d" by (simp only: that)
    also have "\<dots> = b" by (rule div_mult_mod_eq)
    finally show ?thesis .
  qed
  have side: "seg_idx z i < m_seg_n_lmt z \<longleftrightarrow> i < m_seg_bkt_n_lmt z" for i
    using lt [of i] by (simp add: seg_idx_def)
  have "i < m_seg_bkt_n_lmt z \<longleftrightarrow> j < m_seg_bkt_n_lmt z" using side [of i] side [of j] unfolding assms(1) by (rule trans [OF sym])
  then consider "i < m_seg_bkt_n_lmt z" "j < m_seg_bkt_n_lmt z" | "\<not> i < m_seg_bkt_n_lmt z" "\<not> j < m_seg_bkt_n_lmt z"
    by blast
  then show ?thesis
  proof cases
    case 1
    show ?thesis by (rule eq [of _ "m_seg_bkt_n z"]) (use 1 assms in \<open>simp_all add: seg_idx_def seg_bkt_idx_def\<close>)
  next
    case 2
    have "i - m_seg_bkt_n_lmt z = j - m_seg_bkt_n_lmt z"
      by (rule eq [of _ "s_seg_bkt_n z"]) (use 2 assms in \<open>simp_all add: seg_idx_def seg_bkt_idx_def\<close>)
    then show ?thesis using 2 by linarith
  qed
qed

text \<open>A segment that starts at a bucket holds no bucket before it.\<close>

lemma seg_start_least:
  assumes "seg_bkt_idx z i = 0" "seg_idx z j = seg_idx z i"
  shows "i \<le> j"
proof -
  have least: "a \<le> b" if "a mod d = 0" "b div d = a div d" for a b d :: nat
  proof -
    have "a = a div d * d" using div_mult_mod_eq [of a d] that(1) by linarith
    also have "\<dots> \<le> b" unfolding that(2) [symmetric] by (rule div_times_less_eq_dividend)
    finally show ?thesis .
  qed
  have side: "seg_idx z i < m_seg_n_lmt z \<longleftrightarrow> i < m_seg_bkt_n_lmt z" for i
    using less_mult_imp_div_less [of i "m_seg_n_lmt z" "m_seg_bkt_n z"] by (simp add: seg_idx_def m_seg_bkt_n_lmt_def)
  show ?thesis
  proof (cases "i < m_seg_bkt_n_lmt z")
    case True
    then have "j < m_seg_bkt_n_lmt z" using side assms(2) by metis
    with True assms show ?thesis by (intro least [of i "m_seg_bkt_n z"]) (simp_all add: seg_idx_def seg_bkt_idx_def)
  next
    case False
    then have j: "\<not> j < m_seg_bkt_n_lmt z" using side assms(2) by metis
    then have "i - m_seg_bkt_n_lmt z \<le> j - m_seg_bkt_n_lmt z"
      using False assms by (intro least [of _ "s_seg_bkt_n z"]) (simp_all add: seg_idx_def seg_bkt_idx_def)
    with j False show ?thesis by linarith
  qed
qed

record ('k, 'v) lhm =
  lh_segs :: seg_sizes
  L0_bkt_n :: nat
  lh_L :: nat
  lh_p :: nat
  lh_bkts :: "nat \<Rightarrow> ('k, 'v) Bucket"

definition bkt_new :: "('k, 'v) Bucket" where
  "bkt_new = \<lparr>bkt_active = False, bkt_lock = False, bkt_L = 0, bkt_nodes = []\<rparr>"

definition lhm_init :: "seg_sizes \<Rightarrow> nat \<Rightarrow> ('k, 'v) lhm" where
  "lhm_init z n = \<lparr>lh_segs = z, L0_bkt_n = n, lh_L = 0, lh_p = 0,
     lh_bkts = \<lambda>i. if i < n then bkt_new\<lparr>bkt_active := True\<rparr> else bkt_new\<rparr>"

text \<open>The settings of \<^verbatim>\<open>init_d_arr_\<close>, for a bucket of \<open>bkt_sz\<close> bytes; \<open>alloc_ok\<close> tells that directory and first segment
  could be allocated.\<close>

definition init_d_arr :: "nat \<Rightarrow> bool \<Rightarrow> nat \<Rightarrow> nat \<Rightarrow> nat \<Rightarrow> ob_ret + ('k, 'v) lhm" where
  "init_d_arr bkt_sz alloc_ok m_seg_sz s_seg_sz dir_init_sz =
     (if bkt_sz > 1024 then Inl OB_INVALID_ARGUMENT
      else if \<not> (m_seg_sz = 0 \<or> m_seg_sz \<ge> 2 ^ 12 \<and> m_seg_sz \<le> 2 ^ 17) then Inl OB_INVALID_ARGUMENT
      else if \<not> (s_seg_sz \<ge> 2 ^ 14 \<and> s_seg_sz \<le> 2 ^ 27) then Inl OB_INVALID_ARGUMENT
      else if \<not> dir_init_sz \<ge> 2 ^ 12 then Inl OB_INVALID_ARGUMENT
      else if m_seg_sz \<noteq> 0 \<and> (s_seg_sz div m_seg_sz > 2 ^ 10 \<or> s_seg_sz div m_seg_sz < 2 ^ 4) then Inl OB_INVALID_ARGUMENT
      else if \<not> alloc_ok then Inl OB_ALLOCATE_MEMORY_FAILED
      else if m_seg_sz = 0
      then Inr (lhm_init \<lparr>m_seg_bkt_n = 0, m_seg_n_lmt = 0, s_seg_bkt_n = s_seg_sz div bkt_sz\<rparr> (s_seg_sz div bkt_sz))
      else Inr (lhm_init \<lparr>m_seg_bkt_n = m_seg_sz div bkt_sz, m_seg_n_lmt = s_seg_sz div m_seg_sz, s_seg_bkt_n = s_seg_sz div bkt_sz\<rparr>
                 (m_seg_sz div bkt_sz)))"

lemma init_d_arr_Inr:
  assumes "0 < bkt_sz" "init_d_arr bkt_sz ok m_seg_sz s_seg_sz dir_sz = Inr h"
  shows "\<exists>z n. 0 < n \<and> h = lhm_init z n"
proof -
  have q: "0 < sz div bkt_sz" if "2 ^ 12 \<le> sz" "\<not> 1024 < bkt_sz" for sz using assms(1) that by (simp add: div_greater_zero_iff)
  have "(\<exists>z. 0 < s_seg_sz div bkt_sz \<and> h = lhm_init z (s_seg_sz div bkt_sz))
      \<or> (\<exists>z. 0 < m_seg_sz div bkt_sz \<and> h = lhm_init z (m_seg_sz div bkt_sz))"
    using assms(2) q [of s_seg_sz] q [of m_seg_sz] by (auto simp: init_d_arr_def split: if_splits)
  then show ?thesis by blast
qed

text \<open>\<^verbatim>\<open>L0_bkt_n_ << L\<close>\<close>

definition wid :: "nat \<Rightarrow> nat \<Rightarrow> nat" where
  "wid n0 L = n0 * 2 ^ L"

abbreviation width :: "('k, 'v) lhm \<Rightarrow> nat \<Rightarrow> nat" where
  "width h L \<equiv> wid (L0_bkt_n h) L"

definition bkt_cnt :: "('k, 'v) lhm \<Rightarrow> nat" where
  "bkt_cnt h = width h (lh_L h) + lh_p h"

abbreviation set_bkt :: "nat \<Rightarrow> ('k, 'v) Bucket \<Rightarrow> ('k, 'v) lhm \<Rightarrow> ('k, 'v) lhm" where
  "set_bkt i b h \<equiv> h\<lparr>lh_bkts := (lh_bkts h)(i := b)\<rparr>"

text \<open>Level and index of the bucket for a hash value, from a loaded pair of level and split position.\<close>

definition access_bkt :: "nat \<Rightarrow> nat \<Rightarrow> nat \<Rightarrow> nat \<Rightarrow> nat \<times> nat" where
  "access_bkt n0 L p hash_v =
     (if hash_v mod wid n0 L < p then (L + 1, hash_v mod wid n0 (L + 1)) else (L, hash_v mod wid n0 L))"

text \<open>One round of \<^verbatim>\<open>load_access_bkt_\<close> that has the lock of its bucket: is it still the right one?\<close>

definition access_check :: "nat \<times> nat \<Rightarrow> ('k, 'v) lhm \<Rightarrow> bool" where
  "access_check li h = (case li of (L, i) \<Rightarrow> bkt_active (lh_bkts h i) \<and> bkt_L (lh_bkts h i) = L)"

text \<open>The first half of \<^verbatim>\<open>expand_\<close>, under \<^verbatim>\<open>eslock_\<close>: lock both buckets, activate the new one, publish the new level
  and position.  The second half splits and releases the buckets.\<close>

definition expand_begin :: "('k, 'v) lhm \<Rightarrow> ('k, 'v) lhm" where
  "expand_begin h =
     (let L = lh_L h; p = lh_p h; src = p; dst = width h L + p;
          h = set_bkt src ((lh_bkts h src)\<lparr>bkt_lock := True\<rparr>) h;
          h = set_bkt dst ((lh_bkts h dst)\<lparr>bkt_lock := True, bkt_active := True\<rparr>) h
      in if width h L = p + 1 then h\<lparr>lh_L := L + 1, lh_p := 0\<rparr> else h\<lparr>lh_p := p + 1\<rparr>)"

definition expand_end :: "('k \<Rightarrow> nat) \<Rightarrow> nat \<Rightarrow> nat \<Rightarrow> ('k, 'v) lhm \<Rightarrow> ('k, 'v) lhm" where
  "expand_end hash_func L p h =
     (let src = p; dst = width h L + p; s = lh_bkts h src; d = lh_bkts h dst;
          (n0, n1) = split_nodes (\<lambda>k. hash_func k mod width h (L + 1) = p) (bkt_nodes s);
          s = (if bkt_nodes s \<noteq> [] then s\<lparr>bkt_nodes := n0\<rparr> else s);
          d = (if bkt_nodes (lh_bkts h src) \<noteq> [] then d\<lparr>bkt_nodes := n1\<rparr> else d);
          s = s\<lparr>bkt_L := bkt_L s + 1\<rparr>;
          d = d\<lparr>bkt_L := bkt_L s\<rparr>
      in set_bkt src (s\<lparr>bkt_lock := False\<rparr>) (set_bkt dst (d\<lparr>bkt_lock := False\<rparr>) h))"

text \<open>One round of the loop of \<^verbatim>\<open>shrink_\<close>, for the level and position before the last split.\<close>

definition shrink_pos :: "nat \<Rightarrow> nat \<Rightarrow> nat \<Rightarrow> nat \<times> nat" where
  "shrink_pos n0 L p =
     (let newL = (if p = 0 then L - 1 else L); newp = (if p = 0 then wid n0 newL - 1 else p - 1) in (newL, newp))"

text \<open>A segment is freed when its first bucket has been united away.  Its directory entry becomes \<^verbatim>\<open>NULL\<close>: an access
  finds no bucket there and starts again, as it does at a bucket that is not active, and the next expansion that needs the segment
  constructs it afresh.\<close>

definition evict_seg :: "nat \<Rightarrow> ('k, 'v) lhm \<Rightarrow> ('k, 'v) lhm" where
  "evict_seg i h =
     (if seg_bkt_idx (lh_segs h) i = 0
      then h\<lparr>lh_bkts := \<lambda>j. if seg_idx (lh_segs h) j = seg_idx (lh_segs h) i then bkt_new else lh_bkts h j\<rparr>
      else h)"

definition shrink_round :: "bool \<Rightarrow> nat \<Rightarrow> nat \<Rightarrow> ('k, 'v) lhm \<Rightarrow> bool \<times> ('k, 'v) lhm" where
  "shrink_round alloc_ok newL newp h =
     (let src = width h newL + newp; dst = newp; s = lh_bkts h src; d = lh_bkts h dst
      in case unite_nodes alloc_ok (bkt_nodes s) (bkt_nodes d) of
           None \<Rightarrow> (False, h)
         | Some ns \<Rightarrow>
             (True,
              evict_seg src
                ((set_bkt src (s\<lparr>bkt_nodes := [], bkt_L := 0, bkt_active := False\<rparr>)
                   (set_bkt dst (d\<lparr>bkt_nodes := ns, bkt_L := bkt_L d - 1\<rparr>) h))
                 \<lparr>lh_L := newL, lh_p := newp\<rparr>)))"

text \<open>The local variables of \<^verbatim>\<open>shrink_\<close>.  The target is computed from the load factor, which is refreshed only now and then, and is
  an input here.\<close>

record shrink_loc =
  sh_L :: nat
  sh_p :: nat
  sh_cnt :: nat
  sh_bkt_cnt :: nat
  sh_target :: nat

definition shrink_begin :: "nat \<Rightarrow> ('k, 'v) lhm \<Rightarrow> shrink_loc" where
  "shrink_begin target h = \<lparr>sh_L = lh_L h, sh_p = lh_p h, sh_cnt = 0, sh_bkt_cnt = bkt_cnt h, sh_target = target\<rparr>"

text \<open>The two limits: the smallest size, and the level that \<^verbatim>\<open>for_each\<close> holds on to.\<close>

definition shrink_stops :: "nat \<Rightarrow> shrink_loc \<Rightarrow> bool" where
  "shrink_stops foreach_L_lmt x \<longleftrightarrow> sh_L x = 0 \<and> sh_p x = 0 \<or> sh_L x = foreach_L_lmt \<and> sh_p x = 0"

text \<open>One execution of the loop body, with the outcome of its allocation, and of the loop condition; \<open>None\<close> is the end of the
  loop.  A union that fails does not end the loop, and the local position moves on.\<close>

definition shrink_iter :: "bool \<Rightarrow> nat \<Rightarrow> shrink_loc \<Rightarrow> ('k, 'v) lhm \<Rightarrow> shrink_loc option \<times> ('k, 'v) lhm" where
  "shrink_iter alloc_ok foreach_L_lmt x h =
     (if shrink_stops foreach_L_lmt x then (None, h)
      else case shrink_pos (L0_bkt_n h) (sh_L x) (sh_p x) of
             (newL, newp) \<Rightarrow>
               (let h = snd (shrink_round alloc_ok newL newp h); shrink_cnt = sh_cnt x + 1
                in (if sh_target x + shrink_cnt < sh_bkt_cnt x \<and> shrink_cnt < sh_bkt_cnt x div 16
                    then Some (x\<lparr>sh_L := newL, sh_p := newp, sh_cnt := shrink_cnt\<rparr>) else None, h)))"

text \<open>The loop of a thread that is alone: \<open>allocs\<close> are the outcomes of the allocations, one per round; \<open>None\<close> if there are too
  few of them.\<close>

fun shrink_loop :: "bool list \<Rightarrow> nat \<Rightarrow> shrink_loc \<Rightarrow> ('k, 'v) lhm \<Rightarrow> ('k, 'v) lhm option" where
  "shrink_loop [] foreach_L_lmt x h = None"
| "shrink_loop (a # as) foreach_L_lmt x h =
     (case shrink_iter a foreach_L_lmt x h of
        (None, h) \<Rightarrow> Some h
      | (Some x, h) \<Rightarrow> shrink_loop as foreach_L_lmt x h)"

definition shrink :: "bool list \<Rightarrow> nat \<Rightarrow> nat \<Rightarrow> ('k, 'v) lhm \<Rightarrow> ('k, 'v) lhm option" where
  "shrink allocs foreach_L_lmt target h = shrink_loop allocs foreach_L_lmt (shrink_begin target h) h"

text \<open>The loop ends after at most a sixteenth of the buckets, but after one round at the earliest.\<close>

lemma shrink_loop_returns:
  "as \<noteq> [] \<Longrightarrow> sh_bkt_cnt x div 16 \<le> sh_cnt x + length as \<Longrightarrow> shrink_loop as limit x h \<noteq> None"
proof (induction as arbitrary: x h)
  case (Cons a as)
  obtain y h' where i: "shrink_iter a limit x h = (y, h')" by (cases "shrink_iter a limit x h")
  show ?case
  proof (cases y)
    case None
    then show ?thesis by (simp add: i)
  next
    case (Some x')
    then have "sh_bkt_cnt x' = sh_bkt_cnt x" "sh_cnt x' = sh_cnt x + 1" "sh_cnt x + 1 < sh_bkt_cnt x div 16"
      using i by (auto simp: shrink_iter_def Let_def split: if_splits prod.splits)
    then have "as \<noteq> []" "sh_bkt_cnt x' div 16 \<le> sh_cnt x' + length as" using Cons.prems(2) by auto
    then show ?thesis using Cons.IH Some by (simp add: i)
  qed
qed simp

lemma shrink_returns: "max 1 (bkt_cnt h div 16) \<le> length allocs \<Longrightarrow> shrink allocs limit target h \<noteq> None"
  unfolding shrink_def by (rule shrink_loop_returns) (auto simp: shrink_begin_def)

end
