(* ===== verification/CommitPoint.thy ===== *)
theory CommitPoint
  imports MemberLists LinearHashMap Lsn "HOL-Library.Multiset"
begin

text \<open>
  The commit point of the log: the part of \<^verbatim>\<open>LogSlidingWindow\<close> (\<^verbatim>\<open>log_sliding_window.cpp\<close>) by which a
  leader records how far each member has the log on disk (\<^verbatim>\<open>match_lsn_map_\<close>) and advances
  \<^verbatim>\<open>committed_end_lsn_\<close> to what a majority has, with the view of the configuration that
  \<^verbatim>\<open>LogConfigMgr\<close> gives it.

  The map is the partial function that \<^verbatim>\<open>ObLinearHashMap\<close> implements (theory \<open>LinearHashMap\<close>), with the
  return codes of its operations.  A failed \<^verbatim>\<open>assert\<close> is \<open>None\<close>.  The clock, the role of the replica and the outcome of memory
  allocations are inputs of a call, collected in \<open>cp_env\<close>.  What a call does outside this part (sliding
  committed logs, sending messages) is returned as a list of effects.
\<close>

section \<open>State\<close>

record LsnTsInfo =
  lt_lsn :: LSN
  lt_last_ack_time_us :: int
  lt_last_advance_time_us :: int

definition lt_of :: "LSN \<Rightarrow> int \<Rightarrow> LsnTsInfo" where
  "lt_of lsn ack_time_us = \<lparr>lt_lsn = lsn, lt_last_ack_time_us = ack_time_us, lt_last_advance_time_us = ack_time_us\<rparr>"

definition lt_is_valid :: "LsnTsInfo \<Rightarrow> bool" where
  "lt_is_valid v \<longleftrightarrow> lsn_is_valid (lt_lsn v) \<and> OB_INVALID_TIMESTAMP \<noteq> lt_last_ack_time_us v"

type_synonym SvrMatchOffsetMap = "ObAddr \<Rightarrow> LsnTsInfo option"

text \<open>What \<^verbatim>\<open>LogConfigMgr\<close> provides: member list and replica number of the current and of the previous
  configuration, the degraded learners, and the barrier of the last reconfiguration.\<close>

record LogConfigView =
  log_sync_memberlist :: ObMemberList
  log_sync_replica_num :: int
  prev_log_sync_memberlist :: ObMemberList
  prev_log_sync_replica_num :: int
  degraded_learnerlist :: "ObMember list"
  barrier_prev_end_lsn :: LSN
  barrier_prev_mode_pid :: u64

record CommitState =
  cs_self :: ObAddr
  match_lsn_map :: SvrMatchOffsetMap
  committed_end_lsn :: LSN
  max_flushed_end_lsn :: LSN
  cs_config :: LogConfigView

record cp_env =
  now_us :: int
  alloc_ok :: "ObAddr \<Rightarrow> bool"
  leader_role :: bool
  leader_active :: bool
  changing_config_with_arb :: bool
  last_submit_mode_pid :: u64
  env_max_lsn :: LSN

text \<open>\<^verbatim>\<open>handle_committed_log_\<close> slides the logs up to the commit point it finds, which the effect carries.\<close>

datatype cp_effect = HandleCommittedLog LSN | BroadcastCommittedInfo LSN | SetSyncToDegradedLearners

section \<open>Recording acknowledgements\<close>

definition UpdateMatchLsnFunc :: "LSN \<Rightarrow> int \<Rightarrow> LsnTsInfo \<Rightarrow> bool \<times> LsnTsInfo" where
  "UpdateMatchLsnFunc new_end_lsn new_ack_time_us value =
     (if \<not> lt_is_valid value then (False, value)
      else if lsn_le (lt_lsn value) new_end_lsn then
        (let value' = (if lsn_lt (lt_lsn value) new_end_lsn
                       then value\<lparr>lt_last_advance_time_us := new_ack_time_us, lt_last_ack_time_us := new_ack_time_us\<rparr>
                       else value)
         in (True, value'\<lparr>lt_lsn := new_end_lsn\<rparr>))
      else (True, value))"

definition try_update_match_lsn_map :: "cp_env \<Rightarrow> ObAddr \<Rightarrow> LSN \<Rightarrow> SvrMatchOffsetMap \<Rightarrow> ob_ret \<times> SvrMatchOffsetMap" where
  "try_update_match_lsn_map E server end_lsn m =
     (if \<not> addr_is_valid server \<or> \<not> lsn_is_valid end_lsn then (OB_INVALID_ARGUMENT, m)
      else case hm_get server m of
             Inl _ \<Rightarrow> hm_insert (alloc_ok E server) server (lt_of end_lsn (now_us E)) m
           | Inr _ \<Rightarrow> hm_operate (UpdateMatchLsnFunc end_lsn (now_us E)) server m)"

section \<open>The LSN that a majority has\<close>

definition lsn_sort_desc :: "LSN list \<Rightarrow> LSN list" where
  "lsn_sort_desc xs = rev (sort_key lsn_val xs)"

text \<open>The loop over the members collects the entries of those that are in the map.\<close>

fun match_lsns :: "SvrMatchOffsetMap \<Rightarrow> ObAddr list \<Rightarrow> LSN list" where
  "match_lsns m [] = []"
| "match_lsns m (s # ss) = (case hm_get s m of Inl _ \<Rightarrow> match_lsns m ss | Inr v \<Rightarrow> lt_lsn v # match_lsns m ss)"

definition get_majority_lsn :: "SvrMatchOffsetMap \<Rightarrow> ObMemberList \<Rightarrow> int \<Rightarrow> (ob_ret \<times> LSN) option" where
  "get_majority_lsn m member_list replica_num =
     (if \<not> replica_num > 0 then None
      else let lsn_array = match_lsns m (mlb_get_addr_array member_list);
               valid_member_cnt = int (length lsn_array)
           in if valid_member_cnt < replica_num div 2 + 1 then Some (OB_SUCCESS, lsn_reset)
              else if \<not> replica_num div 2 < int OB_MAX_MEMBER_NUMBER then None
              else let result_lsn = lsn_sort_desc lsn_array ! nat (replica_num div 2)
                   in if \<not> lsn_is_valid result_lsn then Some (OB_ERR_UNEXPECTED, result_lsn)
                      else Some (OB_SUCCESS, result_lsn))"

section \<open>Advancing the commit point\<close>

text \<open>\<^verbatim>\<open>try_advance_committed_lsn_\<close> of a thread that is not disturbed; the compare-and-swap loop itself is in
  \<open>CommitConc\<close>.\<close>

definition try_advance_committed_lsn :: "LSN \<Rightarrow> CommitState \<Rightarrow> ob_ret \<times> CommitState" where
  "try_advance_committed_lsn end_lsn s =
     (if \<not> lsn_is_valid end_lsn then (OB_INVALID_ARGUMENT, s)
      else if lsn_gt end_lsn (committed_end_lsn s) then (OB_SUCCESS, s\<lparr>committed_end_lsn := end_lsn\<rparr>)
      else (OB_SUCCESS, s))"

text \<open>\<^verbatim>\<open>LogConfigMgr::get_log_sync_member_list_for_generate_committed_lsn\<close>: the member lists are those of
  the configuration; the result is whether the commit point is before the barrier, and the barrier.\<close>

definition before_barrier :: "cp_env \<Rightarrow> LSN \<Rightarrow> LogConfigView \<Rightarrow> bool \<times> LSN" where
  "before_barrier E prev_committed_end_lsn c =
     (if lsn_lt prev_committed_end_lsn (barrier_prev_end_lsn c) \<and> lsn_is_valid (barrier_prev_end_lsn c)
         \<and> last_submit_mode_pid E = barrier_prev_mode_pid c
      then (True, barrier_prev_end_lsn c) else (False, LSN 0))"

definition lsn_MAX :: "LSN \<Rightarrow> LSN \<Rightarrow> LSN" where
  "lsn_MAX x y = (if lsn_gt x y then x else y)"

definition lsn_MIN :: "LSN \<Rightarrow> LSN \<Rightarrow> LSN" where
  "lsn_MIN x y = (if lsn_lt x y then x else y)"

definition combine_results :: "bool \<Rightarrow> LSN \<Rightarrow> LSN \<Rightarrow> LSN \<Rightarrow> LSN" where
  "combine_results is_before_barrier barrier_lsn prev_result_lsn curr_result_lsn =
     (let result_lsn = (if is_before_barrier then lsn_MAX prev_result_lsn curr_result_lsn else curr_result_lsn)
      in if is_before_barrier then lsn_MIN result_lsn barrier_lsn else result_lsn)"

text \<open>\<^verbatim>\<open>gen_committed_end_lsn_\<close> returns its code, the output \<^verbatim>\<open>new_committed_end_lsn\<close> (invalid as long as it is
  not assigned) and the state.\<close>

definition gen_committed_end_lsn :: "cp_env \<Rightarrow> CommitState \<Rightarrow> (ob_ret \<times> LSN \<times> CommitState) option" where
  "gen_committed_end_lsn E s =
     (let c = cs_config s; (is_before_barrier, barrier_lsn) = before_barrier E (committed_end_lsn s) c
      in case get_majority_lsn (match_lsn_map s) (log_sync_memberlist c) (log_sync_replica_num c) of
           None \<Rightarrow> None
         | Some (ret, curr_result_lsn) \<Rightarrow>
             if ret \<noteq> OB_SUCCESS then Some (ret, lsn_reset, s)
             else case (if is_before_barrier
                        then get_majority_lsn (match_lsn_map s) (prev_log_sync_memberlist c) (prev_log_sync_replica_num c)
                        else Some (OB_SUCCESS, lsn_reset)) of
                    None \<Rightarrow> None
                  | Some (ret, prev_result_lsn) \<Rightarrow>
                      if ret \<noteq> OB_SUCCESS then Some (ret, lsn_reset, s)
                      else let result_lsn = combine_results is_before_barrier barrier_lsn prev_result_lsn curr_result_lsn;
                               s = (if \<not> changing_config_with_arb E then snd (try_advance_committed_lsn result_lsn s) else s)
                           in Some (OB_SUCCESS, result_lsn, s))"

definition gen_committed_end_lsn_with_memberlist ::
  "ObMemberList \<Rightarrow> int \<Rightarrow> CommitState \<Rightarrow> (ob_ret \<times> CommitState) option" where
  "gen_committed_end_lsn_with_memberlist member_list replica_num s =
     (if \<not> mlb_is_valid member_list \<or> replica_num \<le> 0 \<or> replica_num < int (mlb_get_member_number member_list)
      then Some (OB_INVALID_ARGUMENT, s)
      else case get_majority_lsn (match_lsn_map s) member_list replica_num of
             None \<Rightarrow> None
           | Some (ret, result_lsn) \<Rightarrow>
               if ret \<noteq> OB_SUCCESS then Some (ret, s)
               else Some (OB_SUCCESS, snd (try_advance_committed_lsn result_lsn s)))"

section \<open>Handlers\<close>

fun reset_match_loop :: "cp_env \<Rightarrow> ObAddr \<Rightarrow> LSN \<Rightarrow> LSN \<Rightarrow> ObAddr list \<Rightarrow> SvrMatchOffsetMap \<Rightarrow> ob_ret \<times> SvrMatchOffsetMap" where
  "reset_match_loop E self max_flushed committed [] m = (OB_SUCCESS, m)"
| "reset_match_loop E self max_flushed committed (s # ss) m =
     (let tmp_match_lsn = (if self = s then max_flushed else committed)
      in case hm_insert (alloc_ok E s) s (lt_of tmp_match_lsn (now_us E)) m of
           (ret, m) \<Rightarrow> if ret \<noteq> OB_SUCCESS then (ret, m) else reset_match_loop E self max_flushed committed ss m)"

definition reset_match_lsn_map :: "cp_env \<Rightarrow> CommitState \<Rightarrow> ob_ret \<times> CommitState" where
  "reset_match_lsn_map E s =
     (case reset_match_loop E (cs_self s) (max_flushed_end_lsn s) (committed_end_lsn s)
             (mlb_get_addr_array (log_sync_memberlist (cs_config s))) (\<lambda>_. None) of
        (ret, m) \<Rightarrow> (ret, s\<lparr>match_lsn_map := m\<rparr>))"

text \<open>\<^verbatim>\<open>BaseLearnerList::contains\<close>\<close>

definition learner_list_contains :: "ObAddr \<Rightarrow> ObMember list \<Rightarrow> bool" where
  "learner_list_contains server learners =
     (if \<not> addr_is_valid server then False else first_index (\<lambda>m. m_server m = server) 0 learners \<noteq> None)"

definition LEADER_GROUP_BUFFER_BYTES :: u64 where "LEADER_GROUP_BUFFER_BYTES = 0x2000000"  \<comment> \<open>\<open>2^25\<close>\<close>

definition ack_log :: "cp_env \<Rightarrow> ObAddr \<Rightarrow> LSN \<Rightarrow> CommitState \<Rightarrow> (ob_ret \<times> cp_effect list \<times> CommitState) option" where
  "ack_log E src_server end_lsn s =
     (if \<not> addr_is_valid src_server \<or> \<not> lsn_is_valid end_lsn then Some (OB_INVALID_ARGUMENT, [], s)
      else let in_member_list = mlb_contains src_server (log_sync_memberlist (cs_config s));
               in_degraded_list = learner_list_contains src_server (degraded_learnerlist (cs_config s))
           in if \<not> in_member_list \<and> \<not> in_degraded_list then Some (OB_SUCCESS, [], s)
              else case try_update_match_lsn_map E src_server end_lsn (match_lsn_map s) of
                     (ret, m) \<Rightarrow>
                       if ret \<noteq> OB_SUCCESS then Some (ret, [], s\<lparr>match_lsn_map := m\<rparr>)
                       else let s = s\<lparr>match_lsn_map := m\<rparr>; old_committed_end_lsn = committed_end_lsn s
                            in if leader_active E then
                                 (case gen_committed_end_lsn E s of
                                    None \<Rightarrow> None
                                  | Some (_, new_committed_end_lsn, s) \<Rightarrow>
                                      Some (OB_SUCCESS,
                                        (if lsn_gt new_committed_end_lsn old_committed_end_lsn
                                         then [BroadcastCommittedInfo new_committed_end_lsn] else [])
                                        @ (if in_degraded_list
                                              \<and> lsn_ge end_lsn (lsn_minus (env_max_lsn E) (2 * LEADER_GROUP_BUFFER_BYTES))
                                           then [SetSyncToDegradedLearners] else [])
                                        @ [HandleCommittedLog (committed_end_lsn s)], s))
                               else Some (OB_SUCCESS, [HandleCommittedLog (committed_end_lsn s)], s))"

text \<open>The part of \<^verbatim>\<open>after_flush_log\<close> behind the checks of the log task.\<close>

definition inc_update_max_flushed_end_lsn :: "LSN \<Rightarrow> CommitState \<Rightarrow> CommitState" where
  "inc_update_max_flushed_end_lsn end_lsn s =
     (if \<not> lsn_is_valid end_lsn then s
      else if lsn_is_valid (max_flushed_end_lsn s) \<and> lsn_ge (max_flushed_end_lsn s) end_lsn then s
      else s\<lparr>max_flushed_end_lsn := end_lsn\<rparr>)"

definition after_flush_commit :: "cp_env \<Rightarrow> LSN \<Rightarrow> CommitState \<Rightarrow> CommitState option" where
  "after_flush_commit E log_end_lsn s =
     (let s = inc_update_max_flushed_end_lsn log_end_lsn s;
          s = (if leader_role E
               then s\<lparr>match_lsn_map := snd (try_update_match_lsn_map E (cs_self s) log_end_lsn (match_lsn_map s))\<rparr> else s)
      in if leader_active E then map_option (\<lambda>(_, _, s). s) (gen_committed_end_lsn E s) else Some s)"

text \<open>\<^verbatim>\<open>config_change_update_match_lsn_map\<close>: an entry that exists and an entry that is missing are no errors
  of the two loops; another error ends both.  The committed logs are handled between the two advances.\<close>

fun added_loop :: "cp_env \<Rightarrow> ObAddr list \<Rightarrow> SvrMatchOffsetMap \<Rightarrow> ob_ret \<times> SvrMatchOffsetMap" where
  "added_loop E [] m = (OB_SUCCESS, m)"
| "added_loop E (s # ss) m =
     (case hm_insert (alloc_ok E s) s (lt_of (LSN 0) (now_us E)) m of
        (tmp_ret, m) \<Rightarrow> if tmp_ret \<noteq> OB_SUCCESS \<and> OB_ENTRY_EXIST \<noteq> tmp_ret then (tmp_ret, m) else added_loop E ss m)"

fun removed_loop :: "ObAddr list \<Rightarrow> SvrMatchOffsetMap \<Rightarrow> SvrMatchOffsetMap" where
  "removed_loop [] m = m"
| "removed_loop (s # ss) m =
     (case hm_erase s m of
        (tmp_ret, m) \<Rightarrow> if tmp_ret \<noteq> OB_SUCCESS \<and> OB_ENTRY_NOT_EXIST \<noteq> tmp_ret then m else removed_loop ss m)"

definition config_change_update_match_lsn_map ::
  "cp_env \<Rightarrow> ObMemberList \<Rightarrow> ObMemberList \<Rightarrow> ObMemberList \<Rightarrow> int \<Rightarrow> CommitState \<Rightarrow> (ob_ret \<times> cp_effect list \<times> CommitState) option" where
  "config_change_update_match_lsn_map E added removed new_log_sync_memberlist new_replica_num s =
     (let (tmp_ret, m) = added_loop E (mlb_get_addr_array added) (match_lsn_map s);
          m = (if tmp_ret = OB_SUCCESS then removed_loop (mlb_get_addr_array removed) m else m)
      in case gen_committed_end_lsn E (s\<lparr>match_lsn_map := m\<rparr>) of
           None \<Rightarrow> None
         | Some (_, _, s) \<Rightarrow>
             let effects = [HandleCommittedLog (committed_end_lsn s)]
             in if leader_active E then
                  map_option (\<lambda>(_, s). (OB_SUCCESS, effects, s))
                    (gen_committed_end_lsn_with_memberlist new_log_sync_memberlist new_replica_num s)
                else Some (OB_SUCCESS, effects, s))"

section \<open>What a majority has\<close>

lemma match_lsns_eq: "match_lsns m ss = map (\<lambda>s. lt_lsn (the (m s))) (filter (\<lambda>s. m s \<noteq> None) ss)"
  by (induction ss) (auto simp: hm_get_def)

text \<open>The element with index \<open>k\<close> of a descending list is reached by more than \<open>k\<close> elements, and a larger value
  by at most \<open>k\<close>.\<close>

lemma count_sort_desc: "length (filter P (lsn_sort_desc xs)) = length (filter P xs)"
proof -
  have "mset (lsn_sort_desc xs) = mset xs" by (simp add: lsn_sort_desc_def)
  then have "mset (filter P (lsn_sort_desc xs)) = mset (filter P xs)" by (simp add: mset_filter)
  then show ?thesis by (metis size_mset)
qed

lemma lsn_sort_desc_nth:
  assumes "i \<le> j" "j < length xs"
  shows "lsn_val (lsn_sort_desc xs ! j) \<le> lsn_val (lsn_sort_desc xs ! i)"
proof -
  let ?ys = "sort_key lsn_val xs"
  have "map lsn_val ?ys ! (length xs - 1 - j) \<le> map lsn_val ?ys ! (length xs - 1 - i)"
    by (rule sorted_nth_mono) (use assms in auto)
  then show ?thesis using assms by (simp add: lsn_sort_desc_def rev_nth)
qed

lemma nth_desc_reached:
  assumes "k < length xs"
  shows "k < length (filter (\<lambda>x. lsn_val (lsn_sort_desc xs ! k) \<le> lsn_val x) xs)"
proof -
  let ?ys = "lsn_sort_desc xs"
  have len: "length ?ys = length xs" by (simp add: lsn_sort_desc_def)
  have "{0..k} \<subseteq> {i. i < length ?ys \<and> lsn_val (?ys ! k) \<le> lsn_val (?ys ! i)}"
    using lsn_sort_desc_nth assms len by auto
  then have "card {0..k} \<le> card {i. i < length ?ys \<and> lsn_val (?ys ! k) \<le> lsn_val (?ys ! i)}"
    by (rule card_mono [rotated]) simp
  then have "k < length (filter (\<lambda>x. lsn_val (?ys ! k) \<le> lsn_val x) ?ys)"
    by (simp add: length_filter_conv_card)
  then show ?thesis by (simp add: count_sort_desc)
qed

lemma nth_desc_best:
  assumes "k < length xs" "lsn_val (lsn_sort_desc xs ! k) < v"
  shows "length (filter (\<lambda>x. v \<le> lsn_val x) xs) \<le> k"
proof -
  let ?ys = "lsn_sort_desc xs"
  have len: "length ?ys = length xs" by (simp add: lsn_sort_desc_def)
  have "i < k" if "i < length ?ys" "v \<le> lsn_val (?ys ! i)" for i
  proof (rule ccontr)
    assume "\<not> i < k"
    then have "lsn_val (?ys ! i) \<le> lsn_val (?ys ! k)" using lsn_sort_desc_nth [of k i xs] that(1) len by simp
    with that(2) assms(2) show False by simp
  qed
  then have "{i. i < length ?ys \<and> v \<le> lsn_val (?ys ! i)} \<subseteq> {..<k}" by auto
  then have "card {i. i < length ?ys \<and> v \<le> lsn_val (?ys ! i)} \<le> card {..<k}" by (rule card_mono [rotated]) simp
  then have "length (filter (\<lambda>x. v \<le> lsn_val x) ?ys) \<le> k" by (simp add: length_filter_conv_card)
  then show ?thesis by (simp add: count_sort_desc)
qed

text \<open>How many members of a list have the log up to an LSN according to the map.\<close>

definition matched :: "SvrMatchOffsetMap \<Rightarrow> ObAddr \<Rightarrow> LSN \<Rightarrow> bool" where
  "matched m s l = (case m s of None \<Rightarrow> False | Some v \<Rightarrow> lsn_val l \<le> lsn_val (lt_lsn v))"

definition count_matched :: "SvrMatchOffsetMap \<Rightarrow> ObMemberList \<Rightarrow> LSN \<Rightarrow> nat" where
  "count_matched m ml l = length (filter (\<lambda>s. matched m s l) (mlb_get_addr_array ml))"

definition covered :: "SvrMatchOffsetMap \<Rightarrow> ObMemberList \<Rightarrow> int \<Rightarrow> bool" where
  "covered m ml replica_num \<longleftrightarrow> replica_num div 2 + 1 \<le> int (length (match_lsns m (mlb_get_addr_array ml)))"

lemma count_matched_eq: "count_matched m ml l = length (filter (\<lambda>x. lsn_val l \<le> lsn_val x) (match_lsns m (mlb_get_addr_array ml)))"
proof -
  have "length (filter (\<lambda>s. matched m s l) ss) = length (filter (\<lambda>x. lsn_val l \<le> lsn_val x) (match_lsns m ss))" for ss
    by (induction ss) (auto simp: matched_def hm_get_def split: option.splits)
  then show ?thesis by (simp add: count_matched_def)
qed

lemma get_majority_lsn_covered:
  assumes "get_majority_lsn m ml n = Some (OB_SUCCESS, l)" "covered m ml n"
  shows "lsn_is_valid l \<and> n div 2 < int (count_matched m ml l)
    \<and> (\<forall>l'. lsn_val l < lsn_val l' \<longrightarrow> int (count_matched m ml l') \<le> n div 2)"
proof -
  let ?xs = "match_lsns m (mlb_get_addr_array ml)"
  have n: "0 < n" "n div 2 < int (length ?xs)" using assms by (auto simp: get_majority_lsn_def covered_def split: if_splits)
  then have l: "l = lsn_sort_desc ?xs ! nat (n div 2)" "lsn_is_valid l"
    using assms(1) by (auto simp: get_majority_lsn_def Let_def split: if_splits)
  have k: "nat (n div 2) < length ?xs" using n by (simp add: nat_less_iff)
  have "int (count_matched m ml l') \<le> n div 2" if "lsn_val l < lsn_val l'" for l'
    using nth_desc_best [OF k, of "lsn_val l'"] that l(1) n(1) by (simp add: count_matched_eq)
  moreover have "n div 2 < int (count_matched m ml l)"
    using nth_desc_reached [OF k] l(1) n(1) by (simp add: count_matched_eq nat_less_iff)
  ultimately show ?thesis using l(2) by blast
qed

lemma get_majority_lsn_uncovered: "0 < n \<Longrightarrow> \<not> covered m ml n \<Longrightarrow> get_majority_lsn m ml n = Some (OB_SUCCESS, lsn_reset)"
  by (simp add: get_majority_lsn_def covered_def Let_def)

end
