(* ===== verification/CommitConc.thy ===== *)
theory CommitConc
  imports CommitPoint
begin

text \<open>
  Threads of a leader that record acknowledgements and advance the commit point at the same time.  The
  handlers \<^verbatim>\<open>ack_log\<close> and \<^verbatim>\<open>after_flush_log\<close> run under the read lock of the replica, so their actions
  interleave: the update of the map and each evaluation of a majority under \<^verbatim>\<open>match_lsn_map_lock_\<close>, the read of
  the commit point for the barrier, and the load and the compare-and-swap of
  \<^verbatim>\<open>try_advance_committed_lsn_\<close>.  A reset of the map, a reconfiguration and a flashback run under the write
  lock, alone.

  \<open>cp_reports\<close> collects what the servers have reported since the last reset of the map: acknowledged LSNs
  and the leader's own flushed LSN.  The theorems relate the commit point to these reports.
\<close>

section \<open>Reports\<close>

definition acked :: "(ObAddr \<times> LSN) set \<Rightarrow> ObAddr \<Rightarrow> LSN \<Rightarrow> bool" where
  "acked R s l \<longleftrightarrow> (\<exists>l'. (s, l') \<in> R \<and> lsn_val l \<le> lsn_val l')"

definition majority_acked :: "(ObAddr \<times> LSN) set \<Rightarrow> ObMemberList \<Rightarrow> int \<Rightarrow> LSN \<Rightarrow> bool" where
  "majority_acked R ml replica_num l \<longleftrightarrow> replica_num div 2 < int (length (filter (\<lambda>s. acked R s l) (mlb_get_addr_array ml)))"

text \<open>An LSN may be committed when a majority of the current configuration has it, or, up to the barrier of the
  last reconfiguration, a majority of the previous one.\<close>

definition supported :: "(ObAddr \<times> LSN) set \<Rightarrow> LogConfigView \<Rightarrow> LSN \<Rightarrow> bool" where
  "supported R c l \<longleftrightarrow>
     majority_acked R (log_sync_memberlist c) (log_sync_replica_num c) l
     \<or> lsn_is_valid (barrier_prev_end_lsn c) \<and> lsn_val l \<le> lsn_val (barrier_prev_end_lsn c)
       \<and> majority_acked R (prev_log_sync_memberlist c) (prev_log_sync_replica_num c) l"

section \<open>Threads\<close>

text \<open>Where a thread stands: about to record an LSN (the flag tells a flush from an acknowledgement), about to
  decide about the barrier, to evaluate the current and the previous majority, to ask whether an arbitration
  reconfiguration is pending, to load the commit point, to swap it.  The flag of the last three is false when a majority was missing in the map before the barrier.\<close>

datatype cp_pc =
    CIdle
  | CUpdate bool ObAddr LSN
  | CGen
  | CCurr bool LSN
  | CPrev LSN LSN
  | CResult bool LSN
  | CAdvance bool LSN
  | CCas bool LSN LSN

record cp_sys =
  cp_state :: CommitState
  cp_pcs :: "nat \<Rightarrow> cp_pc"
  cp_reports :: "(ObAddr \<times> LSN) set"

abbreviation cp_goto :: "cp_sys \<Rightarrow> nat \<Rightarrow> cp_pc \<Rightarrow> cp_sys" where
  "cp_goto s t pc \<equiv> s\<lparr>cp_pcs := (cp_pcs s)(t := pc)\<rparr>"

text \<open>One action of a thread; \<open>None\<close> is a failed assertion.\<close>

definition cp_act :: "cp_env \<Rightarrow> nat \<Rightarrow> cp_sys \<Rightarrow> cp_sys option" where
  "cp_act E t s =
     (let x = cp_state s; c = cs_config x in
      case cp_pcs s t of
        CIdle \<Rightarrow> Some s
      | CUpdate flush server end_lsn \<Rightarrow>
          (case try_update_match_lsn_map E server end_lsn (match_lsn_map x) of
             (ret, m) \<Rightarrow>
               Some ((cp_goto s t (if (ret = OB_SUCCESS \<or> flush) \<and> leader_active E then CGen else CIdle))
                 \<lparr>cp_state := x\<lparr>match_lsn_map := m\<rparr>,
                  cp_reports := (if ret = OB_SUCCESS then insert (server, end_lsn) (cp_reports s) else cp_reports s)\<rparr>))
      | CGen \<Rightarrow>
          (case before_barrier E (committed_end_lsn x) c of
             (is_before_barrier, barrier_lsn) \<Rightarrow> Some (cp_goto s t (CCurr is_before_barrier barrier_lsn)))
      | CCurr is_before_barrier barrier_lsn \<Rightarrow>
          (case get_majority_lsn (match_lsn_map x) (log_sync_memberlist c) (log_sync_replica_num c) of
             None \<Rightarrow> None
           | Some (ret, curr_result_lsn) \<Rightarrow>
               Some (cp_goto s t
                 (if ret \<noteq> OB_SUCCESS then CIdle
                  else if is_before_barrier then CPrev barrier_lsn curr_result_lsn
                  else CResult True (combine_results False barrier_lsn lsn_reset curr_result_lsn))))
      | CPrev barrier_lsn curr_result_lsn \<Rightarrow>
          (case get_majority_lsn (match_lsn_map x) (prev_log_sync_memberlist c) (prev_log_sync_replica_num c) of
             None \<Rightarrow> None
           | Some (ret, prev_result_lsn) \<Rightarrow>
               Some (cp_goto s t
                 (if ret \<noteq> OB_SUCCESS then CIdle
                  else CResult (lsn_is_valid curr_result_lsn \<and> lsn_is_valid prev_result_lsn)
                         (combine_results True barrier_lsn prev_result_lsn curr_result_lsn))))
      | CResult cov result_lsn \<Rightarrow> Some (cp_goto s t (if changing_config_with_arb E then CIdle else CAdvance cov result_lsn))
      | CAdvance cov end_lsn \<Rightarrow>
          Some (cp_goto s t
            (if lsn_is_valid end_lsn \<and> lsn_gt end_lsn (committed_end_lsn x) then CCas cov end_lsn (committed_end_lsn x) else CIdle))
      | CCas cov end_lsn old_committed_end_lsn \<Rightarrow>
          if committed_end_lsn x = old_committed_end_lsn
          then Some ((cp_goto s t CIdle)\<lparr>cp_state := x\<lparr>committed_end_lsn := end_lsn\<rparr>\<rparr>)
          else Some (cp_goto s t (CAdvance cov end_lsn)))"

definition all_idle :: "cp_sys \<Rightarrow> bool" where
  "all_idle s \<longleftrightarrow> (\<forall>t. cp_pcs s t = CIdle)"

text \<open>Configurations have one to seven replicas and well-formed member lists; the previous configuration
  matters when there is a barrier.\<close>

definition config_ok :: "LogConfigView \<Rightarrow> bool" where
  "config_ok c \<longleftrightarrow> 0 < log_sync_replica_num c \<and> log_sync_replica_num c \<le> 7 \<and> mlb_wf (log_sync_memberlist c)
     \<and> (lsn_is_valid (barrier_prev_end_lsn c) \<longrightarrow>
          0 < prev_log_sync_replica_num c \<and> prev_log_sync_replica_num c \<le> 7 \<and> mlb_wf (prev_log_sync_memberlist c))"

text \<open>Steps of the handlers and the reconfiguration.\<close>

inductive cp_step :: "cp_sys \<Rightarrow> cp_sys \<Rightarrow> bool" where
  ack: "cp_pcs s t = CIdle \<Longrightarrow> addr_is_valid server \<Longrightarrow> lsn_is_valid end_lsn \<Longrightarrow>
    mlb_contains server (log_sync_memberlist (cs_config (cp_state s)))
      \<or> learner_list_contains server (degraded_learnerlist (cs_config (cp_state s))) \<Longrightarrow>
    cp_step s (cp_goto s t (CUpdate False server end_lsn))"
| flush: "cp_pcs s t = CIdle \<Longrightarrow>
    cp_step s ((cp_goto s t (if leader_role (E :: cp_env) then CUpdate True (cs_self (cp_state s)) log_end_lsn
                             else if leader_active E then CGen else CIdle))
      \<lparr>cp_state := inc_update_max_flushed_end_lsn log_end_lsn (cp_state s)\<rparr>)"
| act: "cp_act E t s = Some s' \<Longrightarrow> cp_step s s'"
| reconfigure: "all_idle s \<Longrightarrow> config_ok c \<Longrightarrow>
    config_change_update_match_lsn_map E added removed (log_sync_memberlist c) (log_sync_replica_num c)
      ((cp_state s)\<lparr>cs_config := c\<rparr>) = Some (ret, effects, x) \<Longrightarrow>
    cp_step s (s\<lparr>cp_state := x\<rparr>)"

text \<open>Steps outside the commit protocol, named by what they are given: the reset of the map on a change of role; a
  flashback to an LSN; and \<^verbatim>\<open>try_advance_committed_lsn_\<close> with an LSN that another component hands in, such as the
  commit point in the header of a received log, in the leader's \<^verbatim>\<open>committed_info\<close>, of a log read from disk, or at the end
  of a reconfirmation.\<close>

datatype cp_outside = ResetMap | Flashback LSN | TakeOver LSN

inductive cp_other_step :: "cp_outside \<Rightarrow> cp_sys \<Rightarrow> cp_sys \<Rightarrow> bool" where
  reset: "all_idle s \<Longrightarrow> reset_match_lsn_map E (cp_state s) = (ret, x) \<Longrightarrow>
    cp_other_step ResetMap s (s\<lparr>cp_state := x, cp_reports := {(cs_self x, max_flushed_end_lsn x)}\<rparr>)"
| flashback: "all_idle s \<Longrightarrow> lsn_is_valid curr_lsn \<Longrightarrow>
    reset_match_lsn_map E ((cp_state s)\<lparr>committed_end_lsn := curr_lsn, max_flushed_end_lsn := curr_lsn\<rparr>) = (ret, x) \<Longrightarrow>
    cp_other_step (Flashback curr_lsn) s (s\<lparr>cp_state := x, cp_reports := {(cs_self x, curr_lsn)}\<rparr>)"
| take_over: "try_advance_committed_lsn end_lsn (cp_state s) = (ret, x) \<Longrightarrow>
    cp_other_step (TakeOver end_lsn) s (s\<lparr>cp_state := x\<rparr>)"

definition cp_initial :: "cp_sys \<Rightarrow> bool" where
  "cp_initial s \<longleftrightarrow> all_idle s \<and> cp_reports s = {} \<and> match_lsn_map (cp_state s) = (\<lambda>_. None)
     \<and> lsn_is_valid (committed_end_lsn (cp_state s)) \<and> lsn_is_valid (max_flushed_end_lsn (cp_state s))
     \<and> config_ok (cs_config (cp_state s))"

inductive cp_reach :: "cp_sys \<Rightarrow> bool" where
  initial: "cp_initial s \<Longrightarrow> cp_reach s"
| step: "cp_reach s \<Longrightarrow> cp_step s s' \<Longrightarrow> cp_reach s'"
| other: "cp_reach s \<Longrightarrow> cp_other_step e s s' \<Longrightarrow> cp_reach s'"

section \<open>Soundness of the map\<close>

definition map_sound :: "(ObAddr \<times> LSN) set \<Rightarrow> LSN \<Rightarrow> SvrMatchOffsetMap \<Rightarrow> bool" where
  "map_sound R com m \<longleftrightarrow> (\<forall>s v. m s = Some v \<longrightarrow>
     lsn_is_valid (lt_lsn v) \<and> (lsn_val (lt_lsn v) \<le> lsn_val com \<or> acked R s (lt_lsn v)))"

definition result_ok :: "(ObAddr \<times> LSN) set \<Rightarrow> LSN \<Rightarrow> ObMemberList \<Rightarrow> int \<Rightarrow> LSN \<Rightarrow> bool" where
  "result_ok R com ml n l \<longleftrightarrow> \<not> lsn_is_valid l \<or> lsn_val l \<le> lsn_val com \<or> majority_acked R ml n l"

definition evidence :: "(ObAddr \<times> LSN) set \<Rightarrow> LogConfigView \<Rightarrow> LSN \<Rightarrow> bool \<Rightarrow> LSN \<Rightarrow> bool" where
  "evidence R c com cov l \<longleftrightarrow>
     (if cov then \<not> lsn_is_valid l \<or> lsn_val l \<le> lsn_val com \<or> supported R c l
      else l = barrier_prev_end_lsn c)"

lemma acked_mono: "acked R s l \<Longrightarrow> R \<subseteq> R' \<Longrightarrow> lsn_val l' \<le> lsn_val l \<Longrightarrow> acked R' s l'"
  unfolding acked_def by (meson order_trans subsetD)

lemma majority_acked_mono:
  assumes "majority_acked R ml n l" "R \<subseteq> R'" "lsn_val l' \<le> lsn_val l"
  shows "majority_acked R' ml n l'"
proof -
  have "length (filter (\<lambda>s. acked R s l) xs) \<le> length (filter (\<lambda>s. acked R' s l') xs)" for xs
    using acked_mono [OF _ assms(2,3)] by (induction xs) (auto intro: le_SucI)
  then show ?thesis using assms(1) unfolding majority_acked_def by (meson of_nat_mono less_le_trans)
qed

lemma supported_mono: "supported R c l \<Longrightarrow> R \<subseteq> R' \<Longrightarrow> supported R' c l"
  using majority_acked_mono [of R _ _ l R' l] by (auto simp: supported_def)

lemma result_ok_mono: "result_ok R com ml n l \<Longrightarrow> R \<subseteq> R' \<Longrightarrow> lsn_val com \<le> lsn_val com' \<Longrightarrow> result_ok R' com' ml n l"
  using majority_acked_mono [of R ml n l R' l] by (auto simp: result_ok_def)

lemma evidence_mono: "evidence R c com cov l \<Longrightarrow> R \<subseteq> R' \<Longrightarrow> lsn_val com \<le> lsn_val com' \<Longrightarrow> evidence R' c com' cov l"
  using supported_mono [of R c l R'] by (auto simp: evidence_def)

lemma map_sound_mono: "map_sound R com m \<Longrightarrow> R \<subseteq> R' \<Longrightarrow> lsn_val com \<le> lsn_val com' \<Longrightarrow> map_sound R' com' m"
  unfolding map_sound_def by (meson acked_mono order_refl order_trans)

lemma get_majority_result_ok:
  assumes "map_sound R com m" "get_majority_lsn m ml n = Some (OB_SUCCESS, l)"
  shows "result_ok R com ml n l"
proof (cases "covered m ml n \<and> \<not> lsn_val l \<le> lsn_val com")
  case True
  have sub: "acked R s l" if ms: "matched m s l" for s
  proof -
    obtain v where v: "m s = Some v" "lsn_val l \<le> lsn_val (lt_lsn v)" using ms by (auto simp: matched_def split: option.splits)
    then have "acked R s (lt_lsn v)" using assms(1) True unfolding map_sound_def by (meson order_trans)
    then show ?thesis using v(2) acked_mono by blast
  qed
  have "length (filter (\<lambda>s. matched m s l) xs) \<le> length (filter (\<lambda>s. acked R s l) xs)" for xs
    by (induction xs) (auto intro: le_SucI simp: sub)
  then have "count_matched m ml l \<le> length (filter (\<lambda>s. acked R s l) (mlb_get_addr_array ml))"
    unfolding count_matched_def .
  then show ?thesis
    using get_majority_lsn_covered [OF assms(2)] True by (auto simp: result_ok_def majority_acked_def)
next
  case False
  moreover have "0 < n" using assms(2) by (auto simp: get_majority_lsn_def split: if_splits)
  ultimately show ?thesis
    using get_majority_lsn_uncovered [of n m ml] assms(2) by (auto simp: result_ok_def lsn_is_valid_def lsn_reset_def)
qed

lemma combine_evidence:
  assumes "result_ok R com (log_sync_memberlist c) (log_sync_replica_num c) cur"
    "result_ok R com (prev_log_sync_memberlist c) (prev_log_sync_replica_num c) prev"
    "lsn_is_valid (barrier_prev_end_lsn c)"
  shows "evidence R c com (lsn_is_valid cur \<and> lsn_is_valid prev) (combine_results True (barrier_prev_end_lsn c) prev cur)"
proof -
  let ?b = "barrier_prev_end_lsn c" and ?l = "combine_results True (barrier_prev_end_lsn c) prev cur"
  have top: "lsn_val x \<le> LOG_INVALID_LSN_VAL" for x
    using uint_lt64 [of "lsn_val x"] by (simp only: word_le_def uint_lsn_const)
  show ?thesis
  proof (cases "lsn_is_valid cur \<and> lsn_is_valid prev")
    case True
    have le: "lsn_val ?l \<le> lsn_val ?b" "lsn_val ?l \<le> lsn_val cur \<or> lsn_val ?l \<le> lsn_val prev"
      by (auto simp: combine_results_def Let_def lsn_MIN_def lsn_MAX_def lsn_lt_def lsn_gt_def simp del: lsn_cmp)
    then consider "lsn_val ?l \<le> lsn_val cur" | "lsn_val ?l \<le> lsn_val prev" by blast
    then have "lsn_val ?l \<le> lsn_val com \<or> supported R c ?l"
    proof cases
      case 1
      then show ?thesis
        using assms(1) True majority_acked_mono [OF _ order_refl 1] by (auto simp: result_ok_def supported_def)
    next
      case 2
      then show ?thesis
        using assms(2,3) True le(1) majority_acked_mono [OF _ order_refl 2] by (auto simp: result_ok_def supported_def)
    qed
    then show ?thesis using True by (simp add: evidence_def)
  next
    case False
    then have inv: "lsn_val cur = LOG_INVALID_LSN_VAL \<or> lsn_val prev = LOG_INVALID_LSN_VAL" by (auto simp: lsn_is_valid_def)
    have "lsn_val (lsn_MAX prev cur) = LOG_INVALID_LSN_VAL"
      using inv top [of cur] top [of prev] by (auto simp: lsn_MAX_def lsn_gt_def lsn_lt_def simp del: lsn_cmp)
    moreover have "lsn_val ?b < LOG_INVALID_LSN_VAL" using top [of ?b] assms(3) by (auto simp: lsn_is_valid_def order_less_le)
    ultimately have "?l = ?b" by (auto simp: combine_results_def Let_def lsn_MIN_def lsn_lt_def simp del: lsn_cmp)
    then show ?thesis using False unfolding evidence_def by (simp only: if_False)
  qed
qed

section \<open>Invariant\<close>

fun pc_ok :: "(ObAddr \<times> LSN) set \<Rightarrow> LogConfigView \<Rightarrow> LSN \<Rightarrow> cp_pc \<Rightarrow> bool" where
  "pc_ok R c com (CCurr b barrier) \<longleftrightarrow> (b \<longrightarrow> barrier = barrier_prev_end_lsn c \<and> lsn_is_valid barrier)"
| "pc_ok R c com (CPrev barrier cur) \<longleftrightarrow> barrier = barrier_prev_end_lsn c \<and> lsn_is_valid barrier
     \<and> result_ok R com (log_sync_memberlist c) (log_sync_replica_num c) cur"
| "pc_ok R c com (CResult cov l) \<longleftrightarrow> evidence R c com cov l"
| "pc_ok R c com (CAdvance cov l) \<longleftrightarrow> evidence R c com cov l"
| "pc_ok R c com (CCas cov l old) \<longleftrightarrow> evidence R c com cov l \<and> lsn_is_valid l \<and> lsn_val old < lsn_val l"
| "pc_ok R c com _ \<longleftrightarrow> True"

definition cp_inv :: "cp_sys \<Rightarrow> bool" where
  "cp_inv s \<longleftrightarrow> map_sound (cp_reports s) (committed_end_lsn (cp_state s)) (match_lsn_map (cp_state s))
     \<and> lsn_is_valid (committed_end_lsn (cp_state s)) \<and> lsn_is_valid (max_flushed_end_lsn (cp_state s))
     \<and> config_ok (cs_config (cp_state s))
     \<and> (\<forall>t. pc_ok (cp_reports s) (cs_config (cp_state s)) (committed_end_lsn (cp_state s)) (cp_pcs s t))"

lemma pc_ok_mono: "pc_ok R c com pc \<Longrightarrow> R \<subseteq> R' \<Longrightarrow> lsn_val com \<le> lsn_val com' \<Longrightarrow> pc_ok R' c com' pc"
  by (cases pc) (auto intro: result_ok_mono evidence_mono)

lemma map_sound_upd:
  "map_sound R com m \<Longrightarrow> lsn_is_valid (lt_lsn v) \<Longrightarrow> lsn_val (lt_lsn v) \<le> lsn_val com \<or> acked R s (lt_lsn v)
   \<Longrightarrow> map_sound R com (m(s := Some v))"
  by (simp add: map_sound_def)

lemma UpdateMatchLsnFunc_lsn: "lt_lsn (snd (UpdateMatchLsnFunc l ts v)) \<in> {l, lt_lsn v}"
  by (simp add: UpdateMatchLsnFunc_def Let_def)

lemma map_sound_update:
  assumes "map_sound R com m" "try_update_match_lsn_map E server l m = (ret, m')"
  shows "map_sound (if ret = OB_SUCCESS then insert (server, l) R else R) com m'"
proof (cases "ret = OB_SUCCESS")
  case True
  have r: "map_sound (insert (server, l) R) com m" by (rule map_sound_mono [OF assms(1)]) auto
  have l: "lsn_is_valid l" using assms(2) True by (auto simp: try_update_match_lsn_map_def split: if_splits)
  have new: "acked (insert (server, l) R) server l" by (auto simp: acked_def)
  have "m' = m(server := Some (lt_of l (now_us E)))
      \<or> (\<exists>v. m server = Some v \<and> m' = m(server := Some (snd (UpdateMatchLsnFunc l (now_us E) v))))"
    using assms(2) True
    by (auto simp: try_update_match_lsn_map_def hm_get_def hm_insert_def hm_operate_def split: if_splits option.splits prod.splits)
  then show ?thesis
  proof
    assume "m' = m(server := Some (lt_of l (now_us E)))"
    then show ?thesis using map_sound_upd [OF r, of "lt_of l (now_us E)" server] l new True by (simp add: lt_of_def)
  next
    assume "\<exists>v. m server = Some v \<and> m' = m(server := Some (snd (UpdateMatchLsnFunc l (now_us E) v)))"
    then obtain v where v: "m server = Some v" "m' = m(server := Some (snd (UpdateMatchLsnFunc l (now_us E) v)))" by blast
    let ?v = "snd (UpdateMatchLsnFunc l (now_us E) v)"
    have "lsn_is_valid (lt_lsn v)" "lsn_val (lt_lsn v) \<le> lsn_val com \<or> acked (insert (server, l) R) server (lt_lsn v)"
      using r v(1) by (auto simp: map_sound_def)
    then have "lsn_is_valid (lt_lsn ?v)" "lsn_val (lt_lsn ?v) \<le> lsn_val com \<or> acked (insert (server, l) R) server (lt_lsn ?v)"
      using UpdateMatchLsnFunc_lsn [of l "now_us E" v] l new by auto
    then show ?thesis using map_sound_upd [OF r] v(2) True by simp
  qed
next
  case False
  then have "m' = m"
    using assms(2)
    by (auto simp: try_update_match_lsn_map_def hm_get_def hm_insert_def hm_operate_def UpdateMatchLsnFunc_def Let_def
        split: if_splits option.splits)
  then show ?thesis using False assms(1) by simp
qed

text \<open>The sequential form of the advance.\<close>

definition advance_ok :: "(ObAddr \<times> LSN) set \<Rightarrow> SvrMatchOffsetMap \<Rightarrow> LogConfigView \<Rightarrow> LSN \<Rightarrow> LSN \<Rightarrow> bool" where
  "advance_ok R m c com com' \<longleftrightarrow> com' = com
     \<or> lsn_val com < lsn_val com' \<and> lsn_is_valid com'
       \<and> (supported R c com'
          \<or> com' = barrier_prev_end_lsn c
            \<and> \<not> (covered m (log_sync_memberlist c) (log_sync_replica_num c)
                 \<and> covered m (prev_log_sync_memberlist c) (prev_log_sync_replica_num c)))"

lemma advance_ok_le: "advance_ok R m c com com' \<Longrightarrow> lsn_val com \<le> lsn_val com'"
  by (auto simp: advance_ok_def)

lemma try_advance_evidence:
  assumes "evidence R (cs_config s) (committed_end_lsn s) cov l"
    "cov \<or> \<not> (covered m (log_sync_memberlist (cs_config s)) (log_sync_replica_num (cs_config s))
          \<and> covered m (prev_log_sync_memberlist (cs_config s)) (prev_log_sync_replica_num (cs_config s)))"
  shows "\<exists>com'. snd (try_advance_committed_lsn l s) = s\<lparr>committed_end_lsn := com'\<rparr>
    \<and> advance_ok R m (cs_config s) (committed_end_lsn s) com'"
  using assms
  by (auto simp: try_advance_committed_lsn_def advance_ok_def evidence_def lsn_gt_def lsn_lt_def intro: exI [of _ "committed_end_lsn s"]
      simp del: lsn_cmp split: if_splits)

lemma get_majority_lsn_valid:
  assumes "get_majority_lsn m ml n = Some (OB_SUCCESS, l)"
  shows "lsn_is_valid l \<longleftrightarrow> covered m ml n"
proof (cases "covered m ml n")
  case True
  then show ?thesis using get_majority_lsn_covered [OF assms] by simp
next
  case False
  moreover have "0 < n" using assms by (auto simp: get_majority_lsn_def split: if_splits)
  ultimately show ?thesis using get_majority_lsn_uncovered [of n m ml] assms by (simp add: lsn_is_valid_def lsn_reset_def)
qed

lemma gen_committed_ok:
  assumes "map_sound R (committed_end_lsn s) (match_lsn_map s)" "gen_committed_end_lsn E s = Some (ret, l, s')"
  shows "\<exists>com'. s' = s\<lparr>committed_end_lsn := com'\<rparr> \<and> advance_ok R (match_lsn_map s) (cs_config s) (committed_end_lsn s) com'"
proof -
  let ?c = "cs_config s" and ?m = "match_lsn_map s" and ?com = "committed_end_lsn s"
  have same: "\<exists>com'. s = s\<lparr>committed_end_lsn := com'\<rparr> \<and> advance_ok R ?m ?c ?com com'"
    by (rule exI [of _ ?com]) (simp add: advance_ok_def)
  obtain b barrier where b: "before_barrier E ?com ?c = (b, barrier)" by (cases "before_barrier E ?com ?c")
  have bar: "b \<Longrightarrow> barrier = barrier_prev_end_lsn ?c \<and> lsn_is_valid barrier"
    using b by (auto simp: before_barrier_def split: if_splits)
  obtain ret1 cur where cur: "get_majority_lsn ?m (log_sync_memberlist ?c) (log_sync_replica_num ?c) = Some (ret1, cur)"
    using assms(2) by (auto simp: gen_committed_end_lsn_def b Let_def split: option.splits)
  show ?thesis
  proof (cases "ret1 = OB_SUCCESS")
    case False
    then show ?thesis using assms(2) cur same by (auto simp: gen_committed_end_lsn_def b Let_def)
  next
    case True
    have rc: "result_ok R ?com (log_sync_memberlist ?c) (log_sync_replica_num ?c) cur"
      using get_majority_result_ok [OF assms(1)] cur True by simp
    show ?thesis
    proof (cases b)
      case False
      have e: "evidence R ?c ?com True (combine_results False barrier lsn_reset cur)"
        using rc by (auto simp: evidence_def combine_results_def result_ok_def supported_def)
      have "s' = s \<or> s' = snd (try_advance_committed_lsn (combine_results False barrier lsn_reset cur) s)"
        using assms(2) cur True False by (auto simp: gen_committed_end_lsn_def b Let_def split: if_splits)
      then show ?thesis using try_advance_evidence [OF e] same by auto
    next
      case before: True
      obtain ret2 prev where prev: "get_majority_lsn ?m (prev_log_sync_memberlist ?c) (prev_log_sync_replica_num ?c) = Some (ret2, prev)"
        using assms(2) cur True before by (auto simp: gen_committed_end_lsn_def b Let_def split: option.splits)
      show ?thesis
      proof (cases "ret2 = OB_SUCCESS")
        case False
        then show ?thesis using assms(2) cur True before prev same by (auto simp: gen_committed_end_lsn_def b Let_def)
      next
        case ok: True
        have rp: "result_ok R ?com (prev_log_sync_memberlist ?c) (prev_log_sync_replica_num ?c) prev"
          using get_majority_result_ok [OF assms(1)] prev ok by simp
        have e: "evidence R ?c ?com (lsn_is_valid cur \<and> lsn_is_valid prev) (combine_results True barrier prev cur)"
          using combine_evidence [OF rc rp] bar [OF before] by metis
        have "s' = s \<or> s' = snd (try_advance_committed_lsn (combine_results True barrier prev cur) s)"
          using assms(2) cur True before prev ok by (auto simp: gen_committed_end_lsn_def b Let_def split: if_splits)
        then show ?thesis
          using try_advance_evidence [OF e, of ?m] get_majority_lsn_valid cur prev True ok same by auto
      qed
    qed
  qed
qed

lemma gen_with_memberlist_ok:
  assumes "map_sound R (committed_end_lsn s) (match_lsn_map s)"
    "gen_committed_end_lsn_with_memberlist (log_sync_memberlist (cs_config s)) (log_sync_replica_num (cs_config s)) s = Some (ret, s')"
  shows "\<exists>com'. s' = s\<lparr>committed_end_lsn := com'\<rparr> \<and> advance_ok R (match_lsn_map s) (cs_config s) (committed_end_lsn s) com'"
proof -
  let ?c = "cs_config s" and ?com = "committed_end_lsn s"
  have same: "\<exists>com'. s = s\<lparr>committed_end_lsn := com'\<rparr> \<and> advance_ok R (match_lsn_map s) ?c ?com com'"
    by (rule exI [of _ ?com]) (simp add: advance_ok_def)
  have "s' = s \<or> (\<exists>l. get_majority_lsn (match_lsn_map s) (log_sync_memberlist ?c) (log_sync_replica_num ?c) = Some (OB_SUCCESS, l)
      \<and> s' = snd (try_advance_committed_lsn l s))"
    using assms(2) by (auto simp: gen_committed_end_lsn_with_memberlist_def split: if_splits option.splits)
  then show ?thesis
  proof
    assume "\<exists>l. get_majority_lsn (match_lsn_map s) (log_sync_memberlist ?c) (log_sync_replica_num ?c) = Some (OB_SUCCESS, l)
      \<and> s' = snd (try_advance_committed_lsn l s)"
    then obtain l where l: "get_majority_lsn (match_lsn_map s) (log_sync_memberlist ?c) (log_sync_replica_num ?c) = Some (OB_SUCCESS, l)"
      "s' = snd (try_advance_committed_lsn l s)" by blast
    have "evidence R ?c ?com True l"
      using get_majority_result_ok [OF assms(1) l(1)] by (auto simp: evidence_def result_ok_def supported_def)
    then show ?thesis using try_advance_evidence l(2) by blast
  qed (use same in simp)
qed

lemma advance_ok_trans: "advance_ok R m c a b \<Longrightarrow> advance_ok R m c b d \<Longrightarrow> advance_ok R m c a d"
  by (auto simp: advance_ok_def)

lemma advance_ok_valid: "advance_ok R m c com com' \<Longrightarrow> lsn_is_valid com \<Longrightarrow> lsn_is_valid com'"
  by (auto simp: advance_ok_def)

lemma added_loop_sound: "map_sound R com m \<Longrightarrow> added_loop E ss m = (ret, m') \<Longrightarrow> map_sound R com m'"
proof (induction ss arbitrary: m)
  case (Cons a ss)
  obtain r1 m1 where h: "hm_insert (alloc_ok E a) a (lt_of (LSN 0) (now_us E)) m = (r1, m1)" by (cases "hm_insert (alloc_ok E a) a (lt_of (LSN 0) (now_us E)) m")
  have z: "map_sound R com (m(a := Some (lt_of (LSN 0) (now_us E))))"
    by (rule map_sound_upd [OF Cons.prems(1)]) (simp_all add: lt_of_def lsn_is_valid_def LOG_INVALID_LSN_VAL_def)
  have "map_sound R com m1" using h z Cons.prems(1) by (auto simp: hm_insert_def split: if_splits)
  then show ?case using Cons.IH [of m1] Cons.prems(2) h by (auto split: if_splits)
qed simp

lemma map_sound_del: "map_sound R com m \<Longrightarrow> map_sound R com (m(s := None))"
  by (simp add: map_sound_def)

lemma removed_loop_sound: "map_sound R com m \<Longrightarrow> map_sound R com (removed_loop ss m)"
  by (induction ss arbitrary: m) (auto simp: hm_erase_def map_sound_del)

lemma config_change_ok:
  assumes "map_sound R (committed_end_lsn s) (match_lsn_map s)"
    "config_change_update_match_lsn_map E added removed (log_sync_memberlist (cs_config s)) (log_sync_replica_num (cs_config s)) s
     = Some (ret, effects, s')"
  shows "\<exists>m com'. s' = s\<lparr>match_lsn_map := m, committed_end_lsn := com'\<rparr> \<and> map_sound R com' m
    \<and> advance_ok R m (cs_config s) (committed_end_lsn s) com'"
proof -
  let ?c = "cs_config s" and ?com = "committed_end_lsn s"
  obtain r1 m1 where a: "added_loop E (mlb_get_addr_array added) (match_lsn_map s) = (r1, m1)"
    by (cases "added_loop E (mlb_get_addr_array added) (match_lsn_map s)")
  define m where "m = (if r1 = OB_SUCCESS then removed_loop (mlb_get_addr_array removed) m1 else m1)"
  have m: "map_sound R ?com m"
    using added_loop_sound [OF assms(1) a] removed_loop_sound by (simp add: m_def)
  obtain r2 l2 s2 where g: "gen_committed_end_lsn E (s\<lparr>match_lsn_map := m\<rparr>) = Some (r2, l2, s2)"
    using assms(2) by (auto simp: config_change_update_match_lsn_map_def a m_def split: option.splits)
  obtain com2 where s2: "s2 = s\<lparr>match_lsn_map := m, committed_end_lsn := com2\<rparr>" "advance_ok R m ?c ?com com2"
    using gen_committed_ok [OF _ g, of R] m by auto
  have m2: "map_sound R com2 m" by (rule map_sound_mono [OF m order_refl advance_ok_le [OF s2(2)]])
  show ?thesis
  proof (cases "leader_active E")
    case False
    then have "s' = s2" using assms(2) g by (auto simp: config_change_update_match_lsn_map_def a m_def)
    then show ?thesis using s2 m2 by blast
  next
    case True
    obtain r3 where w: "gen_committed_end_lsn_with_memberlist (log_sync_memberlist ?c) (log_sync_replica_num ?c) s2 = Some (r3, s')"
      using assms(2) g True by (auto simp: config_change_update_match_lsn_map_def a m_def)
    obtain com' where c': "s' = s2\<lparr>committed_end_lsn := com'\<rparr>" "advance_ok R m ?c com2 com'"
      using gen_with_memberlist_ok [of R s2 r3 s'] w m2 s2(1) by auto
    show ?thesis
      using c' s2 advance_ok_trans [OF s2(2) c'(2)] map_sound_mono [OF m2 order_refl advance_ok_le [OF c'(2)]] by auto
  qed
qed

lemma reset_loop_sound:
  assumes "map_sound R com m" "lsn_is_valid com" "lsn_is_valid mf" "(self, mf) \<in> R"
    "reset_match_loop E self mf com ss m = (ret, m')"
  shows "map_sound R com m'"
  using assms(1,5)
proof (induction ss arbitrary: m)
  case (Cons a ss)
  let ?v = "lt_of (if self = a then mf else com) (now_us E)"
  obtain r1 m1 where h: "hm_insert (alloc_ok E a) a ?v m = (r1, m1)" by (cases "hm_insert (alloc_ok E a) a ?v m")
  have z: "map_sound R com (m(a := Some ?v))"
    by (rule map_sound_upd [OF Cons.prems(1)]) (use assms(2-4) in \<open>auto simp: lt_of_def acked_def\<close>)
  have "map_sound R com m1" using h z Cons.prems(1) by (auto simp: hm_insert_def split: if_splits)
  then show ?case using Cons.IH [of m1] Cons.prems(2) h by (auto simp: Let_def split: if_splits)
qed simp

lemma reset_ok:
  assumes "reset_match_lsn_map E s = (ret, x)" "lsn_is_valid (committed_end_lsn s)" "lsn_is_valid (max_flushed_end_lsn s)"
  shows "\<exists>m. x = s\<lparr>match_lsn_map := m\<rparr> \<and> map_sound {(cs_self s, max_flushed_end_lsn s)} (committed_end_lsn s) m"
proof -
  obtain r m where l: "reset_match_loop E (cs_self s) (max_flushed_end_lsn s) (committed_end_lsn s)
      (mlb_get_addr_array (log_sync_memberlist (cs_config s))) (\<lambda>_. None) = (r, m)"
    by (cases "reset_match_loop E (cs_self s) (max_flushed_end_lsn s) (committed_end_lsn s)
      (mlb_get_addr_array (log_sync_memberlist (cs_config s))) (\<lambda>_. None)")
  have "map_sound {(cs_self s, max_flushed_end_lsn s)} (committed_end_lsn s) (\<lambda>_. None)" by (simp add: map_sound_def)
  from reset_loop_sound [OF this assms(2,3) _ l] show ?thesis
    using assms(1) l by (auto simp: reset_match_lsn_map_def)
qed

abbreviation cp_committed :: "cp_sys \<Rightarrow> LSN" where
  "cp_committed s \<equiv> committed_end_lsn (cp_state s)"

abbreviation cp_config :: "cp_sys \<Rightarrow> LogConfigView" where
  "cp_config s \<equiv> cs_config (cp_state s)"

lemma cp_inv_goto:
  "cp_inv s \<Longrightarrow> pc_ok (cp_reports s) (cp_config s) (cp_committed s) pc \<Longrightarrow> cp_inv (cp_goto s t pc)"
  by (simp add: cp_inv_def)

lemma get_majority_lsn_returns:
  assumes "0 < n" "n \<le> 7"
  shows "get_majority_lsn m ml n \<noteq> None"
proof -
  have "n div 2 < 7" using assms by arith
  then show ?thesis using assms by (simp add: get_majority_lsn_def Let_def OB_MAX_MEMBER_NUMBER_def)
qed

lemma cp_act_update:
  assumes "cp_inv s" "cp_pcs s t = CUpdate flush server l" "cp_act E t s = Some s'"
  shows "cp_inv s' \<and> cp_committed s' = cp_committed s"
proof -
  let ?x = "cp_state s"
  obtain ret m where u: "try_update_match_lsn_map E server l (match_lsn_map ?x) = (ret, m)"
    by (cases "try_update_match_lsn_map E server l (match_lsn_map ?x)")
  define R where "R = (if ret = OB_SUCCESS then insert (server, l) (cp_reports s) else cp_reports s)"
  define pc where "pc = (if (ret = OB_SUCCESS \<or> flush) \<and> leader_active E then CGen else CIdle)"
  have s': "s' = (cp_goto s t pc)\<lparr>cp_state := ?x\<lparr>match_lsn_map := m\<rparr>, cp_reports := R\<rparr>"
    using assms(2,3) u by (simp add: cp_act_def Let_def R_def pc_def)
  have sub: "cp_reports s \<subseteq> R" by (auto simp: R_def)
  have pcs: "pc_ok R (cp_config s) (cp_committed s) (cp_pcs s t')" for t'
    by (rule pc_ok_mono [OF _ sub order_refl]) (use assms(1) in \<open>simp add: cp_inv_def\<close>)
  have "map_sound R (cp_committed s) m"
    unfolding R_def by (rule map_sound_update [OF _ u]) (use assms(1) in \<open>simp add: cp_inv_def\<close>)
  then show ?thesis using assms(1) pcs by (simp add: s' cp_inv_def pc_def)
qed

lemma cp_act_gen:
  assumes "cp_inv s" "cp_pcs s t = CGen" "cp_act E t s = Some s'"
  shows "cp_inv s' \<and> cp_committed s' = cp_committed s"
proof -
  obtain b barrier where b: "before_barrier E (cp_committed s) (cp_config s) = (b, barrier)"
    by (cases "before_barrier E (cp_committed s) (cp_config s)")
  have s': "s' = cp_goto s t (CCurr b barrier)" using assms(2,3) b by (simp add: cp_act_def Let_def)
  have "cp_inv s'"
    unfolding s' by (rule cp_inv_goto [OF assms(1)]) (use b in \<open>auto simp: before_barrier_def split: if_splits\<close>)
  then show ?thesis by (simp add: s')
qed

lemma cp_act_curr:
  assumes "cp_inv s" "cp_pcs s t = CCurr b barrier" "cp_act E t s = Some s'"
  shows "cp_inv s' \<and> cp_committed s' = cp_committed s"
proof -
  let ?x = "cp_state s" and ?c = "cp_config s"
  obtain ret l where g: "get_majority_lsn (match_lsn_map ?x) (log_sync_memberlist ?c) (log_sync_replica_num ?c) = Some (ret, l)"
    using assms(2,3) by (auto simp: cp_act_def Let_def split: option.splits)
  define pc where "pc = (if ret \<noteq> OB_SUCCESS then CIdle else if b then CPrev barrier l
      else CResult True (combine_results False barrier lsn_reset l))"
  have s': "s' = cp_goto s t pc" using assms(2,3) g by (simp add: cp_act_def Let_def pc_def)
  have ms: "map_sound (cp_reports s) (cp_committed s) (match_lsn_map ?x)" using assms(1) by (simp add: cp_inv_def)
  have r: "ret = OB_SUCCESS \<Longrightarrow> result_ok (cp_reports s) (cp_committed s) (log_sync_memberlist ?c) (log_sync_replica_num ?c) l"
    using get_majority_result_ok [OF ms] g by simp
  have "pc_ok (cp_reports s) ?c (cp_committed s) (CCurr b barrier)" using assms(1,2) unfolding cp_inv_def by metis
  then have "pc_ok (cp_reports s) ?c (cp_committed s) pc"
    using r by (auto simp: pc_def evidence_def combine_results_def result_ok_def supported_def)
  then have "cp_inv s'" unfolding s' by (rule cp_inv_goto [OF assms(1)])
  then show ?thesis by (simp add: s')
qed

lemma cp_act_prev:
  assumes "cp_inv s" "cp_pcs s t = CPrev barrier cur" "cp_act E t s = Some s'"
  shows "cp_inv s' \<and> cp_committed s' = cp_committed s"
proof -
  let ?x = "cp_state s" and ?c = "cp_config s"
  obtain ret l where g: "get_majority_lsn (match_lsn_map ?x) (prev_log_sync_memberlist ?c) (prev_log_sync_replica_num ?c) = Some (ret, l)"
    using assms(2,3) by (auto simp: cp_act_def Let_def split: option.splits)
  define pc where "pc = (if ret \<noteq> OB_SUCCESS then CIdle else CResult (lsn_is_valid cur \<and> lsn_is_valid l) (combine_results True barrier l cur))"
  have s': "s' = cp_goto s t pc" using assms(2,3) g by (simp add: cp_act_def Let_def pc_def)
  have ms: "map_sound (cp_reports s) (cp_committed s) (match_lsn_map ?x)" using assms(1) by (simp add: cp_inv_def)
  have r: "ret = OB_SUCCESS \<Longrightarrow> result_ok (cp_reports s) (cp_committed s) (prev_log_sync_memberlist ?c) (prev_log_sync_replica_num ?c) l"
    using get_majority_result_ok [OF ms] g by simp
  have "pc_ok (cp_reports s) ?c (cp_committed s) (CPrev barrier cur)" using assms(1,2) unfolding cp_inv_def by metis
  then have p: "result_ok (cp_reports s) (cp_committed s) (log_sync_memberlist ?c) (log_sync_replica_num ?c) cur"
    "barrier = barrier_prev_end_lsn ?c" "lsn_is_valid (barrier_prev_end_lsn ?c)" by auto
  have "pc_ok (cp_reports s) ?c (cp_committed s) pc"
    using combine_evidence [OF p(1) r p(3)] p(2) by (simp add: pc_def)
  then have "cp_inv s'" unfolding s' by (rule cp_inv_goto [OF assms(1)])
  then show ?thesis by (simp add: s')
qed

lemma cp_act_result:
  assumes "cp_inv s" "cp_pcs s t = CResult cov l" "cp_act E t s = Some s'"
  shows "cp_inv s' \<and> cp_committed s' = cp_committed s"
proof -
  define pc where "pc = (if changing_config_with_arb E then CIdle else CAdvance cov l)"
  have s': "s' = cp_goto s t pc" using assms(2,3) by (simp add: cp_act_def Let_def pc_def)
  have "pc_ok (cp_reports s) (cp_config s) (cp_committed s) (CResult cov l)" using assms(1,2) unfolding cp_inv_def by metis
  then have "cp_inv s'" unfolding s' by (intro cp_inv_goto [OF assms(1)]) (simp add: pc_def)
  then show ?thesis by (simp add: s')
qed

lemma cp_act_advance:
  assumes "cp_inv s" "cp_pcs s t = CAdvance cov l" "cp_act E t s = Some s'"
  shows "cp_inv s' \<and> cp_committed s' = cp_committed s"
proof -
  define pc where "pc = (if lsn_is_valid l \<and> lsn_gt l (cp_committed s) then CCas cov l (cp_committed s) else CIdle)"
  have s': "s' = cp_goto s t pc" using assms(2,3) by (simp add: cp_act_def Let_def pc_def)
  have "pc_ok (cp_reports s) (cp_config s) (cp_committed s) (CAdvance cov l)" using assms(1,2) unfolding cp_inv_def by metis
  then have "pc_ok (cp_reports s) (cp_config s) (cp_committed s) pc"
    by (auto simp: pc_def lsn_gt_def lsn_lt_def simp del: lsn_cmp)
  then have "cp_inv s'" unfolding s' by (rule cp_inv_goto [OF assms(1)])
  then show ?thesis by (simp add: s')
qed

lemma cp_act_cas:
  assumes "cp_inv s" "cp_pcs s t = CCas cov l old" "cp_act E t s = Some s'"
  shows "cp_inv s' \<and> (cp_committed s' = cp_committed s
    \<or> lsn_val (cp_committed s) < lsn_val (cp_committed s') \<and> cp_committed s' = l \<and> cp_reports s' = cp_reports s \<and> cp_config s' = cp_config s
      \<and> (if cov then supported (cp_reports s) (cp_config s) l else l = barrier_prev_end_lsn (cp_config s)))"
proof -
  have pc: "evidence (cp_reports s) (cp_config s) (cp_committed s) cov l" "lsn_is_valid l" "lsn_val old < lsn_val l"
  proof -
    have "pc_ok (cp_reports s) (cp_config s) (cp_committed s) (CCas cov l old)" using assms(1,2) unfolding cp_inv_def by metis
    then show "evidence (cp_reports s) (cp_config s) (cp_committed s) cov l" "lsn_is_valid l" "lsn_val old < lsn_val l" by auto
  qed
  show ?thesis
  proof (cases "cp_committed s = old")
    case False
    then have s': "s' = cp_goto s t (CAdvance cov l)" using assms(2,3) by (simp add: cp_act_def Let_def)
    have "cp_inv s'" unfolding s' by (rule cp_inv_goto [OF assms(1)]) (use pc in simp)
    then show ?thesis by (simp add: s')
  next
    case True
    then have s': "s' = (cp_goto s t CIdle)\<lparr>cp_state := (cp_state s)\<lparr>committed_end_lsn := l\<rparr>\<rparr>"
      using assms(2,3) by (simp add: cp_act_def Let_def)
    have le: "lsn_val (cp_committed s) \<le> lsn_val l" using pc(3) True by simp
    have "map_sound (cp_reports s) l (match_lsn_map (cp_state s))"
      by (rule map_sound_mono [OF _ order_refl le]) (use assms(1) in \<open>simp add: cp_inv_def\<close>)
    moreover have "pc_ok (cp_reports s) (cp_config s) l (cp_pcs s t')" for t'
      by (rule pc_ok_mono [OF _ order_refl le]) (use assms(1) in \<open>simp add: cp_inv_def\<close>)
    ultimately have "cp_inv s'" using assms(1) pc(2) by (simp add: s' cp_inv_def)
    moreover have "if cov then supported (cp_reports s) (cp_config s) l else l = barrier_prev_end_lsn (cp_config s)"
      using pc True by (auto simp: evidence_def split: if_splits)
    ultimately show ?thesis using pc(3) True by (simp add: s')
  qed
qed

text \<open>An advance is justified by the reports, or it goes to the barrier after a majority was missing in the
  map.\<close>

definition commit_justified :: "cp_sys \<Rightarrow> cp_sys \<Rightarrow> bool" where
  "commit_justified s s' \<longleftrightarrow> cp_committed s' = cp_committed s
     \<or> lsn_val (cp_committed s) < lsn_val (cp_committed s')
       \<and> (supported (cp_reports s') (cp_config s') (cp_committed s')
          \<or> cp_committed s' = barrier_prev_end_lsn (cp_config s')
            \<and> ((\<exists>t old. cp_pcs s t = CCas False (cp_committed s') old)
               \<or> all_idle s
                 \<and> \<not> (covered (match_lsn_map (cp_state s')) (log_sync_memberlist (cp_config s')) (log_sync_replica_num (cp_config s'))
                      \<and> covered (match_lsn_map (cp_state s')) (prev_log_sync_memberlist (cp_config s'))
                          (prev_log_sync_replica_num (cp_config s')))))"

lemma cp_act_step:
  assumes "cp_inv s" "cp_act E t s = Some s'"
  shows "cp_inv s' \<and> commit_justified s s'"
proof (cases "cp_pcs s t")
  case CIdle
  then show ?thesis using assms by (simp add: cp_act_def Let_def commit_justified_def)
next
  case (CUpdate flush server l)
  then show ?thesis using cp_act_update [OF assms(1) _ assms(2)] by (simp add: commit_justified_def)
next
  case CGen
  then show ?thesis using cp_act_gen [OF assms(1) _ assms(2)] by (simp add: commit_justified_def)
next
  case (CCurr b barrier)
  then show ?thesis using cp_act_curr [OF assms(1) _ assms(2)] by (simp add: commit_justified_def)
next
  case (CPrev barrier cur)
  then show ?thesis using cp_act_prev [OF assms(1) _ assms(2)] by (simp add: commit_justified_def)
next
  case (CResult cov l)
  then show ?thesis using cp_act_result [OF assms(1) _ assms(2)] by (simp add: commit_justified_def)
next
  case (CAdvance cov l)
  then show ?thesis using cp_act_advance [OF assms(1) _ assms(2)] by (simp add: commit_justified_def)
next
  case (CCas cov l old)
  then show ?thesis
    using cp_act_cas [OF assms(1) CCas assms(2)] unfolding commit_justified_def by (cases cov) auto
qed

lemma cp_act_returns:
  assumes "cp_inv s"
  shows "cp_act E t s \<noteq> None"
proof -
  let ?c = "cp_config s" and ?m = "match_lsn_map (cp_state s)"
  have c: "config_ok ?c" using assms by (simp add: cp_inv_def)
  have g: "get_majority_lsn ?m (log_sync_memberlist ?c) (log_sync_replica_num ?c) \<noteq> None"
    by (rule get_majority_lsn_returns) (use c in \<open>auto simp: config_ok_def\<close>)
  show ?thesis
  proof (cases "cp_pcs s t")
    case (CPrev barrier cur)
    have "pc_ok (cp_reports s) ?c (cp_committed s) (CPrev barrier cur)" using assms CPrev unfolding cp_inv_def by metis
    then have "lsn_is_valid (barrier_prev_end_lsn ?c)" by auto
    then have "get_majority_lsn ?m (prev_log_sync_memberlist ?c) (prev_log_sync_replica_num ?c) \<noteq> None"
      using c by (intro get_majority_lsn_returns) (auto simp: config_ok_def)
    then show ?thesis using CPrev by (auto simp: cp_act_def Let_def)
  qed (use g in \<open>auto simp: cp_act_def Let_def split: prod.splits\<close>)
qed

lemma max_flushed_keeps:
  "lsn_is_valid (max_flushed_end_lsn x) \<Longrightarrow>
   \<exists>l. inc_update_max_flushed_end_lsn e x = x\<lparr>max_flushed_end_lsn := l\<rparr> \<and> lsn_is_valid l"
  by (cases "inc_update_max_flushed_end_lsn e x = x") (auto simp: inc_update_max_flushed_end_lsn_def intro: exI [of _ "max_flushed_end_lsn x"] split: if_splits)

lemma cp_step_inv:
  assumes "cp_step s s'" "cp_inv s"
  shows "cp_inv s' \<and> commit_justified s s'"
  using assms(1)
proof cases
  case (ack t server end_lsn)
  have "cp_inv s'" unfolding ack(1) by (rule cp_inv_goto [OF assms(2)]) simp
  then show ?thesis by (simp add: ack(1) commit_justified_def)
next
  case (flush t log_end_lsn E)
  obtain l where l: "inc_update_max_flushed_end_lsn log_end_lsn (cp_state s) = (cp_state s)\<lparr>max_flushed_end_lsn := l\<rparr>" "lsn_is_valid l"
    using max_flushed_keeps assms(2) unfolding cp_inv_def by blast
  show ?thesis using assms(2) l by (auto simp: flush(1) cp_inv_def commit_justified_def)
next
  case (act E t)
  then show ?thesis using cp_act_step [OF assms(2)] by blast
next
  case (reconfigure c E added removed ret effects x)
  let ?y = "(cp_state s)\<lparr>cs_config := c\<rparr>"
  have ms: "map_sound (cp_reports s) (committed_end_lsn ?y) (match_lsn_map ?y)" using assms(2) by (simp add: cp_inv_def)
  obtain m com' where x: "x = ?y\<lparr>match_lsn_map := m, committed_end_lsn := com'\<rparr>" "map_sound (cp_reports s) com' m"
    "advance_ok (cp_reports s) m c (cp_committed s) com'"
    using config_change_ok [OF ms, of E added removed ret effects x] reconfigure(4) by auto
  have "lsn_is_valid com'" using advance_ok_valid [OF x(3)] assms(2) by (simp add: cp_inv_def)
  then have "cp_inv s'" using assms(2) reconfigure(2,3) x(2) by (simp add: reconfigure(1) x(1) cp_inv_def all_idle_def)
  moreover have "commit_justified s s'"
    using x(3) reconfigure(2) by (auto simp: reconfigure(1) x(1) commit_justified_def advance_ok_def)
  ultimately show ?thesis ..
qed

text \<open>What a step outside the protocol does to the commit point.\<close>

fun outside_move :: "cp_outside \<Rightarrow> LSN \<Rightarrow> LSN" where
  "outside_move ResetMap com = com"
| "outside_move (Flashback l) com = l"
| "outside_move (TakeOver l) com = (if lsn_is_valid l \<and> lsn_val com < lsn_val l then l else com)"

lemma cp_other_step_move:
  assumes "cp_other_step e s s'"
  shows "cp_committed s' = outside_move e (cp_committed s)"
  using assms
  by cases (auto simp: reset_match_lsn_map_def try_advance_committed_lsn_def lsn_gt_def lsn_lt_def simp del: lsn_cmp split: prod.splits if_splits)

lemma cp_other_step_inv:
  assumes "cp_other_step e s s'" "cp_inv s"
  shows "cp_inv s'"
  using assms(1)
proof cases
  case (reset E ret x)
  obtain m where m: "x = (cp_state s)\<lparr>match_lsn_map := m\<rparr>"
    "map_sound {(cs_self (cp_state s), max_flushed_end_lsn (cp_state s))} (cp_committed s) m"
    using reset_ok [OF reset(4)] assms(2) by (auto simp: cp_inv_def)
  then show ?thesis using assms(2) reset(3) by (simp add: reset(2) cp_inv_def all_idle_def)
next
  case (flashback curr_lsn E ret x)
  obtain m where m: "x = (cp_state s)\<lparr>committed_end_lsn := curr_lsn, max_flushed_end_lsn := curr_lsn, match_lsn_map := m\<rparr>"
    "map_sound {(cs_self (cp_state s), curr_lsn)} curr_lsn m"
    using reset_ok [OF flashback(5)] flashback(4) by auto
  then show ?thesis using assms(2) flashback(3,4) by (simp add: flashback(2) cp_inv_def all_idle_def)
next
  case (take_over end_lsn ret x)
  have "\<exists>com'. x = (cp_state s)\<lparr>committed_end_lsn := com'\<rparr> \<and> lsn_val (cp_committed s) \<le> lsn_val com' \<and> lsn_is_valid com'"
    using take_over(3) assms(2)
    by (auto simp: try_advance_committed_lsn_def cp_inv_def lsn_gt_def lsn_lt_def simp del: lsn_cmp
        split: if_splits intro: exI [of _ "cp_committed s"])
  then obtain com' where c: "x = (cp_state s)\<lparr>committed_end_lsn := com'\<rparr>" "lsn_val (cp_committed s) \<le> lsn_val com'" "lsn_is_valid com'"
    by blast
  have "map_sound (cp_reports s) com' (match_lsn_map (cp_state s))"
    by (rule map_sound_mono [OF _ order_refl c(2)]) (use assms(2) in \<open>simp add: cp_inv_def\<close>)
  moreover have "pc_ok (cp_reports s) (cp_config s) com' (cp_pcs s t)" for t
    by (rule pc_ok_mono [OF _ order_refl c(2)]) (use assms(2) in \<open>simp add: cp_inv_def\<close>)
  ultimately show ?thesis using assms(2) c(1,3) by (simp add: take_over(2) cp_inv_def)
qed

lemma cp_reach_inv: "cp_reach s \<Longrightarrow> cp_inv s"
proof (induction rule: cp_reach.induct)
  case (initial s)
  then show ?case by (simp add: cp_initial_def cp_inv_def all_idle_def map_sound_def)
qed (use cp_step_inv cp_other_step_inv in blast)+




section \<open>Properties\<close>

lemma gen_committed_end_lsn_returns:
  assumes "config_ok (cs_config s)"
  shows "gen_committed_end_lsn E s \<noteq> None"
proof -
  let ?c = "cs_config s"
  obtain ret cur where cur: "get_majority_lsn (match_lsn_map s) (log_sync_memberlist ?c) (log_sync_replica_num ?c) = Some (ret, cur)"
    using get_majority_lsn_returns [of "log_sync_replica_num ?c" "match_lsn_map s" "log_sync_memberlist ?c"] assms
    by (auto simp: config_ok_def)
  obtain b barrier where b: "before_barrier E (committed_end_lsn s) ?c = (b, barrier)" by fastforce
  have "b \<Longrightarrow> get_majority_lsn (match_lsn_map s) (prev_log_sync_memberlist ?c) (prev_log_sync_replica_num ?c) \<noteq> None"
    using b assms by (intro get_majority_lsn_returns) (auto simp: config_ok_def before_barrier_def split: if_splits)
  then show ?thesis by (auto simp: gen_committed_end_lsn_def cur b Let_def)
qed

lemma handlers_return:
  assumes "config_ok (cs_config s)"
  shows "ack_log E server end_lsn s \<noteq> None" "after_flush_commit E end_lsn s \<noteq> None"
    "config_change_update_match_lsn_map E added removed (log_sync_memberlist (cs_config s)) (log_sync_replica_num (cs_config s)) s \<noteq> None"
proof -
  have gm: "gen_committed_end_lsn E (s\<lparr>match_lsn_map := m\<rparr>) \<noteq> None" for m
    using gen_committed_end_lsn_returns [of "s\<lparr>match_lsn_map := m\<rparr>"] assms by simp
  show "ack_log E server end_lsn s \<noteq> None"
    using gm by (simp add: ack_log_def Let_def del: not_None_eq split: prod.splits option.splits)
  define x where "x = (if leader_role E then (inc_update_max_flushed_end_lsn end_lsn s)\<lparr>match_lsn_map :=
      snd (try_update_match_lsn_map E (cs_self s) end_lsn (match_lsn_map s))\<rparr> else inc_update_max_flushed_end_lsn end_lsn s)"
  have "cs_config x = cs_config s" by (simp add: x_def inc_update_max_flushed_end_lsn_def)
  then have "gen_committed_end_lsn E x \<noteq> None" using gen_committed_end_lsn_returns assms by simp
  moreover have "after_flush_commit E end_lsn s = (if leader_active E then map_option (\<lambda>(_, _, s). s) (gen_committed_end_lsn E x) else Some x)"
    by (simp add: after_flush_commit_def x_def inc_update_max_flushed_end_lsn_def Let_def)
  ultimately show "after_flush_commit E end_lsn s \<noteq> None" by auto
  have "gen_committed_end_lsn_with_memberlist (log_sync_memberlist (cs_config s)) (log_sync_replica_num (cs_config s)) y \<noteq> None" for y
    using get_majority_lsn_returns [of "log_sync_replica_num (cs_config s)" "match_lsn_map y" "log_sync_memberlist (cs_config s)"] assms
    by (auto simp: gen_committed_end_lsn_with_memberlist_def config_ok_def)
  then show "config_change_update_match_lsn_map E added removed (log_sync_memberlist (cs_config s)) (log_sync_replica_num (cs_config s)) s \<noteq> None"
    using gm by (simp add: config_change_update_match_lsn_map_def Let_def del: not_None_eq split: prod.splits option.splits)
qed

text \<open>C4. Within the commit protocol the commit point only moves to LSNs that a majority has on disk, and every
  other move of it is handed in.  In every reachable state of a replica whose handlers interleave, no assertion fails: every
  action of a handler, and \<^verbatim>\<open>ack_log\<close>, the flush callback and a reconfiguration to any acceptable configuration as a whole,
  return.  Every step of \<^verbatim>\<open>ack_log\<close>, \<^verbatim>\<open>after_flush_log\<close> and a reconfiguration either keeps the commit point or moves it forward to an LSN
  that a majority of the current configuration has reported since the map was reset, or, not beyond the barrier of
  the last reconfiguration, a majority of the previous configuration; the one exception is an advance exactly to
  the barrier after an evaluation that found fewer members in the map than a majority.  A reset of the map keeps the
  commit point, a flashback sets it to the given LSN, and an LSN taken over from another component
  moves it only forward, and exactly to that LSN.\<close>

theorem commit_point_safe:
  assumes "cp_reach s"
  shows "cp_act E t s \<noteq> None \<and> (\<forall>s'. cp_step s s' \<longrightarrow> commit_justified s s')
    \<and> (\<forall>e s'. cp_other_step e s s' \<longrightarrow> cp_committed s' = outside_move e (cp_committed s))
    \<and> ack_log E server end_lsn (cp_state s) \<noteq> None \<and> after_flush_commit E end_lsn (cp_state s) \<noteq> None
    \<and> (\<forall>c. config_ok c \<longrightarrow> config_change_update_match_lsn_map E added removed (log_sync_memberlist c) (log_sync_replica_num c)
          ((cp_state s)\<lparr>cs_config := c\<rparr>) \<noteq> None)"
proof -
  have inv: "cp_inv s" by (rule cp_reach_inv [OF assms])
  have "config_change_update_match_lsn_map E added removed (log_sync_memberlist c) (log_sync_replica_num c)
      ((cp_state s)\<lparr>cs_config := c\<rparr>) \<noteq> None" if "config_ok c" for c
    using handlers_return(3) [of "(cp_state s)\<lparr>cs_config := c\<rparr>"] that by simp
  moreover have "config_ok (cp_config s)" using inv by (simp add: cp_inv_def)
  ultimately show ?thesis
    using inv cp_act_returns cp_step_inv cp_other_step_move handlers_return(1,2) by blast
qed

definition srv_a :: ObAddr where "srv_a = IPV4 1 2882"
definition srv_b :: ObAddr where "srv_b = IPV4 2 2882"

definition list_a :: ObMemberList where "list_a = snd (mlb_add_server srv_a mlb_new)"
definition list_b :: ObMemberList where "list_b = snd (mlb_add_server srv_b mlb_new)"
definition list_ab :: ObMemberList where "list_ab = snd (mlb_add_server srv_b list_a)"

definition two_members :: LogConfigView where
  "two_members = \<lparr>log_sync_memberlist = list_ab, log_sync_replica_num = 2, prev_log_sync_memberlist = mlb_new,
     prev_log_sync_replica_num = 0, degraded_learnerlist = [], barrier_prev_end_lsn = lsn_reset, barrier_prev_mode_pid = 0\<rparr>"

definition one_member :: LogConfigView where
  "one_member = \<lparr>log_sync_memberlist = list_a, log_sync_replica_num = 1, prev_log_sync_memberlist = list_ab,
     prev_log_sync_replica_num = 2, degraded_learnerlist = [], barrier_prev_end_lsn = LSN 100, barrier_prev_mode_pid = 7\<rparr>"

definition leader_env :: cp_env where
  "leader_env = \<lparr>now_us = 5, alloc_ok = \<lambda>_. True, leader_role = True, leader_active = True,
     changing_config_with_arb = False, last_submit_mode_pid = 7, env_max_lsn = LSN 100\<rparr>"

definition start_state :: CommitState where
  "start_state = \<lparr>cs_self = srv_a, match_lsn_map = \<lambda>_. None, committed_end_lsn = LSN 50, max_flushed_end_lsn = LSN 60,
     cs_config = two_members\<rparr>"

definition active_state :: CommitState where
  "active_state = snd (reset_match_lsn_map leader_env start_state)"

definition start_sys :: cp_sys where
  "start_sys = \<lparr>cp_state = start_state, cp_pcs = \<lambda>_. CIdle, cp_reports = {}\<rparr>"

definition active_sys :: cp_sys where
  "active_sys = \<lparr>cp_state = active_state, cp_pcs = \<lambda>_. CIdle, cp_reports = {(srv_a, LSN 60)}\<rparr>"

lemma active_fields:
  "cs_self active_state = srv_a" "max_flushed_end_lsn active_state = LSN 60" "committed_end_lsn active_state = LSN 50"
  "cs_config active_state = two_members"
  by (simp_all add: active_state_def reset_match_lsn_map_def start_state_def split: prod.splits)

lemma start_initial: "cp_initial start_sys"
proof -
  have "config_ok two_members" by code_simp
  moreover have "lsn_is_valid (LSN 50)" "lsn_is_valid (LSN 60)" by code_simp+
  ultimately show ?thesis by (simp add: cp_initial_def start_sys_def start_state_def all_idle_def)
qed

lemma active_reach: "cp_reach active_sys"
proof -
  have "cp_other_step ResetMap start_sys (start_sys\<lparr>cp_state := active_state, cp_reports := {(cs_self active_state, max_flushed_end_lsn active_state)}\<rparr>)"
    by (rule cp_other_step.reset [of _ leader_env "fst (reset_match_lsn_map leader_env start_state)"])
      (simp_all add: start_sys_def all_idle_def active_state_def)
  then have "cp_other_step ResetMap start_sys active_sys" by (simp add: active_fields(1,2)) (simp add: start_sys_def active_sys_def)
  then show ?thesis using cp_reach.other [OF cp_reach.initial [OF start_initial]] by blast
qed

text \<open>A run: the other member acknowledges 55, and the handler goes through all its actions.\<close>

fun ack_run :: "nat \<Rightarrow> cp_sys" where
  "ack_run 0 = cp_goto active_sys 0 (CUpdate False srv_b (LSN 55))"
| "ack_run (Suc n) = the (cp_act leader_env 0 (ack_run n))"

lemma ack_run_step: "cp_reach (ack_run n) \<and> cp_step (ack_run n) (ack_run (Suc n))"
proof (induction n)
  case 0
  have "addr_is_valid srv_b" "lsn_is_valid (LSN 55)" "mlb_contains srv_b (log_sync_memberlist two_members)" by code_simp+
  then have "cp_step active_sys (ack_run 0)"
    unfolding ack_run.simps by (intro cp_step.ack) (simp_all add: active_sys_def active_fields)
  then have r: "cp_reach (ack_run 0)" by (rule cp_reach.step [OF active_reach])
  then obtain s' where "cp_act leader_env 0 (ack_run 0) = Some s'" using cp_act_returns [OF cp_reach_inv] by blast
  then show ?case using r cp_step.act by fastforce
next
  case (Suc n)
  then have r: "cp_reach (ack_run (Suc n))" using cp_reach.step by blast
  then obtain s' where "cp_act leader_env 0 (ack_run (Suc n)) = Some s'" using cp_act_returns [OF cp_reach_inv] by blast
  then show ?case using r cp_step.act by fastforce
qed

theorem commit_point_safe_witness:
  "cp_reach (ack_run 5) \<and> cp_step (ack_run 5) (ack_run 6) \<and> cp_committed (ack_run 5) = LSN 50 \<and> cp_committed (ack_run 6) = LSN 55
   \<and> commit_justified (ack_run 5) (ack_run 6)"
proof -
  have r: "cp_reach (ack_run 5)" "cp_step (ack_run 5) (ack_run 6)" using ack_run_step [of 5] by simp_all
  have "cp_committed (ack_run 5) = LSN 50" "cp_committed (ack_run 6) = LSN 55" by code_simp+
  then show ?thesis using commit_point_safe [OF r(1)] r by blast
qed

text \<open>C13. Before the barrier of a reconfiguration the commit point can pass what any server has on disk.  A
  leader with two members has flushed its log up to 60 and submitted it up to 100 when it removes the other
  member.  The removed member is no longer in the map, so the previous configuration has no majority there and
  \<^verbatim>\<open>get_majority_lsn_\<close> succeeds with the invalid LSN, which is the largest number; the maximum with it and the
  minimum with the barrier give the barrier, and the leader commits up to 100 although the only report is its
  own, up to 60.\<close>

theorem commit_passes_reports:
  "\<exists>s s'. cp_reach s \<and> cp_step s s' \<and> cp_reports s' = {(srv_a, LSN 60)}
    \<and> cp_committed s = LSN 50 \<and> cp_committed s' = LSN 100"
proof -
  let ?y = "active_state\<lparr>cs_config := one_member\<rparr>"
  have "map_option (\<lambda>(_, _, x). committed_end_lsn x)
      (config_change_update_match_lsn_map leader_env mlb_new list_b (log_sync_memberlist one_member) (log_sync_replica_num one_member) ?y)
    = Some (LSN 100)" by code_simp
  then obtain ret effects x where x: "config_change_update_match_lsn_map leader_env mlb_new list_b
      (log_sync_memberlist one_member) (log_sync_replica_num one_member) ?y = Some (ret, effects, x)" "committed_end_lsn x = LSN 100"
    by auto
  have "config_ok one_member" by code_simp
  then have "cp_step active_sys (active_sys\<lparr>cp_state := x\<rparr>)"
    by (intro cp_step.reconfigure [of _ one_member leader_env mlb_new list_b ret effects x]) (use x(1) in \<open>simp_all add: active_sys_def all_idle_def\<close>)
  moreover have "cp_committed active_sys = LSN 50" by (simp add: active_sys_def active_fields)
  ultimately show ?thesis using active_reach x(2) by (intro exI [of _ active_sys] exI conjI) (auto simp: active_sys_def)
qed




end
