(* ===== verification/LinearHashConc.thy ===== *)
theory LinearHashConc
  imports LinearHashMap
begin

text \<open>
  Threads that use a linear hash map at the same time.  An access loads level and split position, computes its
  bucket, waits for the bucket's lock, and checks that the bucket is active and has the expected level; if not
  it starts again, otherwise it works on the bucket and releases it.  An expansion locks the bucket to be split
  and the new one, publishes the new position, and splits the entries in a second step, without \<^verbatim>\<open>eslock_\<close>; several
  expansions can be between the two.  A call of \<^verbatim>\<open>shrink_\<close> holds \<^verbatim>\<open>eslock_\<close> during its loop; each round of the loop, which works under
  the locks of both buckets, is one step.

  The theorems: every operation takes effect at one moment between its call and its return as the operation on the
  partial function that the map represents, and splits and unions do not change that function; without a concurrent
  resize an access succeeds at its first try.  This needs that no call of \<^verbatim>\<open>shrink_\<close> goes on to a successful union after
  one that failed.  The last section shows what happens otherwise: entries become unreachable or are lost.
\<close>

section \<open>Steps\<close>

datatype ('k, 'v) lh_pc =
    HIdle
  | HStart "('k, 'v) lh_op"
  | HLoaded "('k, 'v) lh_op" nat nat
  | HDone "('k, 'v) lh_op" "ob_ret \<times> 'v option"

text \<open>\<open>lhs_splits\<close> holds level and position of the expansions that have not moved their entries yet, \<open>lhs_shrink\<close> the local
  variables of a \<^verbatim>\<open>shrink_\<close> that is running, which then holds \<^verbatim>\<open>eslock_\<close>.  \<open>lhs_skipped\<close> is a ghost variable: a \<^verbatim>\<open>shrink_\<close> has published
  a position although a union before it failed.\<close>

record ('k, 'v) lh_sys =
  lhs_map :: "('k, 'v) lhm"
  lhs_pcs :: "nat \<Rightarrow> ('k, 'v) lh_pc"
  lhs_splits :: "(nat \<times> nat) set"
  lhs_shrink :: "shrink_loc option"
  lhs_skipped :: bool

text \<open>\<open>None\<close>: the thread is not in an access, or waits for the lock.\<close>

definition lh_act :: "('k \<Rightarrow> nat) \<Rightarrow> bool \<Rightarrow> nat \<Rightarrow> ('k, 'v) lh_sys \<Rightarrow> ('k, 'v) lh_sys option" where
  "lh_act hash_func node_ok t s =
     (let h = lhs_map s in
      case lhs_pcs s t of
        HStart op \<Rightarrow> Some (s\<lparr>lhs_pcs := (lhs_pcs s)(t := HLoaded op (lh_L h) (lh_p h))\<rparr>)
      | HLoaded op L p \<Rightarrow>
          (let li = access_bkt (L0_bkt_n h) L p (hash_func (op_key op)); i = snd li; b = lh_bkts h i
           in if bkt_lock b then None
              else if \<not> access_check li h then Some (s\<lparr>lhs_pcs := (lhs_pcs s)(t := HStart op)\<rparr>)
              else case bkt_apply node_ok op (bkt_nodes b) of
                     (r, ns) \<Rightarrow> Some (s\<lparr>lhs_map := set_bkt i (b\<lparr>bkt_nodes := ns\<rparr>) h, lhs_pcs := (lhs_pcs s)(t := HDone op r)\<rparr>))
      | _ \<Rightarrow> None)"

text \<open>A round of \<^verbatim>\<open>shrink_\<close> waits for the locks of its two buckets.\<close>

definition shrink_unlocked :: "shrink_loc \<Rightarrow> ('k, 'v) lhm \<Rightarrow> bool" where
  "shrink_unlocked x h =
     (case shrink_pos (L0_bkt_n h) (sh_L x) (sh_p x) of
        (newL, newp) \<Rightarrow> \<not> bkt_lock (lh_bkts h newp) \<and> \<not> bkt_lock (lh_bkts h (width h newL + newp)))"

definition shrink_skips :: "bool \<Rightarrow> nat \<Rightarrow> shrink_loc \<Rightarrow> ('k, 'v) lhm \<Rightarrow> bool" where
  "shrink_skips node_ok limit x h =
     (\<not> shrink_stops limit x \<and> (sh_L x, sh_p x) \<noteq> (lh_L h, lh_p h)
      \<and> (case shrink_pos (L0_bkt_n h) (sh_L x) (sh_p x) of (newL, newp) \<Rightarrow> fst (shrink_round node_ok newL newp h)))"

inductive lh_step :: "('k \<Rightarrow> nat) \<Rightarrow> ('k, 'v) lh_sys \<Rightarrow> ('k, 'v) lh_sys \<Rightarrow> bool" for hash_func where
  call: "lhs_pcs s t = HIdle \<or> lhs_pcs s t = HDone op' r \<Longrightarrow> lh_step hash_func s (s\<lparr>lhs_pcs := (lhs_pcs s)(t := HStart op)\<rparr>)"
| act: "lh_act hash_func node_ok t s = Some s' \<Longrightarrow> lh_step hash_func s s'"
| expand: "h = lhs_map s \<Longrightarrow> lhs_shrink s = None \<Longrightarrow> \<not> bkt_lock (lh_bkts h (lh_p h)) \<Longrightarrow> \<not> bkt_lock (lh_bkts h (width h (lh_L h) + lh_p h)) \<Longrightarrow>
    lh_step hash_func s (s\<lparr>lhs_map := expand_begin h, lhs_splits := insert (lh_L h, lh_p h) (lhs_splits s)\<rparr>)"
| split: "(L, p) \<in> lhs_splits s \<Longrightarrow>
    lh_step hash_func s (s\<lparr>lhs_map := expand_end hash_func L p (lhs_map s), lhs_splits := lhs_splits s - {(L, p)}\<rparr>)"
| shrink_start: "lhs_shrink s = None \<Longrightarrow> lh_step hash_func s (s\<lparr>lhs_shrink := Some (shrink_begin target (lhs_map s))\<rparr>)"
| shrink_round: "h = lhs_map s \<Longrightarrow> lhs_shrink s = Some x \<Longrightarrow> shrink_stops limit x \<or> shrink_unlocked x h \<Longrightarrow>
    shrink_iter node_ok limit x h = (x', h') \<Longrightarrow>
    lh_step hash_func s (s\<lparr>lhs_map := h', lhs_shrink := x', lhs_skipped := lhs_skipped s \<or> shrink_skips node_ok limit x h\<rparr>)"

definition lh_initial :: "('k, 'v) lh_sys \<Rightarrow> bool" where
  "lh_initial s \<longleftrightarrow> (\<exists>bkt_sz m_seg_sz s_seg_sz dir_init_sz. 0 < bkt_sz \<and> init_d_arr bkt_sz True m_seg_sz s_seg_sz dir_init_sz = Inr (lhs_map s))
     \<and> (\<forall>t. lhs_pcs s t = HIdle) \<and> lhs_splits s = {} \<and> lhs_shrink s = None \<and> \<not> lhs_skipped s"

inductive lh_reach :: "('k \<Rightarrow> nat) \<Rightarrow> ('k, 'v) lh_sys \<Rightarrow> bool" for hash_func where
  initial: "lh_initial s \<Longrightarrow> lh_reach hash_func s"
| step: "lh_reach hash_func s \<Longrightarrow> lh_step hash_func s s' \<Longrightarrow> lh_reach hash_func s'"

text \<open>The partial function that a map represents.\<close>

definition represents :: "('k, 'v) lhm \<Rightarrow> ('k \<Rightarrow> 'v option) \<Rightarrow> bool" where
  "represents h m \<longleftrightarrow> (\<forall>k v. m k = Some v \<longleftrightarrow> (\<exists>i. (k, v) \<in> set (bkt_nodes (lh_bkts h i))))"

section \<open>Operations on one bucket\<close>

definition keys_of :: "('k \<times> 'v) list \<Rightarrow> 'k set" where
  "keys_of ns = fst ` set ns"

abbreviation distinct_keys :: "('k \<times> 'v) list \<Rightarrow> bool" where
  "distinct_keys ns \<equiv> distinct (map fst ns)"

lemma chain_get_map: "chain_get k ns = (case map_of ns k of None \<Rightarrow> (OB_ENTRY_NOT_EXIST, None) | Some v \<Rightarrow> (OB_SUCCESS, Some v))"
  by (induction ns) auto

lemma chain_has_map: "chain_has k ns \<longleftrightarrow> map_of ns k \<noteq> None"
  by (induction ns) auto

lemma map_of_absent: "k \<notin> fst ` set ns \<Longrightarrow> (map_of ns)(k := None) = map_of ns"
  by (simp add: fun_upd_idem_iff map_of_eq_None_iff)

lemma chain_erase_if_map:
  "distinct_keys ns \<Longrightarrow> chain_erase_if fn k ns = (ret, ns') \<Longrightarrow>
     (ret, map_of ns') = hm_erase_if fn k (map_of ns) \<and> distinct_keys ns' \<and> keys_of ns' \<subseteq> keys_of ns"
proof (induction ns arbitrary: ret ns')
  case (Cons n ns)
  obtain r1 ns1 where e: "chain_erase_if fn k ns = (r1, ns1)" by (cases "chain_erase_if fn k ns")
  obtain a b where n: "n = (a, b)" by (cases n)
  have d: "distinct_keys ns" "a \<notin> fst ` set ns" using Cons.prems(1) n by auto
  note IH = Cons.IH [OF d(1) e]
  show ?case
  proof (cases "a = k")
    case True
    then have "map_of (n # ns) k = Some b" "(map_of (n # ns))(k := None) = map_of ns" "(map_of (n # ns))(k \<mapsto> x) = map_of ((k, x) # ns)" for x
      using n d(2) map_of_absent [of k ns] by simp_all
    then have "hm_erase_if fn k (map_of (n # ns))
        = (case fn b of (ok, v) \<Rightarrow> if ok then (OB_SUCCESS, map_of ns) else (OB_EAGAIN, map_of ((k, v) # ns)))"
      unfolding hm_erase_if_def by (simp only: option.case)
    moreover obtain ok v where "fn b = (ok, v)" by (cases "fn b")
    ultimately show ?thesis
      using Cons.prems(2) True n d by (cases ok) (auto simp: keys_of_def simp del: map_of.simps)
  next
    case False
    then have "ns' = n # ns1" "ret = r1" using Cons.prems(2) n e by auto
    moreover have "(map_of ns)(k := x, a \<mapsto> b) = (map_of ns)(a \<mapsto> b, k := x)" for x using False by (simp add: fun_upd_twist)
    ultimately show ?thesis using IH False n d(2) by (auto simp: hm_erase_if_def keys_of_def split: option.splits prod.splits if_splits)
  qed
qed (auto simp: hm_erase_if_def)

lemma chain_erase_as_if: "chain_erase k ns = chain_erase_if (\<lambda>v. (True, v)) k ns"
  by (induction ns) auto

lemma hm_erase_as_if: "hm_erase k m = hm_erase_if (\<lambda>v. (True, v)) k m"
  by (simp add: hm_erase_def hm_erase_if_def split: option.split)

lemma chain_update_operate:
  "chain_update k v ns = (r, ns') \<Longrightarrow> chain_operate (\<lambda>_. (True, v)) k ns = (if r then OB_SUCCESS else OB_ENTRY_NOT_EXIST, ns')"
  by (induction ns arbitrary: r ns') (auto split: prod.splits if_splits)

lemma chain_update_has: "chain_update k v ns = (r, ns') \<Longrightarrow> r = chain_has k ns"
  by (induction ns arbitrary: r ns') (auto split: prod.splits if_splits)

lemma chain_operate_map:
  "distinct_keys ns \<Longrightarrow> chain_operate fn k ns = (ret, ns') \<Longrightarrow>
     (ret, map_of ns') = hm_operate fn k (map_of ns) \<and> map fst ns' = map fst ns"
proof (induction ns arbitrary: ret ns')
  case (Cons n ns)
  obtain r1 ns1 where e: "chain_operate fn k ns = (r1, ns1)" by (cases "chain_operate fn k ns")
  obtain a b where n: "n = (a, b)" by (cases n)
  show ?case
  proof (cases "a = k")
    case True
    then show ?thesis using Cons.prems(2) n by (auto simp: hm_operate_def split: prod.splits)
  next
    case False
    then have "ns' = n # ns1" "ret = r1" using Cons.prems(2) n e by auto
    moreover have "(r1, map_of ns1) = hm_operate fn k (map_of ns)" "map fst ns1 = map fst ns"
      using Cons.IH [OF _ e] Cons.prems(1) by auto
    moreover have "(map_of ns)(k \<mapsto> v, a \<mapsto> b) = (map_of ns)(a \<mapsto> b, k \<mapsto> v)" for v using False by (simp add: fun_upd_twist)
    ultimately show ?thesis using False n by (auto simp: hm_operate_def split: option.splits prod.splits)
  qed
qed (auto simp: hm_operate_def)

text \<open>A key that is not in the bucket is added at the second place, if there is memory for a node.\<close>

lemma bkt_add_node_map:
  assumes "distinct_keys (n # rest)" "map_of (n # rest) k = None" "bkt_add_node ok k v n rest = (ret, ns')"
  shows "(ret, map_of ns') = hm_insert ok k v (map_of (n # rest)) \<and> distinct_keys ns' \<and> keys_of ns' \<subseteq> insert k (keys_of (n # rest))"
proof (cases ok)
  case True
  then have "ns' = n # (k, v) # rest" "ret = OB_SUCCESS" using assms(3) by (auto simp: bkt_add_node_def)
  moreover have "k \<notin> fst ` set (n # rest)" using assms(2) unfolding map_of_eq_None_iff .
  ultimately show ?thesis
    using True assms(1,2) by (cases n) (auto simp: hm_insert_def keys_of_def fun_upd_twist)
next
  case False
  then show ?thesis using assms by (auto simp: bkt_add_node_def hm_insert_def keys_of_def)
qed

lemma bkt_insert_map:
  assumes "distinct_keys ns" "bkt_insert ok k v ns = (ret, ns')"
  shows "(ret, map_of ns') = hm_insert (ok \<or> ns = []) k v (map_of ns) \<and> distinct_keys ns' \<and> keys_of ns' \<subseteq> insert k (keys_of ns)"
proof (cases ns)
  case Nil
  then show ?thesis using assms(2) by (auto simp: bkt_insert_def hm_insert_def keys_of_def)
next
  case (Cons n rest)
  show ?thesis
  proof (cases "map_of ns k = None")
    case True
    then have "bkt_add_node ok k v n rest = (ret, ns')"
      using assms(2) Cons by (simp add: bkt_insert_def chain_has_map del: chain_has.simps map_of.simps)
    then show ?thesis using bkt_add_node_map [of n rest k ok v ret ns'] True assms(1) Cons by (simp del: map_of.simps)
  next
    case False
    then have "ns' = ns" "ret = OB_ENTRY_EXIST"
      using assms(2) Cons by (simp_all add: bkt_insert_def chain_has_map del: chain_has.simps map_of.simps not_None_eq)
    then show ?thesis using assms(1) False by (auto simp: hm_insert_def simp del: map_of_eq_Some_iff)
  qed
qed

lemma bkt_insert_or_operate_map:
  assumes "distinct_keys ns" "bkt_insert_or_operate ok k v fn ns = (ret, ns')"
  shows "(ret, map_of ns') = hm_insert_or_operate (ok \<or> ns = []) k v fn (map_of ns) \<and> distinct_keys ns' \<and> keys_of ns' \<subseteq> insert k (keys_of ns)"
proof (cases ns)
  case Nil
  then show ?thesis using assms(2) by (auto simp: bkt_insert_or_operate_def hm_insert_or_operate_def hm_insert_def keys_of_def)
next
  case (Cons n rest)
  show ?thesis
  proof (cases "map_of ns k = None")
    case True
    then have "bkt_add_node ok k v n rest = (ret, ns')"
      using assms(2) Cons by (simp add: bkt_insert_or_operate_def chain_has_map del: chain_has.simps map_of.simps)
    then show ?thesis
      using bkt_add_node_map [of n rest k ok v ret ns'] True assms(1) Cons by (simp add: hm_insert_or_operate_def del: map_of.simps)
  next
    case False
    then have o: "chain_operate fn k ns = (ret, ns')"
      using assms(2) Cons by (simp add: bkt_insert_or_operate_def chain_has_map del: chain_has.simps map_of.simps not_None_eq chain_operate.simps)
    note c = chain_operate_map [OF assms(1) o]
    then have "keys_of ns' = keys_of ns" by (metis keys_of_def list.set_map)
    then show ?thesis using c assms(1) False by (auto simp: hm_insert_or_operate_def simp del: map_of_eq_Some_iff)
  qed
qed

lemma insert_or_update_as_operate:
  "bkt_insert_or_update ok k v ns = bkt_insert_or_operate ok k v (\<lambda>_. (True, v)) ns"
  "hm_insert_or_update ok k v m = hm_insert_or_operate ok k v (\<lambda>_. (True, v)) m"
proof -
  obtain r ns' where u: "chain_update k v ns = (r, ns')" by (cases "chain_update k v ns")
  show "bkt_insert_or_update ok k v ns = bkt_insert_or_operate ok k v (\<lambda>_. (True, v)) ns"
    using chain_update_operate [OF u] chain_update_has [OF u] u
    by (cases ns) (simp_all add: bkt_insert_or_update_def bkt_insert_or_operate_def del: chain_update.simps chain_operate.simps chain_has.simps)
  show "hm_insert_or_update ok k v m = hm_insert_or_operate ok k v (\<lambda>_. (True, v)) m"
    by (auto simp: hm_insert_or_update_def hm_insert_or_operate_def hm_insert_def hm_operate_def)
qed

lemma bkt_apply_map:
  assumes "distinct_keys ns" "bkt_apply ok op ns = (r, ns')"
  shows "hm_apply (ok \<or> ns = []) op (map_of ns) = (r, map_of ns') \<and> distinct_keys ns' \<and> keys_of ns' \<subseteq> insert (op_key op) (keys_of ns)"
proof (cases op)
  case (OpGet k)
  then show ?thesis using assms by (auto simp: chain_get_map hm_get_def simp del: map_of_eq_Some_iff split: option.splits)
next
  case (OpInsert k v)
  then show ?thesis using assms bkt_insert_map [OF assms(1), of ok k v] by (auto split: prod.splits)
next
  case (OpErase k)
  obtain r1 ns1 where e: "chain_erase k ns = (r1, ns1)" by (cases "chain_erase k ns")
  then show ?thesis
    using assms(2) chain_erase_if_map [OF assms(1) e [unfolded chain_erase_as_if]] OpErase
    by (auto simp flip: hm_erase_as_if split: prod.splits)
next
  case (OpEraseIf k fn)
  obtain r1 ns1 where e: "chain_erase_if fn k ns = (r1, ns1)" by (cases "chain_erase_if fn k ns")
  then show ?thesis using assms(2) chain_erase_if_map [OF assms(1) e] OpEraseIf by (auto split: prod.splits)
next
  case (OpInsertOrOperate k v fn)
  then show ?thesis using assms(2) bkt_insert_or_operate_map [OF assms(1), of ok k v fn] by (auto split: prod.splits)
next
  case (OpInsertOrUpdate k v)
  then show ?thesis
    using assms(2) bkt_insert_or_operate_map [OF assms(1), of ok k v "\<lambda>_. (True, v)"]
    by (auto simp: insert_or_update_as_operate split: prod.splits)
next
  case (OpOperate k fn)
  obtain r1 ns1 where e: "chain_operate fn k ns = (r1, ns1)" by (cases "chain_operate fn k ns")
  then have "keys_of ns1 = keys_of ns" using chain_operate_map [OF assms(1) e] by (metis keys_of_def list.set_map)
  then show ?thesis using assms chain_operate_map [OF assms(1) e] e OpOperate by (auto split: prod.splits)
qed

lemmas hm_apply_defs = hm_get_def hm_insert_def hm_erase_def hm_operate_def hm_erase_if_def hm_insert_or_operate_def hm_insert_or_update_def

text \<open>An operation depends on the entry of its key only and changes no other.\<close>

lemma hm_apply_local:
  assumes "m (op_key op) = m' (op_key op)"
  shows "hm_apply ok op m = (fst (hm_apply ok op m'), m(op_key op := snd (hm_apply ok op m') (op_key op)))"
  using assms
  by (cases op) (auto simp: hm_apply_defs split: option.splits prod.splits)

lemma hm_apply_other: "k \<noteq> op_key op \<Longrightarrow> snd (hm_apply ok op m) k = m k"
  by (cases op) (auto simp: hm_apply_defs split: option.splits prod.splits)

section \<open>The home of a hash value\<close>

definition home :: "('k, 'v) lhm \<Rightarrow> nat \<Rightarrow> nat" where
  "home h hv = snd (access_bkt (L0_bkt_n h) (lh_L h) (lh_p h) hv)"

definition lev :: "('k, 'v) lhm \<Rightarrow> nat \<Rightarrow> nat" where
  "lev h i = (if i < lh_p h \<or> width h (lh_L h) \<le> i then lh_L h + 1 else lh_L h)"

definition shape_ok :: "('k, 'v) lhm \<Rightarrow> bool" where
  "shape_ok h \<longleftrightarrow> 0 < L0_bkt_n h \<and> lh_p h < width h (lh_L h)"

lemma mod_double:
  fixes w :: nat
  assumes "0 < w"
  shows "hv mod (w * 2) = hv mod w \<or> hv mod (w * 2) = hv mod w + w"
proof -
  have "hv mod (w * 2) mod w = hv mod w" by (simp add: mod_mod_cancel)
  moreover have "hv mod (w * 2) < w * 2" using assms by simp
  moreover have "x mod w = x \<or> x = x mod w + w" if "x < w * 2" for x :: nat
    using that by (cases "x < w") (auto simp: mod_if)
  ultimately show ?thesis by metis
qed

lemma wid_Suc: "wid n (L + 1) = wid n L * 2"
  by (simp add: wid_def)

lemma wid_0: "wid n 0 = n"
  by (simp add: wid_def)

lemma home_cases:
  assumes "shape_ok h"
  shows "home h hv = (if hv mod width h (lh_L h) < lh_p h then hv mod width h (lh_L h + 1) else hv mod width h (lh_L h))"
  by (simp add: home_def access_bkt_def)

lemma home_less:
  assumes "shape_ok h"
  shows "home h hv < bkt_cnt h"
proof -
  let ?w = "width h (lh_L h)"
  have w: "0 < ?w" using assms by (simp add: shape_ok_def)
  have "hv mod ?w < ?w" using w by simp
  moreover have "hv mod width h (lh_L h + 1) = hv mod ?w \<or> hv mod width h (lh_L h + 1) = hv mod ?w + ?w"
    unfolding wid_Suc by (rule mod_double [OF w])
  ultimately show ?thesis unfolding home_cases [OF assms] bkt_cnt_def by auto
qed

lemma home_iff:
  assumes "shape_ok h" "i < bkt_cnt h"
  shows "home h hv = i \<longleftrightarrow> hv mod width h (lev h i) = i"
proof -
  let ?L = "lh_L h" and ?p = "lh_p h" and ?w = "width h (lh_L h)"
  have w: "0 < ?w" "?p < ?w" using assms(1) by (auto simp: shape_ok_def)
  have dbl: "hv mod width h (?L + 1) = hv mod ?w \<or> hv mod width h (?L + 1) = hv mod ?w + ?w"
    unfolding wid_Suc by (rule mod_double [OF w(1)])
  have lt: "hv mod ?w < ?w" using w by simp
  obtain x y where xy: "hv mod ?w = x" "hv mod width h (?L + 1) = y" by blast
  note f = dbl [unfolded xy] lt [unfolded xy]
  consider "i < ?p" | "?p \<le> i" "i < ?w" | "?w \<le> i" "i < ?w + ?p" using assms(2) unfolding bkt_cnt_def by linarith
  then show ?thesis
  proof cases
    case 1
    then have l: "lev h i = ?L + 1" by (simp add: lev_def)
    show ?thesis unfolding l home_cases [OF assms(1)] xy using 1 f w by auto
  next
    case 2
    then have l: "lev h i = ?L" by (simp add: lev_def)
    show ?thesis unfolding l home_cases [OF assms(1)] xy using 2 f w by auto
  next
    case 3
    then have l: "lev h i = ?L + 1" by (simp add: lev_def)
    show ?thesis unfolding l home_cases [OF assms(1)] xy using 3 f w by auto
  qed
qed

section \<open>Invariant\<close>

definition is_dst :: "('k, 'v) lhm \<Rightarrow> (nat \<times> nat) set \<Rightarrow> nat \<Rightarrow> bool" where
  "is_dst h S j \<longleftrightarrow> (\<exists>L p. (L, p) \<in> S \<and> j = width h L + p)"

definition is_src :: "(nat \<times> nat) set \<Rightarrow> nat \<Rightarrow> bool" where
  "is_src S j \<longleftrightarrow> (\<exists>L. (L, j) \<in> S)"

text \<open>Where the entries of a hash value are: in its home, or still in the bucket that is being split.\<close>

definition located :: "('k, 'v) lhm \<Rightarrow> (nat \<times> nat) set \<Rightarrow> nat \<Rightarrow> nat \<Rightarrow> bool" where
  "located h S hv i \<longleftrightarrow>
     (\<exists>L. (L, i) \<in> S \<and> home h hv = width h L + i) \<or> home h hv = i \<and> \<not> is_dst h S i"

definition split_ok :: "('k, 'v) lhm \<Rightarrow> nat \<times> nat \<Rightarrow> bool" where
  "split_ok h x \<longleftrightarrow> (case x of (L, p) \<Rightarrow>
     let src = lh_bkts h p; dst = lh_bkts h (width h L + p)
     in p < width h L \<and> width h L + p < bkt_cnt h \<and> lev h p = L + 1 \<and> lev h (width h L + p) = L + 1
        \<and> bkt_active src \<and> bkt_lock src \<and> bkt_L src = L
        \<and> bkt_active dst \<and> bkt_lock dst \<and> bkt_L dst = 0 \<and> bkt_nodes dst = [])"

definition lh_inv :: "('k \<Rightarrow> nat) \<Rightarrow> ('k, 'v) lhm \<Rightarrow> (nat \<times> nat) set \<Rightarrow> bool" where
  "lh_inv hash_func h S \<longleftrightarrow>
     shape_ok h
     \<and> (\<forall>x \<in> S. split_ok h x)
     \<and> (\<forall>i < bkt_cnt h. is_src S i \<or> is_dst h S i \<or>
          bkt_active (lh_bkts h i) \<and> \<not> bkt_lock (lh_bkts h i) \<and> bkt_L (lh_bkts h i) = lev h i)
     \<and> (\<forall>i \<ge> bkt_cnt h. lh_bkts h i = bkt_new)
     \<and> (\<forall>i. distinct_keys (bkt_nodes (lh_bkts h i)))
     \<and> (\<forall>i. \<forall>k \<in> keys_of (bkt_nodes (lh_bkts h i)). located h S (hash_func k) i)"

lemma lh_invI:
  assumes "shape_ok h" "\<And>x. x \<in> S \<Longrightarrow> split_ok h x"
    "\<And>i. i < bkt_cnt h \<Longrightarrow> \<not> is_src S i \<Longrightarrow> \<not> is_dst h S i \<Longrightarrow>
       bkt_active (lh_bkts h i) \<and> \<not> bkt_lock (lh_bkts h i) \<and> bkt_L (lh_bkts h i) = lev h i"
    "\<And>i. bkt_cnt h \<le> i \<Longrightarrow> lh_bkts h i = bkt_new" "\<And>i. distinct_keys (bkt_nodes (lh_bkts h i))"
    "\<And>i k v. (k, v) \<in> set (bkt_nodes (lh_bkts h i)) \<Longrightarrow> located h S (hash_func k) i"
  shows "lh_inv hash_func h S"
  unfolding lh_inv_def keys_of_def using assms by fastforce

lemma lh_invD:
  assumes "lh_inv hash_func h S"
  shows "shape_ok h"
    and "x \<in> S \<Longrightarrow> split_ok h x"
    and "i < bkt_cnt h \<Longrightarrow> \<not> is_src S i \<Longrightarrow> \<not> is_dst h S i \<Longrightarrow>
      bkt_active (lh_bkts h i) \<and> \<not> bkt_lock (lh_bkts h i) \<and> bkt_L (lh_bkts h i) = lev h i"
    and "bkt_cnt h \<le> i \<Longrightarrow> lh_bkts h i = bkt_new"
    and "distinct_keys (bkt_nodes (lh_bkts h i))"
    and "(k, v) \<in> set (bkt_nodes (lh_bkts h i)) \<Longrightarrow> located h S (hash_func k) i"
  using assms unfolding lh_inv_def keys_of_def by (blast, blast, blast, blast, blast, force)

lemma split_okD:
  assumes "split_ok h (L, p)"
  shows "p < width h L" "width h L + p < bkt_cnt h" "lev h p = L + 1" "lev h (width h L + p) = L + 1"
    "bkt_active (lh_bkts h p)" "bkt_lock (lh_bkts h p)" "bkt_L (lh_bkts h p) = L"
    "bkt_active (lh_bkts h (width h L + p))" "bkt_lock (lh_bkts h (width h L + p))" "bkt_L (lh_bkts h (width h L + p)) = 0"
    "bkt_nodes (lh_bkts h (width h L + p)) = []"
  using assms by (auto simp: split_ok_def Let_def)

lemma width_mono: "L \<le> L' \<Longrightarrow> wid n L \<le> wid n L'"
  by (simp add: wid_def power_increasing)

lemma width_lt:
  assumes "L < L'"
  shows "2 * wid n L \<le> wid n L'"
  using width_mono [of "L + 1" L' n] assms by (simp add: wid_Suc [unfolded Suc_eq_plus1 [symmetric]])

lemma dst_unique:
  assumes "p < width h L" "p' < width h L'" "width h L + p = width h L' + p'"
  shows "L = L' \<and> p = p'"
proof (rule linorder_cases [of L L'])
  assume "L < L'"
  then show ?thesis using width_lt [of L L' "L0_bkt_n h"] assms by linarith
next
  assume "L' < L"
  then show ?thesis using width_lt [of L' L "L0_bkt_n h"] assms by linarith
qed (use assms(3) in simp)

text \<open>Sources and destinations of pending splits are different buckets.\<close>

lemma src_not_dst:
  assumes "lh_inv hash_func h S" "is_src S i"
  shows "\<not> is_dst h S i"
proof
  assume "is_dst h S i"
  then obtain L' p' where d: "(L', p') \<in> S" "i = width h L' + p'" by (auto simp: is_dst_def)
  obtain L where L: "(L, i) \<in> S" using assms(2) by (auto simp: is_src_def)
  note so = split_okD [OF lh_invD(2) [OF assms(1) L]] and dd = split_okD [OF lh_invD(2) [OF assms(1) d(1)]]
  have "L = 0" using so(7) dd(10) d(2) by simp
  then show False using so(1) d(2) width_mono [of 0 L' "L0_bkt_n h"] by simp
qed

lemma src_unique:
  assumes "lh_inv hash_func h S" "(L, i) \<in> S" "(L', i) \<in> S"
  shows "L = L'"
  using split_okD(7) [OF lh_invD(2) [OF assms(1,2)]] split_okD(7) [OF lh_invD(2) [OF assms(1,3)]] by simp

lemma located_unique:
  assumes "lh_inv hash_func h S" "located h S hv i" "located h S hv j"
  shows "i = j"
proof -
  have eq: "p = p'" if "(L, p) \<in> S" "(L', p') \<in> S" "width h L + p = width h L' + p'" for L p L' p'
    using dst_unique [of p h L p' L'] split_okD(1) [OF lh_invD(2) [OF assms(1) that(1)]]
      split_okD(1) [OF lh_invD(2) [OF assms(1) that(2)]] that(3) by blast
  show ?thesis using assms(2,3) eq unfolding located_def is_dst_def by metis
qed

lemma unlocked_plain:
  assumes "lh_inv hash_func h S" "\<not> bkt_lock (lh_bkts h i)"
  shows "\<not> is_src S i" "\<not> is_dst h S i"
proof -
  show "\<not> is_src S i"
  proof
    assume "is_src S i"
    then obtain L where "(L, i) \<in> S" by (auto simp: is_src_def)
    then show False using split_okD(6) [OF lh_invD(2) [OF assms(1)]] assms(2) by blast
  qed
  show "\<not> is_dst h S i"
  proof
    assume "is_dst h S i"
    then obtain L p where "(L, p) \<in> S" "i = width h L + p" by (auto simp: is_dst_def)
    then show False using split_okD(9) [OF lh_invD(2) [OF assms(1)]] assms(2) by blast
  qed
qed

section \<open>Accesses\<close>

lemma access_located:
  assumes "lh_inv hash_func h S" "access_bkt (L0_bkt_n h) L p hv = (lv, i)"
    "\<not> bkt_lock (lh_bkts h i)" "access_check (lv, i) h"
  shows "located h S hv i" "\<not> is_src S i" "\<not> is_dst h S i" "i < bkt_cnt h"
proof -
  note plain = unlocked_plain [OF assms(1,3)]
  show "\<not> is_src S i" "\<not> is_dst h S i" by (fact plain)+
  have a: "bkt_active (lh_bkts h i)" "bkt_L (lh_bkts h i) = lv" using assms(4) by (auto simp: access_check_def)
  show i: "i < bkt_cnt h"
  proof (rule ccontr)
    assume "\<not> i < bkt_cnt h"
    then have "lh_bkts h i = bkt_new" using lh_invD(4) [OF assms(1)] by simp
    then show False using a(1) by (simp add: bkt_new_def)
  qed
  have "lev h i = lv" using lh_invD(3) [OF assms(1) i plain] a(2) by simp
  moreover have "hv mod width h lv = i" using assms(2) by (auto simp: access_bkt_def split: if_splits)
  ultimately have "home h hv = i" using home_iff [OF lh_invD(1) [OF assms(1)] i] by simp
  then show "located h S hv i" using plain by (simp add: located_def)
qed

text \<open>Changing the entries of buckets that are not in a split.\<close>

lemma lh_inv_nodes:
  assumes "lh_inv hash_func h S"
    and b: "\<And>j. \<exists>ns. lh_bkts h' j = (lh_bkts h j)\<lparr>bkt_nodes := ns\<rparr>"
    and h: "L0_bkt_n h' = L0_bkt_n h" "lh_L h' = lh_L h" "lh_p h' = lh_p h"
    and d: "\<And>j. is_dst h S j \<Longrightarrow> bkt_nodes (lh_bkts h' j) = []"
    and n: "\<And>j. bkt_cnt h \<le> j \<Longrightarrow> bkt_nodes (lh_bkts h' j) = []"
    and k: "\<And>j. distinct_keys (bkt_nodes (lh_bkts h' j))"
      "\<And>j k. k \<in> keys_of (bkt_nodes (lh_bkts h' j)) \<Longrightarrow> located h S (hash_func k) j"
  shows "lh_inv hash_func h' S"
proof -
  let ?h = h
  have f: "bkt_active (lh_bkts h' j) = bkt_active (lh_bkts ?h j)" "bkt_lock (lh_bkts h' j) = bkt_lock (lh_bkts ?h j)"
    "bkt_L (lh_bkts h' j) = bkt_L (lh_bkts ?h j)" for j
    using b [of j] by auto
  have cnt: "bkt_cnt h' = bkt_cnt ?h" by (simp add: bkt_cnt_def h)
  have lv: "lev h' = lev ?h" by (simp add: lev_def h fun_eq_iff)
  have sh: "shape_ok h'" using lh_invD(1) [OF assms(1)] by (simp add: shape_ok_def h)
  have loc: "is_dst h' = is_dst h" "located h' = located h"
    by (simp_all add: fun_eq_iff is_dst_def located_def home_def h)
  have sp: "split_ok h' x" if "x \<in> S" for x
  proof -
    obtain L p where x: "x = (L, p)" by (cases x)
    have "is_dst h S (width ?h L + p)" using that x by (auto simp: is_dst_def)
    then show ?thesis
      using lh_invD(2) [OF assms(1) that] d unfolding x by (simp add: split_ok_def Let_def f cnt lv h)
  qed
  have new: "lh_bkts h' i = bkt_new" if "bkt_cnt ?h \<le> i" for i
  proof -
    obtain ns where ns: "lh_bkts h' i = (lh_bkts ?h i)\<lparr>bkt_nodes := ns\<rparr>" using b by blast
    then have "ns = []" using n [OF that] by simp
    then show ?thesis using ns lh_invD(4) [OF assms(1) that] by (simp add: bkt_new_def)
  qed
  have kl: "located h S (hash_func k) i" if "(k, v) \<in> set (bkt_nodes (lh_bkts h' i))" for i k v
    using k(2) that by (force simp: keys_of_def)
  show ?thesis
    by (rule lh_invI) (use sh sp new k(1) kl lh_invD(3) [OF assms(1)] in \<open>simp_all add: cnt lv f loc\<close>)
qed

lemma represents_act:
  assumes "lh_inv hash_func h S" "represents h m" "located h S (hash_func (op_key op)) i"
    "bkt_apply ok op (bkt_nodes (lh_bkts h i)) = (r, ns')"
  shows "\<exists>node_ok m'. hm_apply node_ok op m = (r, m') \<and>
    represents (set_bkt i ((lh_bkts h i)\<lparr>bkt_nodes := ns'\<rparr>) h) m'"
proof -
  let ?h = h and ?ns = "bkt_nodes (lh_bkts h i)" and ?k = "op_key op"
  let ?h' = "set_bkt i ((lh_bkts ?h i)\<lparr>bkt_nodes := ns'\<rparr>) ?h" and ?ok = "ok \<or> ?ns = []"
  have d: "distinct_keys ?ns" by (rule lh_invD(5) [OF assms(1)])
  note a = bkt_apply_map [OF d assms(4)]
  have only: "j = i" if "(?k, v) \<in> set (bkt_nodes (lh_bkts ?h j))" for j v
    using located_unique [OF assms(1) lh_invD(6) [OF assms(1) that] assms(3)] .
  have mk: "m ?k = map_of ?ns ?k"
  proof -
    have "m ?k = Some v \<longleftrightarrow> map_of ?ns ?k = Some v" for v
      using assms(2) only d unfolding represents_def map_of_eq_Some_iff [OF d] by blast
    then show ?thesis by (metis not_None_eq)
  qed
  define m' where "m' = m(?k := map_of ns' ?k)"
  have ap: "hm_apply ?ok op m = (r, m')"
    using hm_apply_local [of m op "map_of ?ns" ?ok, OF mk] a by (simp add: m'_def)
  have "m' k = Some v \<longleftrightarrow> (\<exists>j. (k, v) \<in> set (bkt_nodes (lh_bkts ?h' j)))" for k v
  proof (cases "k = ?k")
    case True
    have "m' k = Some v \<longleftrightarrow> (k, v) \<in> set ns'" using a True by (simp add: m'_def)
    then show ?thesis using only True by (auto split: if_splits)
  next
    case False
    have "map_of ns' k = map_of ?ns k" using hm_apply_other [OF False, of ?ok "map_of ?ns"] a by simp
    then have "(k, v) \<in> set ns' \<longleftrightarrow> (k, v) \<in> set ?ns" using a d by (metis map_of_eq_Some_iff)
    then have "(\<exists>j. (k, v) \<in> set (bkt_nodes (lh_bkts ?h' j))) \<longleftrightarrow> (\<exists>j. (k, v) \<in> set (bkt_nodes (lh_bkts ?h j)))"
      by (auto split: if_splits)
    then show ?thesis using assms(2) False by (simp add: m'_def represents_def)
  qed
  then show ?thesis using ap unfolding represents_def by blast
qed

definition step_effect :: "('k, 'v) lh_sys \<Rightarrow> ('k, 'v) lh_sys \<Rightarrow> ('k \<Rightarrow> 'v option) \<Rightarrow> bool" where
  "step_effect s s' m \<longleftrightarrow>
     represents (lhs_map s') m \<and> (\<forall>t op r. lhs_pcs s' t = HDone op r \<longrightarrow> lhs_pcs s t = HDone op r)
     \<or> (\<exists>t op L p r node_ok m'. lhs_pcs s t = HLoaded op L p \<and> lhs_pcs s' = (lhs_pcs s)(t := HDone op r)
          \<and> hm_apply node_ok op m = (r, m') \<and> represents (lhs_map s') m')"

lemma lh_act_step:
  assumes "lh_inv hash_func (lhs_map s) (lhs_splits s)" "represents (lhs_map s) m" "lh_act hash_func ok t s = Some s'"
  shows "lh_inv hash_func (lhs_map s') (lhs_splits s') \<and> step_effect s s' m"
proof (cases "lhs_pcs s t")
  case HIdle
  then show ?thesis using assms(3) by (simp add: lh_act_def Let_def)
next
  case (HDone op r)
  then show ?thesis using assms(3) by (simp add: lh_act_def Let_def)
next
  case (HStart op)
  then have s': "s' = s\<lparr>lhs_pcs := (lhs_pcs s)(t := HLoaded op (lh_L (lhs_map s)) (lh_p (lhs_map s)))\<rparr>"
    using assms(3) by (simp add: lh_act_def Let_def)
  show ?thesis using assms(1,2) by (simp add: s' step_effect_def)
next
  case (HLoaded op L p)
  let ?h = "lhs_map s"
  obtain lv i where li: "access_bkt (L0_bkt_n ?h) L p (hash_func (op_key op)) = (lv, i)"
    by (cases "access_bkt (L0_bkt_n ?h) L p (hash_func (op_key op))")
  have nl: "\<not> bkt_lock (lh_bkts ?h i)" using assms(3) HLoaded li by (auto simp: lh_act_def Let_def)
  show ?thesis
  proof (cases "access_check (lv, i) ?h")
    case False
    then have s': "s' = s\<lparr>lhs_pcs := (lhs_pcs s)(t := HStart op)\<rparr>"
      using assms(3) HLoaded li nl by (simp add: lh_act_def Let_def)
    show ?thesis using assms(1,2) by (simp add: s' step_effect_def)
  next
    case True
    obtain r ns' where a: "bkt_apply ok op (bkt_nodes (lh_bkts ?h i)) = (r, ns')" by (cases "bkt_apply ok op (bkt_nodes (lh_bkts ?h i))")
    let ?h' = "set_bkt i ((lh_bkts ?h i)\<lparr>bkt_nodes := ns'\<rparr>) ?h"
    have s': "s' = s\<lparr>lhs_map := ?h', lhs_pcs := (lhs_pcs s)(t := HDone op r)\<rparr>"
      using assms(3) HLoaded li nl True a by (simp add: lh_act_def Let_def)
    note loc = access_located [OF assms(1) li nl True]
    have d: "distinct_keys ns'" "keys_of ns' \<subseteq> insert (op_key op) (keys_of (bkt_nodes (lh_bkts ?h i)))"
      using bkt_apply_map [OF lh_invD(5) [OF assms(1)] a] by auto
    have kl: "k \<in> keys_of (bkt_nodes (lh_bkts ?h j)) \<Longrightarrow> located ?h (lhs_splits s) (hash_func k) j" for k j
      using lh_invD(6) [OF assms(1)] by (auto simp: keys_of_def)
    have dn: "bkt_nodes (lh_bkts ?h j) = []" if "is_dst ?h (lhs_splits s) j" for j
      using that split_okD(11) [OF lh_invD(2) [OF assms(1)]] by (auto simp: is_dst_def)
    have "lh_inv hash_func ?h' (lhs_splits s)"
    proof (rule lh_inv_nodes [OF assms(1)])
      fix j
      show "\<exists>ns. lh_bkts ?h' j = (lh_bkts ?h j)\<lparr>bkt_nodes := ns\<rparr>"
        by (rule exI [of _ "if j = i then ns' else bkt_nodes (lh_bkts ?h j)"]) simp
      show "bkt_nodes (lh_bkts ?h' j) = []" if "is_dst ?h (lhs_splits s) j" using that loc(3) dn by auto
      show "bkt_nodes (lh_bkts ?h' j) = []" if "bkt_cnt ?h \<le> j"
        using that loc(4) lh_invD(4) [OF assms(1) that] by (auto simp: bkt_new_def)
      show "distinct_keys (bkt_nodes (lh_bkts ?h' j))" using d(1) lh_invD(5) [OF assms(1)] by simp
      show "located ?h (lhs_splits s) (hash_func k) j" if "k \<in> keys_of (bkt_nodes (lh_bkts ?h' j))" for k
        using that d(2) kl loc(1) by (auto split: if_splits)
    qed simp_all
    moreover have "step_effect s s' m"
    proof -
      obtain node_ok m' where "hm_apply node_ok op m = (r, m')" "represents ?h' m'"
        using represents_act [OF assms(1,2) loc(1) a] by blast
      then show ?thesis
        using HLoaded unfolding step_effect_def s'
        by (intro disjI2 exI [of _ t] exI [of _ op] exI [of _ L] exI [of _ p] exI [of _ r] exI [of _ node_ok] exI [of _ m']) simp
    qed
    ultimately show ?thesis by (simp add: s')
  qed
qed

section \<open>Moving the split position\<close>

definition next_pos :: "nat \<Rightarrow> nat \<Rightarrow> nat \<Rightarrow> nat \<times> nat" where
  "next_pos n0 L p = (if wid n0 L = p + 1 then (L + 1, 0) else (L, p + 1))"

lemma next_pos_home:
  assumes "0 < wid n0 L" "p < wid n0 L" "next_pos n0 L p = (L', p')"
  shows "snd (access_bkt n0 L' p' hv) = (if hv mod wid n0 L = p then hv mod wid n0 (L + 1) else snd (access_bkt n0 L p hv))"
    and "hv mod wid n0 L = p \<Longrightarrow> snd (access_bkt n0 L p hv) = p"
    and "hv mod wid n0 L = p \<Longrightarrow> hv mod wid n0 (L + 1) \<in> {p, wid n0 L + p}"
proof -
  obtain x y where xy: "hv mod wid n0 L = x" "hv mod wid n0 (L + 1) = y" by blast
  have x: "x < wid n0 L" "y = x \<or> y = x + wid n0 L"
    using mod_double [OF assms(1), of hv] assms(1) xy by (auto simp: wid_Suc [unfolded Suc_eq_plus1 [symmetric]])
  show "hv mod wid n0 L = p \<Longrightarrow> snd (access_bkt n0 L p hv) = p" by (simp add: access_bkt_def)
  show "hv mod wid n0 L = p \<Longrightarrow> hv mod wid n0 (L + 1) \<in> {p, wid n0 L + p}" unfolding xy using x(2) by auto
  show "snd (access_bkt n0 L' p' hv) = (if hv mod wid n0 L = p then hv mod wid n0 (L + 1) else snd (access_bkt n0 L p hv))"
  proof (cases "wid n0 L = p + 1")
    case True
    then have "L' = L + 1" "p' = 0" using assms(3) by (auto simp: next_pos_def)
    then show ?thesis using True x(1) xy by (auto simp: access_bkt_def)
  next
    case False
    then have "L' = L" "p' = p + 1" using assms(3) by (auto simp: next_pos_def)
    then show ?thesis using xy by (auto simp: access_bkt_def)
  qed
qed

lemma next_pos_shape:
  assumes "0 < wid n0 L" "p < wid n0 L" "next_pos n0 L p = (L', p')"
  shows "p' < wid n0 L'" "wid n0 L' + p' = wid n0 L + p + 1"
proof -
  show "p' < wid n0 L'" using assms by (auto simp: next_pos_def wid_def split: if_splits)
  show "wid n0 L' + p' = wid n0 L + p + 1"
    using assms by (auto simp: next_pos_def wid_Suc [unfolded Suc_eq_plus1 [symmetric]] split: if_splits)
qed

lemma next_pos_lev:
  assumes "p < wid n0 L" "next_pos n0 L p = (L', p')" "i < wid n0 L + p + 1"
  shows "(if i < p' \<or> wid n0 L' \<le> i then L' + 1 else L')
    = (if i = p \<or> i = wid n0 L + p then L + 1 else if i < p \<or> wid n0 L \<le> i then L + 1 else L)"
proof (cases "wid n0 L = p + 1")
  case True
  then have "L' = L + 1" "p' = 0" "wid n0 L' = wid n0 L * 2" using assms(2) wid_Suc [of n0 L] by (auto simp: next_pos_def)
  then show ?thesis using True assms(3) by auto
next
  case False
  then have "L' = L" "p' = p + 1" using assms(2) by (auto simp: next_pos_def)
  then show ?thesis using assms by auto
qed

lemma shrink_pos_next:
  assumes "0 < n0" "p < wid n0 L" "\<not> (L = 0 \<and> p = 0)" "shrink_pos n0 L p = (newL, newp)"
  shows "newp < wid n0 newL" "next_pos n0 newL newp = (L, p)"
proof -
  show "newp < wid n0 newL"
    using assms by (auto simp: shrink_pos_def Let_def wid_def split: if_splits)
  show "next_pos n0 newL newp = (L, p)"
  proof (cases "p = 0")
    case True
    then have "newL = L - 1" "newp = wid n0 newL - 1" "L > 0" using assms by (auto simp: shrink_pos_def Let_def)
    moreover have "0 < wid n0 newL" using assms(1) by (simp add: wid_def)
    ultimately show ?thesis using True by (simp add: next_pos_def)
  next
    case False
    then have "newL = L" "newp = p - 1" using assms by (auto simp: shrink_pos_def)
    then show ?thesis using False assms(2) by (auto simp: next_pos_def)
  qed
qed

section \<open>Expansion\<close>

lemma expand_begin_fields:
  assumes "next_pos (L0_bkt_n h) (lh_L h) (lh_p h) = (L', p')"
  shows "L0_bkt_n (expand_begin h) = L0_bkt_n h" "lh_L (expand_begin h) = L'" "lh_p (expand_begin h) = p'"
    "lh_bkts (expand_begin h) i =
       (let b = (if i = lh_p h then (lh_bkts h i)\<lparr>bkt_lock := True\<rparr> else lh_bkts h i)
        in if i = width h (lh_L h) + lh_p h then b\<lparr>bkt_lock := True, bkt_active := True\<rparr> else b)"
  using assms by (auto simp: expand_begin_def next_pos_def Let_def split: if_splits)

lemma expand_nodes: "bkt_nodes (lh_bkts (expand_begin h) i) = bkt_nodes (lh_bkts h i)"
  by (simp add: expand_begin_def Let_def)

text \<open>Publishing the new position moves no home but those of the hash values in the new bucket, whose entries
  stay located in the bucket to be split.\<close>

lemma expand_located:
  assumes inv: "lh_inv hash_func h S" and src: "\<not> bkt_lock (lh_bkts h (lh_p h))"
    and h': "L0_bkt_n h' = L0_bkt_n h" "next_pos (L0_bkt_n h) (lh_L h) (lh_p h) = (lh_L h', lh_p h')"
  shows "located h' (insert (lh_L h, lh_p h) S) hv i \<longleftrightarrow> located h S hv i"
proof -
  let ?p = "lh_p h" and ?w = "width h (lh_L h)" and ?S' = "insert (lh_L h, lh_p h) S"
  define d where "d = ?w + ?p"
  have sh: "?p < ?w" using lh_invD(1) [OF inv] by (simp add: shape_ok_def)
  then have w: "0 < ?w" by linarith
  note nh = next_pos_home [OF w sh h'(2)]
  have pd: "\<not> is_dst h S ?p" using unlocked_plain(2) [OF inv src] .
  have below: "width h L + p < d" if "(L, p) \<in> S" for L p
    using split_okD(2) [OF lh_invD(2) [OF inv that]] by (simp add: d_def bkt_cnt_def)
  have hl: "home h hv < d" using home_less [OF lh_invD(1) [OF inv]] by (simp add: d_def bkt_cnt_def)
  have hh: "home h' hv = (if hv mod ?w = ?p then hv mod width h (lh_L h + 1) else home h hv)"
    using nh(1) by (simp add: home_def h'(1))
  have isd: "is_dst h' ?S' j \<longleftrightarrow> is_dst h S j \<or> j = d" for j by (auto simp: is_dst_def h'(1) d_def)
  show ?thesis
  proof (cases "hv mod ?w = ?p")
    case False
    then have "home h' hv = home h hv" using hh by simp
    then show ?thesis using hl by (auto simp: located_def isd h'(1) d_def)
  next
    case True
    have "home h hv = ?p" using nh(2) [OF True] by (simp add: home_def)
    then have ol: "located h S hv i \<longleftrightarrow> i = ?p" using pd unfolding located_def is_dst_def by metis
    have "home h' hv = ?p \<or> home h' hv = d" using nh(3) [OF True] hh True by (auto simp: d_def)
    then show ?thesis
    proof
      assume e: "home h' hv = ?p"
      have "?p \<noteq> d" using w by (simp add: d_def)
      moreover have "?p \<noteq> width h L + i" if "(L, i) \<in> S" for L using pd that by (auto simp: is_dst_def)
      ultimately have "located h' ?S' hv i \<longleftrightarrow> i = ?p"
        using pd unfolding located_def [of h'] isd e h'(1) by (auto simp: d_def)
      then show ?thesis using ol by simp
    next
      assume e: "home h' hv = d"
      have "d \<noteq> width h L + i" if "(L, i) \<in> S" for L using below [OF that] by simp
      then have "located h' ?S' hv i \<longleftrightarrow> i = ?p" unfolding located_def [of h'] isd e h'(1) by (auto simp: d_def)
      then show ?thesis using ol by simp
    qed
  qed
qed

lemma lh_expand_begin_inv:
  assumes inv: "lh_inv hash_func h S"
    and src: "\<not> bkt_lock (lh_bkts h (lh_p h))" and dst: "\<not> bkt_lock (lh_bkts h (width h (lh_L h) + lh_p h))"
  shows "lh_inv hash_func (expand_begin h) (insert (lh_L h, lh_p h) S)"
proof -
  define p where "p = lh_p h"
  define L where "L = lh_L h"
  define d where "d = width h L + p"
  define h' where "h' = expand_begin h"
  have sh: "0 < L0_bkt_n h" "p < width h L" using lh_invD(1) [OF inv] by (auto simp: shape_ok_def p_def L_def)
  then have w: "0 < width h L" by linarith
  obtain L' p' where np: "next_pos (L0_bkt_n h) L p = (L', p')" by (cases "next_pos (L0_bkt_n h) L p")
  note ef = expand_begin_fields [of h L' p', folded h'_def p_def L_def, OF np] and ns = next_pos_shape [OF w sh(2) np]
  have cnt: "bkt_cnt h = d" "bkt_cnt h' = d + 1" using ns(2) by (simp_all add: bkt_cnt_def ef d_def p_def L_def)
  have psrc: "\<not> is_src S p" "\<not> is_dst h S p" using unlocked_plain [OF inv src] by (simp_all add: p_def)
  have below: "width h l + q < d" "q < width h l" if "(l, q) \<in> S" for l q
    using split_okD(1,2) [OF lh_invD(2) [OF inv that]] cnt(1) by auto
  have isd: "is_dst h' (insert (L, p) S) j \<longleftrightarrow> is_dst h S j \<or> j = d" for j by (auto simp: is_dst_def ef d_def)
  have loc: "located h' (insert (L, p) S) hv i \<longleftrightarrow> located h S hv i" for hv i
    unfolding L_def p_def by (rule expand_located [OF inv src]) (use np in \<open>simp_all add: ef L_def p_def\<close>)
  have lv: "lev h' i = (if i = p \<or> i = d then L + 1 else lev h i)" if "i < d + 1" for i
    using next_pos_lev [OF sh(2) np, of i] that unfolding lev_def ef d_def p_def [symmetric] L_def [symmetric] by blast
  have dnew: "lh_bkts h d = bkt_new" using lh_invD(4) [OF inv] cnt(1) by simp
  have pl: "bkt_active (lh_bkts h p)" "bkt_L (lh_bkts h p) = L"
  proof -
    have "p < bkt_cnt h" "lev h p = L" using sh(2) cnt(1) by (auto simp: d_def lev_def p_def L_def)
    then show "bkt_active (lh_bkts h p)" "bkt_L (lh_bkts h p) = L" using lh_invD(3) [OF inv] psrc by auto
  qed
  have bk: "lh_bkts h' i = lh_bkts h i" if "i \<noteq> p" "i \<noteq> d" for i using that by (simp add: ef d_def)
  show ?thesis
    unfolding h'_def [symmetric] L_def [symmetric] p_def [symmetric]
  proof (rule lh_invI)
    show "shape_ok h'" using sh(1) ns(1) by (simp add: shape_ok_def ef)
    show "split_ok h' x" if "x \<in> insert (L, p) S" for x
    proof (cases "x = (L, p)")
      case True
      then show ?thesis
        using sh(2) cnt(2) lv [of p] lv [of d] dnew pl w by (simp add: split_ok_def Let_def ef bkt_new_def d_def)
    next
      case False
      then have x: "x \<in> S" using that by simp
      obtain l q where xe: "x = (l, q)" by (cases x)
      have b: "width h l + q < d" "q < width h l" using below x xe by auto
      have ne: "q \<noteq> p" "width h l + q \<noteq> p" using psrc x xe by (auto simp: is_src_def is_dst_def)
      have "split_ok h x" by (rule lh_invD(2) [OF inv x])
      then show ?thesis
        using ne b lv [of q] lv [of "width h l + q"] cnt bk [of q] bk [of "width h l + q"] by (simp add: split_ok_def xe Let_def ef(1))
    qed
    show "bkt_active (lh_bkts h' i) \<and> \<not> bkt_lock (lh_bkts h' i) \<and> bkt_L (lh_bkts h' i) = lev h' i"
      if "i < bkt_cnt h'" "\<not> is_src (insert (L, p) S) i" "\<not> is_dst h' (insert (L, p) S) i" for i
    proof -
      have "i \<noteq> p" "i \<noteq> d" "\<not> is_src S i" "\<not> is_dst h S i" using that(2,3) by (auto simp: is_src_def isd)
      then show ?thesis using lh_invD(3) [OF inv, of i] that(1) cnt lv [of i] bk [of i] by simp
    qed
    show "lh_bkts h' i = bkt_new" if "bkt_cnt h' \<le> i" for i
    proof -
      have "i \<noteq> p" "i \<noteq> d" "bkt_cnt h \<le> i" using that cnt by (auto simp: d_def)
      then show ?thesis using lh_invD(4) [OF inv] bk by simp
    qed
    show "distinct_keys (bkt_nodes (lh_bkts h' i))" for i using lh_invD(5) [OF inv] by (simp add: expand_nodes h'_def)
    show "located h' (insert (L, p) S) (hash_func k) i" if "(k, v) \<in> set (bkt_nodes (lh_bkts h' i))" for i k v
      using lh_invD(6) [OF inv] that by (simp add: loc) (simp add: h'_def expand_nodes)
  qed
qed

text \<open>Moving entries between two buckets does not change the represented function.\<close>

lemma represents_move:
  assumes "\<And>i. i \<noteq> a \<Longrightarrow> i \<noteq> b \<Longrightarrow> lh_bkts h' i = lh_bkts h i"
    "set (bkt_nodes (lh_bkts h' a)) \<union> set (bkt_nodes (lh_bkts h' b)) = set (bkt_nodes (lh_bkts h a)) \<union> set (bkt_nodes (lh_bkts h b))"
    "represents h m"
  shows "represents h' m"
proof -
  let ?N = "\<lambda>h i. set (bkt_nodes (lh_bkts h i))"
  have u: "(\<Union>i. N i) = N a \<union> N b \<union> (\<Union>i \<in> - {a, b}. N i)" for N :: "nat \<Rightarrow> ('a \<times> 'b) set"
    by auto
  have "(\<Union>i. ?N h' i) = (\<Union>i. ?N h i)" unfolding u [of "?N h"] u [of "?N h'"] using assms(1,2) by auto
  then have "(\<exists>i. x \<in> ?N h' i) \<longleftrightarrow> (\<exists>i. x \<in> ?N h i)" for x by blast
  then show ?thesis using assms(3) by (simp add: represents_def)
qed

lemma split_loop_filter:
  "split_loop stays cs n0 n1 = (rev (filter (stays \<circ> fst) cs) @ n0, rev (filter (Not \<circ> stays \<circ> fst) cs) @ n1)"
  by (induction cs arbitrary: n0 n1) auto

lemma split_nodes_spec:
  assumes "split_nodes stays ns = (n0, n1)"
  shows "set n0 = {x \<in> set ns. stays (fst x)}" "set n1 = {x \<in> set ns. \<not> stays (fst x)}"
    "distinct_keys ns \<Longrightarrow> distinct_keys n0 \<and> distinct_keys n1"
proof -
  have f: "distinct_keys (filter P xs)" if "distinct_keys xs" for P and xs :: "('a \<times> 'b) list"
    using that by (rule distinct_map_filter)
  show "set n0 = {x \<in> set ns. stays (fst x)}" "set n1 = {x \<in> set ns. \<not> stays (fst x)}"
    using assms by (auto simp: split_nodes_def split_loop_filter split: list.splits if_splits)
  show "distinct_keys n0 \<and> distinct_keys n1" if "distinct_keys ns"
    using assms that by (auto simp: split_nodes_def split_loop_filter rev_map [symmetric] f split: list.splits if_splits)
qed

lemma expand_end_fields:
  assumes "split_nodes (\<lambda>k. hash_func k mod width h (L + 1) = p) (bkt_nodes (lh_bkts h p)) = (n0, n1)"
    "bkt_nodes (lh_bkts h (width h L + p)) = []" "p < width h L"
  shows "L0_bkt_n (expand_end hash_func L p h) = L0_bkt_n h" "lh_L (expand_end hash_func L p h) = lh_L h"
    "lh_p (expand_end hash_func L p h) = lh_p h"
    "lh_bkts (expand_end hash_func L p h) =
       (lh_bkts h)(width h L + p := (lh_bkts h (width h L + p))\<lparr>bkt_nodes := n1, bkt_L := bkt_L (lh_bkts h p) + 1, bkt_lock := False\<rparr>,
                   p := (lh_bkts h p)\<lparr>bkt_nodes := n0, bkt_L := bkt_L (lh_bkts h p) + 1, bkt_lock := False\<rparr>)"
proof -
  note sn = assms(1) [unfolded Suc_eq_plus1 [symmetric]]
  have e: "n0 = [] \<and> n1 = []" if "bkt_nodes (lh_bkts h p) = []" using assms(1) that by (simp add: split_nodes_def)
  show "L0_bkt_n (expand_end hash_func L p h) = L0_bkt_n h" "lh_L (expand_end hash_func L p h) = lh_L h"
    "lh_p (expand_end hash_func L p h) = lh_p h" by (simp_all add: expand_end_def Let_def sn)
  show "lh_bkts (expand_end hash_func L p h) =
       (lh_bkts h)(width h L + p := (lh_bkts h (width h L + p))\<lparr>bkt_nodes := n1, bkt_L := bkt_L (lh_bkts h p) + 1, bkt_lock := False\<rparr>,
                   p := (lh_bkts h p)\<lparr>bkt_nodes := n0, bkt_L := bkt_L (lh_bkts h p) + 1, bkt_lock := False\<rparr>)"
    using e assms(2) by (cases "bkt_nodes (lh_bkts h p) = []") (auto simp: expand_end_def Let_def sn fun_eq_iff)
qed

lemma expand_end_inv:
  assumes inv: "lh_inv hash_func h S" and S: "(L, p) \<in> S"
  defines "h' \<equiv> expand_end hash_func L p h"
  shows "lh_inv hash_func h' (S - {(L, p)})" "represents h m \<Longrightarrow> represents h' m"
proof -
  define d where "d = width h L + p"
  define S' where "S' = S - {(L, p)}"
  note so = split_okD [OF lh_invD(2) [OF inv S]]
  have dp: "d \<noteq> p" using so(1) by (simp add: d_def)
  obtain n0 n1 where n: "split_nodes (\<lambda>k. hash_func k mod width h (L + 1) = p) (bkt_nodes (lh_bkts h p)) = (n0, n1)"
    by (cases "split_nodes (\<lambda>k. hash_func k mod width h (L + 1) = p) (bkt_nodes (lh_bkts h p))")
  note ef = expand_end_fields [OF n so(11,1), folded h'_def d_def] and ns = split_nodes_spec [OF n]
  have bk: "lh_bkts h' i = lh_bkts h i" if "i \<noteq> p" "i \<noteq> d" for i using that by (simp add: ef)
  have nd: "bkt_nodes (lh_bkts h' p) = n0" "bkt_nodes (lh_bkts h' d) = n1" using dp by (simp_all add: ef)
  have same: "home h' = home h" "lev h' = lev h" "bkt_cnt h' = bkt_cnt h"
    by (simp_all add: fun_eq_iff home_def lev_def bkt_cnt_def ef)
  have psrc: "is_src S p" "is_dst h S d" using S by (auto simp: is_src_def is_dst_def d_def)
  have dd: "l = L \<and> q = p" if "(l, q) \<in> S" "width h l + q = d" for l q
    using dst_unique [of q h l p L] split_okD(1) [OF lh_invD(2) [OF inv that(1)]] so(1) that(2) by (simp add: d_def)
  have isd: "is_dst h' S' j \<longleftrightarrow> is_dst h S j \<and> j \<noteq> d" for j using dd by (auto simp: is_dst_def S'_def ef d_def)
  have iss: "is_src S' j \<longleftrightarrow> is_src S j \<and> j \<noteq> p" for j using src_unique [OF inv _ S] by (auto simp: is_src_def S'_def)
  have pd: "\<not> is_dst h S p" by (rule src_not_dst [OF inv psrc(1)])
  have dnsrc: "\<not> is_src S d" using src_not_dst [OF inv] psrc(2) by blast
  have hp: "home h hv = p \<longleftrightarrow> hv mod width h (L + 1) = p" for hv
    using home_iff [OF lh_invD(1) [OF inv], of p] so(1-3) by simp
  have oth: "located h' S' hv i" if "located h S hv i" "i \<noteq> p" for hv i
    using that unfolding located_def same isd by (auto simp: S'_def ef)
  have lp: "located h' S' hv (if hv mod width h (L + 1) = p then p else d)" if "located h S hv p" for hv
  proof (cases "hv mod width h (L + 1) = p")
    case True
    then show ?thesis using hp pd by (simp add: located_def same isd)
  next
    case False
    then have "home h hv = d" using that src_unique [OF inv _ S] hp unfolding located_def by (auto simp: d_def)
    then show ?thesis using False by (simp add: located_def same isd)
  qed
  have "lh_inv hash_func h' S'"
  proof (rule lh_invI)
    show "shape_ok h'" using lh_invD(1) [OF inv] by (simp add: shape_ok_def ef)
    show "split_ok h' x" if "x \<in> S'" for x
    proof -
      obtain l q where xe: "x = (l, q)" by (cases x)
      have x: "(l, q) \<in> S" "(l, q) \<noteq> (L, p)" using that xe by (auto simp: S'_def)
      have "q \<noteq> p" using src_unique [OF inv x(1)] S x(2) by blast
      moreover have "q \<noteq> d" using x(1) dnsrc by (auto simp: is_src_def)
      moreover have "width h l + q \<noteq> d" using dd [OF x(1)] x(2) by blast
      moreover have "width h l + q \<noteq> p" using x(1) pd by (auto simp: is_dst_def)
      moreover have "split_ok h (l, q)" by (rule lh_invD(2) [OF inv x(1)])
      ultimately show ?thesis using bk [of q] bk [of "width h l + q"] by (simp add: split_ok_def xe Let_def same ef(1))
    qed
    show "bkt_active (lh_bkts h' i) \<and> \<not> bkt_lock (lh_bkts h' i) \<and> bkt_L (lh_bkts h' i) = lev h' i"
      if "i < bkt_cnt h'" "\<not> is_src S' i" "\<not> is_dst h' S' i" for i
    proof -
      consider "i = p" | "i = d" | "i \<noteq> p" "i \<noteq> d" by blast
      then show ?thesis
      proof cases
        case 3
        then show ?thesis using lh_invD(3) [OF inv, of i] that bk [of i] by (simp add: same iss isd)
      qed (use so dp in \<open>simp_all add: ef same flip: d_def\<close>)
    qed
    show "lh_bkts h' i = bkt_new" if "bkt_cnt h' \<le> i" for i
      using that lh_invD(4) [OF inv, of i] so(1,2) bk [of i] by (simp add: same d_def)
    show "distinct_keys (bkt_nodes (lh_bkts h' i))" for i
      using ns(3) [OF lh_invD(5) [OF inv]] lh_invD(5) [OF inv, of i] by (simp add: ef)
    show "located h' S' (hash_func k) i" if "(k, v) \<in> set (bkt_nodes (lh_bkts h' i))" for i k v
    proof -
      consider "i = p" | "i = d" | "i \<noteq> p" "i \<noteq> d" by blast
      then show ?thesis
      proof cases
        case 1
        then have a: "(k, v) \<in> set (bkt_nodes (lh_bkts h p))" "hash_func k mod width h (L + 1) = p" using that nd ns(1) by auto
        then show ?thesis using lp [OF lh_invD(6) [OF inv a(1)]] 1 by simp
      next
        case 2
        then have a: "(k, v) \<in> set (bkt_nodes (lh_bkts h p))" "hash_func k mod width h (L + 1) \<noteq> p" using that nd ns(2) by auto
        then show ?thesis using lp [OF lh_invD(6) [OF inv a(1)]] 2 by simp
      next
        case 3
        then show ?thesis using oth [OF lh_invD(6) [OF inv]] that bk [of i] by simp
      qed
    qed
  qed
  then show "lh_inv hash_func h' (S - {(L, p)})" by (simp add: S'_def)
  have "set (bkt_nodes (lh_bkts h' p)) \<union> set (bkt_nodes (lh_bkts h' d)) = set (bkt_nodes (lh_bkts h p)) \<union> set (bkt_nodes (lh_bkts h d))"
    using so(11) by (auto simp: nd ns simp flip: d_def)
  then show "represents h' m" if "represents h m" using represents_move [OF _ _ that, of p d h'] bk by blast
qed

section \<open>Uniting two buckets\<close>

lemma unite_nodes_set: "unite_nodes ok src dst = Some ns \<Longrightarrow> set ns = set src \<union> set dst"
  by (auto simp: unite_nodes_def split: if_splits list.splits)

lemma unite_nodes_distinct:
  assumes "unite_nodes ok src dst = Some ns" "distinct_keys src" "distinct_keys dst" "fst ` set src \<inter> fst ` set dst = {}"
  shows "distinct_keys ns"
  using assms by (auto simp: unite_nodes_def split: if_splits list.splits)

text \<open>A union goes back to the position before the last split; the homes of the two buckets become one.\<close>

lemma unite_home:
  assumes sh: "shape_ok h" and np: "next_pos (L0_bkt_n h) newL newp = (lh_L h, lh_p h)" and lt: "newp < width h newL"
    and h': "L0_bkt_n h' = L0_bkt_n h" "lh_L h' = newL" "lh_p h' = newp"
  shows "shape_ok h'" "bkt_cnt h' = width h newL + newp" "bkt_cnt h = bkt_cnt h' + 1"
    "home h' hv = (if home h hv = bkt_cnt h' then newp else home h hv)"
    "i < bkt_cnt h \<Longrightarrow> lev h i = (if i = newp \<or> i = bkt_cnt h' then newL + 1 else lev h' i)" "lev h' newp = newL"
proof -
  have w: "0 < width h newL" using lt by linarith
  note nh = next_pos_home [OF w lt np, of hv] and ns = next_pos_shape [OF w lt np]
  show sh': "shape_ok h'" using sh lt by (simp add: shape_ok_def h')
  show c: "bkt_cnt h' = width h newL + newp" by (simp add: bkt_cnt_def h')
  show c1: "bkt_cnt h = bkt_cnt h' + 1" using ns(2) c by (simp add: bkt_cnt_def)
  show "i < bkt_cnt h \<Longrightarrow> lev h i = (if i = newp \<or> i = bkt_cnt h' then newL + 1 else lev h' i)"
    using next_pos_lev [OF lt np, of i] c1 unfolding lev_def h' c by simp
  show "lev h' newp = newL" using lt by (simp add: lev_def h')
  have hl: "home h' hv < bkt_cnt h'" by (rule home_less [OF sh'])
  show "home h' hv = (if home h hv = bkt_cnt h' then newp else home h hv)"
  proof (cases "hv mod width h newL = newp")
    case True
    then have "home h' hv = newp" "home h hv \<in> {newp, bkt_cnt h'}" using nh c by (auto simp: home_def h')
    then show ?thesis by auto
  next
    case False
    then have "home h hv = home h' hv" using nh(1) by (simp add: home_def h')
    then show ?thesis using hl by simp
  qed
qed

lemma shrink_round_fields:
  assumes "unite_nodes ok (bkt_nodes (lh_bkts h (width h newL + newp))) (bkt_nodes (lh_bkts h newp)) = Some ns"
    "newp < width h newL" "\<not> bkt_lock (lh_bkts h (width h newL + newp))" "bkt_L (lh_bkts h newp) = newL + 1"
    "\<And>j. width h newL + newp < j \<Longrightarrow> lh_bkts h j = bkt_new"
  shows "L0_bkt_n (snd (shrink_round ok newL newp h)) = L0_bkt_n h" "lh_L (snd (shrink_round ok newL newp h)) = newL"
    "lh_p (snd (shrink_round ok newL newp h)) = newp"
    "lh_bkts (snd (shrink_round ok newL newp h)) =
       (lh_bkts h)(newp := (lh_bkts h newp)\<lparr>bkt_nodes := ns, bkt_L := newL\<rparr>, width h newL + newp := bkt_new)"
proof -
  let ?d = "width h newL + newp"
  define g where "g = h\<lparr>lh_bkts := (lh_bkts h)(newp := (lh_bkts h newp)\<lparr>bkt_nodes := ns, bkt_L := newL\<rparr>, ?d := bkt_new), lh_L := newL, lh_p := newp\<rparr>"
  have "(lh_bkts h ?d)\<lparr>bkt_nodes := [], bkt_L := 0, bkt_active := False\<rparr> = bkt_new"
    using assms(3) by (intro Bucket.equality) (simp_all add: bkt_new_def)
  then have "snd (shrink_round ok newL newp h) = evict_seg ?d g"
    using assms(1,2,4) by (simp add: shrink_round_def Let_def g_def)
  moreover have "lh_bkts g j = bkt_new" if "?d \<le> j" for j using that assms(2,5) by (auto simp: g_def)
  then have "evict_seg ?d g = g" using seg_start_least [of "lh_segs g" ?d] by (auto simp: evict_seg_def fun_eq_iff intro!: lhm.equality)
  ultimately have e: "snd (shrink_round ok newL newp h) = g" by simp
  show "L0_bkt_n (snd (shrink_round ok newL newp h)) = L0_bkt_n h" "lh_L (snd (shrink_round ok newL newp h)) = newL"
    "lh_p (snd (shrink_round ok newL newp h)) = newp"
    "lh_bkts (snd (shrink_round ok newL newp h)) = (lh_bkts h)(newp := (lh_bkts h newp)\<lparr>bkt_nodes := ns, bkt_L := newL\<rparr>, ?d := bkt_new)"
    unfolding e by (simp_all add: g_def)
qed

lemma unite_inv:
  assumes inv: "lh_inv hash_func h S" and np: "next_pos (L0_bkt_n h) newL newp = (lh_L h, lh_p h)" and lt: "newp < width h newL"
    and un: "\<not> bkt_lock (lh_bkts h newp)" "\<not> bkt_lock (lh_bkts h (width h newL + newp))"
    and ok: "unite_nodes ok (bkt_nodes (lh_bkts h (width h newL + newp))) (bkt_nodes (lh_bkts h newp)) = Some ns"
  defines "h' \<equiv> snd (shrink_round ok newL newp h)"
  shows "lh_inv hash_func h' S" "represents h m \<Longrightarrow> represents h' m"
proof -
  define d where "d = width h newL + newp"
  have dn: "newp \<noteq> d" using lt by (simp add: d_def)
  note pn = unlocked_plain [OF inv un(1)] and pd = unlocked_plain [OF inv un(2), folded d_def]
  have "0 < width h newL" using lt by linarith
  then have cd: "bkt_cnt h = d + 1" using next_pos_shape(2) [OF _ lt np] by (simp add: bkt_cnt_def d_def)
  have "lev h newp = newL + 1" using next_pos_lev [OF lt np, of newp] by (simp add: lev_def)
  then have Ln: "bkt_L (lh_bkts h newp) = newL + 1" "bkt_active (lh_bkts h newp)"
    using lh_invD(3) [OF inv _ pn] cd lt by (auto simp: d_def)
  have "lh_bkts h j = bkt_new" if "d < j" for j using lh_invD(4) [OF inv, of j] cd that by simp
  note ef = shrink_round_fields [OF ok lt un(2) Ln(1) this [unfolded d_def], folded h'_def d_def]
  note uh = unite_home [OF lh_invD(1) [OF inv] np lt ef(1-3)]
  have cd': "bkt_cnt h' = d" using uh(2) by (simp add: d_def)
  have bk: "lh_bkts h' i = lh_bkts h i" if "i \<noteq> newp" "i \<noteq> d" for i using that by (simp add: ef)
  have nd: "bkt_nodes (lh_bkts h' newp) = ns" "bkt_nodes (lh_bkts h' d) = []" using dn by (simp_all add: ef bkt_new_def)
  have bd: "lh_bkts h' d = bkt_new" by (simp add: ef)
  have isd: "is_dst h' S = is_dst h S" by (simp add: fun_eq_iff is_dst_def ef)
  have pl: "home h hv = i" if "located h S hv i" "\<not> is_src S i" for hv i
    using that unfolding located_def is_src_def by blast
  have oth: "located h' S hv i" if "located h S hv i" "i \<noteq> d" for hv i
  proof -
    have "home h hv \<noteq> d" using that pd by (auto simp: located_def is_dst_def)
    then have "home h' hv = home h hv" using uh(4) cd' by simp
    then show ?thesis using that by (simp add: located_def isd ef)
  qed
  have fromd: "located h' S hv newp" if "located h S hv d" for hv
  proof -
    have "home h' hv = newp" using pl [OF that pd(1)] uh(4) cd' by simp
    then show ?thesis using pn(2) by (simp add: located_def isd)
  qed
  note sn = unite_nodes_set [OF ok, folded d_def]
  show "lh_inv hash_func h' S"
  proof (rule lh_invI)
    show "shape_ok h'" by (rule uh(1))
    show "split_ok h' x" if "x \<in> S" for x
    proof -
      obtain l q where xe: "x = (l, q)" by (cases x)
      note so = split_okD [OF lh_invD(2) [OF inv that [unfolded xe]]]
      have ne: "q \<noteq> newp" "q \<noteq> d" "width h l + q \<noteq> newp" "width h l + q \<noteq> d"
        using so(6,9) un by (auto simp: d_def)
      have "lev h' q = lev h q" "lev h' (width h l + q) = lev h (width h l + q)"
        using uh(5) [of q] uh(5) [of "width h l + q"] ne so(2) cd' by auto
      then show ?thesis
        using lh_invD(2) [OF inv that] ne bk [of q] bk [of "width h l + q"] cd cd' so(2) by (simp add: split_ok_def xe Let_def ef(1))
    qed
    show "bkt_active (lh_bkts h' i) \<and> \<not> bkt_lock (lh_bkts h' i) \<and> bkt_L (lh_bkts h' i) = lev h' i"
      if "i < bkt_cnt h'" "\<not> is_src S i" "\<not> is_dst h' S i" for i
    proof (cases "i = newp")
      case True
      then show ?thesis using un(1) Ln uh(6) dn by (simp add: ef)
    next
      case False
      then show ?thesis using lh_invD(3) [OF inv, of i] that cd cd' bk [of i] uh(5) [of i] by (simp add: isd)
    qed
    show "lh_bkts h' i = bkt_new" if "bkt_cnt h' \<le> i" for i
      using that lh_invD(4) [OF inv, of i] cd cd' bk [of i] bd lt d_def by (cases "i = d") simp_all
    have "fst ` set (bkt_nodes (lh_bkts h d)) \<inter> fst ` set (bkt_nodes (lh_bkts h newp)) = {}"
      using located_unique [OF inv] lh_invD(6) [OF inv] dn by fastforce
    then have "distinct_keys ns" using unite_nodes_distinct [OF ok] lh_invD(5) [OF inv] by (simp add: d_def)
    then show "distinct_keys (bkt_nodes (lh_bkts h' i))" for i
      using lh_invD(5) [OF inv, of i] by (simp add: ef bkt_new_def)
    show "located h' S (hash_func k) i" if "(k, v) \<in> set (bkt_nodes (lh_bkts h' i))" for i k v
    proof -
      consider "i = newp" | "i = d" | "i \<noteq> newp" "i \<noteq> d" by blast
      then show ?thesis
      proof cases
        case 1
        then have "(k, v) \<in> set (bkt_nodes (lh_bkts h d)) \<or> (k, v) \<in> set (bkt_nodes (lh_bkts h newp))" using that nd sn by simp
        then show ?thesis using fromd oth [OF _ dn] lh_invD(6) [OF inv] 1 by blast
      next
        case 2
        then show ?thesis using that nd by simp
      next
        case 3
        then show ?thesis using oth lh_invD(6) [OF inv] that bk [of i] by simp
      qed
    qed
  qed
  show "represents h' m" if "represents h m"
    by (rule represents_move [OF bk _ that, of newp d]) (auto simp: nd sn)
qed

section \<open>The whole map\<close>

text \<open>A round of \<^verbatim>\<open>shrink_\<close> that does not publish a position past a failed union.\<close>

lemma shrink_iter_inv:
  assumes inv: "lh_inv hash_func h S" and lk: "shrink_stops limit x \<or> shrink_unlocked x h" and ns: "\<not> shrink_skips ok limit x h"
    and it: "shrink_iter ok limit x h = (x', h')"
  shows "lh_inv hash_func h' S \<and> (represents h m \<longrightarrow> represents h' m)"
proof (cases "shrink_stops limit x")
  case True
  then show ?thesis using it inv by (simp add: shrink_iter_def)
next
  case False
  obtain newL newp where p: "shrink_pos (L0_bkt_n h) (sh_L x) (sh_p x) = (newL, newp)" by fastforce
  have h': "h' = snd (shrink_round ok newL newp h)" using it False p by (simp add: shrink_iter_def Let_def)
  have un: "\<not> bkt_lock (lh_bkts h newp)" "\<not> bkt_lock (lh_bkts h (width h newL + newp))"
    using lk False p by (auto simp: shrink_unlocked_def)
  show ?thesis
  proof (cases "unite_nodes ok (bkt_nodes (lh_bkts h (width h newL + newp))) (bkt_nodes (lh_bkts h newp))")
    case None
    then show ?thesis using inv by (simp add: h' shrink_round_def Let_def)
  next
    case (Some ns)
    then have "fst (shrink_round ok newL newp h)" by (simp add: shrink_round_def Let_def)
    then have pos: "sh_L x = lh_L h" "sh_p x = lh_p h" using ns False p by (auto simp: shrink_skips_def)
    note sh = lh_invD(1) [OF inv, unfolded shape_ok_def]
    have nz: "\<not> (lh_L h = 0 \<and> lh_p h = 0)" using False pos by (auto simp: shrink_stops_def)
    note sp = shrink_pos_next [OF conjunct1 [OF sh] conjunct2 [OF sh] nz p [unfolded pos]]
    show ?thesis unfolding h' using unite_inv [OF inv sp(2,1) un Some] by blast
  qed
qed

lemma lh_step_effect:
  assumes inv: "lh_inv hash_func (lhs_map s) (lhs_splits s)" and m: "represents (lhs_map s) m" and st: "lh_step hash_func s s'"
    and sk: "\<not> lhs_skipped s'"
  shows "lh_inv hash_func (lhs_map s') (lhs_splits s') \<and> step_effect s s' m"
  using st
proof cases
  case (call t op' r op)
  then show ?thesis using inv m by (simp add: step_effect_def)
next
  case (act node_ok t)
  show ?thesis by (rule lh_act_step [OF inv m act])
next
  case (expand h)
  have "represents (expand_begin h) m" using m expand(2) by (simp add: represents_def expand_nodes)
  then show ?thesis using lh_expand_begin_inv [OF inv [folded expand(2)] expand(4,5)] expand(1) by (simp add: step_effect_def)
next
  case (split L p)
  then show ?thesis using expand_end_inv [OF inv split(2)] m by (simp add: step_effect_def)
next
  case (shrink_start target)
  then show ?thesis using inv m by (simp add: step_effect_def)
next
  case (shrink_round h x limit node_ok x' h')
  have "\<not> shrink_skips node_ok limit x h" using sk shrink_round(1) by simp
  from shrink_iter_inv [OF inv [folded shrink_round(2)] shrink_round(4) this shrink_round(5), of m]
  show ?thesis using m shrink_round(1,2) by (simp add: step_effect_def)
qed

lemma lhm_init_inv:
  assumes "0 < n"
  shows "lh_inv hash_func (lhm_init z n) {}" "represents (lhm_init z n) Map.empty"
proof -
  have c: "bkt_cnt (lhm_init z n) = n" by (simp add: bkt_cnt_def lhm_init_def wid_0)
  note c' = c [unfolded lhm_init_def]
  show "lh_inv hash_func (lhm_init z n) {}"
    by (rule lh_invI)
      (use assms in \<open>auto simp: c' shape_ok_def lhm_init_def wid_0 lev_def bkt_new_def split: if_splits\<close>)
  show "represents (lhm_init z n) Map.empty" by (simp add: represents_def lhm_init_def bkt_new_def)
qed

lemma lh_act_skipped: "lh_act hash_func ok t s = Some s' \<Longrightarrow> lhs_skipped s' = lhs_skipped s"
  by (cases "lhs_pcs s t") (auto simp: lh_act_def Let_def split: if_splits prod.splits)

lemma lh_step_skipped: "lh_step hash_func s s' \<Longrightarrow> lhs_skipped s \<Longrightarrow> lhs_skipped s'"
  by (cases rule: lh_step.cases) (auto dest: lh_act_skipped)

lemma lh_reach_inv:
  "lh_reach hash_func s \<Longrightarrow> \<not> lhs_skipped s \<Longrightarrow> lh_inv hash_func (lhs_map s) (lhs_splits s) \<and> (\<exists>m. represents (lhs_map s) m)"
proof (induction rule: lh_reach.induct)
  case (initial s)
  then obtain bkt_sz m_seg_sz s_seg_sz dir_sz where i: "0 < bkt_sz" "init_d_arr bkt_sz True m_seg_sz s_seg_sz dir_sz = Inr (lhs_map s)"
    and e: "lhs_splits s = {}" unfolding lh_initial_def by blast
  from init_d_arr_Inr [OF i] obtain z n where "0 < n" "lhs_map s = lhm_init z n" by blast
  then show ?case using lhm_init_inv [of n] e by (simp only:) blast
next
  case (step s s')
  have "\<not> lhs_skipped s" using lh_step_skipped [OF step.hyps(2)] step.prems by blast
  then obtain m where i: "lh_inv hash_func (lhs_map s) (lhs_splits s)" "represents (lhs_map s) m" using step.IH by blast
  show ?case using lh_step_effect [OF i step.hyps(2) step.prems] unfolding step_effect_def by blast
qed

lemma represents_unique: "represents h m \<Longrightarrow> represents h m' \<Longrightarrow> m = m'"
  by (rule ext) (metis (full_types) option.exhaust represents_def)

text \<open>With no split pending, an access whose level and position are current finds its bucket unlocked, active and at
  the expected level.\<close>

lemma access_current:
  assumes "lh_inv hash_func h {}" "access_bkt (L0_bkt_n h) (lh_L h) (lh_p h) hv = (lv, i)"
  shows "\<not> bkt_lock (lh_bkts h i)" "access_check (lv, i) h"
proof -
  note sh = lh_invD(1) [OF assms(1)]
  have i: "i = home h hv" by (simp add: home_def assms(2))
  have w: "0 < width h (lh_L h)" using sh by (auto simp: shape_ok_def)
  have "hv mod wid (L0_bkt_n h) (lh_L h + 1) = hv mod width h (lh_L h) \<or> hv mod wid (L0_bkt_n h) (lh_L h + 1) = hv mod width h (lh_L h) + width h (lh_L h)"
    unfolding wid_Suc by (rule mod_double [OF w])
  then have "lev h i = lv"
    using assms(2) mod_less_divisor [OF w, of hv] by (auto simp: access_bkt_def lev_def simp del: mod_less_divisor split: if_splits)
  then show "\<not> bkt_lock (lh_bkts h i)" "access_check (lv, i) h"
    using lh_invD(3) [OF assms(1), of i] home_less [OF sh, of hv] i by (auto simp: is_src_def is_dst_def access_check_def)
qed

lemma access_progress:
  assumes "lh_inv hash_func (lhs_map s) {}" "lhs_pcs s t = HLoaded op (lh_L (lhs_map s)) (lh_p (lhs_map s))"
  shows "\<exists>s' r. lh_act hash_func node_ok t s = Some s' \<and> lhs_pcs s' t = HDone op r"
proof -
  let ?h = "lhs_map s"
  obtain lv i where li: "access_bkt (L0_bkt_n ?h) (lh_L ?h) (lh_p ?h) (hash_func (op_key op)) = (lv, i)"
    by (cases "access_bkt (L0_bkt_n ?h) (lh_L ?h) (lh_p ?h) (hash_func (op_key op))")
  show ?thesis using access_current [OF assms(1) li] assms(2) li by (auto simp: lh_act_def Let_def split: prod.splits)
qed

text \<open>C5. The concurrent linear hash map implements a partial function, as long as no call of \<^verbatim>\<open>shrink_\<close> unites buckets after it
  has failed to unite a pair.  In every reachable state, with any number of threads inside operations, any number of splits under way and a
  \<^verbatim>\<open>shrink_\<close> between two rounds, the entries of all buckets together represent exactly
  one partial function.  Every step either keeps this function and completes no operation, as calls, retries, both
  halves of a split and rounds of \<^verbatim>\<open>shrink_\<close> do, failed ones included, or it completes one operation with the return code, value and effect that the
  operation has on the function.  When no split is pending, an access that has the current level and split position
  completes with its next step.\<close>

theorem linear_hash_map_linearizable:
  assumes "lh_reach hash_func s" and "\<not> lhs_skipped s"
  shows "(\<exists>!m. represents (lhs_map s) m)
    \<and> (represents (lhs_map s) m \<and> lh_step hash_func s s' \<and> \<not> lhs_skipped s' \<longrightarrow> step_effect s s' m)
    \<and> (lhs_splits s = {} \<and> lhs_pcs s t = HLoaded op (lh_L (lhs_map s)) (lh_p (lhs_map s)) \<longrightarrow>
       (\<exists>s' r. lh_act hash_func node_ok t s = Some s' \<and> lhs_pcs s' t = HDone op r))"
proof -
  note i = lh_reach_inv [OF assms]
  have "\<exists>!m. represents (lhs_map s) m" using i represents_unique by blast
  moreover have "step_effect s s' m" if "represents (lhs_map s) m" "lh_step hash_func s s'" "\<not> lhs_skipped s'"
    using lh_step_effect [OF conjunct1 [OF i] that] by blast
  moreover have "\<exists>s' r. lh_act hash_func node_ok t s = Some s' \<and> lhs_pcs s' t = HDone op r"
    if "lhs_splits s = {}" "lhs_pcs s t = HLoaded op (lh_L (lhs_map s)) (lh_p (lhs_map s))"
    using access_progress [OF _ that(2)] i that(1) by simp
  ultimately show ?thesis by blast
qed

text \<open>Micro-segments of 4096 bytes and buckets of 128 bytes.\<close>

definition small_map :: "('k, 'v) lhm" where
  "small_map = lhm_init \<lparr>m_seg_bkt_n = 32, m_seg_n_lmt = 16, s_seg_bkt_n = 512\<rparr> 32"

lemma small_map_init: "init_d_arr 128 True 4096 65536 4096 = Inr small_map"
  by (simp add: init_d_arr_def small_map_def)

definition insert_op :: "(nat, nat) lh_op" where
  "insert_op = OpInsert 33 7"

definition split_pending :: "(nat, nat) lh_pc \<Rightarrow> (nat, nat) lh_sys" where
  "split_pending pc = \<lparr>lhs_map = expand_begin (small_map), lhs_pcs = (\<lambda>_. HIdle)(0 := pc), lhs_splits = {(0, 0)}, lhs_shrink = None, lhs_skipped = False\<rparr>"

lemma split_pending_reach: "lh_reach id (split_pending (HLoaded insert_op 0 1))"
proof -
  define s0 :: "(nat, nat) lh_sys" where "s0 = \<lparr>lhs_map = small_map, lhs_pcs = \<lambda>_. HIdle, lhs_splits = {}, lhs_shrink = None, lhs_skipped = False\<rparr>"
  have "lh_initial s0" unfolding lh_initial_def s0_def by (intro conjI, rule exI [of _ 128], rule exI [of _ 4096], rule exI [of _ 65536], rule exI [of _ 4096]) (simp_all add: small_map_init)
  then have "lh_reach id s0" by (rule lh_reach.initial)
  moreover have "lh_step id s0 (s0\<lparr>lhs_pcs := (lhs_pcs s0)(0 := HStart insert_op)\<rparr>)"
    by (rule lh_step.call) (simp add: s0_def)
  ultimately have "lh_reach id (s0\<lparr>lhs_pcs := (lhs_pcs s0)(0 := HStart insert_op)\<rparr>)" by (rule lh_reach.step)
  moreover have "lh_step id (s0\<lparr>lhs_pcs := (lhs_pcs s0)(0 := HStart insert_op)\<rparr>) (split_pending (HStart insert_op))"
    using lh_step.expand [of "small_map" "s0\<lparr>lhs_pcs := (lhs_pcs s0)(0 := HStart insert_op)\<rparr>" id]
    by (simp add: s0_def split_pending_def small_map_def lhm_init_def wid_def bkt_new_def)
  ultimately have "lh_reach id (split_pending (HStart insert_op))" by (rule lh_reach.step)
  moreover have "lh_act id True 0 (split_pending (HStart insert_op)) = Some (split_pending (HLoaded insert_op 0 1))"
    by (simp add: lh_act_def split_pending_def expand_begin_def small_map_def lhm_init_def wid_def Let_def)
  then have "lh_step id (split_pending (HStart insert_op)) (split_pending (HLoaded insert_op 0 1))" by (rule lh_step.act)
  ultimately show ?thesis by (rule lh_reach.step)
qed

theorem linear_hash_map_linearizable_witness:
  "\<exists>s'. lh_step id (split_pending (HLoaded insert_op 0 1)) s' \<and> lhs_pcs s' 0 = HDone insert_op (OB_SUCCESS, None)
     \<and> (\<exists>m. represents (lhs_map s') m \<and> m 33 = Some 7)"
proof -
  let ?s = "split_pending (HLoaded insert_op 0 1)"
  obtain m where m: "represents (lhs_map ?s) m" using lh_reach_inv [OF split_pending_reach] by (auto simp: split_pending_def)
  obtain s' where a: "lh_act id True 0 ?s = Some s'" "lhs_pcs s' 0 = HDone insert_op (OB_SUCCESS, None)"
    by (simp add: lh_act_def split_pending_def expand_begin_def small_map_def lhm_init_def bkt_new_def wid_def Let_def access_bkt_def access_check_def
        insert_op_def bkt_insert_def)
  have st: "lh_step id ?s s'" by (rule lh_step.act [OF a(1)])
  have "\<not> lhs_skipped ?s" "\<not> lhs_skipped s'" using lh_act_skipped [OF a(1)] by (simp_all add: split_pending_def)
  then have "step_effect ?s s' m" using linear_hash_map_linearizable [OF split_pending_reach] m st by blast
  then obtain ok m' where "hm_apply ok insert_op m = ((OB_SUCCESS, None), m')" "represents (lhs_map s') m'"
    using a(2) unfolding step_effect_def by (auto simp: split_pending_def fun_eq_iff split: if_splits)
  then have "represents (lhs_map s') m' \<and> m' 33 = Some 7" by (auto simp: insert_op_def hm_insert_def split: if_splits)
  then show ?thesis using st a(2) by blast
qed

section \<open>A failed allocation while shrinking\<close>

text \<open>The loop of \<^verbatim>\<open>load_access_bkt_\<close> in a thread that is alone, and \<^verbatim>\<open>do_get_\<close>; \<open>fuel\<close> bounds the rounds, \<open>None\<close>
  means that they were not enough.\<close>

primrec load_access_bkt :: "nat \<Rightarrow> nat \<Rightarrow> ('k, 'v) lhm \<Rightarrow> nat option" where
  "load_access_bkt 0 hash_v h = None"
| "load_access_bkt (Suc fuel) hash_v h =
     (let li = access_bkt (L0_bkt_n h) (lh_L h) (lh_p h) hash_v; i = snd li
      in if \<not> bkt_lock (lh_bkts h i) \<and> access_check li h then Some i else load_access_bkt fuel hash_v h)"

definition do_get :: "nat \<Rightarrow> ('k \<Rightarrow> nat) \<Rightarrow> 'k \<Rightarrow> ('k, 'v) lhm \<Rightarrow> (ob_ret \<times> 'v option) option" where
  "do_get fuel hash_func key h =
     map_option (\<lambda>i. chain_get key (bkt_nodes (lh_bkts h i))) (load_access_bkt fuel (hash_func key) h)"

text \<open>32 buckets in a segment, and two or three of them split.  In the first map the entries are in bucket 1 and in
  bucket 33, which was split off it, in the second in buckets 2 and 34.\<close>

definition do_insert1 :: "nat \<Rightarrow> nat \<Rightarrow> (nat, nat) lhm \<Rightarrow> (nat, nat) lhm" where
  "do_insert1 k v h =
     (let i = home h k; b = lh_bkts h i in set_bkt i (b\<lparr>bkt_nodes := snd (bkt_insert True k v (bkt_nodes b))\<rparr>) h)"

definition expand1 :: "(nat, nat) lhm \<Rightarrow> (nat, nat) lhm" where
  "expand1 h = expand_end id (lh_L h) (lh_p h) (expand_begin h)"

definition two_splits :: "(nat, nat) lhm" where
  "two_splits = do_insert1 33 8 (do_insert1 1 7 (expand1 (expand1 small_map)))"

definition three_splits :: "(nat, nat) lhm" where
  "three_splits = do_insert1 34 8 (do_insert1 2 7 (expand1 (expand1 (expand1 small_map))))"

lemma two_splits_nodes: "bkt_nodes (lh_bkts two_splits i) = (if i = 1 then [(1, 7)] else if i = 33 then [(33, 8)] else [])"
  by (simp add: two_splits_def expand1_def do_insert1_def expand_end_def expand_begin_def home_def access_bkt_def small_map_def lhm_init_def
      bkt_new_def wid_def split_nodes_def bkt_insert_def Let_def)

text \<open>C14. An allocation that fails while the map shrinks makes entries unreachable or loses them.  \<^verbatim>\<open>shrink_\<close> goes on after a union
  that failed, and the next union that succeeds publishes a position in front of both.  The load factor is refreshed
  only now and then; here it is from the time when the map was empty, so that the target is one bucket.  In both maps lookups of
  both keys need one round before the call.  After \<^verbatim>\<open>shrink_\<close> with one failed allocation they repeat forever, since the bucket that every access
  with these hash values goes to is still at the level of the split.  In the first map the successful union empties the
  first bucket of the second segment, so that the segment is freed with the entry of bucket 33; in the second map
  both entries are still in their buckets.\<close>

theorem shrink_failure_hides_entries:
  "do_get 1 id 1 two_splits = Some (OB_SUCCESS, Some 7) \<and> do_get 1 id 33 two_splits = Some (OB_SUCCESS, Some 8)
   \<and> (\<exists>h. shrink [False, True] 0 1 two_splits = Some h
        \<and> (\<forall>fuel. do_get fuel id 1 h = None \<and> do_get fuel id 33 h = None)
        \<and> (\<forall>i. (33, 8) \<notin> set (bkt_nodes (lh_bkts h i))))
   \<and> do_get 1 id 2 three_splits = Some (OB_SUCCESS, Some 7) \<and> do_get 1 id 34 three_splits = Some (OB_SUCCESS, Some 8)
   \<and> (\<exists>h. shrink [False, True] 0 1 three_splits = Some h
        \<and> (\<forall>fuel. do_get fuel id 2 h = None \<and> do_get fuel id 34 h = None)
        \<and> (2, 7) \<in> set (bkt_nodes (lh_bkts h 2)) \<and> (34, 8) \<in> set (bkt_nodes (lh_bkts h 34)))"
proof -
  have a: "L0_bkt_n two_splits = 32" "lh_L two_splits = 0" "lh_p two_splits = 2"
    "lh_segs two_splits = \<lparr>m_seg_bkt_n = 32, m_seg_n_lmt = 16, s_seg_bkt_n = 512\<rparr>"
    "lh_bkts two_splits (Suc 0) = \<lparr>bkt_active = True, bkt_lock = False, bkt_L = 1, bkt_nodes = [(1, 7)]\<rparr>"
    "lh_bkts two_splits 33 = \<lparr>bkt_active = True, bkt_lock = False, bkt_L = 1, bkt_nodes = [(33, 8)]\<rparr>"
    by code_simp+
  have b: "L0_bkt_n three_splits = 32" "lh_L three_splits = 0" "lh_p three_splits = 3"
    "lh_segs three_splits = \<lparr>m_seg_bkt_n = 32, m_seg_n_lmt = 16, s_seg_bkt_n = 512\<rparr>"
    "lh_bkts three_splits 2 = \<lparr>bkt_active = True, bkt_lock = False, bkt_L = 1, bkt_nodes = [(2, 7)]\<rparr>"
    "lh_bkts three_splits 34 = \<lparr>bkt_active = True, bkt_lock = False, bkt_L = 1, bkt_nodes = [(34, 8)]\<rparr>"
    "bkt_nodes (lh_bkts three_splits (Suc 0)) = []" "bkt_nodes (lh_bkts three_splits 33) = []"
    by code_simp+
  note defs = shrink_def shrink_begin_def shrink_iter_def shrink_stops_def bkt_cnt_def wid_def shrink_pos_def shrink_round_def
    unite_nodes_def evict_seg_def seg_idx_def seg_bkt_idx_def m_seg_bkt_n_lmt_def Let_def
  obtain h where h: "shrink [False, True] 0 1 two_splits = Some h" "L0_bkt_n h = 32" "lh_L h = 0" "lh_p h = 0"
    "lh_bkts h (Suc 0) = lh_bkts two_splits (Suc 0)" "\<And>i. bkt_nodes (lh_bkts h i) = (if i = Suc 0 then [(1, 7)] else [])"
    by (simp add: defs a two_splits_nodes bkt_new_def)
  obtain g where g: "shrink [False, True] 0 1 three_splits = Some g" "L0_bkt_n g = 32" "lh_L g = 0" "lh_p g = 1"
    "lh_bkts g 2 = lh_bkts three_splits 2" "lh_bkts g 34 = lh_bkts three_splits 34"
    by (simp add: defs b)
  have "load_access_bkt fuel (Suc 0) h = None \<and> load_access_bkt fuel 33 h = None" for fuel
    by (induction fuel) (simp_all add: h(2-5) a access_bkt_def access_check_def wid_def Let_def)
  moreover have "load_access_bkt fuel 2 g = None \<and> load_access_bkt fuel 34 g = None" for fuel
    by (induction fuel) (simp_all add: g(2-5) b access_bkt_def access_check_def wid_def Let_def)
  moreover have "load_access_bkt (Suc 0) (Suc 0) two_splits = Some (Suc 0)" "load_access_bkt (Suc 0) 33 two_splits = Some 33"
    "load_access_bkt (Suc 0) 2 three_splits = Some 2" "load_access_bkt (Suc 0) 34 three_splits = Some 34"
    by (simp_all add: a b access_bkt_def access_check_def wid_def Let_def)
  ultimately show ?thesis using h(1,6) g(1,5,6) by (simp add: do_get_def a b del: load_access_bkt.simps)
qed

end
