(* ===== verification/Spec2Isabelle.thy ===== *)
theory Spec2Isabelle
  imports LsnAllocConc GroupEntry GroupBuffer SlidingWindowSafe ElectionSafe LeaseSeqLock CommitConc LinearHashConc
begin

text \<open>
  \<^bold>\<open>The replicated log of OceanBase (PALF).\<close>

  A tenant's log stream is a sequence of bytes addressed by log sequence numbers. A leader accepts log
  bodies from its clients, gives each a position (\<^verbatim>\<open>LSN\<close>), a log id and a timestamp (\<^verbatim>\<open>SCN\<close>), copies it
  behind a header into a ring buffer, groups neighbouring entries under a group header with checksums and
  writes the groups to disk and to its followers. Each group is a task in a sliding window; the leader
  commits a prefix of the log once a majority of the members has it on disk. The leader is elected by a
  protocol with leases. The files are under \<^verbatim>\<open>src/src/logservice/palf/\<close> unless
  a path is given.

  \<^bold>\<open>Theories.\<close>

  \<^item> \<open>PalfPrelude\<close>: return codes (\<open>ob_ret\<close>), machine words, the \<open>hash_env\<close> record of functions from
    outside the modelled files (CRC64, XXH64 and the data version of the cluster), list and word lemmas.
  \<^item> \<open>Serialization\<close> (\<^verbatim>\<open>src/deps/oblib/src/lib/utility/serialization.h\<close>): fixed-width integers, booleans,
    base-128 integers; the locale \<open>byte_codec\<close> is the contract of an encoder and its decoder, interpreted
    for every codec of the library. \<open>RecordCodec\<close> chains codecs into record serializers.
  \<^item> \<open>Scn\<close> (\<^verbatim>\<open>src/src/share/scn.h\<close>) and \<open>Lsn\<close> (\<^verbatim>\<open>lsn.h\<close>, \<^verbatim>\<open>log_define.h\<close>): timestamps and positions with
    their bit fields, wrapping arithmetic, comparison, atomic updates and serialization.
  \<^item> \<open>LsnAllocator\<close> (\<^verbatim>\<open>lsn_allocator.cpp\<close>): every operation on the 128-bit word of the allocator as a
    function. \<open>LsnAllocConc\<close>: the loads and compare-and-swaps of concurrent callers as a step relation.
  \<^item> \<open>Checksum\<close> (\<^verbatim>\<open>log_checksum.cpp\<close>, \<^verbatim>\<open>ob_parity_check.cpp\<close>): parity and accumulated checksums.
  \<^item> \<open>EntryHeader\<close> (\<^verbatim>\<open>log_entry_header.cpp\<close>, \<^verbatim>\<open>log_entry.cpp\<close>, \<^verbatim>\<open>ob_log_base_header.cpp\<close>) and \<open>GroupHeader\<close>,
    \<open>GroupEntry\<close> (\<^verbatim>\<open>log_group_entry_header.cpp\<close>, \<^verbatim>\<open>log_group_entry.cpp\<close>): headers in both versions,
    generation, integrity checks, truncation and serialization. The locale \<open>checked_header\<close> is the
    contract of a header that keeps its checksum in its flag word; both headers interpret it.
  \<^item> \<open>WriteBuf\<close> (\<^verbatim>\<open>log_writer_utils.cpp\<close>): a log as a sequence of memory pieces.
  \<^item> \<open>GroupBuffer\<close> (\<^verbatim>\<open>log_group_buffer.cpp\<close>): the ring buffer; it refines the locale \<open>byte_window\<close>, a window
    of the log in which every position holds one byte.

  \<^item> \<open>SlidingWindow\<close> (\<^verbatim>\<open>fixed_sliding_window.h\<close>): the window of log tasks and the operations that run alone;
    \<open>SlidingWindowConc\<close> has \<^verbatim>\<open>get\<close>, \<^verbatim>\<open>revert\<close>, \<^verbatim>\<open>slide\<close> and \<^verbatim>\<open>truncate\<close> as atomic actions of interleaved threads,
    \<open>SlidingWindowInv\<close> and \<open>SlidingWindowSafe\<close> the invariant and its consequences.
  \<^item> \<open>NetAddr\<close> (\<^verbatim>\<open>ob_addr.h\<close>), \<open>ConfigVersion\<close> (\<^verbatim>\<open>LogConfigVersion\<close> in \<^verbatim>\<open>log_meta_info.cpp\<close>) and \<open>MemberLists\<close>
    (\<^verbatim>\<open>ob_member_list.ipp\<close>, \<^verbatim>\<open>log_simple_member_list.cpp\<close>): addresses, versions and lists of members. The locale
    \<open>server_list\<close> is what users of either list class rely on; both classes interpret it.
  \<^item> \<open>LinearHashMap\<close> and \<open>LinearHashConc\<close> (\<^verbatim>\<open>src/deps/oblib/src/lib/hash/ob_linear_hash_map.h\<close>): buckets, segments, splitting
    and shrinking as functions, and threads that operate, expand and shrink at the same time as a step relation.
  \<^item> \<open>CommitPoint\<close> and \<open>CommitConc\<close> (\<^verbatim>\<open>log_sliding_window.cpp\<close>): acknowledged positions, the majority and the commit
    point as functions, and the interleaved handlers of a leader as a step relation.
  \<^item> The leader election (\<^verbatim>\<open>election/\<close>): \<open>ElectionMsg\<close> (messages and lease), \<open>ElectionMembers\<close> (votes and promises per
    member), \<open>ElectionState\<close>, \<open>ElectionAcceptor\<close>, \<open>ElectionProposer\<close> and \<open>ElectionImpl\<close> (the object and every
    handler, timer task and interface call), \<open>ElectionNet\<close> (a cluster over a network), \<open>ElectionInv\<close> (its invariant),
    \<open>ElectionOps\<close>, \<open>ElectionOps2\<close>, \<open>ElectionOps3\<close> (every operation keeps it), \<open>ElectionRun\<close> (executed runs) and
    \<open>ElectionSafe\<close> (the properties). \<open>LeaseSeqLock\<close> is the sequence lock around the leader's lease.

  \<^bold>\<open>What the lemmas show.\<close>

  \<^item> Election: at most one replica holds the leader's lease at a time, an epoch identifies its leader, no assertion
    fails, and every reachable state is well-formed; the majority promise is the latest one; readers of
    the sequence lock see lease and epoch that were set together.
  \<^item> Commit point: interleaved acknowledgements, flushes and reconfigurations move it only to what a majority has
    reported, with the exception of an advance to the reconfiguration barrier when members are missing in the map; an
    acknowledgement that completes a majority advances it. Moves by other components are named by what they hand in.
  \<^item> Linear hash map: it implements a partial function under concurrent operations, splits and shrinking, as long as no
    \<^verbatim>\<open>shrink_\<close> goes on to a successful union after a failed one; two executions show what happens otherwise.
  \<^item> Sliding window: the array agrees with an unbounded map from ids to contents on the window and on every referenced
    slot, in all interleavings in which no \<^verbatim>\<open>revert_\<close> is overtaken by a whole window; truncation resets exactly the ids behind the given one.
  \<^item> Position allocation: concurrent allocations get disjoint, contiguous ranges with increasing ids and timestamps.
  \<^item> Formats: what is serialized is read back, checksums are generated and checked consistently, single-bit errors in
    headers are found, and the ring buffer keeps exactly the bytes of its window.
  \<^item> Values: comparison operators are orders, lists refine sets, arithmetic stays in range or is reported.

  \<^bold>\<open>Conventions.\<close> A C++ function that returns a code and writes output arguments becomes a function to a
  pair or a sum (\<open>Inl\<close> the code); a class becomes a record, passed and returned. \<^verbatim>\<open>uint64_t\<close> is \<open>64 word\<close>;
  a signed field that is stored or summed bitwise is a word read with \<open>sint\<close>, a counter that is only
  compared is an \<open>int\<close>. A buffer is \<open>bytes option\<close>, \<open>None\<close> the null pointer. An access outside an object
  or a failed assertion makes the result \<open>None\<close>, so a theorem that the result is \<open>Some\<close> includes that the
  code stays inside its memory. Loops are recursive functions with a termination proof; where another
  thread can make a loop repeat, the number of repetitions is an argument and the theorem says how many
  are enough (two for the allocation loop without interference).

  \<^bold>\<open>Assumptions of the models.\<close> In the election the membership is fixed, replicas do not restart, local clocks run
  at the same rate with arbitrary offsets, and messages leave when an activation ends; the two lock sections of
  \<^verbatim>\<open>stop\<close> are one activation. Atomic words behave sequentially consistently. Log
  ids and reference counts of the sliding window, level and split position of the hash map, times and ballots are
  unbounded numbers: none of them comes near the end of its type. A check that reads a body is modelled on the bytes
  that are there; its theorems assume a buffer of the length that is passed.

  \<^bold>\<open>Fuel.\<close> \<open>load_access_bkt\<close> has the number of rounds as an argument: one round is enough whenever the access succeeds in a
  state without pending splits, and the theorem about endless lookups quantifies over all numbers. \<open>shrink_loop\<close> consumes the
  outcomes of its allocations; \<open>shrink_returns\<close> says that a sixteenth of the buckets, at least one, is enough.

  \<^bold>\<open>Not modelled.\<close> The storage engine, IO tasks, RPC and timers, which are effects of the operating system; submitting,
  receiving, fetching and sliding logs in \<^verbatim>\<open>log_sliding_window.cpp\<close>, which call them; reconfirmation and the role,
  mode and configuration managers, of which only the configuration view and the commit points that they hand in appear
  as inputs; iterators, cache and throttling; and everything outside the replicated log.
\<close>

end
